(* ===== verification/Avery_Prelude.thy ===== *)
theory Avery_Prelude
  imports Main "HOL-Library.Word"
begin

text \<open>
  Shared vocabulary of the development: the integer types of \<^verbatim>\<open>include/types.h\<close> as
  words of their C++ width, the fault values that stand for a failed \<^verbatim>\<open>ASSERT\<close> (the kernel
  panics and halts) and for a loop that never ends, the two alignment templates of
  \<^verbatim>\<open>include/types.h\<close>, \<^verbatim>\<open>memory::set\<close> and \<^verbatim>\<open>memory::copy\<close> over
  byte-addressed memory, and the word and list lemmas that every component uses.
\<close>

unbundle bit_operations_syntax

named_theorems unat_arith_simps \<open>unsigned readings of word operations that do not wrap\<close>

section \<open>Types and faults\<close>

type_synonym u8 = "8 word"
type_synonym u16 = "16 word"
type_synonym u32 = "32 word"
type_synonym u64 = "64 word"
type_synonym physAddr = u64
type_synonym virtAddr = u64

datatype fault =
    AssertFailed \<comment> \<open>\<^verbatim>\<open>ASSERT\<close> / \<^verbatim>\<open>VERIFY\<close>: \<^verbatim>\<open>debug::kernelPanic\<close>, which halts\<close>
  | BadPointer   \<comment> \<open>an access through a pointer that designates no object of the model\<close>
  | Diverges     \<comment> \<open>a loop that has not ended within the fuel of the model\<close>

type_synonym 'a result = "fault + 'a"

section \<open>Words read as natural numbers\<close>

lemma unat_inc [unat_arith_simps]: "i < n \<Longrightarrow> unat (i + 1) = Suc (unat i)"
  for i n :: "'a::len word"
proof -
  assume "i < n"
  then have "i \<noteq> - 1"
    by (metis word_order.extremum_strict)
  then have "1 + i \<noteq> 0"
    by (metis add.commute add_eq_0_iff)
  then show ?thesis
    by (simp add: unatSuc add.commute)
qed

lemma unat_dec [unat_arith_simps]: "0 < unat n \<Longrightarrow> unat (n - 1) = unat n - 1"
  for n :: "'a::len word"
  by (rule unat_minus_one) auto

lemma unat_add_fits [unat_arith_simps]:
  "unat a + unat b < 2 ^ LENGTH('a) \<Longrightarrow> unat (a + b) = unat a + unat b"
  for a b :: "'a::len word"
  using unat_add_lem [of a b] by simp

lemma unat_mult_fits [unat_arith_simps]:
  "unat a * unat b < 2 ^ LENGTH('a) \<Longrightarrow> unat (a * b) = unat a * unat b"
  for a b :: "'a::len word"
  using unat_mult_lem [of a b] by simp

lemma unat_sub_fits [unat_arith_simps]:
  "unat b \<le> unat a \<Longrightarrow> unat (a - b) = unat a - unat b"
  for a b :: "'a::len word"
  by (simp add: unat_sub word_le_nat_alt)

lemma unat_of_nat_fits [unat_arith_simps]:
  "n < 2 ^ LENGTH('a) \<Longrightarrow> unat (of_nat n :: 'a::len word) = n"
  by (simp add: unat_of_nat take_bit_nat_eq_self_iff)

lemma unat_pow2 [unat_arith_simps]: "k < LENGTH('a) \<Longrightarrow> unat (2 ^ k :: 'a::len word) = 2 ^ k"
  using unat_of_nat_fits [of "2 ^ k", where 'a = 'a] by simp

lemma word_less_unat: "a < b \<longleftrightarrow> unat a < unat b" for a b :: "'a::len word"
  by (rule word_less_nat_alt)

lemma word_le_unat: "a \<le> b \<longleftrightarrow> unat a \<le> unat b" for a b :: "'a::len word"
  by (rule word_le_nat_alt)

lemma unat_eqI: "unat a = unat b \<Longrightarrow> a = b" for a b :: "'a::len word"
  by (rule word_unat_eq_iff [THEN iffD2])

lemma word_add_of_nat_Suc: "i + of_nat (Suc k) = (i + 1) + of_nat k" for i :: "'a::len word"
  by simp

lemma add_of_nat_diff: "i \<le> j \<Longrightarrow> i + of_nat (unat j - unat i) = j" for i j :: "'a::len word"
  by (simp add: of_nat_diff word_le_unat)

lemma card_lessThan_word: "card {..<n} = unat n" for n :: "'a::len word"
proof -
  have "x \<in> unat ` {..<n}" if "x < unat n" for x
  proof -
    have "unat (of_nat x :: 'a word) = x"
      by (rule unat_of_nat_fits) (rule less_trans [OF that unsigned_less])
    with that show ?thesis
      by (metis image_eqI lessThan_iff word_less_unat)
  qed
  then have "unat ` {..<n} = {..<unat n}"
    by (auto simp: word_less_unat)
  then show ?thesis
    by (metis card_image card_lessThan inj_on_def unat_eqI)
qed

lemma card_word_interval:
  assumes "T \<le> 2 ^ LENGTH('a)"
  shows "card {p :: 'a::len word. S \<le> unat p \<and> unat p < T} = T - S"
proof -
  have "x \<in> unat ` {p :: 'a word. S \<le> unat p \<and> unat p < T}" if "S \<le> x" "x < T" for x
  proof -
    have "unat (of_nat x :: 'a word) = x"
      by (rule unat_of_nat_fits) (use that assms in linarith)
    with that show ?thesis by (metis (mono_tags, lifting) image_eqI mem_Collect_eq)
  qed
  then have "unat ` {p :: 'a word. S \<le> unat p \<and> unat p < T} = {S..<T}"
    by auto
  then show ?thesis
    by (metis (no_types, lifting) card_image card_atLeastLessThan inj_on_def unat_eqI)
qed

section \<open>Alignment\<close>

definition alignUp :: "'a::len word \<Rightarrow> 'a word \<Rightarrow> 'a word" where
  "alignUp x a = (x + a - 1) AND NOT (a - 1)"

definition alignDown :: "'a::len word \<Rightarrow> 'a word \<Rightarrow> 'a word" where
  "alignDown x a = x AND NOT (a - 1)"

lemma alignUp_alignDown: "alignUp x a = alignDown (x + a - 1) a"
  by (simp add: alignUp_def alignDown_def)

lemma and_not_mask_push_drop:
  "x AND NOT (mask k) = push_bit k (drop_bit k x)" for x :: "'a::len word"
  by (rule bit_eqI) (auto simp: bit_simps dest: bit_imp_le_length)

lemma unat_alignDown_pow2:
  fixes x :: "'a::len word"
  assumes "k < LENGTH('a)"
  shows "unat (alignDown x (2 ^ k)) = unat x div 2 ^ k * 2 ^ k"
proof -
  have "alignDown x (2 ^ k) = push_bit k (drop_bit k x)"
    by (simp add: alignDown_def and_not_mask_push_drop flip: mask_eq_exp_minus_1)
  moreover have "unat x div 2 ^ k * 2 ^ k < 2 ^ LENGTH('a)"
    by (rule le_less_trans [OF div_times_less_eq_dividend unsigned_less])
  ultimately show ?thesis
    by (simp only: unsigned_push_bit_eq unsigned_drop_bit_eq)
       (simp add: push_bit_eq_mult drop_bit_eq_div take_bit_nat_eq_self)
qed

lemma unat_alignUp_pow2:
  fixes x :: "'a::len word"
  assumes k: "k < LENGTH('a)" and fits: "unat x + (2 ^ k - 1) < 2 ^ LENGTH('a)"
  shows "unat (alignUp x (2 ^ k)) = (unat x + (2 ^ k - 1)) div 2 ^ k * 2 ^ k"
proof -
  have m: "unat (2 ^ k - 1 :: 'a word) = 2 ^ k - 1"
    using k by (simp add: unat_sub_fits unat_pow2)
  have "unat (x + (2 ^ k - 1)) = unat x + (2 ^ k - 1)"
    using fits m by (simp add: unat_add_fits)
  then show ?thesis
    by (simp add: alignUp_alignDown add_diff_eq unat_alignDown_pow2 [OF k])
qed

lemma bit_0xFF: "bit (0xFF :: u8) n \<longleftrightarrow> n < 8"
proof -
  have "(0xFF :: u8) = - 1" by simp
  then show ?thesis by (simp only: bit_minus_1_iff possible_bit_word) simp
qed

section \<open>Byte memory\<close>

text \<open>
  A C++ buffer is a function from offsets to elements. \<^verbatim>\<open>memory::set\<close> and
  \<^verbatim>\<open>memory::copy\<close> take an \<^verbatim>\<open>int\<close> count and loop
  \<^verbatim>\<open>for (int i = 0; i < count; i++)\<close>: a negative count does nothing.
\<close>

fun mem_set_loop :: "nat \<Rightarrow> ('a::len word \<Rightarrow> 'b) \<Rightarrow> 'a word \<Rightarrow> 'b \<Rightarrow> ('a word \<Rightarrow> 'b)" where
  "mem_set_loop 0 dest i v = dest"
| "mem_set_loop (Suc n) dest i v = mem_set_loop n (dest(i := v)) (i + 1) v"

definition memory_set :: "('a::len word \<Rightarrow> 'b) \<Rightarrow> 'b \<Rightarrow> 32 word \<Rightarrow> ('a word \<Rightarrow> 'b)" where
  "memory_set dest v count = mem_set_loop (nat (sint count)) dest 0 v"

lemma mem_set_loop_apply:
  "n \<le> 2 ^ LENGTH('a) \<Longrightarrow>
   mem_set_loop n dest i v k = (if unat (k - i) < n then v else dest k)"
  for i k :: "'a::len word"
proof (induction n dest i v rule: mem_set_loop.induct)
  case (1 dest i v)
  then show ?case by simp
next
  case (2 n dest i v)
  have step: "unat (k - (i + 1)) < n \<or> k = i \<longleftrightarrow> unat (k - i) < Suc n"
  proof (cases "k = i")
    case True
    then show ?thesis by simp
  next
    case False
    then have "unat (k - i) = Suc (unat (k - i - 1))"
      by (metis Suc_pred' right_minus_eq unat_minus_one unat_gt_0)
    with False show ?thesis by (simp add: diff_diff_eq)
  qed
  have IH: "mem_set_loop n (dest(i := v)) (i + 1) v k =
      (if unat (k - (i + 1)) < n then v else (dest(i := v)) k)"
    by (rule "2.IH") (use "2.prems" in simp)
  from step show ?case
    unfolding mem_set_loop.simps IH by (auto simp: fun_upd_def)
qed

lemma memory_set_apply:
  fixes dest :: "'a::len word \<Rightarrow> 'b"
  assumes "sint count \<le> 2 ^ LENGTH('a)"
  shows "memory_set dest v count k = (if int (unat k) < sint count then v else dest k)"
proof -
  have "nat (sint count) \<le> 2 ^ LENGTH('a)"
    using assms by (simp add: nat_le_iff)
  then show ?thesis
    by (simp add: memory_set_def mem_set_loop_apply zless_nat_eq_int_zless)
qed

text \<open>\<^verbatim>\<open>memory::copy\<close> on the bytes of the address space, lowest byte first.\<close>

fun mem_copy_loop :: "nat \<Rightarrow> u64 \<Rightarrow> virtAddr \<Rightarrow> virtAddr \<Rightarrow> (virtAddr \<Rightarrow> u8) \<Rightarrow> (virtAddr \<Rightarrow> u8)" where
  "mem_copy_loop 0 i dest src m = m"
| "mem_copy_loop (Suc n) i dest src m =
     mem_copy_loop n (i + 1) dest src (m(dest + i := m (src + i)))"

definition memory_copy :: "virtAddr \<Rightarrow> virtAddr \<Rightarrow> 32 word \<Rightarrow> (virtAddr \<Rightarrow> u8) \<Rightarrow> (virtAddr \<Rightarrow> u8)" where
  "memory_copy dest src count m = mem_copy_loop (nat (sint count)) 0 dest src m"

lemma mem_copy_loop_outside:
  "(\<And>j. j < n \<Longrightarrow> k \<noteq> dest + i + of_nat j) \<Longrightarrow> mem_copy_loop n i dest src m k = m k"
proof (induction n arbitrary: i m)
  case (Suc n)
  have "k \<noteq> dest + (i + 1) + of_nat j" if "j < n" for j
    using Suc.prems [of "Suc j"] that by (simp add: algebra_simps)
  moreover have "k \<noteq> dest + i"
    using Suc.prems [of 0] by simp
  ultimately show ?case
    using Suc.IH [of "i + 1"] by simp
qed simp

lemma mem_copy_loop_inside:
  assumes "\<And>a b. a < n \<Longrightarrow> b < n \<Longrightarrow> src + i + of_nat a \<noteq> dest + i + of_nat b" "n \<le> 2 ^ 64" "j < n"
  shows "mem_copy_loop n i dest src m (dest + i + of_nat j) = m (src + i + of_nat j)"
  using assms
proof (induction n arbitrary: i j m)
  case (Suc n)
  have tl: "src + (i + 1) + of_nat a \<noteq> dest + (i + 1) + of_nat b" if "a < n" "b < n" for a b
    using Suc.prems(1) [of "Suc a" "Suc b"] that by (simp add: algebra_simps)
  show ?case
  proof (cases j)
    case 0
    have "dest + i \<noteq> dest + (i + 1) + of_nat b" if "b < n" for b
    proof
      assume "dest + i = dest + (i + 1) + of_nat b"
      then have "(of_nat (Suc b) :: u64) = 0" by (simp add: algebra_simps)
      moreover have "unat (of_nat (Suc b) :: u64) = Suc b"
        by (rule unat_of_nat_fits) (use that Suc.prems(2) in simp)
      ultimately show False by simp
    qed
    then show ?thesis
      using mem_copy_loop_outside [of n "dest + i" dest "i + 1"] 0 by simp
  next
    case (Suc j')
    have "src + i + of_nat j \<noteq> dest + i"
      using Suc.prems(1) [of j 0] Suc.prems(3) by simp
    then show ?thesis
      using Suc.IH [of "i + 1" j', OF tl] Suc.prems(2,3) Suc
      by (simp add: algebra_simps)
  qed
qed simp

text \<open>Between disjoint regions it moves the content and touches nothing else.\<close>

lemma memory_copy_disjoint:
  assumes "n = nat (sint count)"
    and "\<And>a b. a < n \<Longrightarrow> b < n \<Longrightarrow> src + of_nat a \<noteq> dest + of_nat b"
  shows "j < n \<Longrightarrow> memory_copy dest src count m (dest + of_nat j) = m (src + of_nat j)"
    and "(\<And>j. j < n \<Longrightarrow> k \<noteq> dest + of_nat j) \<Longrightarrow> memory_copy dest src count m k = m k"
proof -
  have "sint count < 2 ^ 31"
    using sint_lt [of count] by simp
  then have "n \<le> 2 ^ 64"
    using assms(1) by simp
  then show "j < n \<Longrightarrow> memory_copy dest src count m (dest + of_nat j) = m (src + of_nat j)"
    using mem_copy_loop_inside [of n src 0 dest j m] assms by (simp add: memory_copy_def)
  show "(\<And>j. j < n \<Longrightarrow> k \<noteq> dest + of_nat j) \<Longrightarrow> memory_copy dest src count m k = m k"
    using mem_copy_loop_outside [of n k dest 0] assms(1) by (simp add: memory_copy_def)
qed

end
