(* ===== verification/Pmm.thy ===== *)
theory Pmm
  imports Avery_Prelude
begin

text \<open>
  The physical memory manager, \<^verbatim>\<open>kernel/core/memory/pmm.cpp\<close> and
  \<^verbatim>\<open>include/kernel/memory/physicalMemory.h\<close>: the page bitmap, the counters, the
  initialisation from the boot loader's memory map, the allocation and release of single pages and
  of runs. The bitmap pointer is modelled by the bytes that follow it (\<open>u64 \<Rightarrow> u8\<close>), so an index
  past the bitmap reads and writes whatever memory lies there, as the code does.
\<close>

section \<open>State and bitmap access\<close>

record phys_mem =
  bitmap :: "u64 \<Rightarrow> u8"
  bitmapPhysicalAddress :: physAddr
  bitmapSize :: u64
  totalPages :: u64
  usedPages :: u64
  freePages :: u64
  highestAddress :: physAddr
  lastAllocIndex :: u64

definition PAGE_SIZE :: u64 where
  "PAGE_SIZE = 4096"

definition pageToPhysical :: "u64 \<Rightarrow> physAddr" where
  "pageToPhysical page = page * PAGE_SIZE"

definition physicalToPage :: "physAddr \<Rightarrow> u64" where
  "physicalToPage addr = addr div PAGE_SIZE"

definition bit_of :: "u64 \<Rightarrow> u8" where
  "bit_of b = push_bit (unat (b mod 8)) 1"

definition bitmapSet :: "u64 \<Rightarrow> phys_mem \<Rightarrow> phys_mem" where
  "bitmapSet b pm =
     pm\<lparr>bitmap := (bitmap pm)(b div 8 := bitmap pm (b div 8) OR bit_of b)\<rparr>"

definition bitmapClear :: "u64 \<Rightarrow> phys_mem \<Rightarrow> phys_mem" where
  "bitmapClear b pm =
     pm\<lparr>bitmap := (bitmap pm)(b div 8 := bitmap pm (b div 8) AND NOT (bit_of b))\<rparr>"

definition bitmapTest :: "phys_mem \<Rightarrow> u64 \<Rightarrow> bool" where
  "bitmapTest pm b \<longleftrightarrow> bitmap pm (b div 8) AND bit_of b \<noteq> 0"

text \<open>The counter updates that accompany every bit that is set or cleared.\<close>

definition take_page :: "u64 \<Rightarrow> phys_mem \<Rightarrow> phys_mem" where
  "take_page p pm = (let pm = bitmapSet p pm in
     pm\<lparr>usedPages := usedPages pm + 1, freePages := freePages pm - 1\<rparr>)"

definition give_page :: "u64 \<Rightarrow> phys_mem \<Rightarrow> phys_mem" where
  "give_page p pm = (let pm = bitmapClear p pm in
     pm\<lparr>freePages := freePages pm + 1, usedPages := usedPages pm - 1\<rparr>)"

section \<open>Operations\<close>

fun markUsed_loop :: "nat \<Rightarrow> u64 \<Rightarrow> phys_mem \<Rightarrow> phys_mem" where
  "markUsed_loop 0 page pm = pm"
| "markUsed_loop (Suc n) page pm =
     (if totalPages pm \<le> page then pm
      else markUsed_loop n (page + 1) (if bitmapTest pm page then pm else take_page page pm))"

definition pmm_markUsed :: "physAddr \<Rightarrow> u64 \<Rightarrow> phys_mem \<Rightarrow> phys_mem" where
  "pmm_markUsed addr pageCount pm = markUsed_loop (unat pageCount) (physicalToPage addr) pm"

fun markFree_loop :: "nat \<Rightarrow> u64 \<Rightarrow> phys_mem \<Rightarrow> phys_mem" where
  "markFree_loop 0 page pm = pm"
| "markFree_loop (Suc n) page pm =
     (if totalPages pm \<le> page then pm
      else markFree_loop n (page + 1) (if bitmapTest pm page then give_page page pm else pm))"

definition pmm_markFree :: "physAddr \<Rightarrow> u64 \<Rightarrow> phys_mem \<Rightarrow> phys_mem" where
  "pmm_markFree addr pageCount pm = markFree_loop (unat pageCount) (physicalToPage addr) pm"

text \<open>
  \<^verbatim>\<open>allocPage\<close>: one scan from \<open>lastAllocIndex\<close> to the end, a second from 0 to
  \<open>lastAllocIndex\<close>; \<^verbatim>\<open>OUT_OF_MEMORY\<close> is 0.
\<close>

fun find_clear :: "phys_mem \<Rightarrow> nat \<Rightarrow> u64 \<Rightarrow> u64 option" where
  "find_clear pm 0 i = None"
| "find_clear pm (Suc n) i =
     (if \<not> bitmapTest pm i then Some i else find_clear pm n (i + 1))"

definition take_and_note :: "u64 \<Rightarrow> phys_mem \<Rightarrow> physAddr \<times> phys_mem" where
  "take_and_note i pm =
     (let pm = take_page i pm in (pageToPhysical i, pm\<lparr>lastAllocIndex := i + 1\<rparr>))"

definition pmm_allocPage :: "phys_mem \<Rightarrow> physAddr \<times> phys_mem" where
  "pmm_allocPage pm =
     (case find_clear pm (unat (totalPages pm) - unat (lastAllocIndex pm)) (lastAllocIndex pm) of
        Some i \<Rightarrow> take_and_note i pm
      | None \<Rightarrow>
          (case find_clear pm (unat (lastAllocIndex pm)) 0 of
             Some i \<Rightarrow> take_and_note i pm
           | None \<Rightarrow> (0, pm)))"

definition pmm_freePage :: "physAddr \<Rightarrow> phys_mem \<Rightarrow> phys_mem result" where
  "pmm_freePage addr pm =
     (if addr mod PAGE_SIZE \<noteq> 0 then Inl AssertFailed
      else let page = physicalToPage addr in
        if \<not> page \<le> totalPages pm then Inl AssertFailed
        else if \<not> bitmapTest pm page then Inl AssertFailed
        else let pm = give_page page pm in
          Inr (if page < lastAllocIndex pm then pm\<lparr>lastAllocIndex := page\<rparr> else pm))"

text \<open>\<^verbatim>\<open>allocPages\<close>: the first run of \<open>count\<close> clear bits.\<close>

fun find_run :: "phys_mem \<Rightarrow> u64 \<Rightarrow> nat \<Rightarrow> u64 \<Rightarrow> u64 \<Rightarrow> u64 \<Rightarrow> u64 option" where
  "find_run pm count 0 i runStart runLength = None"
| "find_run pm count (Suc n) i runStart runLength =
     (if \<not> bitmapTest pm i then
        (let runStart' = (if runLength = 0 then i else runStart);
             runLength' = runLength + 1
         in if runLength' = count then Some runStart'
            else find_run pm count n (i + 1) runStart' runLength')
      else find_run pm count n (i + 1) runStart 0)"

fun set_bits :: "nat \<Rightarrow> u64 \<Rightarrow> phys_mem \<Rightarrow> phys_mem" where
  "set_bits 0 j pm = pm"
| "set_bits (Suc n) j pm = set_bits n (j + 1) (bitmapSet j pm)"

definition pmm_allocPages :: "u64 \<Rightarrow> phys_mem \<Rightarrow> physAddr \<times> phys_mem" where
  "pmm_allocPages count pm =
     (if count = 0 then (0, pm)
      else case find_run pm count (unat (totalPages pm)) 0 0 0 of
        Some runStart \<Rightarrow>
          (let pm = set_bits (unat count) runStart pm in
             (pageToPhysical runStart,
              pm\<lparr>freePages := freePages pm - count, usedPages := usedPages pm + count,
                 lastAllocIndex := runStart + count\<rparr>))
      | None \<Rightarrow> (0, pm))"

fun freePages_loop :: "nat \<Rightarrow> physAddr \<Rightarrow> phys_mem \<Rightarrow> phys_mem result" where
  "freePages_loop 0 addr pm = Inr pm"
| "freePages_loop (Suc n) addr pm =
     (case pmm_freePage addr pm of
        Inl e \<Rightarrow> Inl e
      | Inr pm' \<Rightarrow> freePages_loop n (addr + PAGE_SIZE) pm')"

definition pmm_freePages :: "physAddr \<Rightarrow> u64 \<Rightarrow> phys_mem \<Rightarrow> phys_mem result" where
  "pmm_freePages addr count pm =
     (if addr mod PAGE_SIZE \<noteq> 0 then Inl AssertFailed
      else freePages_loop (unat count) addr pm)"

definition pmm_isFree :: "physAddr \<Rightarrow> phys_mem \<Rightarrow> bool result" where
  "pmm_isFree addr pm =
     (if addr mod PAGE_SIZE \<noteq> 0 then Inl AssertFailed
      else let page = physicalToPage addr in
        if totalPages pm \<le> page then Inr False else Inr (\<not> bitmapTest pm page))"

definition pmm_getFreePages :: "phys_mem \<Rightarrow> u64" where
  "pmm_getFreePages pm = freePages pm"

definition pmm_getTotalPages :: "phys_mem \<Rightarrow> u64" where
  "pmm_getTotalPages pm = totalPages pm"

definition pmm_getFreeMemory :: "phys_mem \<Rightarrow> u64" where
  "pmm_getFreeMemory pm = freePages pm * PAGE_SIZE"

definition pmm_getUsedPages :: "phys_mem \<Rightarrow> u64" where
  "pmm_getUsedPages pm = usedPages pm"

section \<open>Initialisation from the memory map\<close>

text \<open>
  The boot loader's structures come from \<^verbatim>\<open>limine.h\<close>, which is not part of the
  repository: an entry is its base, its length and whether its type is
  \<^verbatim>\<open>LIMINE_MEMMAP_USABLE\<close>. \<open>None\<close> stands for a null pointer.
\<close>

record memmap_entry =
  mm_base :: u64
  mm_length :: u64
  mm_usable :: bool

type_synonym memmap_request = "memmap_entry list option option"

fun highest_end :: "memmap_entry list \<Rightarrow> u64 \<Rightarrow> u64" where
  "highest_end [] hi = hi"
| "highest_end (e # es) hi =
     highest_end es (if hi < mm_base e + mm_length e then mm_base e + mm_length e else hi)"

definition entry_start :: "memmap_entry \<Rightarrow> u64" where
  "entry_start e = alignUp (mm_base e) PAGE_SIZE"

definition entry_end :: "memmap_entry \<Rightarrow> u64" where
  "entry_end e = alignDown (mm_base e + mm_length e) PAGE_SIZE"

fun bitmap_home :: "memmap_entry list \<Rightarrow> u64 \<Rightarrow> physAddr" where
  "bitmap_home [] sz = 0"
| "bitmap_home (e # es) sz =
     (if \<not> mm_usable e then bitmap_home es sz
      else if entry_end e \<le> entry_start e then bitmap_home es sz
      else if sz \<le> entry_end e - entry_start e then entry_start e
      else bitmap_home es sz)"

fun free_usable :: "memmap_entry list \<Rightarrow> phys_mem \<Rightarrow> phys_mem" where
  "free_usable [] pm = pm"
| "free_usable (e # es) pm =
     (if \<not> mm_usable e then free_usable es pm
      else if entry_end e \<le> entry_start e then free_usable es pm
      else free_usable es
             (pmm_markFree (entry_start e) ((entry_end e - entry_start e) div PAGE_SIZE) pm))"

definition pages_of_highest :: "u64 \<Rightarrow> u64" where
  "pages_of_highest hi = alignUp hi PAGE_SIZE div PAGE_SIZE"

definition bitmap_bytes :: "u64 \<Rightarrow> u64" where
  "bitmap_bytes npages = alignUp (alignUp npages 8 div 8) PAGE_SIZE"

text \<open>
  \<open>ram p\<close> is the byte memory found behind physical address \<open>p\<close> through the higher-half mapping
  before the bitmap is written there.
\<close>

definition pmm_init :: "(physAddr \<Rightarrow> u64 \<Rightarrow> u8) \<Rightarrow> memmap_request \<Rightarrow> phys_mem result" where
  "pmm_init ram request =
     (case request of
        None \<Rightarrow> Inl AssertFailed
      | Some None \<Rightarrow> Inl AssertFailed
      | Some (Some es) \<Rightarrow>
          let hi = highest_end es 0;
              npages = pages_of_highest hi;
              sz = bitmap_bytes npages;
              home = bitmap_home es sz
          in if home = 0 then Inl AssertFailed
             else
               let pm = \<lparr>bitmap = memory_set (ram home) 0xFF (ucast sz),
                         bitmapPhysicalAddress = home, bitmapSize = sz,
                         totalPages = npages, usedPages = npages, freePages = 0,
                         highestAddress = hi, lastAllocIndex = 0\<rparr>;
                   pm = free_usable es pm;
                   pm = pmm_markUsed home (sz div PAGE_SIZE) pm;
                   pm = pmm_markUsed 0 1 pm
               in Inr (pm\<lparr>lastAllocIndex := 0\<rparr>))"

section \<open>The bitmap as a set of pages\<close>

named_theorems pmm_simps \<open>bitmap reads after writes and frames of the state updates\<close>

lemma bitmapTest_bit: "bitmapTest pm b \<longleftrightarrow> bit (bitmap pm (b div 8)) (unat (b mod 8))"
  by (simp add: bitmapTest_def bit_of_def bit_iff_and_push_bit_not_eq_0)

lemma same_bit: "q div 8 = p div 8 \<Longrightarrow> unat (q mod 8) = unat (p mod 8) \<longleftrightarrow> q = p" for p q :: u64
  by (metis word_mod_div_equality word_unat_eq_iff)

lemma bit_index: "unat (b mod 8 :: u64) < 8"
  by (simp add: unat_mod)

lemma bit_bit_of: "n < 8 \<Longrightarrow> bit (bit_of b) n \<longleftrightarrow> n = unat (b mod 8)"
  by (auto simp: bit_of_def bit_simps)

lemma bitmapTest_bitmapSet [pmm_simps]:
  "bitmapTest (bitmapSet p pm) q \<longleftrightarrow> q = p \<or> bitmapTest pm q"
  using bit_index [of q] same_bit [of q p]
  by (auto simp: bitmapTest_bit bitmapSet_def bit_simps bit_bit_of)

lemma bitmapTest_bitmapClear [pmm_simps]:
  "bitmapTest (bitmapClear p pm) q \<longleftrightarrow> q \<noteq> p \<and> bitmapTest pm q"
  using bit_index [of q] same_bit [of q p]
  by (auto simp: bitmapTest_bit bitmapClear_def bit_simps bit_bit_of)

lemma bitmapTest_upd [pmm_simps]:
  "bitmapTest (pm\<lparr>usedPages := x\<rparr>) q = bitmapTest pm q"
  "bitmapTest (pm\<lparr>freePages := x\<rparr>) q = bitmapTest pm q"
  "bitmapTest (pm\<lparr>lastAllocIndex := x\<rparr>) q = bitmapTest pm q"
  by (simp_all add: bitmapTest_def)

lemma bitmap_frame [pmm_simps]:
  "totalPages (bitmapSet p pm) = totalPages pm" "totalPages (bitmapClear p pm) = totalPages pm"
  "freePages (bitmapSet p pm) = freePages pm" "freePages (bitmapClear p pm) = freePages pm"
  "usedPages (bitmapSet p pm) = usedPages pm" "usedPages (bitmapClear p pm) = usedPages pm"
  "lastAllocIndex (bitmapSet p pm) = lastAllocIndex pm"
  "lastAllocIndex (bitmapClear p pm) = lastAllocIndex pm"
  by (simp_all add: bitmapSet_def bitmapClear_def)

lemma take_page_fields [pmm_simps]:
  "bitmapTest (take_page p pm) q \<longleftrightarrow> q = p \<or> bitmapTest pm q"
  "totalPages (take_page p pm) = totalPages pm"
  "freePages (take_page p pm) = freePages pm - 1"
  "usedPages (take_page p pm) = usedPages pm + 1"
  "lastAllocIndex (take_page p pm) = lastAllocIndex pm"
  by (simp_all add: take_page_def Let_def pmm_simps)

lemma give_page_fields [pmm_simps]:
  "bitmapTest (give_page p pm) q \<longleftrightarrow> q \<noteq> p \<and> bitmapTest pm q"
  "totalPages (give_page p pm) = totalPages pm"
  "freePages (give_page p pm) = freePages pm + 1"
  "usedPages (give_page p pm) = usedPages pm - 1"
  "lastAllocIndex (give_page p pm) = lastAllocIndex pm"
  by (simp_all add: give_page_def Let_def pmm_simps)

text \<open>The abstraction: the set of pages the manager may hand out.\<close>

definition free_pages :: "phys_mem \<Rightarrow> u64 set" where
  "free_pages pm = {p. p < totalPages pm \<and> \<not> bitmapTest pm p}"

text \<open>Counters agree with the bitmap, and pages have addresses below \<open>2\<^sup>6\<^sup>4\<close>.\<close>

definition counters_ok :: "phys_mem \<Rightarrow> bool" where
  "counters_ok pm \<longleftrightarrow>
     unat (freePages pm) = card (free_pages pm) \<and>
     unat (freePages pm) + unat (usedPages pm) = unat (totalPages pm) \<and>
     lastAllocIndex pm \<le> totalPages pm \<and> unat (totalPages pm) \<le> 2 ^ 52"

definition pmm_inv :: "phys_mem \<Rightarrow> bool" where
  "pmm_inv pm \<longleftrightarrow> counters_ok pm \<and> 0 \<notin> free_pages pm"

lemma finite_free_pages [simp]: "finite (free_pages pm)"
  by (rule finite)

lemma free_pages_upd [pmm_simps]:
  "free_pages (pm\<lparr>lastAllocIndex := x\<rparr>) = free_pages pm"
  "free_pages (pm\<lparr>freePages := x\<rparr>) = free_pages pm"
  "free_pages (pm\<lparr>usedPages := x\<rparr>) = free_pages pm"
  "free_pages (bitmapSet p pm) = free_pages pm - {p}"
  "free_pages (take_page p pm) = free_pages pm - {p}"
  by (auto simp: free_pages_def pmm_simps)

lemma free_pages_give [pmm_simps]:
  "p < totalPages pm \<Longrightarrow> free_pages (give_page p pm) = insert p (free_pages pm)"
  by (auto simp: free_pages_def pmm_simps)

lemma take_page_counters:
  assumes "counters_ok pm" "p \<in> free_pages pm"
  shows "counters_ok (take_page p pm)"
proof -
  have "0 < card (free_pages pm)"
    using assms(2) by (auto simp: card_gt_0_iff)
  then have "0 < unat (freePages pm)"
    using assms(1) by (simp add: counters_ok_def)
  moreover from this have "usedPages pm < totalPages pm"
    using assms(1) by (simp add: counters_ok_def word_less_unat)
  ultimately show ?thesis
    using assms by (simp add: counters_ok_def pmm_simps unat_dec unat_inc card_Diff_singleton)
qed

lemma give_page_counters:
  assumes "counters_ok pm" "p < totalPages pm" "bitmapTest pm p"
  shows "counters_ok (give_page p pm)"
proof -
  have new: "p \<notin> free_pages pm"
    using assms(3) by (simp add: free_pages_def)
  have "insert p (free_pages pm) \<subseteq> {..<totalPages pm}"
    using assms(2) by (auto simp: free_pages_def)
  then have "card (insert p (free_pages pm)) \<le> card {..<totalPages pm}"
    by (rule card_mono [rotated]) simp
  also have "card {..<totalPages pm} = unat (totalPages pm)"
    by (rule card_lessThan_word)
  finally have "unat (freePages pm) < unat (totalPages pm)"
    using assms(1) new by (simp add: counters_ok_def)
  moreover from this have "0 < unat (usedPages pm)"
    using assms(1) by (simp add: counters_ok_def)
  ultimately show ?thesis
    using assms new
    by (simp add: counters_ok_def pmm_simps unat_dec unat_inc [where n = "totalPages pm"] word_less_unat)
qed

section \<open>Single pages\<close>

lemma find_clear_Some:
  "find_clear pm n i = Some j \<Longrightarrow> \<not> bitmapTest pm j \<and> (\<exists>k<n. j = i + of_nat k)"
proof (induction pm n i rule: find_clear.induct)
  case (1 pm i)
  then show ?case by simp
next
  case (2 pm n i)
  show ?case
  proof (cases "bitmapTest pm i")
    case False
    then show ?thesis using "2.prems" by auto
  next
    case True
    with 2 obtain k where "\<not> bitmapTest pm j" "k < n" "j = i + 1 + of_nat k"
      by auto
    then show ?thesis
      by (intro conjI exI [of _ "Suc k"]) (simp_all add: add.assoc)
  qed
qed

lemma find_clear_None:
  "find_clear pm n i = None \<Longrightarrow> k < n \<Longrightarrow> bitmapTest pm (i + of_nat k)"
proof (induction pm n i arbitrary: k rule: find_clear.induct)
  case (1 pm i)
  then show ?case by simp
next
  case (2 pm n i)
  then show ?case
    by (cases k) (auto simp: add.assoc split: if_splits)
qed

lemma find_clear_range:
  assumes "find_clear pm n i = Some j" "unat i + n \<le> unat m"
  shows "j < m \<and> \<not> bitmapTest pm j"
proof -
  obtain k where k: "k < n" "j = i + of_nat k" "\<not> bitmapTest pm j"
    using find_clear_Some [OF assms(1)] by auto
  have "unat i + k < 2 ^ 64"
    using k(1) assms(2) unsigned_less [of m, where 'a = nat] by simp
  then have "unat j = unat i + k"
    using k(2) by (simp add: unat_add_fits unat_of_nat_fits)
  then show ?thesis
    using k assms(2) by (simp add: word_less_unat)
qed

lemma find_clear_none_range:
  assumes "find_clear pm n i = None" "i \<le> j" "unat j < unat i + n"
  shows "bitmapTest pm j"
proof -
  have "i + of_nat (unat j - unat i) = j"
    using assms(2) by (rule add_of_nat_diff)
  moreover have "unat j - unat i < n"
    using assms(2,3) by (simp add: word_le_unat)
  ultimately show ?thesis
    using find_clear_None [OF assms(1)] by metis
qed

lemma take_and_note_spec:
  assumes "counters_ok pm" "i \<in> free_pages pm"
  shows "fst (take_and_note i pm) = pageToPhysical i"
    and "free_pages (snd (take_and_note i pm)) = free_pages pm - {i}"
    and "counters_ok (snd (take_and_note i pm))"
    and "totalPages (snd (take_and_note i pm)) = totalPages pm"
proof -
  have i: "i < totalPages pm"
    using assms(2) by (simp add: free_pages_def)
  show "fst (take_and_note i pm) = pageToPhysical i"
    "free_pages (snd (take_and_note i pm)) = free_pages pm - {i}"
    "totalPages (snd (take_and_note i pm)) = totalPages pm"
    by (simp_all add: take_and_note_def Let_def pmm_simps)
  have "i + 1 \<le> totalPages pm"
    using i by (simp add: word_le_unat word_less_unat unat_inc [OF i])
  then show "counters_ok (snd (take_and_note i pm))"
    using take_page_counters [OF assms]
    by (simp add: take_and_note_def Let_def counters_ok_def pmm_simps)
qed

text \<open>The scan of \<^verbatim>\<open>allocPage\<close>: some free page when there is one, nothing otherwise.\<close>

lemma pmm_allocPage_cases:
  assumes "counters_ok pm"
  shows "pmm_allocPage pm = (0, pm) \<and> free_pages pm = {} \<or>
         (\<exists>i. i \<in> free_pages pm \<and> pmm_allocPage pm = take_and_note i pm)"
proof -
  let ?l = "lastAllocIndex pm" and ?t = "totalPages pm"
  have le: "unat ?l \<le> unat ?t"
    using assms by (simp add: counters_ok_def word_le_unat)
  show ?thesis
  proof (cases "find_clear pm (unat ?t - unat ?l) ?l")
    case (Some i)
    from find_clear_range [OF this, of ?t] le have "i \<in> free_pages pm"
      by (simp add: free_pages_def)
    then show ?thesis using Some by (auto simp: pmm_allocPage_def)
  next
    case none1: None
    show ?thesis
    proof (cases "find_clear pm (unat ?l) 0")
      case (Some i)
      from find_clear_range [OF this, of ?t] le have "i \<in> free_pages pm"
        by (simp add: free_pages_def)
      then show ?thesis using Some none1 by (auto simp: pmm_allocPage_def)
    next
      case none2: None
      have "bitmapTest pm j" if "j < ?t" for j
      proof (cases "j < ?l")
        case True
        then show ?thesis
          using find_clear_none_range [OF none2] by (simp add: word_less_unat)
      next
        case False
        then show ?thesis
          using find_clear_none_range [OF none1] that le by (simp add: word_less_unat word_le_unat)
      qed
      then show ?thesis
        using none1 none2 by (auto simp: pmm_allocPage_def free_pages_def)
    qed
  qed
qed

lemma unat_PAGE_SIZE [simp]: "unat PAGE_SIZE = 4096"
  by (simp add: PAGE_SIZE_def)

lemma unat_pageToPhysical:
  "unat p < 2 ^ 52 \<Longrightarrow> unat (pageToPhysical p) = unat p * 4096"
  by (simp add: pageToPhysical_def unat_mult_fits)

lemma physicalToPage_pageToPhysical [pmm_simps]:
  "unat p < 2 ^ 52 \<Longrightarrow> physicalToPage (pageToPhysical p) = p"
  by (rule unat_eqI) (simp add: physicalToPage_def unat_div unat_pageToPhysical)

lemma pageToPhysical_aligned [pmm_simps]:
  "unat p < 2 ^ 52 \<Longrightarrow> pageToPhysical p mod PAGE_SIZE = 0"
  by (rule unat_eqI) (simp add: unat_mod unat_pageToPhysical)

lemma page_small: "counters_ok pm \<Longrightarrow> p < totalPages pm \<Longrightarrow> unat p < 2 ^ 52"
  by (simp add: counters_ok_def word_less_unat)

lemma pageToPhysical_eq_0: "unat p < 2 ^ 52 \<Longrightarrow> pageToPhysical p = 0 \<longleftrightarrow> p = 0"
  using unat_pageToPhysical [of p] by (auto simp: pageToPhysical_def unat_eq_0 dest: arg_cong [of _ _ unat])

text \<open>
  C7. \<^verbatim>\<open>pmm::allocPage\<close> on a consistent manager: with no free page left it answers
  \<^verbatim>\<open>OUT_OF_MEMORY\<close> and changes nothing; otherwise it returns the non-zero, page-aligned
  address of a page that was free, exactly that page leaves the free set, and the counters still
  agree with the bitmap.
\<close>

theorem pmm_allocPage_correct:
  assumes "pmm_inv pm" "pmm_allocPage pm = (a, pm')"
  shows "if free_pages pm = {} then a = 0 \<and> pm' = pm
         else \<exists>p. p \<in> free_pages pm \<and> a = pageToPhysical p \<and> a \<noteq> 0 \<and> a mod PAGE_SIZE = 0 \<and>
                  free_pages pm' = free_pages pm - {p} \<and> pmm_inv pm'"
proof -
  have c: "counters_ok pm" and z: "0 \<notin> free_pages pm"
    using assms(1) by (simp_all add: pmm_inv_def)
  consider (none) "pmm_allocPage pm = (0, pm)" "free_pages pm = {}"
    | (some) p where "p \<in> free_pages pm" "pmm_allocPage pm = take_and_note p pm"
    using pmm_allocPage_cases [OF c] by blast
  then show ?thesis
  proof cases
    case none
    then show ?thesis using assms(2) by simp
  next
    case some
    have "p \<noteq> 0" "unat p < 2 ^ 52"
      using some(1) z page_small [OF c] by (auto simp: free_pages_def)
    moreover have "a = fst (take_and_note p pm)" "pm' = snd (take_and_note p pm)"
      using some(2) assms(2) by (metis fst_conv, metis snd_conv)
    ultimately show ?thesis
      using some(1) take_and_note_spec [OF c some(1)] z
      by (auto simp: pmm_inv_def pageToPhysical_eq_0 pmm_simps intro!: exI [of _ p])
  qed
qed

text \<open>Releasing a page that is in use returns it to the free set.\<close>

lemma pmm_freePage_used:
  assumes "pmm_inv pm" "p < totalPages pm" "p \<notin> free_pages pm" "p \<noteq> 0"
  shows "\<exists>pm'. pmm_freePage (pageToPhysical p) pm = Inr pm' \<and> pmm_inv pm' \<and>
           free_pages pm' = insert p (free_pages pm) \<and> totalPages pm' = totalPages pm"
proof -
  have c: "counters_ok pm" and used: "bitmapTest pm p"
    using assms by (auto simp: pmm_inv_def free_pages_def)
  have p: "unat p < 2 ^ 52"
    by (rule page_small [OF c assms(2)])
  have "counters_ok (give_page p pm)"
    by (rule give_page_counters [OF c assms(2) used])
  then have "counters_ok (give_page p pm) \<and> counters_ok ((give_page p pm)\<lparr>lastAllocIndex := p\<rparr>)"
    using assms(2) by (simp add: counters_ok_def pmm_simps)
  then show ?thesis
    using assms used p
    by (simp add: pmm_freePage_def Let_def pmm_simps pmm_inv_def)
qed

text \<open>
  Double frees are caught: \<^verbatim>\<open>pmm::freePage\<close> on a page that is already free, or
  on an address that is not page aligned, panics.
\<close>

theorem pmm_freePage_double_free:
  assumes "pmm_inv pm" "p \<in> free_pages pm \<and> a = pageToPhysical p \<or> a mod PAGE_SIZE \<noteq> 0"
  shows "pmm_freePage a pm = Inl AssertFailed"
proof (cases "a mod PAGE_SIZE = 0")
  case False
  then show ?thesis by (simp add: pmm_freePage_def)
next
  case True
  then have p: "p \<in> free_pages pm" "a = pageToPhysical p"
    using assms(2) by auto
  then have "unat p < 2 ^ 52"
    using assms(1) page_small by (auto simp: pmm_inv_def free_pages_def)
  then show ?thesis
    using p by (auto simp: pmm_freePage_def Let_def pmm_simps free_pages_def)
qed

section \<open>The allocator interface\<close>

text \<open>
  What the page tables, the heap and the memory-mapped devices rely on. \<open>avail\<close> is the set of
  addresses the allocator may still return, \<open>owned\<close> the addresses that may be given back.
\<close>

locale page_allocator =
  fixes alloc :: "'s \<Rightarrow> physAddr \<times> 's"
    and avail :: "'s \<Rightarrow> physAddr set"
    and ok :: "'s \<Rightarrow> bool"
  assumes alloc_none: "ok s \<Longrightarrow> avail s = {} \<Longrightarrow> alloc s = (0, s)"
    and alloc_some: "ok s \<Longrightarrow> avail s \<noteq> {} \<Longrightarrow> alloc s = (a, s') \<Longrightarrow>
           a \<in> avail s \<and> avail s' = avail s - {a} \<and> ok s'"
    and avail_page: "ok s \<Longrightarrow> a \<in> avail s \<Longrightarrow> a \<noteq> 0 \<and> a mod 4096 = 0"
begin

lemma alloc_zero_iff:
  assumes "ok s" "alloc s = (a, s')"
  shows "a = 0 \<longleftrightarrow> avail s = {}"
  using assms alloc_none alloc_some avail_page by (metis fst_conv)

lemma alloc_fresh:
  assumes "ok s" "alloc s = (a, s')" "a \<noteq> 0"
  shows "a \<in> avail s" "a mod 4096 = 0" "a \<notin> avail s'" "avail s' \<subseteq> avail s" "ok s'"
proof -
  have "avail s \<noteq> {}" using alloc_zero_iff [OF assms(1,2)] assms(3) by simp
  then have "a \<in> avail s \<and> avail s' = avail s - {a} \<and> ok s'"
    by (rule alloc_some [OF assms(1) _ assms(2)])
  then show "a \<in> avail s" "a mod 4096 = 0" "a \<notin> avail s'" "avail s' \<subseteq> avail s" "ok s'"
    using avail_page [OF assms(1)] by auto
qed

lemma alloc_keeps_ok:
  assumes "ok s" "alloc s = (a, s')"
  shows "ok s' \<and> avail s' \<subseteq> avail s \<and> avail s' = avail s - {a}"
proof (cases "avail s = {}")
  case True
  then show ?thesis using assms alloc_none [OF assms(1) True] by simp
next
  case False
  then show ?thesis using alloc_some [OF assms(1) False assms(2)] by auto
qed

lemma two_allocations_differ:
  assumes "ok s" "alloc s = (a, s1)" "a \<noteq> 0" "alloc s1 = (b, s2)" "b \<noteq> 0"
  shows "a \<noteq> b"
  using alloc_fresh [OF assms(1-3)] alloc_fresh(1) [OF _ assms(4,5)] by blast

end

locale page_allocator_release = page_allocator +
  fixes release :: "physAddr \<Rightarrow> 's \<Rightarrow> 's result"
    and managed :: "'s \<Rightarrow> physAddr set"
  assumes avail_managed: "ok s \<Longrightarrow> avail s \<subseteq> managed s"
    and alloc_managed: "ok s \<Longrightarrow> alloc s = (a, s') \<Longrightarrow> managed s' = managed s"
    and release_ok: "ok s \<Longrightarrow> a \<in> managed s \<Longrightarrow> a \<notin> avail s \<Longrightarrow>
           \<exists>s'. release a s = Inr s' \<and> ok s' \<and> avail s' = insert a (avail s) \<and> managed s' = managed s"
begin

lemma alloc_release_restores:
  assumes "ok s" "alloc s = (a, s1)" "a \<noteq> 0"
  shows "\<exists>s2. release a s1 = Inr s2 \<and> ok s2 \<and> avail s2 = avail s"
proof -
  have f: "a \<in> avail s" "a \<notin> avail s1" "ok s1" "avail s1 = avail s - {a}"
    using alloc_fresh [OF assms] alloc_keeps_ok [OF assms(1,2)] by auto
  have "a \<in> managed s1"
    using f(1) avail_managed [OF assms(1)] alloc_managed [OF assms(1,2)] by blast
  then show ?thesis
    using release_ok [OF f(3) _ f(2)] f by (metis insert_Diff)
qed

end

definition avail_addrs :: "phys_mem \<Rightarrow> physAddr set" where
  "avail_addrs pm = pageToPhysical ` free_pages pm"

definition managed_addrs :: "phys_mem \<Rightarrow> physAddr set" where
  "managed_addrs pm = pageToPhysical ` {p. p < totalPages pm \<and> p \<noteq> 0}"

lemma inj_pageToPhysical: "counters_ok pm \<Longrightarrow> inj_on pageToPhysical {p. p < totalPages pm}"
  by (rule inj_on_inverseI [where g = physicalToPage])
     (use page_small in \<open>auto intro!: physicalToPage_pageToPhysical\<close>)

lemma allocPage_totalPages:
  "counters_ok pm \<Longrightarrow> pmm_allocPage pm = (a, pm') \<Longrightarrow> totalPages pm' = totalPages pm"
  using pmm_allocPage_cases [of pm] take_and_note_spec(4) [of pm] by (metis snd_conv)

lemma allocPage_some:
  assumes "pmm_inv pm" "avail_addrs pm \<noteq> {}" "pmm_allocPage pm = (a, pm')"
  shows "a \<in> avail_addrs pm \<and> avail_addrs pm' = avail_addrs pm - {a} \<and> pmm_inv pm'"
proof -
  have c: "counters_ok pm" and z: "0 \<notin> free_pages pm" and ne: "free_pages pm \<noteq> {}"
    using assms by (auto simp: pmm_inv_def avail_addrs_def)
  then obtain p where p: "p \<in> free_pages pm" "pmm_allocPage pm = take_and_note p pm"
    using pmm_allocPage_cases [OF c] by auto
  note t = take_and_note_spec [OF c p(1)]
  have "pageToPhysical ` (free_pages pm - {p}) = pageToPhysical ` free_pages pm - {pageToPhysical p}"
    using inj_pageToPhysical [OF c] p(1)
    by (subst inj_on_image_set_diff [of _ "{p. p < totalPages pm}"]) (auto simp: free_pages_def)
  then show ?thesis
    using assms(3) p t z by (auto simp: avail_addrs_def pmm_inv_def)
qed

interpretation pmm_alloc: page_allocator_release
  pmm_allocPage avail_addrs pmm_inv pmm_freePage managed_addrs
proof unfold_locales
  fix pm a pm'
  assume inv: "pmm_inv pm"
  have c: "counters_ok pm" and z: "0 \<notin> free_pages pm"
    using inv by (auto simp: pmm_inv_def)
  have small: "unat p < 2 ^ 52" if "p < totalPages pm" for p
    by (rule page_small [OF c that])
  show "avail_addrs pm = {} \<Longrightarrow> pmm_allocPage pm = (0, pm)"
    using pmm_allocPage_cases [OF c] by (auto simp: avail_addrs_def)
  show "avail_addrs pm \<noteq> {} \<Longrightarrow> pmm_allocPage pm = (a, pm') \<Longrightarrow>
      a \<in> avail_addrs pm \<and> avail_addrs pm' = avail_addrs pm - {a} \<and> pmm_inv pm'"
    by (rule allocPage_some [OF inv])
  show "a \<in> avail_addrs pm \<Longrightarrow> a \<noteq> 0 \<and> a mod 4096 = 0"
    using small z pageToPhysical_aligned
    by (auto simp: avail_addrs_def free_pages_def pageToPhysical_eq_0 PAGE_SIZE_def)
  show "avail_addrs pm \<subseteq> managed_addrs pm"
    using z by (auto simp: avail_addrs_def managed_addrs_def free_pages_def)
  show "pmm_allocPage pm = (a, pm') \<Longrightarrow> managed_addrs pm' = managed_addrs pm"
    using allocPage_totalPages [OF c] by (simp add: managed_addrs_def)
  show "\<exists>pm'. pmm_freePage a pm = Inr pm' \<and> pmm_inv pm' \<and>
      avail_addrs pm' = insert a (avail_addrs pm) \<and> managed_addrs pm' = managed_addrs pm"
    if m: "a \<in> managed_addrs pm" and na: "a \<notin> avail_addrs pm"
  proof -
    obtain p where p: "a = pageToPhysical p" "p < totalPages pm" "p \<noteq> 0" "p \<notin> free_pages pm"
      using m na by (auto simp: managed_addrs_def avail_addrs_def)
    show ?thesis
      using pmm_freePage_used [OF inv p(2,4,3)] p(1)
      by (auto simp: avail_addrs_def managed_addrs_def)
  qed
qed

section \<open>Runs of pages\<close>

text \<open>Page indices as natural numbers: \<open>clear_run pm S C\<close> says pages \<open>S, \<dots>, S + C - 1\<close> are free.\<close>

definition clear_at :: "phys_mem \<Rightarrow> nat \<Rightarrow> bool" where
  "clear_at pm k \<longleftrightarrow> k < unat (totalPages pm) \<and> \<not> bitmapTest pm (of_nat k)"

definition clear_run :: "phys_mem \<Rightarrow> nat \<Rightarrow> nat \<Rightarrow> bool" where
  "clear_run pm S C \<longleftrightarrow> (\<forall>k. S \<le> k \<longrightarrow> k < S + C \<longrightarrow> clear_at pm k)"

lemma clear_at_free: "clear_at pm (unat p) \<longleftrightarrow> p \<in> free_pages pm"
  by (simp add: clear_at_def free_pages_def word_less_unat)

lemma clear_run_bound: "clear_run pm S C \<Longrightarrow> 0 < C \<Longrightarrow> S + C \<le> unat (totalPages pm)"
  by (metis Suc_leI Suc_pred' add_Suc_right clear_at_def clear_run_def le_add1 lessI)

lemma unat_less_2p: "unat (w :: u64) < 2 ^ 64"
  using unsigned_less [of w, where 'a = nat] by simp

text \<open>
  The loop invariant of \<^verbatim>\<open>allocPages\<close>: the last \<open>R\<close> pages before \<open>I\<close> are free, fewer than
  asked for, and no run of the wanted length starts before them.
\<close>

lemma find_run_correct:
  assumes "unat (totalPages pm) = n + I" "R \<le> I" "R < unat count"
    and "clear_run pm (I - R) R" "0 < R \<Longrightarrow> rs = of_nat (I - R)"
    and "\<And>S. S < I - R \<Longrightarrow> \<not> clear_run pm S (unat count)"
    and "r = find_run pm count n (of_nat I) rs (of_nat R)"
  shows "case r of
           Some s \<Rightarrow> clear_run pm (unat s) (unat count) \<and>
                     (\<forall>S < unat s. \<not> clear_run pm S (unat count))
         | None \<Rightarrow> (\<forall>S. \<not> clear_run pm S (unat count))"
  using assms
proof (induction n arbitrary: I R rs)
  case 0
  have "\<not> clear_run pm S (unat count)" for S
  proof (cases "S < I - R")
    case True
    then show ?thesis using 0 by blast
  next
    case False
    then have "\<not> S + unat count \<le> unat (totalPages pm)"
      using 0 by linarith
    then show ?thesis
      using clear_run_bound [of pm S "unat count"] 0 by force
  qed
  then show ?case using 0 by simp
next
  case (Suc n)
  have I: "I < unat (totalPages pm)"
    using Suc.prems(1) by simp
  have oI: "unat (of_nat I :: u64) = I" "unat (of_nat R :: u64) = R"
    using I Suc.prems(2) unat_less_2p [of "totalPages pm"] by (simp_all add: unat_of_nat_fits)
  have sum: "unat (totalPages pm) = n + Suc I"
    using Suc.prems(1) by simp
  show ?case
  proof (cases "bitmapTest pm (of_nat I)")
    case True
    have "\<not> clear_run pm S (unat count)" if "S < Suc I" for S
    proof (cases "S < I - R")
      case True
      then show ?thesis using Suc.prems(6) by blast
    next
      case False
      then have "S \<le> I" "I < S + unat count"
        using that Suc.prems(3) by linarith+
      moreover have "\<not> clear_at pm I"
        using True by (simp add: clear_at_def)
      ultimately show ?thesis by (auto simp: clear_run_def)
    qed
    then show ?thesis
      using Suc.IH [where I = "Suc I" and R = 0 and rs = rs] sum Suc.prems(3,7) True
      by (simp add: clear_run_def add.commute)
  next
    case False
    have clr: "clear_run pm (I - R) (Suc R)"
      using Suc.prems(2,4) False I
      by (auto simp: clear_run_def clear_at_def less_Suc_eq)
    have rl: "of_nat R + 1 = (of_nat (Suc R) :: u64)"
      by simp
    have rs: "(if of_nat R = (0::u64) then of_nat I else rs) = of_nat (I - R)"
      using Suc.prems(5) oI by (cases "R = 0") (auto dest: arg_cong [of _ _ unat])
    have fits: "unat (of_nat (Suc R) :: u64) = Suc R"
      using Suc.prems(2) I unat_less_2p [of "totalPages pm"] by (intro unat_of_nat_fits) simp
    show ?thesis
    proof (cases "Suc R = unat count")
      case True
      then have "of_nat (Suc R) = count"
        by simp
      moreover have "unat (of_nat (I - R) :: u64) = I - R"
        using I unat_less_2p [of "totalPages pm"] by (intro unat_of_nat_fits) simp
      ultimately show ?thesis
        using Suc.prems(6,7) False clr True rs rl
        by (simp add: Let_def add.commute)
    next
      case neq: False
      then have "of_nat (Suc R) \<noteq> count"
        using fits by metis
      moreover have "Suc R < unat count"
        using Suc.prems(3) neq by simp
      ultimately show ?thesis
        using Suc.IH [where I = "Suc I" and R = "Suc R" and rs = "of_nat (I - R)"]
          sum Suc.prems(2,6,7) False clr rs rl
        by (simp add: Let_def add.commute)
    qed
  qed
qed

lemma set_bits_fields [pmm_simps]:
  "totalPages (set_bits n j pm) = totalPages pm" "freePages (set_bits n j pm) = freePages pm"
  "usedPages (set_bits n j pm) = usedPages pm"
  "lastAllocIndex (set_bits n j pm) = lastAllocIndex pm"
  by (induction n j pm rule: set_bits.induct) (simp_all add: pmm_simps)

lemma set_bits_test:
  "unat j + n < 2 ^ 64 \<Longrightarrow>
   bitmapTest (set_bits n j pm) q \<longleftrightarrow> bitmapTest pm q \<or> unat j \<le> unat q \<and> unat q < unat j + n"
proof (induction n j pm rule: set_bits.induct)
  case (1 j pm)
  then show ?case by auto
next
  case (2 n j pm)
  then have "unat (j + 1) = Suc (unat j)"
    by (simp add: unat_add_fits)
  moreover have "q = j \<longleftrightarrow> unat q = unat j"
    using unat_eqI by auto
  ultimately show ?case
    using 2 by (auto simp: pmm_simps)
qed

lemma take_run_counters:
  assumes c: "counters_ok pm" and run: "clear_run pm (unat s) (unat count)" and pos: "count \<noteq> 0"
    and pm': "pm' = (set_bits (unat count) s pm)\<lparr>freePages := freePages pm - count,
                usedPages := usedPages pm + count, lastAllocIndex := s + count\<rparr>"
  shows "counters_ok pm'" "totalPages pm' = totalPages pm"
    "free_pages pm' = free_pages pm - {p. unat s \<le> unat p \<and> unat p < unat s + unat count}"
proof -
  let ?A = "{p :: u64. unat s \<le> unat p \<and> unat p < unat s + unat count}"
  have top: "unat s + unat count \<le> unat (totalPages pm)"
    using clear_run_bound [OF run] pos by (simp add: unat_gt_0)
  then have fits: "unat s + unat count < 2 ^ 64"
    using unat_less_2p [of "totalPages pm"] by linarith
  have sub: "?A \<subseteq> free_pages pm"
    using run by (auto simp: clear_run_def simp flip: clear_at_free)
  show fp: "free_pages pm' = free_pages pm - ?A" and tot: "totalPages pm' = totalPages pm"
    using set_bits_test [OF fits] by (auto simp: pm' pmm_simps free_pages_def)
  have cardA: "card ?A = unat count"
    using fits by (subst card_word_interval) simp_all
  then have le: "unat count \<le> card (free_pages pm)"
    using card_mono [OF finite_free_pages sub] by simp
  have "card (free_pages pm') = card (free_pages pm) - unat count"
    using card_Diff_subset [OF _ sub] by (simp add: fp cardA)
  moreover have "unat (usedPages pm + count) = unat (usedPages pm) + unat count"
    using c le unat_less_2p [of "totalPages pm"]
    by (intro unat_add_fits) (simp add: counters_ok_def)
  moreover have "unat (freePages pm - count) = unat (freePages pm) - unat count"
    using c le by (intro unat_sub_fits) (simp add: counters_ok_def)
  moreover have "s + count \<le> totalPages pm"
    using top fits by (simp add: word_le_unat unat_add_fits)
  ultimately show "counters_ok pm'"
    using c le tot by (simp add: counters_ok_def pm' pmm_simps)
qed

text \<open>
  C8. \<^verbatim>\<open>pmm::allocPages\<close> is first fit: it fails, changing nothing, exactly when no
  \<open>count\<close> consecutive pages are free; otherwise it returns the lowest such run, all of whose pages
  were free, and exactly those pages leave the free set.
\<close>

theorem pmm_allocPages_first_fit:
  assumes "pmm_inv pm" "count \<noteq> 0" "pmm_allocPages count pm = (a, pm')"
  shows "if \<forall>S. \<not> clear_run pm S (unat count) then a = 0 \<and> pm' = pm
         else \<exists>s. a = pageToPhysical s \<and> a \<noteq> 0 \<and> clear_run pm (unat s) (unat count) \<and>
                (\<forall>S < unat s. \<not> clear_run pm S (unat count)) \<and> pmm_inv pm' \<and>
                free_pages pm' =
                  free_pages pm - {p. unat s \<le> unat p \<and> unat p < unat s + unat count}"
proof -
  have c: "counters_ok pm" and z: "0 \<notin> free_pages pm"
    using assms(1) by (auto simp: pmm_inv_def)
  have pos: "0 < unat count"
    using assms(2) by (simp add: unat_gt_0)
  define r where "r = find_run pm count (unat (totalPages pm)) 0 0 0"
  have spec: "case r of Some s \<Rightarrow> clear_run pm (unat s) (unat count) \<and>
        (\<forall>S < unat s. \<not> clear_run pm S (unat count))
      | None \<Rightarrow> (\<forall>S. \<not> clear_run pm S (unat count))"
    using find_run_correct [of pm "unat (totalPages pm)" 0 0 count 0 r] pos
    by (simp add: r_def clear_run_def)
  show ?thesis
  proof (cases r)
    case None
    then show ?thesis using spec assms(2,3) by (simp add: pmm_allocPages_def r_def)
  next
    case (Some s)
    define pm1 where "pm1 = (set_bits (unat count) s pm)\<lparr>freePages := freePages pm - count,
                usedPages := usedPages pm + count, lastAllocIndex := s + count\<rparr>"
    have run: "clear_run pm (unat s) (unat count)" and low: "\<forall>S < unat s. \<not> clear_run pm S (unat count)"
      using spec Some by simp_all
    note t = take_run_counters [OF c run assms(2) pm1_def]
    have "clear_at pm (unat s)"
      using run pos by (simp add: clear_run_def)
    then have s: "s \<in> free_pages pm"
      by (simp add: clear_at_free)
    then have "pageToPhysical s \<noteq> 0"
      using z page_small [OF c] pageToPhysical_eq_0 by (auto simp: free_pages_def)
    moreover have "a = pageToPhysical s" "pm' = pm1"
      using assms(2,3) Some by (simp_all add: pmm_allocPages_def r_def pm1_def Let_def pmm_simps)
    ultimately show ?thesis
      using run low t z by (auto simp: pmm_inv_def intro!: exI [of _ s])
  qed
qed

lemma freePages_loop_used:
  assumes "pmm_inv pm" "unat s + n \<le> unat (totalPages pm)" "0 < unat s"
    and "\<And>p. unat s \<le> unat p \<Longrightarrow> unat p < unat s + n \<Longrightarrow> p \<notin> free_pages pm"
  shows "\<exists>pm'. freePages_loop n (pageToPhysical s) pm = Inr pm' \<and> pmm_inv pm' \<and>
           totalPages pm' = totalPages pm \<and>
           free_pages pm' = free_pages pm \<union> {p. unat s \<le> unat p \<and> unat p < unat s + n}"
  using assms
proof (induction n arbitrary: s pm)
  case 0
  then show ?case by auto
next
  case (Suc n)
  have s: "s < totalPages pm" "s \<noteq> 0"
    using Suc.prems(2,3) by (auto simp: word_less_unat)
  have "s \<notin> free_pages pm"
    using Suc.prems(4) by simp
  then obtain pm1 where pm1: "pmm_freePage (pageToPhysical s) pm = Inr pm1" "pmm_inv pm1"
      "free_pages pm1 = insert s (free_pages pm)" "totalPages pm1 = totalPages pm"
    using pmm_freePage_used [OF Suc.prems(1) s(1) _ s(2)] by blast
  have inc: "unat (s + 1) = Suc (unat s)"
    by (rule unat_inc [OF s(1)])
  have next_addr: "pageToPhysical s + PAGE_SIZE = pageToPhysical (s + 1)"
    by (simp add: pageToPhysical_def algebra_simps)
  have "p \<notin> free_pages pm1" if "Suc (unat s) \<le> unat p" "unat p < Suc (unat s) + n" for p
    using Suc.prems(4) [of p] that pm1(3) by auto
  then obtain pm' where pm': "freePages_loop n (pageToPhysical (s + 1)) pm1 = Inr pm'" "pmm_inv pm'"
      "totalPages pm' = totalPages pm1"
      "free_pages pm' = free_pages pm1 \<union> {p. unat (s + 1) \<le> unat p \<and> unat p < unat (s + 1) + n}"
    using Suc.IH [of pm1 "s + 1"] Suc.prems(2) pm1(2,4) inc by auto
  have "free_pages pm' = free_pages pm \<union> {p. unat s \<le> unat p \<and> unat p < unat s + Suc n}"
    using pm'(4) pm1(3) inc unat_eqI [of s] by (auto simp: le_eq_less_or_eq Suc_le_eq)
  then show ?case
    using pm1 pm' next_addr by simp
qed

text \<open>
  \<^verbatim>\<open>pmm::freePages\<close> undoes \<^verbatim>\<open>pmm::allocPages\<close>: releasing a run that is
  entirely in use succeeds and returns exactly its pages to the free set.
\<close>

theorem pmm_freePages_run:
  assumes "pmm_inv pm" "0 < unat s" "unat s + unat count \<le> unat (totalPages pm)"
    and "\<forall>p. unat s \<le> unat p \<and> unat p < unat s + unat count \<longrightarrow> p \<notin> free_pages pm"
  shows "\<exists>pm'. pmm_freePages (pageToPhysical s) count pm = Inr pm' \<and> pmm_inv pm' \<and>
           free_pages pm' =
             free_pages pm \<union> {p. unat s \<le> unat p \<and> unat p < unat s + unat count}"
proof -
  have "unat s < 2 ^ 52 \<or> unat s = 2 ^ 52"
    using assms(1,3) by (auto simp: pmm_inv_def counters_ok_def)
  moreover have "pageToPhysical s mod PAGE_SIZE = 0" if "unat s = 2 ^ 52"
  proof -
    have "s = 2 ^ 52" by (rule unat_eqI) (simp add: that)
    then show ?thesis by (simp add: pageToPhysical_def PAGE_SIZE_def)
  qed
  ultimately have "pageToPhysical s mod PAGE_SIZE = 0"
    using pageToPhysical_aligned by blast
  then show ?thesis
    using freePages_loop_used [OF assms(1,3,2)] assms(4) by (auto simp: pmm_freePages_def)
qed

text \<open>
  The bound check of \<^verbatim>\<open>pmm::freePage\<close> lets the first page past the end through
  (\<^verbatim>\<open>page <= totalPages\<close>). Where the padding bit there is set, as initialisation leaves
  it, the call succeeds, hands out no page, and breaks the agreement of the counters with the bitmap.
\<close>

theorem pmm_freePage_past_end:
  assumes "pmm_inv pm" "unat (totalPages pm) < 2 ^ 52" "bitmapTest pm (totalPages pm)"
  shows "\<exists>pm'. pmm_freePage (pageToPhysical (totalPages pm)) pm = Inr pm' \<and>
           free_pages pm' = free_pages pm \<and> freePages pm' = freePages pm + 1 \<and> \<not> counters_ok pm'"
proof -
  let ?t = "totalPages pm"
  let ?g = "give_page ?t pm"
  have c: "unat (freePages pm) = card (free_pages pm)" "lastAllocIndex pm \<le> ?t"
      "unat (freePages pm) \<le> unat ?t"
    using assms(1) by (simp_all add: pmm_inv_def counters_ok_def)
  have fp: "free_pages ?g = free_pages pm"
    by (auto simp: free_pages_def pmm_simps)
  have "unat (freePages pm + 1) = Suc (unat (freePages pm))"
    using c(3) assms(2) by (simp add: unat_add_fits)
  then have "\<not> counters_ok ?g"
    using c(1) by (simp add: counters_ok_def fp pmm_simps)
  then show ?thesis
    using assms(2,3) leD [OF c(2)] fp by (simp add: pmm_freePage_def Let_def pmm_simps)
qed

section \<open>Initialisation establishes the invariant\<close>

lemma markFree_loop_correct:
  assumes "counters_ok pm" "unat page + n < 2 ^ 64"
  shows "counters_ok (markFree_loop n page pm) \<and>
         totalPages (markFree_loop n page pm) = totalPages pm \<and>
         free_pages (markFree_loop n page pm) =
           free_pages pm \<union> {q. q < totalPages pm \<and> unat page \<le> unat q \<and> unat q < unat page + n}"
  using assms
proof (induction n page pm rule: markFree_loop.induct)
  case (1 page pm)
  then show ?case by auto
next
  case (2 n page pm)
  show ?case
  proof (cases "totalPages pm \<le> page")
    case True
    then show ?thesis using "2.prems" by (auto simp: word_le_unat word_less_unat)
  next
    case False
    define pm1 where "pm1 = (if bitmapTest pm page then give_page page pm else pm)"
    have inc: "unat (page + 1) = Suc (unat page)"
      using "2.prems"(2) by (simp add: unat_add_fits)
    have p: "page < totalPages pm" using False by simp
    have 1: "counters_ok pm1" "totalPages pm1 = totalPages pm"
        "free_pages pm1 = insert page (free_pages pm)"
      using "2.prems"(1) p give_page_counters [of pm page]
      by (auto simp: pm1_def pmm_simps) (auto simp: free_pages_def)
    have "{q. q < totalPages pm \<and> unat page \<le> unat q \<and> unat q < unat page + Suc n} =
        insert page {q. q < totalPages pm \<and> unat (page + 1) \<le> unat q \<and> unat q < unat (page + 1) + n}"
      using p inc unat_eqI [of page] by (auto simp: le_eq_less_or_eq Suc_le_eq)
    then show ?thesis
      using "2.IH" [OF False] "2.prems"(2) 1 inc False by (auto simp flip: pm1_def)
  qed
qed

lemma markUsed_loop_correct:
  assumes "counters_ok pm" "unat page + n < 2 ^ 64"
  shows "counters_ok (markUsed_loop n page pm) \<and>
         totalPages (markUsed_loop n page pm) = totalPages pm \<and>
         free_pages (markUsed_loop n page pm) =
           free_pages pm - {q. unat page \<le> unat q \<and> unat q < unat page + n}"
  using assms
proof (induction n page pm rule: markUsed_loop.induct)
  case (1 page pm)
  then show ?case by auto
next
  case (2 n page pm)
  show ?case
  proof (cases "totalPages pm \<le> page")
    case True
    then show ?thesis using "2.prems" by (auto simp: word_le_unat word_less_unat free_pages_def)
  next
    case False
    define pm1 where "pm1 = (if bitmapTest pm page then pm else take_page page pm)"
    have inc: "unat (page + 1) = Suc (unat page)"
      using "2.prems"(2) by (simp add: unat_add_fits)
    have p: "page < totalPages pm" using False by simp
    have 1: "counters_ok pm1" "totalPages pm1 = totalPages pm"
        "free_pages pm1 = free_pages pm - {page}"
      using "2.prems"(1) p take_page_counters [of pm page]
      by (auto simp: pm1_def pmm_simps) (auto simp: free_pages_def)
    have "free_pages pm - {page} - {q. unat (page + 1) \<le> unat q \<and> unat q < unat (page + 1) + n}
        = free_pages pm - {q. unat page \<le> unat q \<and> unat q < unat page + Suc n}"
      using inc unat_eqI [of page] by (auto simp: le_eq_less_or_eq Suc_le_eq)
    then show ?thesis
      using "2.IH" [OF False] "2.prems"(2) 1 inc False by (auto simp flip: pm1_def)
  qed
qed

lemma page_round:
  "(a + 4095) div 4096 \<le> k \<longleftrightarrow> a \<le> k * 4096"
  "k < b div 4096 \<longleftrightarrow> k * 4096 + 4096 \<le> b" for a b k :: nat
  by arith+

text \<open>A page lies in usable memory when a usable entry contains all of it.\<close>

definition usable_page :: "memmap_entry list \<Rightarrow> u64 \<Rightarrow> bool" where
  "usable_page es p \<longleftrightarrow> (\<exists>e \<in> set es. mm_usable e \<and> unat (mm_base e) \<le> unat p * 4096 \<and>
     unat p * 4096 + 4096 \<le> unat (mm_base e) + unat (mm_length e))"

definition entry_fits :: "memmap_entry \<Rightarrow> bool" where
  "entry_fits e \<longleftrightarrow> unat (mm_base e) + unat (mm_length e) \<le> 2 ^ 45"

lemma PAGE_SIZE_pow2: "PAGE_SIZE = 2 ^ 12"
  by (simp add: PAGE_SIZE_def)

lemma unat_alignUp_PAGE:
  "unat x \<le> 2 ^ 45 \<Longrightarrow> unat (alignUp x PAGE_SIZE) = (unat x + 4095) div 4096 * 4096"
  unfolding PAGE_SIZE_pow2 by (subst unat_alignUp_pow2) simp_all

lemma unat_alignDown_PAGE: "unat (alignDown x PAGE_SIZE) = unat x div 4096 * 4096"
  unfolding PAGE_SIZE_pow2 by (subst unat_alignDown_pow2) simp_all

lemma entry_bounds:
  assumes "entry_fits e"
  shows "unat (mm_base e + mm_length e) = unat (mm_base e) + unat (mm_length e)"
    and "unat (entry_start e) = (unat (mm_base e) + 4095) div 4096 * 4096"
    and "unat (entry_end e) = (unat (mm_base e) + unat (mm_length e)) div 4096 * 4096"
  using assms by (simp_all add: entry_fits_def entry_start_def entry_end_def unat_alignUp_PAGE
      unat_alignDown_PAGE unat_add_fits)

lemma free_usable_correct:
  assumes "counters_ok pm" "\<forall>e \<in> set es. entry_fits e"
  shows "counters_ok (free_usable es pm) \<and> totalPages (free_usable es pm) = totalPages pm \<and>
         free_pages (free_usable es pm) =
           free_pages pm \<union> {q. q < totalPages pm \<and> usable_page es q}"
  using assms
proof (induction es arbitrary: pm)
  case Nil
  then show ?case by (simp add: usable_page_def)
next
  case (Cons e es)
  let ?S = "(unat (mm_base e) + 4095) div 4096"
  let ?E = "(unat (mm_base e) + unat (mm_length e)) div 4096"
  note b = entry_bounds [of e]
  have fits: "entry_fits e" using Cons.prems(2) by simp
  have inside: "unat (mm_base e) \<le> k * 4096 \<and> k * 4096 + 4096 \<le> unat (mm_base e) + unat (mm_length e)
      \<longleftrightarrow> ?S \<le> k \<and> k < ?E" for k
    by (simp add: page_round)
  have head: "usable_page (e # es) q \<longleftrightarrow>
      mm_usable e \<and> ?S \<le> unat q \<and> unat q < ?E \<or> usable_page es q" for q
    using inside by (auto simp: usable_page_def)
  show ?case
  proof (cases "mm_usable e \<and> \<not> entry_end e \<le> entry_start e")
    case False
    then have "\<not> (mm_usable e \<and> ?S \<le> unat q \<and> unat q < ?E)" for q :: u64
      using b [OF fits] by (auto simp: word_le_unat)
    then show ?thesis using Cons False head by auto
  next
    case True
    then have lt: "?S < ?E" using b [OF fits] by (simp add: word_le_unat)
    define pm1 where "pm1 = pmm_markFree (entry_start e)
        ((entry_end e - entry_start e) div PAGE_SIZE) pm"
    have len: "unat ((entry_end e - entry_start e) div PAGE_SIZE) = ?E - ?S"
      using b [OF fits] lt by (simp add: unat_div unat_sub_fits flip: diff_mult_distrib)
    have st: "unat (physicalToPage (entry_start e)) = ?S"
      using b [OF fits] by (simp add: physicalToPage_def unat_div)
    have "?S + (?E - ?S) < 2 ^ 64"
      using lt fits by (simp add: entry_fits_def)
    then have 1: "counters_ok pm1" "totalPages pm1 = totalPages pm"
        "free_pages pm1 = free_pages pm \<union> {q. q < totalPages pm \<and> ?S \<le> unat q \<and> unat q < ?E}"
      using markFree_loop_correct [OF Cons.prems(1), of "physicalToPage (entry_start e)" "?E - ?S"]
        lt by (simp_all add: pm1_def pmm_markFree_def len st)
    have "counters_ok (free_usable es pm1) \<and> totalPages (free_usable es pm1) = totalPages pm1 \<and>
         free_pages (free_usable es pm1) =
           free_pages pm1 \<union> {q. q < totalPages pm1 \<and> usable_page es q}"
      by (rule Cons.IH) (use 1(1) Cons.prems(2) in simp_all)
    then show ?thesis
      using True 1 head by (auto simp flip: pm1_def)
  qed
qed

lemma highest_end_correct:
  assumes "\<forall>e \<in> set es. entry_fits e" "unat hi \<le> 2 ^ 45"
  shows "unat (highest_end es hi) \<le> 2 ^ 45 \<and> hi \<le> highest_end es hi \<and>
    (\<forall>e \<in> set es. unat (mm_base e) + unat (mm_length e) \<le> unat (highest_end es hi))"
  using assms
proof (induction es arbitrary: hi)
  case Nil
  then show ?case by simp
next
  case (Cons e es)
  have e: "unat (mm_base e + mm_length e) = unat (mm_base e) + unat (mm_length e)"
      "unat (mm_base e) + unat (mm_length e) \<le> 2 ^ 45"
    using entry_bounds(1) Cons.prems(1) by (simp_all add: entry_fits_def)
  define hi' where "hi' = (if hi < mm_base e + mm_length e then mm_base e + mm_length e else hi)"
  have "unat hi' \<le> 2 ^ 45" "hi \<le> hi'" "mm_base e + mm_length e \<le> hi'"
    using e Cons.prems(2) by (auto simp: hi'_def)
  with Cons.IH [of hi'] Cons.prems(1) e(1) show ?case
    by (auto simp: word_le_unat simp flip: hi'_def)
qed

lemma bitmap_home_correct:
  assumes "bitmap_home es sz \<noteq> 0" "\<forall>e \<in> set es. entry_fits e"
  shows "unat (bitmap_home es sz) mod 4096 = 0 \<and> unat (bitmap_home es sz) + unat sz \<le> 2 ^ 45 \<and>
    (\<exists>e \<in> set es. mm_usable e \<and> entry_start e = bitmap_home es sz \<and>
       unat (entry_start e) + unat sz \<le> unat (entry_end e))"
  using assms
proof (induction es)
  case Nil
  then show ?case by simp
next
  case (Cons e es)
  note b = entry_bounds [of e]
  show ?case
  proof (cases "mm_usable e \<and> \<not> entry_end e \<le> entry_start e \<and> sz \<le> entry_end e - entry_start e")
    case True
    then have le: "unat (entry_start e) + unat sz \<le> unat (entry_end e)"
      by (auto simp: word_le_unat unat_sub_fits)
    moreover have "unat (entry_end e) \<le> 2 ^ 45" "unat (entry_start e) mod 4096 = 0"
      using b Cons.prems(2) by (auto simp: entry_fits_def)
    ultimately show ?thesis using True by auto
  next
    case False
    then have "bitmap_home (e # es) sz = bitmap_home es sz"
      by auto
    then show ?thesis using Cons by auto
  qed
qed

text \<open>Sizes: the bitmap covers every page and its byte count fits \<^verbatim>\<open>memory::set\<close>'s int.\<close>

lemma bitmap_sizes:
  assumes "unat hi \<le> 2 ^ 45" "npages = pages_of_highest hi" "sz = bitmap_bytes npages"
  shows "unat npages = (unat hi + 4095) div 4096" "unat npages \<le> 2 ^ 33"
    and "unat sz < 2 ^ 31" "unat npages \<le> unat sz * 8" "unat sz mod 4096 = 0"
proof -
  show n: "unat npages = (unat hi + 4095) div 4096"
    using assms(1) by (simp add: assms(2) pages_of_highest_def unat_div unat_alignUp_PAGE)
  show n33: "unat npages \<le> 2 ^ 33"
    using assms(1) by (simp add: n)
  have "unat (alignUp npages (2 ^ 3)) = (unat npages + (2 ^ 3 - 1)) div 2 ^ 3 * 2 ^ 3"
    using n33 by (intro unat_alignUp_pow2) simp_all
  then have "unat (alignUp npages 8) = (unat npages + 7) div 8 * 8"
    by simp
  then have "unat (alignUp npages 8 div 8) = (unat npages + 7) div 8"
    by (simp add: unat_div)
  then have sz: "unat sz = ((unat npages + 7) div 8 + 4095) div 4096 * 4096"
    using n33 by (simp add: assms(3) bitmap_bytes_def unat_alignUp_PAGE)
  show "unat sz < 2 ^ 31" "unat npages \<le> unat sz * 8" "unat sz mod 4096 = 0"
    using n33 unfolding sz by simp_all
qed

lemma sint_ucast_small: "unat (w :: u64) < 2 ^ 31 \<Longrightarrow> sint (ucast w :: 32 word) = int (unat w)"
proof -
  assume small: "unat w < 2 ^ 31"
  have "(ucast w :: 32 word) = of_nat (unat w)"
    by (rule of_nat_unat [symmetric])
  then have "sint (ucast w :: 32 word) = signed_take_bit 31 (int (unat w))"
    by (simp only: signed_of_nat of_int_eq_id id_apply) simp
  moreover have "int (unat w) < 2 ^ 31"
    by (rule of_nat_less_numeral_power_cancel_iff [THEN iffD2, OF small])
  ultimately show ?thesis
    by (simp only: signed_take_bit_int_eq_self)
qed

text \<open>
  C6. \<^verbatim>\<open>pmm::init\<close> on a memory map whose entries end below \<open>2\<^sup>4\<^sup>5\<close> and that has room for
  the bitmap: the manager is consistent, and its free pages are exactly the pages wholly inside a
  usable entry, without page 0 and without the pages the bitmap itself occupies.
\<close>

theorem pmm_init_correct:
  assumes fits: "\<forall>e \<in> set es. entry_fits e"
    and home: "home = bitmap_home es sz" "home \<noteq> 0"
    and sz: "sz = bitmap_bytes (pages_of_highest (highest_end es 0))"
  shows "\<exists>pm. pmm_init ram (Some (Some es)) = Inr pm \<and> pmm_inv pm \<and>
           free_pages pm = {p. usable_page es p \<and> p \<noteq> 0 \<and>
             \<not> (unat home \<le> unat p * 4096 \<and> unat p * 4096 < unat home + unat sz)}"
proof -
  define hi where "hi = highest_end es 0"
  define npages where "npages = pages_of_highest hi"
  define pm0 where "pm0 = \<lparr>bitmap = memory_set (ram home) 0xFF (ucast sz),
      bitmapPhysicalAddress = home, bitmapSize = sz, totalPages = npages, usedPages = npages,
      freePages = 0, highestAddress = hi, lastAllocIndex = 0\<rparr>"
  define pm1 where "pm1 = free_usable es pm0"
  define pm2 where "pm2 = pmm_markUsed home (sz div PAGE_SIZE) pm1"
  define pm3 where "pm3 = pmm_markUsed 0 1 pm2"
  have hi: "unat hi \<le> 2 ^ 45"
      "\<forall>e \<in> set es. unat (mm_base e) + unat (mm_length e) \<le> unat hi"
    using highest_end_correct [OF fits, of 0] by (simp_all add: hi_def)
  note b = bitmap_sizes [OF hi(1) npages_def, of sz, unfolded npages_def hi_def, OF sz]
  note b = this [folded hi_def, folded npages_def]
  have h: "unat home mod 4096 = 0" "unat home + unat sz \<le> 2 ^ 45"
    using bitmap_home_correct [OF _ fits, of sz] home by simp_all
  have used: "bitmapTest pm0 q" if "q < npages" for q
  proof -
    have "unat (q div 8) < unat sz"
      using that b(4) by (simp add: unat_div word_less_unat)
    then have "int (unat (q div 8)) < sint (ucast sz :: 32 word)"
      by (simp only: sint_ucast_small [OF b(3)] of_nat_less_iff)
    moreover have "sint (ucast sz :: 32 word) \<le> 2 ^ LENGTH(64)"
    proof -
      have "int (unat sz) < 2 ^ 31"
        by (rule of_nat_less_numeral_power_cancel_iff [THEN iffD2, OF b(3)])
      also have "(2 :: int) ^ 31 \<le> 2 ^ LENGTH(64)"
        by simp
      finally show ?thesis
        unfolding sint_ucast_small [OF b(3)] by (rule less_imp_le)
    qed
    ultimately have "bitmap pm0 (q div 8) = 0xFF"
      unfolding pm0_def by (simp only: phys_mem.simps memory_set_apply if_True)
    then show ?thesis
      using bit_index [of q] by (simp only: bitmapTest_bit bit_0xFF)
  qed
  have 0: "counters_ok pm0" "free_pages pm0 = {}" "totalPages pm0 = npages"
    using used b(2) by (auto simp: counters_ok_def free_pages_def pm0_def)
  have 1: "counters_ok pm1" "totalPages pm1 = npages"
      "free_pages pm1 = {q. q < npages \<and> usable_page es q}"
    using free_usable_correct [OF 0(1) fits] 0 by (simp_all add: pm1_def)
  have "usable_page es q \<Longrightarrow> q < npages" for q
    using hi(2) b(1) by (fastforce simp: usable_page_def word_less_unat)
  then have 1: "counters_ok pm1" "totalPages pm1 = npages" "free_pages pm1 = {q. usable_page es q}"
    using 1 by auto
  have n: "unat (sz div PAGE_SIZE) = unat sz div 4096" "unat (physicalToPage home) = unat home div 4096"
    by (simp_all add: unat_div physicalToPage_def)
  have "unat home div 4096 \<le> k \<and> k < unat home div 4096 + unat sz div 4096 \<longleftrightarrow>
      unat home \<le> k * 4096 \<and> k * 4096 < unat home + unat sz" for k
    using h(1) b(5) by (auto elim!: dvdE simp flip: dvd_eq_mod_eq_0)
  then have 2: "counters_ok pm2" "totalPages pm2 = npages"
      "free_pages pm2 = {p. usable_page es p \<and>
         \<not> (unat home \<le> unat p * 4096 \<and> unat p * 4096 < unat home + unat sz)}"
    using markUsed_loop_correct [OF 1(1), of "physicalToPage home" "unat (sz div PAGE_SIZE)"] 1 h(2) n
    by (auto simp: pm2_def pmm_markUsed_def)
  have 3: "counters_ok pm3" "totalPages pm3 = npages" "free_pages pm3 = free_pages pm2 - {0}"
    using markUsed_loop_correct [OF 2(1), of 0 1] 2
    by (auto simp: pm3_def pmm_markUsed_def physicalToPage_def unat_eq_0)
  have "pmm_init ram (Some (Some es)) = Inr (pm3\<lparr>lastAllocIndex := 0\<rparr>)"
    using home by (simp add: pmm_init_def Let_def pm3_def pm2_def pm1_def pm0_def npages_def hi_def
        flip: sz)
  moreover have "pmm_inv (pm3\<lparr>lastAllocIndex := 0\<rparr>)"
    using 3 by (simp add: pmm_inv_def counters_ok_def pmm_simps)
  ultimately show ?thesis
    using 3(3) 2(3) by (auto simp: pmm_simps)
qed

end
