(* ===== verification/Vmm.thy ===== *)
theory Vmm
  imports Pmm
begin

text \<open>
  The virtual memory manager, \<^verbatim>\<open>kernel/core/memory/vmm.cpp\<close> with
  \<^verbatim>\<open>include/kernel/memory/virtualMemory.h\<close>: four-level page tables that live in
  physical pages taken from the page allocator and that the kernel reaches through the higher-half
  direct map. The theory shows that mapping, unmapping and translating pages behave as updates of
  one function from pages to table entries.
\<close>

section \<open>State\<close>

text \<open>
  \<open>vm_table t i\<close> is entry \<open>i\<close> of the table object at virtual pointer \<open>t\<close>
  (\<^verbatim>\<open>PageTable::entries\<close>); pointers are the physical address plus the direct-map
  offset and 0 is \<^verbatim>\<open>nullptr\<close>. The TLB shoot-down instruction
  \<^verbatim>\<open>invlpg\<close> has no effect on this state.
\<close>

record kmem =
  vm_pmm :: phys_mem
  vm_hhdm :: u64
  vm_table :: "virtAddr \<Rightarrow> u64 \<Rightarrow> u64"
  vm_cr3 :: u64
  vm_kernelPML4 :: virtAddr

definition memory_setHHDM :: "u64 option \<Rightarrow> kmem \<Rightarrow> kmem result" where
  "memory_setHHDM response s =
     (case response of
        None \<Rightarrow> Inl AssertFailed
      | Some offset \<Rightarrow> if offset = 0 then Inl AssertFailed else Inr (s\<lparr>vm_hhdm := offset\<rparr>))"

definition physicalToVirtual :: "kmem \<Rightarrow> physAddr \<Rightarrow> virtAddr" where
  "physicalToVirtual s p = p + vm_hhdm s"

definition virtualToPhysicalHHDM :: "kmem \<Rightarrow> virtAddr \<Rightarrow> physAddr" where
  "virtualToPhysicalHHDM s v = v - vm_hhdm s"

definition PTE_PRESENT :: u64 where "PTE_PRESENT = 1"
definition PTE_WRITABLE :: u64 where "PTE_WRITABLE = 2"
definition PTE_ADDR_MASK :: u64 where "PTE_ADDR_MASK = 0x000FFFFFFFFFF000"

definition FlagPresent :: u64 where "FlagPresent = 1"
definition FlagWritable :: u64 where "FlagWritable = 2"
definition FlagCacheDisable :: u64 where "FlagCacheDisable = 16"
definition FlagGlobal :: u64 where "FlagGlobal = 256"

definition PML4_INDEX :: "virtAddr \<Rightarrow> u64" where "PML4_INDEX v = drop_bit 39 v AND 0x1FF"
definition PDPT_INDEX :: "virtAddr \<Rightarrow> u64" where "PDPT_INDEX v = drop_bit 30 v AND 0x1FF"
definition PD_INDEX :: "virtAddr \<Rightarrow> u64" where "PD_INDEX v = drop_bit 21 v AND 0x1FF"
definition PT_INDEX :: "virtAddr \<Rightarrow> u64" where "PT_INDEX v = drop_bit 12 v AND 0x1FF"

section \<open>Operations\<close>

definition set_entry :: "virtAddr \<Rightarrow> u64 \<Rightarrow> u64 \<Rightarrow> kmem \<Rightarrow> kmem" where
  "set_entry t i e s = s\<lparr>vm_table := (vm_table s)(t := (vm_table s t)(i := e))\<rparr>"

definition vmm_newTable :: "kmem \<Rightarrow> (virtAddr \<times> kmem) result" where
  "vmm_newTable s =
     (case pmm_allocPage (vm_pmm s) of (phys, pm) \<Rightarrow>
        if phys = 0 then Inl AssertFailed
        else let table = physicalToVirtual s phys in
          Inr (table, s\<lparr>vm_pmm := pm, vm_table := (vm_table s)(table := \<lambda>_. 0)\<rparr>))"

definition vmm_getNextTable :: "virtAddr \<Rightarrow> u64 \<Rightarrow> bool \<Rightarrow> kmem \<Rightarrow> (virtAddr \<times> kmem) result" where
  "vmm_getNextTable table index create s =
     (let entry = vm_table s table index in
      if entry AND PTE_PRESENT \<noteq> 0 then Inr (physicalToVirtual s (entry AND PTE_ADDR_MASK), s)
      else if \<not> create then Inr (0, s)
      else case vmm_newTable s of
          Inl e \<Rightarrow> Inl e
        | Inr (newlyCreated, s') \<Rightarrow>
            let newPhys = virtualToPhysicalHHDM s' newlyCreated in
              Inr (newlyCreated,
                   set_entry table index (newPhys OR PTE_PRESENT OR PTE_WRITABLE) s'))"

text \<open>A pointer into a table, \<^verbatim>\<open>&pt->entries[i]\<close>, is the table and the index.\<close>

definition vmm_getPte :: "virtAddr \<Rightarrow> virtAddr \<Rightarrow> bool \<Rightarrow> kmem \<Rightarrow>
    ((virtAddr \<times> u64) option \<times> kmem) result" where
  "vmm_getPte pml4 virt create s =
     (case vmm_getNextTable pml4 (PML4_INDEX virt) create s of
        Inl e \<Rightarrow> Inl e
      | Inr (pdpt, s) \<Rightarrow> if pdpt = 0 then Inr (None, s)
        else case vmm_getNextTable pdpt (PDPT_INDEX virt) create s of
          Inl e \<Rightarrow> Inl e
        | Inr (pd, s) \<Rightarrow> if pd = 0 then Inr (None, s)
          else case vmm_getNextTable pd (PD_INDEX virt) create s of
            Inl e \<Rightarrow> Inl e
          | Inr (pt, s) \<Rightarrow> if pt = 0 then Inr (None, s)
            else Inr (Some (pt, PT_INDEX virt), s))"

definition vmm_mapPage :: "virtAddr \<Rightarrow> virtAddr \<Rightarrow> physAddr \<Rightarrow> u64 \<Rightarrow> kmem \<Rightarrow> (bool \<times> kmem) result"
  where
  "vmm_mapPage pml4 virt phys flags s =
     (if virt mod PAGE_SIZE \<noteq> 0 \<or> phys mod PAGE_SIZE \<noteq> 0 then Inr (False, s)
      else case vmm_getPte pml4 virt True s of
          Inl e \<Rightarrow> Inl e
        | Inr (None, s) \<Rightarrow> Inr (False, s)
        | Inr (Some (t, i), s) \<Rightarrow>
            if vm_table s t i AND PTE_PRESENT \<noteq> 0 then Inr (False, s)
            else Inr (True, set_entry t i ((phys AND PTE_ADDR_MASK) OR flags OR PTE_PRESENT) s))"

definition vmm_unmapPage :: "virtAddr \<Rightarrow> virtAddr \<Rightarrow> kmem \<Rightarrow> (bool \<times> kmem) result" where
  "vmm_unmapPage pml4 virt s =
     (if virt mod PAGE_SIZE \<noteq> 0 then Inr (False, s)
      else case vmm_getPte pml4 virt False s of
          Inl e \<Rightarrow> Inl e
        | Inr (None, s) \<Rightarrow> Inr (False, s)
        | Inr (Some (t, i), s) \<Rightarrow>
            if vm_table s t i AND PTE_PRESENT = 0 then Inr (False, s)
            else Inr (True, set_entry t i 0 s))"

definition vmm_virtToPhysical :: "virtAddr \<Rightarrow> virtAddr \<Rightarrow> kmem \<Rightarrow> physAddr result" where
  "vmm_virtToPhysical pml4 virt s =
     (case vmm_getPte pml4 virt False s of
        Inl e \<Rightarrow> Inl e
      | Inr (None, s) \<Rightarrow> Inr 0
      | Inr (Some (t, i), s) \<Rightarrow>
          if vm_table s t i AND PTE_PRESENT = 0 then Inr 0
          else Inr ((vm_table s t i AND PTE_ADDR_MASK) + (virt AND 0xFFF)))"

fun mapRange_loop :: "nat \<Rightarrow> virtAddr \<Rightarrow> virtAddr \<Rightarrow> physAddr \<Rightarrow> u64 \<Rightarrow> kmem \<Rightarrow> (bool \<times> kmem) result"
  where
  "mapRange_loop 0 pml4 virt phys flags s = Inr (True, s)"
| "mapRange_loop (Suc n) pml4 virt phys flags s =
     (case vmm_mapPage pml4 virt phys flags s of
        Inl e \<Rightarrow> Inl e
      | Inr (ok, s) \<Rightarrow>
          if \<not> ok then Inr (False, s)
          else mapRange_loop n pml4 (virt + PAGE_SIZE) (phys + PAGE_SIZE) flags s)"

definition vmm_mapRange :: "virtAddr \<Rightarrow> virtAddr \<Rightarrow> physAddr \<Rightarrow> u64 \<Rightarrow> u64 \<Rightarrow> kmem \<Rightarrow> (bool \<times> kmem) result"
  where
  "vmm_mapRange pml4 virt phys sz flags s =
     mapRange_loop (unat ((sz + PAGE_SIZE - 1) div PAGE_SIZE)) pml4 virt phys flags s"

definition vmm_createAddressSpace :: "kmem \<Rightarrow> (virtAddr \<times> kmem) result" where
  "vmm_createAddressSpace s = vmm_newTable s"

definition vmm_switchAddressSpace :: "virtAddr \<Rightarrow> kmem \<Rightarrow> kmem" where
  "vmm_switchAddressSpace table s = s\<lparr>vm_cr3 := virtualToPhysicalHHDM s table\<rparr>"

definition vmm_init :: "kmem \<Rightarrow> kmem" where
  "vmm_init s = s\<lparr>vm_kernelPML4 := physicalToVirtual s (vm_cr3 s AND PTE_ADDR_MASK)\<rparr>"

definition vmm_getKernelPml4 :: "kmem \<Rightarrow> virtAddr" where
  "vmm_getKernelPml4 s = vm_kernelPML4 s"

section \<open>The tree of tables\<close>

definition next_table :: "kmem \<Rightarrow> virtAddr \<Rightarrow> u64 \<Rightarrow> virtAddr option" where
  "next_table s t i =
     (if vm_table s t i AND PTE_PRESENT \<noteq> 0
      then Some (physicalToVirtual s (vm_table s t i AND PTE_ADDR_MASK)) else None)"

text \<open>The table reached from \<open>root\<close> by a list of at most three indices.\<close>

fun node :: "kmem \<Rightarrow> virtAddr \<Rightarrow> u64 list \<Rightarrow> virtAddr option" where
  "node s t [] = Some t"
| "node s t (i # is) = (case next_table s t i of None \<Rightarrow> None | Some t' \<Rightarrow> node s t' is)"

definition path_of :: "virtAddr \<Rightarrow> u64 list" where
  "path_of v = [PML4_INDEX v, PDPT_INDEX v, PD_INDEX v]"

lemma length_path_of [simp]: "length (path_of v) = 3"
  by (simp add: path_of_def)

text \<open>The abstract address space: the table entry of a page, 0 where no table leads to it.\<close>

definition pte :: "kmem \<Rightarrow> virtAddr \<Rightarrow> virtAddr \<Rightarrow> u64" where
  "pte s root v =
     (case node s root (path_of v) of None \<Rightarrow> 0 | Some t \<Rightarrow> vm_table s t (PT_INDEX v))"

definition is_mapped :: "kmem \<Rightarrow> virtAddr \<Rightarrow> virtAddr \<Rightarrow> bool" where
  "is_mapped s root v \<longleftrightarrow> pte s root v AND PTE_PRESENT \<noteq> 0"

text \<open>
  The invariant: no table is reached by two different paths, no table is null or lies in a page
  that the allocator could still hand out, and physical addresses stay below \<open>2\<^sup>5\<^sup>2\<close>.
\<close>

definition vm_inv :: "kmem \<Rightarrow> virtAddr \<Rightarrow> bool" where
  "vm_inv s root \<longleftrightarrow>
     pmm_inv (vm_pmm s) \<and> unat (totalPages (vm_pmm s)) \<le> 2 ^ 40 \<and>
     (\<forall>a \<in> avail_addrs (vm_pmm s). physicalToVirtual s a \<noteq> 0) \<and>
     (\<forall>p q t. length p \<le> 3 \<longrightarrow> length q \<le> 3 \<longrightarrow> node s root p = Some t \<longrightarrow> node s root q = Some t
        \<longrightarrow> p = q) \<and>
     (\<forall>p t. length p \<le> 3 \<longrightarrow> node s root p = Some t \<longrightarrow>
        t \<noteq> 0 \<and> virtualToPhysicalHHDM s t \<notin> avail_addrs (vm_pmm s))"

lemma vm_inv_inj:
  "vm_inv s root \<Longrightarrow> length p \<le> 3 \<Longrightarrow> length q \<le> 3 \<Longrightarrow> node s root p = Some t \<Longrightarrow>
   node s root q = Some t \<Longrightarrow> p = q"
  unfolding vm_inv_def by blast

lemma vm_inv_node:
  "vm_inv s root \<Longrightarrow> length p \<le> 3 \<Longrightarrow> node s root p = Some t \<Longrightarrow>
   t \<noteq> 0 \<and> virtualToPhysicalHHDM s t \<notin> avail_addrs (vm_pmm s)"
  unfolding vm_inv_def by blast

lemma node_snoc: "node s t (p @ [i]) = (case node s t p of None \<Rightarrow> None | Some t' \<Rightarrow> next_table s t' i)"
  by (induction p arbitrary: t) (auto split: option.splits)

lemma set_entry_fields [simp]:
  "vm_pmm (set_entry t i e s) = vm_pmm s" "vm_hhdm (set_entry t i e s) = vm_hhdm s"
  "vm_table (set_entry t i e s) t' i' = (if t' = t \<and> i' = i then e else vm_table s t' i')"
  "physicalToVirtual (set_entry t i e s) = physicalToVirtual s"
  "virtualToPhysicalHHDM (set_entry t i e s) = virtualToPhysicalHHDM s"
  by (auto simp: set_entry_def physicalToVirtual_def virtualToPhysicalHHDM_def)

lemma hhdm_inverse [simp]:
  "virtualToPhysicalHHDM s (physicalToVirtual s p) = p"
  "physicalToVirtual s (virtualToPhysicalHHDM s v) = v"
  by (simp_all add: physicalToVirtual_def virtualToPhysicalHHDM_def)

section \<open>Entries\<close>

lemma PTE_ADDR_MASK_bit: "bit PTE_ADDR_MASK n \<longleftrightarrow> 12 \<le> n \<and> n < 52"
proof -
  have m: "PTE_ADDR_MASK = mask 52 AND NOT (mask 12)"
    by (simp add: PTE_ADDR_MASK_def mask_eq_exp_minus_1)
  show ?thesis
    unfolding m by (auto simp: bit_simps dest: bit_imp_le_length)
qed

lemma page_address_bits:
  assumes "a mod 4096 = 0" "unat a < 2 ^ 52"
  shows "bit (a :: u64) n \<Longrightarrow> 12 \<le> n \<and> n < 52"
proof -
  have "take_bit 12 a = 0"
    using assms(1) by (simp add: take_bit_eq_mod)
  moreover have "take_bit 52 a = a"
  proof (rule unat_eqI)
    show "unat (take_bit 52 a) = unat a"
      using assms(2) by (simp add: unsigned_take_bit_eq take_bit_nat_eq_self)
  qed
  ultimately show "bit a n \<Longrightarrow> 12 \<le> n \<and> n < 52"
    by (metis bit_0_eq bit_take_bit_iff bot_apply bot_bool_def linorder_not_less)
qed

lemma mask_page_address:
  assumes "a mod 4096 = 0" "unat a < 2 ^ 52"
  shows "a AND PTE_ADDR_MASK = a"
  by (rule bit_eqI) (use page_address_bits [OF assms] in \<open>auto simp: bit_simps PTE_ADDR_MASK_bit\<close>)

lemma entry_address:
  assumes "a mod 4096 = 0" "unat a < 2 ^ 52"
  shows "(a OR PTE_PRESENT OR PTE_WRITABLE) AND PTE_ADDR_MASK = a"
proof -
  have "(PTE_PRESENT OR PTE_WRITABLE) AND PTE_ADDR_MASK = 0"
    by (simp add: PTE_PRESENT_def PTE_WRITABLE_def PTE_ADDR_MASK_def)
  then show ?thesis
    by (simp add: bit.conj_disj_distrib2 mask_page_address [OF assms])
qed

lemma entry_present: "(a OR PTE_PRESENT OR PTE_WRITABLE) AND PTE_PRESENT \<noteq> 0"
  "((x OR f OR PTE_PRESENT) AND PTE_PRESENT) \<noteq> 0"
  by (simp_all add: PTE_PRESENT_def PTE_WRITABLE_def bit.conj_disj_distrib2 or_eq_0_iff)

section \<open>Creating tables\<close>

lemma avail_small:
  assumes "pmm_inv pm" "unat (totalPages pm) \<le> 2 ^ 40" "a \<in> avail_addrs pm"
  shows "a mod 4096 = 0" "unat a < 2 ^ 52"
proof -
  obtain p where p: "a = pageToPhysical p" "p < totalPages pm"
    using assms(3) by (auto simp: avail_addrs_def free_pages_def)
  then have "unat p < 2 ^ 40"
    using assms(2) by (simp add: word_less_unat)
  then show "unat a < 2 ^ 52"
    using unat_pageToPhysical [of p] p(1) by simp
  show "a mod 4096 = 0"
    using pmm_alloc.avail_page [OF assms(1,3)] by simp
qed

lemma newTable_success:
  assumes "vm_inv s root" "vmm_newTable s = Inr (c, s')"
  obtains a pm where "pmm_allocPage (vm_pmm s) = (a, pm)" "c = physicalToVirtual s a"
    "a \<in> avail_addrs (vm_pmm s)" "a \<notin> avail_addrs pm" "avail_addrs pm \<subseteq> avail_addrs (vm_pmm s)"
    "pmm_inv pm" "totalPages pm = totalPages (vm_pmm s)" "c \<noteq> 0"
    "s' = s\<lparr>vm_pmm := pm, vm_table := (vm_table s)(c := \<lambda>_. 0)\<rparr>"
    "\<And>q. length q \<le> 3 \<Longrightarrow> node s root q \<noteq> Some c"
proof -
  obtain a pm where a: "pmm_allocPage (vm_pmm s) = (a, pm)"
    by (cases "pmm_allocPage (vm_pmm s)")
  have nz: "a \<noteq> 0" and c: "c = physicalToVirtual s a"
      "s' = s\<lparr>vm_pmm := pm, vm_table := (vm_table s)(c := \<lambda>_. 0)\<rparr>"
    using assms(2) a by (auto simp: vmm_newTable_def Let_def split: if_splits)
  have inv: "pmm_inv (vm_pmm s)"
    using assms(1) by (simp add: vm_inv_def)
  note f = pmm_alloc.alloc_fresh [OF inv a nz]
  have "c \<noteq> 0" "\<And>q. length q \<le> 3 \<Longrightarrow> node s root q \<noteq> Some c"
    using assms(1) f(1) c(1) hhdm_inverse(1) [of s a] unfolding vm_inv_def by metis+
  moreover have "totalPages pm = totalPages (vm_pmm s)"
    using allocPage_totalPages [OF _ a] inv by (simp add: pmm_inv_def)
  ultimately show thesis
    using that a c f by blast
qed

text \<open>One table is hung below entry \<open>i\<close> of the table at path \<open>p\<close>.\<close>

lemma link_new_table:
  assumes inj: "\<And>q. length q \<le> 3 \<Longrightarrow> node s root q = Some t \<Longrightarrow> q = p"
    and p: "node s root p = Some t" "length p \<le> 2" "next_table s t i = None"
    and c: "\<And>q. length q \<le> 3 \<Longrightarrow> node s root q \<noteq> Some c"
    and tab: "\<And>t' j. vm_table s' t' j =
        (if t' = t \<and> j = i then e else if t' = c then 0 else vm_table s t' j)"
    and e: "e AND PTE_PRESENT \<noteq> 0" "physicalToVirtual s' (e AND PTE_ADDR_MASK) = c"
    and h: "vm_hhdm s' = vm_hhdm s"
  shows "length q \<le> 3 \<Longrightarrow> node s' root q = (if q = p @ [i] then Some c else node s root q)"
proof (induction q rule: rev_induct)
  case Nil
  show ?case by simp
next
  case (snoc j r)
  have tc: "t \<noteq> c"
    using c [of p] p by auto
  have same: "next_table s' t' k = next_table s t' k" if "t' \<noteq> c" "\<not> (t' = t \<and> k = i)" for t' k
    using that by (auto simp: next_table_def tab physicalToVirtual_def h)
  have new: "next_table s' c k = None" for k
    using tc by (simp add: next_table_def tab)
  have link: "next_table s' t i = Some c"
    using e tc by (simp add: next_table_def tab)
  have IH: "node s' root r = (if r = p @ [i] then Some c else node s root r)"
    using snoc by simp
  show ?case
  proof (cases "r = p @ [i]")
    case True
    then have "node s root r = None"
      using p by (simp add: node_snoc)
    then show ?thesis
      unfolding node_snoc [of s' root r] node_snoc [of s root r] using True IH new by simp
  next
    case False
    show ?thesis
    proof (cases "node s root r")
      case None
      then show ?thesis using IH False p(1) by (auto simp: node_snoc)
    next
      case (Some t')
      then have "t' \<noteq> c" using c [of r] snoc.prems by auto
      moreover have "t' = t \<longleftrightarrow> r = p"
        using Some p(1) inj [of r] snoc.prems by auto
      ultimately show ?thesis
        using IH False Some same link by (auto simp: node_snoc)
    qed
  qed
qed

text \<open>What creating a missing table leaves unchanged.\<close>

definition vm_extends :: "virtAddr \<Rightarrow> kmem \<Rightarrow> kmem \<Rightarrow> bool" where
  "vm_extends root s s' \<longleftrightarrow> vm_inv s' root \<and> vm_hhdm s' = vm_hhdm s \<and>
     vm_cr3 s' = vm_cr3 s \<and> vm_kernelPML4 s' = vm_kernelPML4 s \<and>
     totalPages (vm_pmm s') = totalPages (vm_pmm s) \<and>
     avail_addrs (vm_pmm s') \<subseteq> avail_addrs (vm_pmm s) \<and>
     (\<forall>q u. length q \<le> 3 \<longrightarrow> node s root q = Some u \<longrightarrow> node s' root q = Some u) \<and>
     (\<forall>q u. length q \<le> 3 \<longrightarrow> node s' root q = Some u \<longrightarrow>
        node s root q = Some u \<or> u - vm_hhdm s \<in> avail_addrs (vm_pmm s)) \<and>
     (\<forall>v. pte s' root v = pte s root v)"

lemma vm_extends_refl: "vm_inv s root \<Longrightarrow> vm_extends root s s"
  by (simp add: vm_extends_def)

lemma vm_extends_trans: "vm_extends root s s' \<Longrightarrow> vm_extends root s' s'' \<Longrightarrow> vm_extends root s s''"
  unfolding vm_extends_def by (elim conjE) (intro conjI; (simp; fail)?; (blast; fail)?; metis subsetD)

lemma getNextTable_create:
  assumes inv: "vm_inv s root" and p: "node s root p = Some t" "length p \<le> 2"
    and g: "vmm_getNextTable t i True s = Inr (u, s')"
  shows "vm_extends root s s' \<and> u \<noteq> 0 \<and> node s' root (p @ [i]) = Some u"
proof (cases "next_table s t i")
  case (Some u')
  then have "u = u'" "s' = s"
    using g by (auto simp: vmm_getNextTable_def next_table_def Let_def split: if_splits)
  moreover have n: "node s root (p @ [i]) = Some u'"
    using p(1) Some by (simp add: node_snoc)
  moreover have "u' \<noteq> 0"
    using vm_inv_node [OF inv _ n] p(2) by simp
  ultimately show ?thesis
    using vm_extends_refl [OF inv] by simp
next
  case None
  then obtain s1 where s1: "vmm_newTable s = Inr (u, s1)"
      "s' = set_entry t i (virtualToPhysicalHHDM s1 u OR PTE_PRESENT OR PTE_WRITABLE) s1"
    using g by (auto simp: vmm_getNextTable_def next_table_def Let_def split: if_splits sum.splits)
  obtain a pm where a: "pmm_allocPage (vm_pmm s) = (a, pm)" "u = physicalToVirtual s a"
      "a \<in> avail_addrs (vm_pmm s)" "a \<notin> avail_addrs pm" "avail_addrs pm \<subseteq> avail_addrs (vm_pmm s)"
      "pmm_inv pm" "totalPages pm = totalPages (vm_pmm s)" "u \<noteq> 0"
      "s1 = s\<lparr>vm_pmm := pm, vm_table := (vm_table s)(u := \<lambda>_. 0)\<rparr>"
      "\<And>q. length q \<le> 3 \<Longrightarrow> node s root q \<noteq> Some u"
    using newTable_success [OF inv s1(1)] by metis
  have small: "a mod 4096 = 0" "unat a < 2 ^ 52"
    using avail_small [OF _ _ a(3)] inv by (simp_all add: vm_inv_def)
  let ?e = "a OR PTE_PRESENT OR PTE_WRITABLE"
  have s': "vm_hhdm s' = vm_hhdm s" "vm_pmm s' = pm" "vm_cr3 s' = vm_cr3 s"
      "vm_kernelPML4 s' = vm_kernelPML4 s"
      "\<And>t' j. vm_table s' t' j = (if t' = t \<and> j = i then ?e else if t' = u then 0 else vm_table s t' j)"
    using a(2) by (auto simp: s1(2) a(9) set_entry_def virtualToPhysicalHHDM_def physicalToVirtual_def)
  have ptv: "physicalToVirtual s' = physicalToVirtual s"
      "virtualToPhysicalHHDM s' = virtualToPhysicalHHDM s"
    by (auto simp: physicalToVirtual_def virtualToPhysicalHHDM_def s'(1))
  have injp: "q = p" if "length q \<le> 3" "node s root q = Some t" for q
    using vm_inv_inj [OF inv that(1) _ that(2) p(1)] p(2) by simp
  have node': "node s' root q = (if q = p @ [i] then Some u else node s root q)" if "length q \<le> 3" for q
    by (rule link_new_table [OF injp p None a(10) s'(5) entry_present(1) _ s'(1) that])
       (simp_all add: entry_address [OF small] ptv a(2))
  have "node s root (p @ [i]) = None"
    using p(1) None by (simp add: node_snoc)
  then have ext: "\<forall>q w. length q \<le> 3 \<longrightarrow> node s root q = Some w \<longrightarrow> node s' root q = Some w"
    using node' by auto
  have nd: "w \<noteq> 0 \<and> virtualToPhysicalHHDM s w \<notin> avail_addrs pm"
    if "length q \<le> 3" "node s' root q = Some w" for q w
    using node' [OF that(1)] that a(2,4,5,8) vm_inv_node [OF inv that(1), of w]
    by (auto split: if_splits)
  have ij: "q = r" if "length q \<le> 3" "length r \<le> 3" "node s' root q = Some w" "node s' root r = Some w"
    for q r w
    using node' [OF that(1)] node' [OF that(2)] that a(10) [OF that(1)] a(10) [OF that(2)]
      vm_inv_inj [OF inv that(1,2), of w]
    by (auto split: if_splits)
  have "\<forall>b \<in> avail_addrs pm. physicalToVirtual s b \<noteq> 0" "unat (totalPages pm) \<le> 2 ^ 40"
    using inv a(5,7) by (auto simp: vm_inv_def)
  then have inv': "vm_inv s' root"
    unfolding vm_inv_def s'(2) ptv using a(6) nd ij by blast
  have "pte s' root v = pte s root v" for v
  proof (cases "path_of v = p @ [i]")
    case True
    then have "node s root (path_of v) = None" "node s' root (path_of v) = Some u"
      using \<open>node s root (p @ [i]) = None\<close> node' [of "path_of v"] p(2) by simp_all
    moreover have "u \<noteq> t" using a(10) [of p] p by auto
    ultimately show ?thesis
      by (simp add: pte_def s'(5))
  next
    case False
    then have n: "node s' root (path_of v) = node s root (path_of v)"
      using node' [of "path_of v"] by simp
    show ?thesis
    proof (cases "node s root (path_of v)")
      case None
      then show ?thesis using n by (simp add: pte_def)
    next
      case (Some w)
      then have "w \<noteq> t" "w \<noteq> u"
        using injp [of "path_of v"] a(10) [of "path_of v"] p(2) length_path_of [of v] by force+
      then show ?thesis using n Some by (simp add: pte_def s'(5))
    qed
  qed
  moreover have "node s root q = Some w \<or> w - vm_hhdm s \<in> avail_addrs (vm_pmm s)"
    if "length q \<le> 3" "node s' root q = Some w" for q w
    using node' [OF that(1)] that(2) a(2,3) by (auto simp: physicalToVirtual_def split: if_splits)
  ultimately show ?thesis
    using inv' ext a(5,7,8) s' node' [of "p @ [i]"] p(2) by (simp add: vm_extends_def)
qed

section \<open>Walking\<close>

text \<open>A walk that may create tables ends at the entry of the page.\<close>

lemma getPte_create:
  assumes inv: "vm_inv s root" and g: "vmm_getPte root v True s = Inr (r, s')"
  shows "vm_extends root s s' \<and>
         (\<exists>t. r = Some (t, PT_INDEX v) \<and> node s' root (path_of v) = Some t)"
proof -
  obtain t1 s1 where 1: "vmm_getNextTable root (PML4_INDEX v) True s = Inr (t1, s1)"
    using g by (auto simp: vmm_getPte_def split: sum.splits)
  have e1: "vm_extends root s s1" "t1 \<noteq> 0" "node s1 root [PML4_INDEX v] = Some t1"
    using getNextTable_create [OF inv _ _ 1, of "[]"] by simp_all
  have inv1: "vm_inv s1 root" using e1(1) by (simp add: vm_extends_def)
  obtain t2 s2 where 2: "vmm_getNextTable t1 (PDPT_INDEX v) True s1 = Inr (t2, s2)"
    using g e1(2) 1 by (auto simp: vmm_getPte_def split: sum.splits)
  have e2: "vm_extends root s1 s2" "t2 \<noteq> 0" "node s2 root [PML4_INDEX v, PDPT_INDEX v] = Some t2"
    using getNextTable_create [OF inv1 e1(3) _ 2] by simp_all
  have inv2: "vm_inv s2 root" using e2(1) by (simp add: vm_extends_def)
  obtain t3 s3 where 3: "vmm_getNextTable t2 (PD_INDEX v) True s2 = Inr (t3, s3)"
    using g e1(2) e2(2) 1 2 by (auto simp: vmm_getPte_def split: sum.splits)
  have e3: "vm_extends root s2 s3" "t3 \<noteq> 0" "node s3 root (path_of v) = Some t3"
    using getNextTable_create [OF inv2 e2(3) _ 3] by (simp_all add: path_of_def)
  have "r = Some (t3, PT_INDEX v)" "s' = s3"
    using g 1 2 3 e1(2) e2(2) e3(2) by (auto simp: vmm_getPte_def)
  then show ?thesis
    using vm_extends_trans [OF vm_extends_trans [OF e1(1) e2(1)] e3(1)] e3(3) by simp
qed

text \<open>A walk that creates nothing finds the entry exactly when the path exists.\<close>

lemma getNextTable_find:
  assumes "vm_inv s root" "node s root p = Some t" "length p \<le> 2"
  shows "vmm_getNextTable t i False s =
           Inr ((case next_table s t i of None \<Rightarrow> 0 | Some u \<Rightarrow> u), s)"
    and "next_table s t i = Some u \<Longrightarrow> u \<noteq> 0 \<and> node s root (p @ [i]) = Some u"
proof -
  show "vmm_getNextTable t i False s = Inr ((case next_table s t i of None \<Rightarrow> 0 | Some u \<Rightarrow> u), s)"
    by (simp add: vmm_getNextTable_def next_table_def Let_def)
  show "u \<noteq> 0 \<and> node s root (p @ [i]) = Some u" if "next_table s t i = Some u"
  proof -
    have n: "node s root (p @ [i]) = Some u"
      using assms(2) that by (simp add: node_snoc)
    then show ?thesis
      using vm_inv_node [OF assms(1) _ n] assms(3) by simp
  qed
qed

lemma getPte_find:
  assumes inv: "vm_inv s root"
  shows "vmm_getPte root v False s =
     Inr (map_option (\<lambda>t. (t, PT_INDEX v)) (node s root (path_of v)), s)"
proof (cases "next_table s root (PML4_INDEX v)")
  case None
  then show ?thesis
    using getNextTable_find(1) [OF inv, of "[]"] by (simp add: vmm_getPte_def path_of_def)
next
  case (Some t1)
  note f1 = getNextTable_find [OF inv, of "[]" root "PML4_INDEX v", simplified, unfolded Some]
  have n1: "node s root [PML4_INDEX v] = Some t1" using Some by simp
  note f2 = getNextTable_find [OF inv n1, of "PDPT_INDEX v", simplified]
  show ?thesis
  proof (cases "next_table s t1 (PDPT_INDEX v)")
    case None
    then show ?thesis using Some f1 f2(1) by (simp add: vmm_getPte_def path_of_def)
  next
    case s2: (Some t2)
    have n2: "node s root [PML4_INDEX v, PDPT_INDEX v] = Some t2" using Some s2 by simp
    note f3 = getNextTable_find [OF inv n2, of "PD_INDEX v", simplified]
    show ?thesis
      using Some s2 f1 f2 f3
      by (cases "next_table s t2 (PD_INDEX v)") (simp_all add: vmm_getPte_def path_of_def)
  qed
qed

text \<open>Writing the entry of a page changes the abstract address space at that page only.\<close>

definition same_page :: "virtAddr \<Rightarrow> virtAddr \<Rightarrow> bool" where
  "same_page v w \<longleftrightarrow> path_of v = path_of w \<and> PT_INDEX v = PT_INDEX w"

lemma node_set_leaf:
  assumes inv: "vm_inv s root" and t: "node s root p = Some t" "length p = 3"
  shows "length q \<le> 3 \<Longrightarrow> node (set_entry t i e s) root q = node s root q"
proof (induction q rule: rev_induct)
  case Nil
  show ?case by simp
next
  case (snoc j r)
  show ?case
  proof (cases "node s root r")
    case None
    then show ?thesis using snoc by (simp add: node_snoc)
  next
    case (Some u)
    have "u \<noteq> t"
      using vm_inv_inj [OF inv _ _ _ t(1), of r] Some t(2) snoc.prems by fastforce
    then show ?thesis using snoc Some by (simp add: node_snoc next_table_def)
  qed
qed

lemma set_leaf:
  assumes inv: "vm_inv s root" and t: "node s root (path_of v) = Some t"
    and s': "s' = set_entry t (PT_INDEX v) e s"
  shows "vm_inv s' root" "pte s' root w = (if same_page w v then e else pte s root w)"
proof -
  have n: "length q \<le> 3 \<Longrightarrow> node s' root q = node s root q" for q
    using node_set_leaf [OF inv t] by (simp add: s')
  show "vm_inv s' root"
    using inv n unfolding vm_inv_def s' set_entry_fields by (metis set_entry_fields(4,5))
  show "pte s' root w = (if same_page w v then e else pte s root w)"
  proof (cases "node s root (path_of w)")
    case None
    then show ?thesis using n t by (auto simp: pte_def same_page_def)
  next
    case (Some u)
    have "u = t \<longleftrightarrow> path_of w = path_of v"
      using vm_inv_inj [OF inv _ _ Some, of "path_of v"] t Some by auto
    then show ?thesis using n Some by (auto simp: pte_def same_page_def s')
  qed
qed

section \<open>Mapping, unmapping, translating\<close>

definition leaf_entry :: "physAddr \<Rightarrow> u64 \<Rightarrow> u64" where
  "leaf_entry phys flags = (phys AND PTE_ADDR_MASK) OR flags OR PTE_PRESENT"

lemma leaf_entry_present [simp]: "leaf_entry phys flags AND PTE_PRESENT \<noteq> 0"
  unfolding leaf_entry_def by (rule entry_present(2))

lemma same_page_refl [simp]: "same_page v v"
  by (simp add: same_page_def)

lemma same_page_sym: "same_page v w \<longleftrightarrow> same_page w v"
  by (auto simp: same_page_def)

lemma mapPage_effect:
  assumes inv: "vm_inv s root" and al: "virt mod PAGE_SIZE = 0" "phys mod PAGE_SIZE = 0"
    and m: "vmm_mapPage root virt phys flags s = Inr (ok, s')"
  shows "vm_inv s' root \<and> ok = (\<not> is_mapped s root virt) \<and>
     vm_hhdm s' = vm_hhdm s \<and> vm_kernelPML4 s' = vm_kernelPML4 s \<and>
     totalPages (vm_pmm s') = totalPages (vm_pmm s) \<and>
     avail_addrs (vm_pmm s') \<subseteq> avail_addrs (vm_pmm s) \<and>
     (\<forall>q u. length q \<le> 3 \<longrightarrow> node s' root q = Some u \<longrightarrow>
        node s root q = Some u \<or> u - vm_hhdm s \<in> avail_addrs (vm_pmm s)) \<and>
     (\<forall>w. pte s' root w =
        (if ok \<and> same_page w virt then leaf_entry phys flags else pte s root w))"
proof -
  obtain r s1 where g: "vmm_getPte root virt True s = Inr (r, s1)"
    using m al by (auto simp: vmm_mapPage_def split: sum.splits)
  obtain t where t: "vm_extends root s s1" "r = Some (t, PT_INDEX virt)"
      "node s1 root (path_of virt) = Some t"
    using getPte_create [OF inv g] by auto
  have inv1: "vm_inv s1 root" and p1: "\<And>w. pte s1 root w = pte s root w"
    using t(1) by (simp_all add: vm_extends_def)
  have e: "vm_table s1 t (PT_INDEX virt) = pte s root virt"
    using t(3) p1 [of virt] by (simp add: pte_def)
  show ?thesis
  proof (cases "is_mapped s root virt")
    case True
    then have "ok = False" "s' = s1"
      using m al g t(2) e by (simp_all add: vmm_mapPage_def is_mapped_def)
    then show ?thesis using inv1 p1 t(1) True by (simp add: vm_extends_def)
  next
    case False
    then have ok: "ok" "s' = set_entry t (PT_INDEX virt) (leaf_entry phys flags) s1"
      using m al g t(2) e by (simp_all add: vmm_mapPage_def is_mapped_def leaf_entry_def)
    then show ?thesis
      using set_leaf [OF inv1 t(3) ok(2)] p1 t(1) False node_set_leaf [OF inv1 t(3)]
      by (simp add: vm_extends_def) (simp add: set_entry_def)
  qed
qed

lemma unmapPage_effect:
  assumes inv: "vm_inv s root" and al: "virt mod PAGE_SIZE = 0"
  shows "\<exists>s'. vmm_unmapPage root virt s = Inr (is_mapped s root virt, s') \<and> vm_inv s' root \<and>
     (\<forall>w. pte s' root w = (if same_page w virt \<and> is_mapped s root virt then 0 else pte s root w))"
proof (cases "node s root (path_of virt)")
  case None
  then show ?thesis
    using inv al by (simp add: vmm_unmapPage_def getPte_find is_mapped_def pte_def)
next
  case (Some t)
  then have e: "vm_table s t (PT_INDEX virt) = pte s root virt"
    by (simp add: pte_def)
  show ?thesis
    using Some al inv e set_leaf [OF inv Some refl, of 0]
    by (simp add: vmm_unmapPage_def getPte_find is_mapped_def)
qed

lemma virtToPhysical_effect:
  assumes "vm_inv s root"
  shows "vmm_virtToPhysical root v s =
     Inr (if is_mapped s root v then (pte s root v AND PTE_ADDR_MASK) + (v AND 0xFFF) else 0)"
  using assms by (auto simp: vmm_virtToPhysical_def getPte_find is_mapped_def pte_def
      split: option.splits)

section \<open>The address-space interface\<close>

text \<open>
  What the heap and the memory-mapped devices use of an address space: \<open>look s v\<close> is the entry that
  translates \<open>v\<close>, 0 when there is none.
\<close>

locale address_space =
  fixes map_page :: "virtAddr \<Rightarrow> physAddr \<Rightarrow> u64 \<Rightarrow> 's \<Rightarrow> (bool \<times> 's) result"
    and unmap_page :: "virtAddr \<Rightarrow> 's \<Rightarrow> (bool \<times> 's) result"
    and look :: "'s \<Rightarrow> virtAddr \<Rightarrow> u64"
    and ok :: "'s \<Rightarrow> bool"
  assumes map_law: "ok s \<Longrightarrow> v mod PAGE_SIZE = 0 \<Longrightarrow> p mod PAGE_SIZE = 0 \<Longrightarrow>
      map_page v p f s = Inr (b, s') \<Longrightarrow>
      ok s' \<and> b = (look s v AND PTE_PRESENT = 0) \<and>
      (\<forall>w. look s' w = (if b \<and> same_page w v then leaf_entry p f else look s w))"
    and unmap_law: "ok s \<Longrightarrow> v mod PAGE_SIZE = 0 \<Longrightarrow>
      \<exists>s'. unmap_page v s = Inr (look s v AND PTE_PRESENT \<noteq> 0, s') \<and> ok s' \<and>
      (\<forall>w. look s' w = (if same_page w v \<and> look s v AND PTE_PRESENT \<noteq> 0 then 0 else look s w))"
begin

lemma map_twice_refused:
  assumes "ok s" "v mod PAGE_SIZE = 0" "p mod PAGE_SIZE = 0" "q mod PAGE_SIZE = 0"
    and "map_page v p f s = Inr (b, s1)" "map_page v q g s1 = Inr (b', s2)"
  shows "\<not> b' \<and> look s2 = look s1"
  using map_law [OF assms(1-3,5)] map_law [OF _ assms(2,4,6)]
  by (cases b) (auto simp: fun_eq_iff)

lemma map_then_unmap:
  assumes "ok s" "v mod PAGE_SIZE = 0" "p mod PAGE_SIZE = 0" "map_page v p f s = Inr (True, s1)"
  shows "\<exists>s2. unmap_page v s1 = Inr (True, s2) \<and> ok s2 \<and> look s2 v = 0 \<and>
           (\<forall>w. \<not> same_page w v \<longrightarrow> look s2 w = look s w)"
proof -
  note m = map_law [OF assms]
  then have "look s1 v AND PTE_PRESENT \<noteq> 0"
    by simp
  then show ?thesis
    using unmap_law [of s1 v] m assms(2) by auto
qed

lemma map_keeps_mapped:
  assumes "ok s" "v mod PAGE_SIZE = 0" "p mod PAGE_SIZE = 0" "map_page v p f s = Inr (b, s')"
    and "look s w AND PTE_PRESENT \<noteq> 0" "same_page w v \<Longrightarrow> look s w = look s v"
  shows "look s' w = look s w"
proof -
  note m = map_law [OF assms(1-4)]
  then have "\<not> (b \<and> same_page w v)"
    using assms(5,6) by auto
  then show ?thesis
    using m by auto
qed

end

interpretation vmm_space: address_space
  "vmm_mapPage root" "vmm_unmapPage root" "\<lambda>s. pte s root" "\<lambda>s. vm_inv s root" for root
proof unfold_locales
  fix s v p f b s'
  assume "vm_inv s root" "v mod PAGE_SIZE = 0" "p mod PAGE_SIZE = 0"
    "vmm_mapPage root v p f s = Inr (b, s')"
  from mapPage_effect [OF this]
  show "vm_inv s' root \<and> b = (pte s root v AND PTE_PRESENT = 0) \<and>
      (\<forall>w. pte s' root w = (if b \<and> same_page w v then leaf_entry p f else pte s root w))"
    by (simp add: is_mapped_def)
next
  fix s v
  assume "vm_inv s root" "v mod PAGE_SIZE = 0"
  from unmapPage_effect [OF this]
  show "\<exists>s'. vmm_unmapPage root v s = Inr (pte s root v AND PTE_PRESENT \<noteq> 0, s') \<and> vm_inv s' root \<and>
      (\<forall>w. pte s' root w = (if same_page w v \<and> pte s root v AND PTE_PRESENT \<noteq> 0 then 0
         else pte s root w))"
    by (simp add: is_mapped_def)
qed

section \<open>Properties\<close>

text \<open>
  C4. \<^verbatim>\<open>vmm::mapPage\<close> on an aligned page is an update of the abstract address space at
  that page alone: it succeeds exactly when the page was not mapped, installs
  \<^verbatim>\<open>(phys & PTE_ADDR_MASK) | flags | PTE_PRESENT\<close>, and leaves every other translation and
  the tree invariant intact, however many intermediate tables it had to create.
\<close>

theorem vmm_mapPage_correct:
  assumes "vm_inv s root" "virt mod PAGE_SIZE = 0" "phys mod PAGE_SIZE = 0"
    and "vmm_mapPage root virt phys flags s = Inr (ok, s')"
  shows "vm_inv s' root \<and> ok = (\<not> is_mapped s root virt) \<and>
     (\<forall>w. pte s' root w =
        (if ok \<and> same_page w virt then (phys AND PTE_ADDR_MASK) OR flags OR PTE_PRESENT
         else pte s root w))"
  using mapPage_effect [OF assms] by (simp add: leaf_entry_def)

text \<open>Each missing level costs one page, so three free pages are always enough.\<close>

lemma getNextTable_total:
  assumes inv: "vm_inv s root" and p: "node s root p = Some t" "length p \<le> 2"
    and free: "Suc k \<le> card (avail_addrs (vm_pmm s))"
  shows "\<exists>u s'. vmm_getNextTable t i True s = Inr (u, s') \<and> vm_inv s' root \<and> u \<noteq> 0 \<and>
           node s' root (p @ [i]) = Some u \<and> k \<le> card (avail_addrs (vm_pmm s'))"
proof -
  obtain a pm where a: "pmm_allocPage (vm_pmm s) = (a, pm)"
    by (cases "pmm_allocPage (vm_pmm s)")
  have pi: "pmm_inv (vm_pmm s)" using inv by (simp add: vm_inv_def)
  have "avail_addrs (vm_pmm s) \<noteq> {}" using free by auto
  then have "a \<noteq> 0" using pmm_alloc.alloc_zero_iff [OF pi a] by simp
  then have new: "vmm_newTable s = Inr (physicalToVirtual s a, s\<lparr>vm_pmm := pm,
      vm_table := (vm_table s)(physicalToVirtual s a := \<lambda>_. 0)\<rparr>)"
    using a by (simp add: vmm_newTable_def Let_def)
  obtain u s' where g: "vmm_getNextTable t i True s = Inr (u, s')"
    and fin: "vm_pmm s' = vm_pmm s \<or> vm_pmm s' = pm"
  proof (cases "vm_table s t i AND PTE_PRESENT = 0")
    case True
    then show thesis
      using that by (simp add: vmm_getNextTable_def new Let_def)
  next
    case False
    then show thesis
      using that by (simp add: vmm_getNextTable_def Let_def)
  qed
  have sub: "avail_addrs pm = avail_addrs (vm_pmm s) - {a}"
    using pmm_alloc.alloc_keeps_ok [OF pi a] by simp
  from fin have "k \<le> card (avail_addrs (vm_pmm s'))"
  proof
    assume "vm_pmm s' = pm"
    then show ?thesis
      using sub free diff_card_le_card_Diff [of "{a}" "avail_addrs (vm_pmm s)"] by simp
  qed (use free in simp)
  then show ?thesis
    using getNextTable_create [OF inv p g] g by (auto simp: vm_extends_def)
qed

lemma mapPage_total_card:
  assumes "vm_inv s root" "k + 3 \<le> card (avail_addrs (vm_pmm s))"
  shows "\<exists>ok s'. vmm_mapPage root virt phys flags s = Inr (ok, s') \<and> k \<le> card (avail_addrs (vm_pmm s'))"
proof -
  obtain t1 s1 where 1: "vmm_getNextTable root (PML4_INDEX virt) True s = Inr (t1, s1)"
      "vm_inv s1 root" "t1 \<noteq> 0" "node s1 root [PML4_INDEX virt] = Some t1"
      "Suc (Suc k) \<le> card (avail_addrs (vm_pmm s1))"
    using getNextTable_total [OF assms(1), of "[]" root "Suc (Suc k)" "PML4_INDEX virt", unfolded append.simps]
      assms(2) by (force simp del: node.simps simp: node.simps(1))
  obtain t2 s2 where 2: "vmm_getNextTable t1 (PDPT_INDEX virt) True s1 = Inr (t2, s2)"
      "vm_inv s2 root" "t2 \<noteq> 0" "node s2 root [PML4_INDEX virt, PDPT_INDEX virt] = Some t2"
      "Suc k \<le> card (avail_addrs (vm_pmm s2))"
    using getNextTable_total [OF 1(2,4) _ 1(5), of "PDPT_INDEX virt"]
    by (force simp del: node.simps)
  obtain t3 s3 where 3: "vmm_getNextTable t2 (PD_INDEX virt) True s2 = Inr (t3, s3)" "t3 \<noteq> 0"
      "k \<le> card (avail_addrs (vm_pmm s3))"
    using getNextTable_total [OF 2(2,4) _ 2(5), of "PD_INDEX virt"]
    by (force simp del: node.simps)
  have "vmm_getPte root virt True s = Inr (Some (t3, PT_INDEX virt), s3)"
    using 1(1,3) 2(1,3) 3 by (simp add: vmm_getPte_def)
  then show ?thesis
    using 3(3) assms(2) unfolding vmm_mapPage_def
    by (cases "virt mod PAGE_SIZE \<noteq> 0 \<or> phys mod PAGE_SIZE \<noteq> 0";
        cases "vm_table s3 t3 (PT_INDEX virt) AND PTE_PRESENT \<noteq> 0") auto
qed

lemma mapPage_total:
  "vm_inv s root \<Longrightarrow> 3 \<le> card (avail_addrs (vm_pmm s)) \<Longrightarrow>
   \<exists>ok s'. vmm_mapPage root virt phys flags s = Inr (ok, s')"
  using mapPage_total_card [of s root 0] by auto

text \<open>
  \<^verbatim>\<open>vmm::mapPage\<close> never panics while three physical pages are free, and it uses up
  at most three: the \<^verbatim>\<open>ASSERT\<close> of \<^verbatim>\<open>newTable\<close> is reached only when memory
  runs out.
\<close>

theorem vmm_mapPage_no_panic:
  assumes "vm_inv s root" "k + 3 \<le> card (avail_addrs (vm_pmm s))"
  shows "\<exists>ok s'. vmm_mapPage root virt phys flags s = Inr (ok, s') \<and>
           k \<le> card (avail_addrs (vm_pmm s'))"
  by (rule mapPage_total_card [OF assms])

lemma drop_bit_page: "drop_bit 12 v = drop_bit 12 w \<Longrightarrow> same_page v w"
proof -
  assume "drop_bit 12 v = drop_bit 12 w"
  moreover have "drop_bit (12 + k) x = drop_bit k (drop_bit 12 x)" for k and x :: u64
    by (simp add: drop_bit_drop_bit add.commute)
  ultimately have "drop_bit (12 + k) v = drop_bit (12 + k) w" for k
    by (metis (no_types))
  from this [of 27] this [of 18] this [of 9] this [of 0] show ?thesis
    by (simp add: same_page_def path_of_def PML4_INDEX_def PDPT_INDEX_def PD_INDEX_def PT_INDEX_def)
qed

lemma page_offset:
  assumes "virt mod PAGE_SIZE = 0" "unat off < 4096"
  shows "same_page (virt + off) virt" "(virt + off) AND 0xFFF = off"
proof -
  have a: "unat virt mod 4096 = 0"
    using arg_cong [OF assms(1), of unat] by (simp add: unat_mod)
  then obtain k where k: "unat virt = 4096 * k"
    by auto
  have "unat virt + unat off < 2 ^ 64"
    using assms(2) unsigned_less [of virt, where ?'a = nat] k by simp
  then have u: "unat (virt + off) = unat virt + unat off"
    by (simp add: unat_add_fits)
  have "unat (virt + off) div 2 ^ 12 = unat virt div 2 ^ 12"
    unfolding u using a assms(2) by (simp add: div_add1_eq)
  then have "drop_bit 12 (virt + off) = drop_bit 12 virt"
    by (intro unat_eqI) (simp add: unat_drop_bit_eq drop_bit_eq_div unat_div)
  then show "same_page (virt + off) virt"
    by (rule drop_bit_page)
  have "(virt + off) AND 0xFFF = (virt + off) mod 4096"
    using take_bit_eq_mod [of 12 "virt + off"] take_bit_eq_mask [of 12 "virt + off"]
    by (simp add: mask_eq_exp_minus_1)
  also have "\<dots> = off"
    by (rule unat_eqI) (use a assms(2) in \<open>simp add: unat_mod u mod_add_eq [symmetric] mod_add_left_eq\<close>)
  finally show "(virt + off) AND 0xFFF = off" .
qed

text \<open>
  C5. Translation agrees with mapping: after \<^verbatim>\<open>mapPage\<close> mapped \<open>virt\<close> to
  \<open>phys\<close>, every byte of the page translates to the byte at the same offset of \<open>phys\<close>, provided the
  flags leave the address bits alone; and once \<^verbatim>\<open>unmapPage\<close> removed the page it
  translates to 0.
\<close>

theorem vmm_translate_after_map:
  assumes "vm_inv s root" "virt mod PAGE_SIZE = 0" "phys mod PAGE_SIZE = 0" "unat phys < 2 ^ 52"
    and "flags AND PTE_ADDR_MASK = 0" "unat off < 4096"
    and "vmm_mapPage root virt phys flags s = Inr (True, s')"
  shows "vmm_virtToPhysical root (virt + off) s' = Inr (phys + off) \<and>
         (\<exists>s''. vmm_unmapPage root virt s' = Inr (True, s'') \<and>
                vmm_virtToPhysical root (virt + off) s'' = Inr 0)"
proof -
  note m = mapPage_effect [OF assms(1-3,7)]
  note po = page_offset [OF assms(2,6)]
  have inv': "vm_inv s' root" using m by simp
  have e: "pte s' root (virt + off) = leaf_entry phys flags" "pte s' root virt = leaf_entry phys flags"
    using m po(1) by auto
  have "phys mod 4096 = 0" using assms(3) by (simp add: PAGE_SIZE_def)
  then have "leaf_entry phys flags AND PTE_ADDR_MASK = phys"
    using assms(4,5) mask_page_address [of phys]
    by (simp add: leaf_entry_def bit.conj_disj_distrib2 PTE_PRESENT_def) (simp add: PTE_ADDR_MASK_def)
  then have t: "vmm_virtToPhysical root (virt + off) s' = Inr (phys + off)"
    using virtToPhysical_effect [OF inv', of "virt + off"] e po(2) by (simp add: is_mapped_def)
  obtain s'' where "vmm_unmapPage root virt s' = Inr (True, s'')" "vm_inv s'' root"
      "\<forall>w. pte s'' root w = (if same_page w virt then 0 else pte s' root w)"
    using unmapPage_effect [OF inv' assms(2)] e(2) by (auto simp: is_mapped_def)
  then show ?thesis
    using t virtToPhysical_effect [of s'' root "virt + off"] po(1) by (auto simp: is_mapped_def)
qed

lemma same_page_pte: "same_page w v \<Longrightarrow> pte s root w = pte s root v"
  unfolding pte_def same_page_def by (clarsimp split: option.splits)

lemma next_page_aligned:
  assumes "v mod PAGE_SIZE = 0"
  shows "(v + PAGE_SIZE) mod PAGE_SIZE = 0"
proof -
  have "unat v mod 4096 = 0"
    using arg_cong [OF assms, of unat] by (simp add: unat_mod PAGE_SIZE_def)
  then have "(unat v + 4096) mod 2 ^ 64 mod 4096 = 0"
    by (simp add: mod_mod_cancel)
  then have "unat ((v + PAGE_SIZE) mod PAGE_SIZE) = 0"
    by (simp add: unat_mod unat_word_ariths PAGE_SIZE_def)
  then show ?thesis
    by (simp only: unat_eq_0)
qed

lemma next_page: "v + of_nat (Suc k) * PAGE_SIZE = (v + PAGE_SIZE) + of_nat k * PAGE_SIZE"
  by (simp add: algebra_simps)

lemma same_page_bits:
  assumes "same_page v w" "12 \<le> n" "n < 48"
  shows "bit v n = bit w n"
proof -
  have b: "bit (drop_bit k x AND 0x1FF) i = bit x (k + i)" if "i < 9" for k i and x :: u64
  proof -
    have m: "(0x1FF :: u64) = mask 9" by (simp add: mask_eq_exp_minus_1)
    show ?thesis
      unfolding m using that by (simp only: bit_simps) (auto dest: bit_imp_le_length)
  qed
  have eq: "PML4_INDEX v = PML4_INDEX w" "PDPT_INDEX v = PDPT_INDEX w" "PD_INDEX v = PD_INDEX w"
      "PT_INDEX v = PT_INDEX w"
    using assms(1) by (simp_all add: same_page_def path_of_def)
  consider "n - 12 < 9" | "12 \<le> n - 9" "n - 21 < 9" "21 \<le> n" | "n - 30 < 9" "30 \<le> n" | "n - 39 < 9" "39 \<le> n"
    using assms(2,3) by linarith
  then show ?thesis
  proof cases
    case 1 then show ?thesis
      using b [of "n - 12" 12 v] b [of "n - 12" 12 w] eq(4) assms(2) by (simp add: PT_INDEX_def)
  next
    case 2 then show ?thesis
      using b [of "n - 21" 21 v] b [of "n - 21" 21 w] eq(3) by (simp add: PD_INDEX_def)
  next
    case 3 then show ?thesis
      using b [of "n - 30" 30 v] b [of "n - 30" 30 w] eq(2) by (simp add: PDPT_INDEX_def)
  next
    case 4 then show ?thesis
      using b [of "n - 39" 39 v] b [of "n - 39" 39 w] eq(1) by (simp add: PML4_INDEX_def)
  qed
qed

text \<open>Two pages less than \<open>2\<^sup>3\<^sup>6\<close> apart do not share an entry.\<close>

lemma distinct_pages:
  assumes "0 < k" "k < 2 ^ 36"
  shows "\<not> same_page (v + of_nat k * PAGE_SIZE) v"
proof
  assume same: "same_page (v + of_nat k * PAGE_SIZE) v"
  let ?w = "v + of_nat k * PAGE_SIZE"
  have uk: "unat (of_nat k * PAGE_SIZE) = k * 4096"
  proof -
    have "k < 2 ^ 64" using assms(2) by (rule less_trans) simp
    then have "unat (of_nat k :: u64) = k" by (simp add: unat_of_nat_fits)
    moreover have "k * 4096 < 2 ^ 64" using assms(2) by simp
    ultimately show ?thesis by (simp add: unat_word_ariths PAGE_SIZE_def)
  qed
  have "take_bit 36 (drop_bit 12 ?w) = take_bit 36 (drop_bit 12 v)"
    by (rule bit_eqI) (auto simp: bit_simps same_page_bits [OF same])
  from arg_cong [OF this, of unat]
  have "unat ?w div 4096 mod 2 ^ 36 = unat v div 4096 mod 2 ^ 36"
    by (simp add: take_bit_eq_mod drop_bit_eq_div unat_mod unat_div)
  moreover have "unat ?w = (unat v + k * 4096) mod 2 ^ 64"
    by (simp add: unat_word_ariths(1) uk)
  ultimately have "(unat v + k * 4096) mod 2 ^ 64 div 4096 mod 2 ^ 36 = unat v div 4096 mod 2 ^ 36"
    by simp
  moreover have "x mod 2 ^ 64 div 4096 mod 2 ^ 36 = x div 4096 mod 2 ^ 36" for x :: nat
  proof -
    have "x mod (4096 * 2 ^ 52) = 4096 * (x div 4096 mod 2 ^ 52) + x mod 4096"
      by (rule mod_mult2_eq)
    then show ?thesis by (simp add: mod_mod_cancel)
  qed
  ultimately have "(unat v div 4096 + k) mod 2 ^ 36 = unat v div 4096 mod 2 ^ 36"
    by (simp add: add.commute)
  then show False
    using assms by (metis add.commute add.right_neutral diff_add_inverse mod_eq_dvd_iff_nat le_add1
        dvd_imp_le linorder_not_less)
qed

lemma same_page_trans: "same_page u v \<Longrightarrow> same_page v w \<Longrightarrow> same_page u w"
  by (simp add: same_page_def)

text \<open>
  A range is mapped page by page until the first page that is mapped already; what was mapped
  before that page stays.
\<close>

lemma mapRange_loop_effect:
  assumes "vm_inv s root" "v mod PAGE_SIZE = 0" "p mod PAGE_SIZE = 0" "n \<le> 2 ^ 36"
    and "mapRange_loop n root v p f s = Inr (ok, s')"
  shows "vm_inv s' root \<and> (\<exists>j \<le> n. ok = (j = n) \<and>
     (j < n \<longrightarrow> is_mapped s root (v + of_nat j * PAGE_SIZE)) \<and>
     (\<forall>k < j. \<not> is_mapped s root (v + of_nat k * PAGE_SIZE)) \<and>
     (\<forall>k < j. \<forall>w. same_page w (v + of_nat k * PAGE_SIZE) \<longrightarrow>
         pte s' root w = leaf_entry (p + of_nat k * PAGE_SIZE) f) \<and>
     (\<forall>w. (\<forall>k < j. \<not> same_page w (v + of_nat k * PAGE_SIZE)) \<longrightarrow> pte s' root w = pte s root w))"
  using assms
proof (induction n arbitrary: v p s)
  case 0
  then show ?case by simp
next
  case (Suc n)
  obtain b s1 where m: "vmm_mapPage root v p f s = Inr (b, s1)"
    using Suc.prems(5) by (auto split: sum.splits)
  note e = mapPage_effect [OF Suc.prems(1-3) m]
  show ?case
  proof (cases b)
    case False
    then have "ok = False" "s' = s1" using Suc.prems(5) m by simp_all
    then show ?thesis
      using e False by (intro conjI exI [of _ 0]) auto
  next
    case True
    then have loop: "mapRange_loop n root (v + PAGE_SIZE) (p + PAGE_SIZE) f s1 = Inr (ok, s')"
      using Suc.prems(5) m by simp
    have inv1: "vm_inv s1 root" and nm: "\<not> is_mapped s root v" using e True by simp_all
    obtain j where j: "vm_inv s' root" "j \<le> n" "ok = (j = n)"
      "j < n \<longrightarrow> is_mapped s1 root (v + PAGE_SIZE + of_nat j * PAGE_SIZE)"
      "\<And>k. k < j \<Longrightarrow> \<not> is_mapped s1 root (v + PAGE_SIZE + of_nat k * PAGE_SIZE)"
      "\<And>k w. k < j \<Longrightarrow> same_page w (v + PAGE_SIZE + of_nat k * PAGE_SIZE) \<Longrightarrow>
         pte s' root w = leaf_entry (p + PAGE_SIZE + of_nat k * PAGE_SIZE) f"
      "\<And>w. (\<And>k. k < j \<Longrightarrow> \<not> same_page w (v + PAGE_SIZE + of_nat k * PAGE_SIZE)) \<Longrightarrow>
         pte s' root w = pte s1 root w"
      using Suc.IH [OF inv1 next_page_aligned [OF Suc.prems(2)] next_page_aligned [OF Suc.prems(3)] _ loop]
        Suc.prems(4) by auto
    have far: "\<not> same_page (v + of_nat (Suc k) * PAGE_SIZE) v" if "k < n" for k
      by (rule distinct_pages) (use that Suc.prems(4) in auto)
    have p1: "pte s1 root w = (if same_page w v then leaf_entry p f else pte s root w)" for w
      using e True by simp
    have old: "is_mapped s1 root (v + of_nat (Suc k) * PAGE_SIZE) =
        is_mapped s root (v + of_nat (Suc k) * PAGE_SIZE)" if "k < n" for k
      using p1 far [OF that] unfolding is_mapped_def by simp
    have "Suc j \<le> Suc n" "ok = (Suc j = Suc n)" using j(2,3) by simp_all
    moreover have "Suc j < Suc n \<longrightarrow> is_mapped s root (v + of_nat (Suc j) * PAGE_SIZE)"
      using j(4) old [of j] unfolding next_page by simp
    moreover have "\<not> is_mapped s root (v + of_nat k * PAGE_SIZE)" if "k < Suc j" for k
    proof (cases k)
      case 0 then show ?thesis using nm by simp
    next
      case (Suc k')
      then show ?thesis using j(2) j(5) [of k'] old [of k'] that unfolding Suc next_page by simp
    qed
    moreover have "pte s' root w = leaf_entry (p + of_nat k * PAGE_SIZE) f"
      if "k < Suc j" "same_page w (v + of_nat k * PAGE_SIZE)" for k w
    proof (cases k)
      case 0
      have "\<not> same_page w (v + PAGE_SIZE + of_nat i * PAGE_SIZE)" if "i < j" for i
      proof
        assume "same_page w (v + PAGE_SIZE + of_nat i * PAGE_SIZE)"
        then have "same_page (v + of_nat (Suc i) * PAGE_SIZE) w"
          unfolding next_page by (simp only: same_page_sym)
        moreover have "same_page w v"
          using \<open>same_page w (v + of_nat k * PAGE_SIZE)\<close> 0 by simp
        ultimately have "same_page (v + of_nat (Suc i) * PAGE_SIZE) v"
          by (rule same_page_trans)
        then show False
          using far [of i] that j(2) by simp
      qed
      then show ?thesis using j(7) p1 0 that by simp
    next
      case (Suc k')
      then show ?thesis using j(6) [of k' w] that unfolding Suc next_page by simp
    qed
    moreover have "pte s' root w = pte s root w"
      if "\<forall>k < Suc j. \<not> same_page w (v + of_nat k * PAGE_SIZE)" for w
    proof -
      have "\<not> same_page w (v + PAGE_SIZE + of_nat i * PAGE_SIZE)" if "i < j" for i
        using \<open>\<forall>k < Suc j. _ k\<close> [rule_format, of "Suc i"] that unfolding next_page by simp
      moreover have "\<not> same_page w v" using that [rule_format, of 0] by simp
      ultimately show ?thesis using j(7) p1 by simp
    qed
    ultimately show ?thesis using j(1) by blast
  qed
qed

text \<open>
  \<^verbatim>\<open>vmm::mapRange\<close> maps consecutive pages until the first one that is mapped
  already (index \<open>j\<close>): it reports success exactly when none was, the pages before \<open>j\<close> then
  translate to consecutive frames, also when the call fails (nothing is rolled back), and every other
  translation is unchanged.
\<close>

theorem vmm_mapRange_correct:
  assumes "vm_inv s root" "virt mod PAGE_SIZE = 0" "phys mod PAGE_SIZE = 0"
    and "n = unat ((sz + PAGE_SIZE - 1) div PAGE_SIZE)" "n \<le> 2 ^ 36"
    and "vmm_mapRange root virt phys sz flags s = Inr (ok, s')"
  shows "vm_inv s' root \<and> (\<exists>j \<le> n. ok = (j = n) \<and>
     (j < n \<longrightarrow> is_mapped s root (virt + of_nat j * PAGE_SIZE)) \<and>
     (\<forall>k < j. \<not> is_mapped s root (virt + of_nat k * PAGE_SIZE)) \<and>
     (\<forall>k < j. \<forall>w. same_page w (virt + of_nat k * PAGE_SIZE) \<longrightarrow>
         pte s' root w = leaf_entry (phys + of_nat k * PAGE_SIZE) flags) \<and>
     (\<forall>w. (\<forall>k < j. \<not> same_page w (virt + of_nat k * PAGE_SIZE)) \<longrightarrow> pte s' root w = pte s root w))"
  using assms mapRange_loop_effect [of s root virt phys n flags ok s'] by (simp add: vmm_mapRange_def)

section \<open>Fresh frames\<close>

text \<open>The invariant does not mind the allocator losing pages, or getting back one that holds no table.\<close>

lemma node_set_pmm [simp]: "node (s\<lparr>vm_pmm := pm\<rparr>) root q = node s root q"
  by (induction s root q rule: node.induct)
     (auto simp: next_table_def physicalToVirtual_def split: option.splits)

lemma set_pmm_simps [simp]:
  "pte (s\<lparr>vm_pmm := pm\<rparr>) root v = pte s root v"
  "is_mapped (s\<lparr>vm_pmm := pm\<rparr>) root v = is_mapped s root v"
  "physicalToVirtual (s\<lparr>vm_pmm := pm\<rparr>) = physicalToVirtual s"
  "virtualToPhysicalHHDM (s\<lparr>vm_pmm := pm\<rparr>) = virtualToPhysicalHHDM s"
  by (auto simp: pte_def is_mapped_def physicalToVirtual_def virtualToPhysicalHHDM_def
      split: option.splits)

lemma vm_inv_shrink:
  assumes "vm_inv s root" "pmm_inv pm" "avail_addrs pm \<subseteq> avail_addrs (vm_pmm s)"
    and "totalPages pm = totalPages (vm_pmm s)"
  shows "vm_inv (s\<lparr>vm_pmm := pm\<rparr>) root"
proof -
  have nd: "t \<noteq> 0 \<and> virtualToPhysicalHHDM s t \<notin> avail_addrs pm"
    if "length p \<le> 3" "node s root p = Some t" for p t
    using vm_inv_node [OF assms(1) that] assms(3) by blast
  have "\<forall>a \<in> avail_addrs pm. physicalToVirtual s a \<noteq> 0"
    using assms(1,3) unfolding vm_inv_def by blast
  moreover have "unat (totalPages pm) \<le> 2 ^ 40"
    using assms(1,4) by (simp add: vm_inv_def)
  ultimately show ?thesis
    unfolding vm_inv_def node_set_pmm set_pmm_simps
    using assms(2) nd vm_inv_inj [OF assms(1)] by simp
qed

lemma vm_inv_give_back:
  assumes "vm_inv s root" "pmm_inv pm" "avail_addrs pm = insert a (avail_addrs (vm_pmm s))"
    and "totalPages pm = totalPages (vm_pmm s)" "physicalToVirtual s a \<noteq> 0"
    and "\<And>p t. length p \<le> 3 \<Longrightarrow> node s root p = Some t \<Longrightarrow> virtualToPhysicalHHDM s t \<noteq> a"
  shows "vm_inv (s\<lparr>vm_pmm := pm\<rparr>) root"
proof -
  have nd: "t \<noteq> 0 \<and> virtualToPhysicalHHDM s t \<notin> avail_addrs pm"
    if "length p \<le> 3" "node s root p = Some t" for p t
    using vm_inv_node [OF assms(1) that] assms(3) assms(6) [OF that] by blast
  have "\<forall>b \<in> avail_addrs pm. physicalToVirtual s b \<noteq> 0"
    using assms(1,5) unfolding vm_inv_def assms(3) by blast
  moreover have "unat (totalPages pm) \<le> 2 ^ 40"
    using assms(1,4) by (simp add: vm_inv_def)
  ultimately show ?thesis
    unfolding vm_inv_def node_set_pmm set_pmm_simps
    using assms(2) nd vm_inv_inj [OF assms(1)] by simp
qed

lemma map_fresh_page:
  assumes inv: "vm_inv s root" and a: "pmm_allocPage (vm_pmm s) = (phys, pm)" "phys \<noteq> 0"
    and v: "v mod PAGE_SIZE = 0" and m: "vmm_mapPage root v phys f (s\<lparr>vm_pmm := pm\<rparr>) = Inr (ok, s')"
  shows "vm_inv s' root" "ok = (\<not> is_mapped s root v)" "vm_kernelPML4 s' = vm_kernelPML4 s"
    "pte s' root w = (if ok \<and> same_page w v then leaf_entry phys f else pte s root w)"
    "\<exists>pm'. pmm_freePage phys (vm_pmm s') = Inr pm' \<and> vm_inv (s'\<lparr>vm_pmm := pm'\<rparr>) root"
proof -
  have pi: "pmm_inv (vm_pmm s)" using inv by (simp add: vm_inv_def)
  note f = pmm_alloc.alloc_fresh [OF pi a]
  have "totalPages pm = totalPages (vm_pmm s)"
    using allocPage_totalPages [OF _ a(1)] pi by (simp add: pmm_inv_def)
  then have inv1: "vm_inv (s\<lparr>vm_pmm := pm\<rparr>) root"
    by (rule vm_inv_shrink [OF inv f(5,4)])
  have "phys mod PAGE_SIZE = 0" using f(2) by (simp add: PAGE_SIZE_def)
  note e = mapPage_effect [OF inv1 v this m, simplified]
  show inv': "vm_inv s' root" and "ok = (\<not> is_mapped s root v)"
    "vm_kernelPML4 s' = vm_kernelPML4 s"
    "pte s' root w = (if ok \<and> same_page w v then leaf_entry phys f else pte s root w)"
    using e by auto
  have pi': "pmm_inv (vm_pmm s')" using inv' by (simp add: vm_inv_def)
  have "phys \<in> managed_addrs (vm_pmm s')"
    using f(1) pmm_alloc.avail_managed [OF pi] e \<open>totalPages pm = _\<close> by (auto simp: managed_addrs_def)
  moreover have na: "phys \<notin> avail_addrs (vm_pmm s')" using e f(3) by blast
  ultimately obtain pm' where pm': "pmm_freePage phys (vm_pmm s') = Inr pm'" "pmm_inv pm'"
      "avail_addrs pm' = insert phys (avail_addrs (vm_pmm s'))" "managed_addrs pm' = managed_addrs (vm_pmm s')"
    using pmm_alloc.release_ok [OF pi'] by blast
  have "totalPages pm' = totalPages (vm_pmm s')"
    using pm'(1) by (auto simp: pmm_freePage_def Let_def pmm_simps split: if_splits)
  moreover have "physicalToVirtual s' phys \<noteq> 0"
    using inv f(1) e by (simp add: vm_inv_def physicalToVirtual_def)
  moreover have "virtualToPhysicalHHDM s' t \<noteq> phys" if "length p \<le> 3" "node s' root p = Some t" for p t
    using e that f(1,3) vm_inv_node [OF inv that(1), of t] unfolding virtualToPhysicalHHDM_def by metis
  ultimately have "vm_inv (s'\<lparr>vm_pmm := pm'\<rparr>) root"
    by (intro vm_inv_give_back [OF inv' pm'(2,3)])
  then show "\<exists>pm'. pmm_freePage phys (vm_pmm s') = Inr pm' \<and> vm_inv (s'\<lparr>vm_pmm := pm'\<rparr>) root"
    using pm'(1) by blast
qed

end
