(* ===== verification/Kheap.thy ===== *)
theory Kheap
  imports Vmm
begin

text \<open>
  The kernel heap, \<^verbatim>\<open>kernel/core/memory/heap.cpp\<close> with
  \<^verbatim>\<open>memory::heap\<close> of \<^verbatim>\<open>include/kernel/memory.h\<close>: a doubly linked
  list of block headers that tile the heap range, first-fit allocation with splitting, coalescing
  release, reallocation, and growth by mapping fresh pages. The headers behind pointers are
  \<open>h_blk\<close>, the payload bytes \<open>h_bytes\<close>; a header that was merged away keeps its stale content.
\<close>

section \<open>State\<close>

record heap_block =
  hb_magic :: u64
  hb_size :: u64
  hb_free :: bool
  hb_next :: virtAddr
  hb_prev :: virtAddr

definition HEAP_MAGIC :: u64 where "HEAP_MAGIC = 0xC0FFEE1234567890"
definition KERNEL_HEAP_START :: u64 where "KERNEL_HEAP_START = 0xFFFFA00000000000"
definition KERNEL_HEAP_INITIAL_SIZE :: u64 where "KERNEL_HEAP_INITIAL_SIZE = 16 * 4096"
definition KERNEL_HEAP_MAX_SIZE :: u64 where "KERNEL_HEAP_MAX_SIZE = 64 * 1024 * 1024"

text \<open>\<^verbatim>\<open>sizeof(HeapBlock)\<close>: five fields of 40 bytes, \<^verbatim>\<open>alignas(16)\<close>.\<close>

definition HEADER :: u64 where "HEADER = 48"

record heap =
  h_vm :: kmem
  h_blk :: "virtAddr \<Rightarrow> heap_block"
  h_bytes :: "virtAddr \<Rightarrow> u8"
  h_head :: virtAddr
  heapStart :: virtAddr
  heapEnd :: virtAddr
  heapMax :: virtAddr
  usedMemory :: u64
  freeMemory :: u64

definition set_blk :: "virtAddr \<Rightarrow> heap_block \<Rightarrow> heap \<Rightarrow> heap" where
  "set_blk a b h = h\<lparr>h_blk := (h_blk h)(a := b)\<rparr>"

abbreviation blk :: "heap \<Rightarrow> virtAddr \<Rightarrow> heap_block" where
  "blk h a \<equiv> h_blk h a"

section \<open>Operations\<close>

definition heap_splitBlock :: "virtAddr \<Rightarrow> u64 \<Rightarrow> heap \<Rightarrow> heap" where
  "heap_splitBlock block sz h =
     (let remaining = hb_size (blk h block) - sz in
      if remaining \<le> HEADER + 16 then h
      else
        let newBlock = block + HEADER + sz;
            next = hb_next (blk h block);
            h = set_blk newBlock \<lparr>hb_magic = HEAP_MAGIC, hb_size = remaining - HEADER,
                  hb_free = True, hb_next = next, hb_prev = block\<rparr> h;
            h = (if next \<noteq> 0 then set_blk next ((blk h next)\<lparr>hb_prev := newBlock\<rparr>) h else h);
            h = set_blk block ((blk h block)\<lparr>hb_next := newBlock\<rparr>) h
        in set_blk block ((blk h block)\<lparr>hb_size := sz\<rparr>) h)"

definition heap_mergeWithNext :: "virtAddr \<Rightarrow> heap \<Rightarrow> heap" where
  "heap_mergeWithNext block h =
     (let next = hb_next (blk h block) in
      if next = 0 \<or> \<not> hb_free (blk h next) then h
      else
        let h = set_blk block ((blk h block)
                  \<lparr>hb_size := hb_size (blk h block) + (HEADER + hb_size (blk h next))\<rparr>) h;
            h = set_blk block ((blk h block)\<lparr>hb_next := hb_next (blk h next)\<rparr>) h;
            n2 = hb_next (blk h block)
        in if n2 \<noteq> 0 then set_blk n2 ((blk h n2)\<lparr>hb_prev := block\<rparr>) h else h)"

text \<open>
  List walks carry fuel; 64 MiB of heap hold fewer than \<open>2\<^sup>2\<^sup>1\<close> headers, so with \<open>heap_fuel\<close> the
  walk over an intact list always reaches its end.
\<close>

definition heap_fuel :: nat where "heap_fuel = 2 ^ 21"

fun find_free :: "nat \<Rightarrow> u64 \<Rightarrow> virtAddr \<Rightarrow> heap \<Rightarrow> virtAddr result" where
  "find_free 0 sz current h = (if current = 0 then Inr 0 else Inl Diverges)"
| "find_free (Suc n) sz current h =
     (if current = 0 then Inr 0
      else if hb_free (blk h current) \<and> sz \<le> hb_size (blk h current) then Inr current
      else find_free n sz (hb_next (blk h current)) h)"

definition heap_findFreeBlock :: "u64 \<Rightarrow> heap \<Rightarrow> virtAddr result" where
  "heap_findFreeBlock sz h = find_free heap_fuel sz (h_head h) h"

fun expand_pages :: "nat \<Rightarrow> u64 \<Rightarrow> heap \<Rightarrow> (bool \<times> heap) result" where
  "expand_pages 0 offset h = Inr (True, h)"
| "expand_pages (Suc n) offset h =
     (case pmm_allocPage (vm_pmm (h_vm h)) of (phys, pm) \<Rightarrow>
        let vm = (h_vm h)\<lparr>vm_pmm := pm\<rparr> in
        if phys = 0 then Inr (False, h\<lparr>h_vm := vm\<rparr>)
        else case vmm_mapPage (vmm_getKernelPml4 vm) (heapEnd h + offset) phys FlagWritable vm of
            Inl e \<Rightarrow> Inl e
          | Inr (ok, vm) \<Rightarrow>
              if \<not> ok then
                (case pmm_freePage phys (vm_pmm vm) of
                   Inl e \<Rightarrow> Inl e
                 | Inr pm \<Rightarrow> Inr (False, h\<lparr>h_vm := vm\<lparr>vm_pmm := pm\<rparr>\<rparr>))
              else expand_pages n (offset + 4096) (h\<lparr>h_vm := vm\<rparr>))"

fun last_block :: "nat \<Rightarrow> virtAddr \<Rightarrow> heap \<Rightarrow> virtAddr result" where
  "last_block 0 current h = Inl Diverges"
| "last_block (Suc n) current h =
     (if hb_next (blk h current) = 0 then Inr current
      else last_block n (hb_next (blk h current)) h)"

text \<open>The part of \<^verbatim>\<open>expandHeap\<close> after the pages are mapped: the new block joins the list.\<close>

definition append_block :: "u64 \<Rightarrow> heap \<Rightarrow> heap result" where
  "append_block sz h =
     (let newBlock = heapEnd h;
          h = set_blk newBlock \<lparr>hb_magic = HEAP_MAGIC, hb_size = sz - HEADER, hb_free = True,
                hb_next = 0, hb_prev = 0\<rparr> h
      in if h_head h = 0 then Inr (h\<lparr>h_head := newBlock\<rparr>)
         else case last_block heap_fuel (h_head h) h of
             Inl e \<Rightarrow> Inl e
           | Inr lst \<Rightarrow>
               let h = set_blk lst ((blk h lst)\<lparr>hb_next := newBlock\<rparr>) h;
                   h = set_blk newBlock ((blk h newBlock)\<lparr>hb_prev := lst\<rparr>) h
               in Inr (if hb_free (blk h lst) then heap_mergeWithNext lst h else h))"

definition heap_expandHeap :: "u64 \<Rightarrow> heap \<Rightarrow> (bool \<times> heap) result" where
  "heap_expandHeap size0 h =
     (let sz = alignUp size0 4096 in
      if heapMax h < heapEnd h + sz then Inr (False, h)
      else case expand_pages (unat (sz div 4096)) 0 h of
          Inl e \<Rightarrow> Inl e
        | Inr (ok, h) \<Rightarrow>
            if \<not> ok then Inr (False, h)
            else case append_block sz h of
                Inl e \<Rightarrow> Inl e
              | Inr h \<Rightarrow> Inr (True, h\<lparr>heapEnd := heapEnd h + sz,
                                freeMemory := freeMemory h + (sz - HEADER)\<rparr>))"

definition heap_init :: "heap \<Rightarrow> heap result" where
  "heap_init h =
     (case heap_expandHeap KERNEL_HEAP_INITIAL_SIZE
        (h\<lparr>h_head := 0, heapStart := KERNEL_HEAP_START, heapEnd := KERNEL_HEAP_START,
           heapMax := KERNEL_HEAP_START + KERNEL_HEAP_MAX_SIZE, usedMemory := 0, freeMemory := 0\<rparr>) of
        Inl e \<Rightarrow> Inl e
      | Inr (ok, h) \<Rightarrow> if ok then Inr h else Inl AssertFailed)"

text \<open>The tail of \<^verbatim>\<open>allocate\<close> once a free block has been found.\<close>

definition take_block :: "virtAddr \<Rightarrow> u64 \<Rightarrow> heap \<Rightarrow> virtAddr \<times> heap" where
  "take_block block sz h =
     (let h = heap_splitBlock block sz h;
          h = set_blk block ((blk h block)\<lparr>hb_free := False\<rparr>) h;
          h = h\<lparr>usedMemory := usedMemory h + hb_size (blk h block)\<rparr>;
          h = h\<lparr>freeMemory := freeMemory h - hb_size (blk h block)\<rparr>
      in (block + HEADER, h))"

definition heap_allocate :: "u64 \<Rightarrow> heap \<Rightarrow> (virtAddr \<times> heap) result" where
  "heap_allocate size0 h =
     (if size0 = 0 then Inr (0, h)
      else let sz = alignUp size0 16 in
        case heap_findFreeBlock sz h of
          Inl e \<Rightarrow> Inl e
        | Inr block \<Rightarrow>
            if block \<noteq> 0 then Inr (take_block block sz h)
            else
              let expandSize = sz + HEADER;
                  expandSize = (if expandSize < 4096 then 4096 else expandSize)
              in case heap_expandHeap expandSize h of
                  Inl e \<Rightarrow> Inl e
                | Inr (ok, h) \<Rightarrow>
                    if \<not> ok then Inr (0, h)
                    else case heap_findFreeBlock sz h of
                        Inl e \<Rightarrow> Inl e
                      | Inr block \<Rightarrow> if block = 0 then Inr (0, h) else Inr (take_block block sz h))"

definition heap_free :: "virtAddr \<Rightarrow> heap \<Rightarrow> heap result" where
  "heap_free ptr h =
     (if ptr = 0 then Inr h
      else let block = ptr - HEADER in
        if hb_magic (blk h block) \<noteq> HEAP_MAGIC then Inl AssertFailed
        else if hb_free (blk h block) then Inl AssertFailed
        else
          let h = set_blk block ((blk h block)\<lparr>hb_free := True\<rparr>) h;
              h = h\<lparr>usedMemory := usedMemory h - hb_size (blk h block)\<rparr>;
              h = h\<lparr>freeMemory := freeMemory h + hb_size (blk h block)\<rparr>;
              h = (if hb_next (blk h block) \<noteq> 0 \<and> hb_free (blk h (hb_next (blk h block)))
                   then heap_mergeWithNext block h else h)
          in Inr (if hb_prev (blk h block) \<noteq> 0 \<and> hb_free (blk h (hb_prev (blk h block)))
                  then heap_mergeWithNext (hb_prev (blk h block)) h else h))"

definition heap_realloc :: "virtAddr \<Rightarrow> u64 \<Rightarrow> heap \<Rightarrow> (virtAddr \<times> heap) result" where
  "heap_realloc ptr newSize h =
     (if ptr = 0 then heap_allocate newSize h
      else if newSize = 0 then Inl AssertFailed
      else let block = ptr - HEADER in
        if hb_magic (blk h block) \<noteq> HEAP_MAGIC then Inl AssertFailed
        else if newSize \<le> hb_size (blk h block) then Inr (ptr, h)
        else case heap_allocate newSize h of
            Inl e \<Rightarrow> Inl e
          | Inr (newPtr, h) \<Rightarrow>
              if newPtr = 0 then Inr (0, h)
              else case heap_free ptr (h\<lparr>h_bytes :=
                         memory_copy newPtr ptr (ucast (hb_size (blk h block))) (h_bytes h)\<rparr>) of
                  Inl e \<Rightarrow> Inl e
                | Inr h \<Rightarrow> Inr (newPtr, h))"

definition heap_getFreeMemory :: "heap \<Rightarrow> u64" where "heap_getFreeMemory h = freeMemory h"
definition heap_getUsedMemory :: "heap \<Rightarrow> u64" where "heap_getUsedMemory h = usedMemory h"

text \<open>\<^verbatim>\<open>memory::alloc\<close>, \<^verbatim>\<open>memory::calloc\<close>, the operators \<^verbatim>\<open>new\<close> and \<^verbatim>\<open>delete\<close>.\<close>

definition memory_alloc :: "u64 \<Rightarrow> heap \<Rightarrow> (virtAddr \<times> heap) result" where
  "memory_alloc sz h = heap_allocate sz h"

definition memory_calloc :: "u64 \<Rightarrow> u64 \<Rightarrow> heap \<Rightarrow> (virtAddr \<times> heap) result" where
  "memory_calloc count sz h = heap_allocate (count * sz) h"

definition operator_new :: "u64 \<Rightarrow> heap \<Rightarrow> (virtAddr \<times> heap) result" where
  "operator_new sz h = memory_alloc sz h"

definition operator_delete :: "virtAddr \<Rightarrow> heap \<Rightarrow> heap result" where
  "operator_delete ptr h = heap_free ptr h"

definition initMemoryServices ::
    "(physAddr \<Rightarrow> u64 \<Rightarrow> u8) \<Rightarrow> memmap_request \<Rightarrow> heap \<Rightarrow> heap result" where
  "initMemoryServices ram request h =
     (if request = None then Inl AssertFailed
      else case pmm_init ram request of
          Inl e \<Rightarrow> Inl e
        | Inr pm \<Rightarrow> heap_init (h\<lparr>h_vm := vmm_init ((h_vm h)\<lparr>vm_pmm := pm\<rparr>)\<rparr>))"

section \<open>The list of chunks\<close>

text \<open>
  The abstract heap is a list of chunks, payload size and free flag, that tile the range from
  \<open>heapStart\<close> to \<open>heapEnd\<close>; addresses are natural numbers.
\<close>

type_synonym chunk = "nat \<times> bool"

fun span :: "chunk list \<Rightarrow> nat" where
  "span [] = 0"
| "span ((n, f) # xs) = 48 + n + span xs"

lemma span_append [simp]: "span (xs @ ys) = span xs + span ys"
  by (induction xs) auto

fun dll :: "(virtAddr \<Rightarrow> heap_block) \<Rightarrow> virtAddr \<Rightarrow> nat \<Rightarrow> chunk list \<Rightarrow> virtAddr \<Rightarrow> bool" where
  "dll B p a [] q = True"
| "dll B p a ((n, f) # xs) q =
     (B (of_nat a) = \<lparr>hb_magic = HEAP_MAGIC, hb_size = of_nat n, hb_free = f,
        hb_next = (if xs = [] then q else of_nat (a + (48 + n))), hb_prev = p\<rparr> \<and>
      dll B (of_nat a) (a + (48 + n)) xs q)"

fun lastp :: "virtAddr \<Rightarrow> nat \<Rightarrow> chunk list \<Rightarrow> virtAddr" where
  "lastp p a [] = p"
| "lastp p a ((n, f) # xs) = lastp (of_nat a) (a + (48 + n)) xs"

lemma dll_append:
  "dll B p a (xs @ ys) q \<longleftrightarrow>
   dll B p a xs (if ys = [] then q else of_nat (a + span xs)) \<and> dll B (lastp p a xs) (a + span xs) ys q"
proof (induction xs arbitrary: p a)
  case Nil
  then show ?case by simp
next
  case (Cons c xs)
  then show ?case
    by (cases c) (auto simp: add.assoc)
qed

lemma lastp_append: "lastp p a (xs @ ys) = lastp (lastp p a xs) (a + span xs) ys"
  by (induction p a xs rule: lastp.induct) (auto simp: add.assoc)

lemma of_nat_eq_u64:
  assumes "a < 2 ^ 64" "b < 2 ^ 64"
  shows "(of_nat a :: u64) = of_nat b \<longleftrightarrow> a = b"
proof
  have u: "unat (of_nat a :: u64) = a" "unat (of_nat b :: u64) = b"
    using assms by (simp_all add: unat_of_nat_fits)
  assume eq: "(of_nat a :: u64) = of_nat b"
  show "a = b"
    by (rule trans [OF u(1) [symmetric] trans [OF arg_cong [OF eq, of unat] u(2)]])
qed simp

text \<open>A write outside a segment leaves it alone.\<close>

lemma dll_frame:
  assumes "c < 2 ^ 64" "a + span xs \<le> 2 ^ 64" "c < a \<or> a + span xs \<le> c"
  shows "dll (B(of_nat c := x)) p a xs q \<longleftrightarrow> dll B p a xs q"
  using assms
proof (induction B p a xs q rule: dll.induct)
  case (2 B p a n f xs q)
  then have "(of_nat a :: u64) \<noteq> of_nat c"
    by (subst of_nat_eq_u64) auto
  then show ?case
    using 2 by (auto simp: fun_upd_apply)
qed simp

lemma dll_frame_word:
  assumes "a + span xs \<le> 2 ^ 64" "unat w < a \<or> a + span xs \<le> unat w"
  shows "dll (B(w := x)) p a xs q \<longleftrightarrow> dll B p a xs q"
  using dll_frame [of "unat w" a xs B x p q] assms unsigned_less [of w] by simp

text \<open>The first header of a segment gets a new predecessor.\<close>

lemma dll_set_prev:
  assumes "dll B p a xs q" "xs \<noteq> []" "a + span xs \<le> 2 ^ 64" "w = of_nat a"
  shows "dll (B(w := (B w)\<lparr>hb_prev := p'\<rparr>)) p' a xs q"
proof -
  obtain n f ys where xs: "xs = (n, f) # ys" using assms(2) by (cases xs) auto
  have "dll (B(of_nat a := x)) (of_nat a) (a + (48 + n)) ys q \<longleftrightarrow> dll B (of_nat a) (a + (48 + n)) ys q" for x
    by (rule dll_frame) (use assms(3) xs in auto)
  then show ?thesis
    using assms(1,4) by (simp add: xs)
qed

text \<open>The last header of a segment gets a new successor.\<close>

lemma dll_set_next:
  assumes "dll B p a (xs @ [(n, f)]) q" "a + span (xs @ [(n, f)]) \<le> 2 ^ 64" "w = of_nat (a + span xs)"
  shows "dll (B(w := (B w)\<lparr>hb_next := q'\<rparr>)) p a (xs @ [(n, f)]) q'"
proof -
  have "dll (B(of_nat (a + span xs) := x)) p a xs r \<longleftrightarrow> dll B p a xs r" for x r
    by (rule dll_frame) (use assms(2) in auto)
  then show ?thesis
    using assms(1) unfolding assms(3) dll_append by simp
qed

section \<open>Splitting and merging\<close>

lemma set_blk_fields [simp]:
  "h_blk (set_blk a b h) = (h_blk h)(a := b)" "h_vm (set_blk a b h) = h_vm h"
  "h_bytes (set_blk a b h) = h_bytes h" "h_head (set_blk a b h) = h_head h"
  "heapStart (set_blk a b h) = heapStart h" "heapEnd (set_blk a b h) = heapEnd h"
  "heapMax (set_blk a b h) = heapMax h" "usedMemory (set_blk a b h) = usedMemory h"
  "freeMemory (set_blk a b h) = freeMemory h"
  by (simp_all add: set_blk_def)

definition only_blocks :: "heap \<Rightarrow> heap \<Rightarrow> bool" where
  "only_blocks h h' \<longleftrightarrow> h_vm h' = h_vm h \<and> h_bytes h' = h_bytes h \<and> h_head h' = h_head h \<and>
     heapStart h' = heapStart h \<and> heapEnd h' = heapEnd h \<and> heapMax h' = heapMax h \<and>
     usedMemory h' = usedMemory h \<and> freeMemory h' = freeMemory h"

lemma splitBlock_only: "only_blocks h (heap_splitBlock b s h)"
  by (simp add: heap_splitBlock_def Let_def only_blocks_def)

lemma mergeWithNext_only: "only_blocks h (heap_mergeWithNext b h)"
  by (simp add: heap_mergeWithNext_def Let_def only_blocks_def)

lemma splitBlock_small:
  assumes "hb_size (blk h b) = of_nat n" "n < 2 ^ 64" "unat s \<le> n" "n \<le> unat s + 64"
  shows "heap_splitBlock b s h = h"
proof -
  have "unat (of_nat n - s :: u64) = n - unat s"
    using assms(2,3) by (simp add: unat_sub_fits unat_of_nat_fits)
  then have "of_nat n - s \<le> (64 :: u64)"
    using assms(4) by (simp add: word_le_unat)
  then show ?thesis
    by (simp add: heap_splitBlock_def assms(1) HEADER_def Let_def)
qed

lemma splitBlock_dll:
  assumes d: "dll (h_blk h) p a (ys @ (n, f) # zs) 0" and s: "unat s + 64 < n"
    and b: "b = of_nat (a + span ys)" and fits: "a + span (ys @ (n, f) # zs) < 2 ^ 64" and a: "0 < a"
  shows "dll (h_blk (heap_splitBlock b s h)) p a (ys @ (unat s, f) # (n - unat s - 48, True) # zs) 0"
proof -
  define bn where "bn = a + span ys"
  define nx where "nx = bn + (48 + n)"
  define nb where "nb = b + HEADER + s"
  have nbn: "nb = of_nat (bn + (48 + unat s))"
    by (simp add: nb_def b bn_def HEADER_def)
  have lt: "bn < 2 ^ 64" "bn + (48 + unat s) < 2 ^ 64" "n < 2 ^ 64" "nx + span zs < 2 ^ 64"
    using fits s by (simp_all add: bn_def nx_def)
  have bq: "blk h b = \<lparr>hb_magic = HEAP_MAGIC, hb_size = of_nat n, hb_free = f,
      hb_next = (if zs = [] then 0 else of_nat nx), hb_prev = lastp p a ys\<rparr>"
    and dy: "dll (h_blk h) p a ys b" and dz: "dll (h_blk h) b nx zs 0"
    using d by (simp_all add: dll_append bn_def nx_def b add.assoc)
  have rem: "unat (of_nat n - s :: u64) = n - unat s"
    using s lt by (simp add: unat_sub_fits unat_of_nat_fits)
  have nle: "\<not> of_nat n - s \<le> HEADER + 16"
    using s rem by (simp add: word_le_unat HEADER_def)
  have remw: "(of_nat n - s) - HEADER = (of_nat (n - unat s - 48) :: u64)"
    using s by (simp add: HEADER_def of_nat_diff)
  have ne: "nb \<noteq> b" "zs \<noteq> [] \<Longrightarrow> of_nat nx \<noteq> b" "zs \<noteq> [] \<Longrightarrow> of_nat nx \<noteq> nb"
    using lt a s
    unfolding nbn b bn_def [symmetric] by (subst of_nat_eq_u64; auto simp: nx_def)+
  have nz: "of_nat nx \<noteq> (0 :: u64)"
    using of_nat_eq_u64 [of nx 0] lt by (simp add: nx_def del: of_nat_add)
  define M where "M = h_blk (heap_splitBlock b s h)"
  have M: "M = (if zs = [] then h_blk h else (h_blk h)(of_nat nx := (blk h (of_nat nx))\<lparr>hb_prev := nb\<rparr>))
      (nb := \<lparr>hb_magic = HEAP_MAGIC, hb_size = of_nat (n - unat s - 48), hb_free = True,
                hb_next = (if zs = [] then 0 else of_nat nx), hb_prev = b\<rparr>,
       b := \<lparr>hb_magic = HEAP_MAGIC, hb_size = s, hb_free = f, hb_next = nb, hb_prev = lastp p a ys\<rparr>)"
    using ne nz nle by (auto simp: M_def heap_splitBlock_def Let_def bq remw nb_def [symmetric] fun_eq_iff)
  have "dll M nb nx zs 0"
  proof (cases "zs = []")
    case False
    have "dll ((h_blk h)(of_nat nx := (blk h (of_nat nx))\<lparr>hb_prev := nb\<rparr>)) nb nx zs 0"
      by (rule dll_set_prev [OF dz False]) (use lt in simp_all)
    then show ?thesis
      using False lt s unfolding M nbn b bn_def [symmetric] by (simp add: dll_frame nx_def del: of_nat_add)
  qed simp
  moreover have "dll M p a ys b"
    using dy lt unfolding M nbn b bn_def [symmetric]
    by (simp add: dll_frame nx_def bn_def del: of_nat_add)
  moreover have "M b = \<lparr>hb_magic = HEAP_MAGIC, hb_size = s, hb_free = f, hb_next = nb, hb_prev = lastp p a ys\<rparr>"
    "M nb = \<lparr>hb_magic = HEAP_MAGIC, hb_size = of_nat (n - unat s - 48), hb_free = True,
                hb_next = (if zs = [] then 0 else of_nat nx), hb_prev = b\<rparr>"
    using ne(1) by (simp_all add: M)
  moreover have "bn + (48 + unat s) + (48 + (n - unat s - 48)) = nx"
    using s by (simp add: nx_def)
  ultimately show ?thesis
    unfolding M_def [symmetric] dll_append bn_def [symmetric]
    using b nbn by (simp add: bn_def [symmetric] del: of_nat_add)
qed

lemma mergeWithNext_dll:
  assumes d: "dll (h_blk h) p a (ys @ (n, f) # (m, True) # zs) 0"
    and b: "b = of_nat (a + span ys)" and fits: "a + span (ys @ (n, f) # (m, True) # zs) < 2 ^ 64"
  shows "dll (h_blk (heap_mergeWithNext b h)) p a (ys @ (n + 48 + m, f) # zs) 0"
proof -
  define bn where "bn = a + span ys"
  define nn where "nn = bn + (48 + n)"
  define nx where "nx = nn + (48 + m)"
  have lt: "bn < 2 ^ 64" "nn < 2 ^ 64" "nx + span zs < 2 ^ 64" "n + 48 + m < 2 ^ 64" "bn < nn" "nn < nx"
    using fits by (simp_all add: bn_def nx_def nn_def)
  have bq: "blk h b = \<lparr>hb_magic = HEAP_MAGIC, hb_size = of_nat n, hb_free = f,
      hb_next = of_nat nn, hb_prev = lastp p a ys\<rparr>"
    and nq: "blk h (of_nat nn) = \<lparr>hb_magic = HEAP_MAGIC, hb_size = of_nat m, hb_free = True,
      hb_next = (if zs = [] then 0 else of_nat nx), hb_prev = b\<rparr>"
    and dy: "dll (h_blk h) p a ys b" and dz: "dll (h_blk h) (of_nat nn) nx zs 0"
    using d by (simp_all add: dll_append bn_def nn_def nx_def b add.assoc)
  have ne: "of_nat nn \<noteq> (0 :: u64)" "of_nat nn \<noteq> b" "of_nat nx \<noteq> (0 :: u64)" "of_nat nx \<noteq> b"
    using of_nat_eq_u64 [of nn 0] of_nat_eq_u64 [of nx 0] of_nat_eq_u64 [of nn bn] of_nat_eq_u64 [of nx bn] lt
    by (simp_all add: b bn_def [symmetric] del: of_nat_add)
  define M where "M = h_blk (heap_mergeWithNext b h)"
  have M: "M = (if zs = [] then h_blk h else (h_blk h)(of_nat nx := (blk h (of_nat nx))\<lparr>hb_prev := b\<rparr>))
      (b := \<lparr>hb_magic = HEAP_MAGIC, hb_size = of_nat (n + 48 + m), hb_free = f,
              hb_next = (if zs = [] then 0 else of_nat nx), hb_prev = lastp p a ys\<rparr>)"
    using ne by (auto simp: M_def heap_mergeWithNext_def Let_def bq nq HEADER_def fun_eq_iff)
  have "dll M b nx zs 0"
  proof (cases "zs = []")
    case False
    have "dll ((h_blk h)(of_nat nx := (blk h (of_nat nx))\<lparr>hb_prev := b\<rparr>)) b nx zs 0"
      by (rule dll_set_prev [OF dz False]) (use lt in simp_all)
    then show ?thesis
      using False lt unfolding M b bn_def [symmetric] by (simp add: dll_frame del: of_nat_add)
  qed simp
  moreover have "dll M p a ys b"
    using dy lt unfolding M b bn_def [symmetric]
    by (simp add: dll_frame bn_def del: of_nat_add)
  moreover have "M b = \<lparr>hb_magic = HEAP_MAGIC, hb_size = of_nat (n + 48 + m), hb_free = f,
              hb_next = (if zs = [] then 0 else of_nat nx), hb_prev = lastp p a ys\<rparr>"
    by (simp add: M)
  moreover have "bn + (48 + (n + 48 + m)) = nx"
    by (simp add: nx_def nn_def)
  ultimately show ?thesis
    unfolding M_def [symmetric] dll_append bn_def [symmetric]
    using b by (simp add: bn_def [symmetric] del: of_nat_add)
qed

lemma mergeWithNext_used:
  assumes "hb_next (blk h b) = 0 \<or> \<not> hb_free (blk h (hb_next (blk h b)))"
  shows "heap_mergeWithNext b h = h"
  using assms by (auto simp: heap_mergeWithNext_def Let_def)

section \<open>Searching\<close>

definition fits_in :: "nat \<Rightarrow> chunk \<Rightarrow> bool" where
  "fits_in s c \<longleftrightarrow> snd c \<and> s \<le> fst c"

text \<open>First fit on the abstract list.\<close>

fun first_fit :: "nat \<Rightarrow> chunk list \<Rightarrow> (chunk list \<times> nat \<times> chunk list) option" where
  "first_fit s [] = None"
| "first_fit s ((n, f) # xs) =
     (if fits_in s (n, f) then Some ([], n, xs)
      else map_option (\<lambda>(ys, m, zs). ((n, f) # ys, m, zs)) (first_fit s xs))"

lemma first_fit_Some:
  "first_fit s xs = Some (ys, n, zs) \<Longrightarrow>
   xs = ys @ (n, True) # zs \<and> s \<le> n \<and> (\<forall>c \<in> set ys. \<not> fits_in s c)"
  by (induction s xs arbitrary: ys rule: first_fit.induct)
     (auto simp: fits_in_def split: if_splits, (metis fst_conv snd_conv)+)

lemma first_fit_None: "first_fit s xs = None \<longleftrightarrow> (\<forall>c \<in> set xs. \<not> fits_in s c)"
  by (induction s xs rule: first_fit.induct) (auto simp: fits_in_def)

definition start_ptr :: "nat \<Rightarrow> chunk list \<Rightarrow> virtAddr" where
  "start_ptr a xs = (if xs = [] then 0 else of_nat a)"

lemma find_free_dll:
  assumes "dll (h_blk h) p a xs 0" "0 < a" "a + span xs < 2 ^ 64" "length xs \<le> fuel"
  shows "find_free fuel sz (start_ptr a xs) h =
     Inr (case first_fit (unat sz) xs of None \<Rightarrow> 0 | Some (ys, _) \<Rightarrow> of_nat (a + span ys))"
  using assms
proof (induction xs arbitrary: p a fuel)
  case Nil
  then show ?case by (cases fuel) (simp_all add: start_ptr_def)
next
  case (Cons c xs)
  obtain n f where c: "c = (n, f)" by (cases c)
  obtain fu where fu: "fuel = Suc fu" using Cons.prems(4) by (cases fuel) auto
  have nz: "(of_nat a :: u64) \<noteq> 0"
    using of_nat_eq_u64 [of a 0] Cons.prems by simp
  have b: "blk h (of_nat a) = \<lparr>hb_magic = HEAP_MAGIC, hb_size = of_nat n, hb_free = f,
      hb_next = start_ptr (a + (48 + n)) xs, hb_prev = p\<rparr>"
    and d: "dll (h_blk h) (of_nat a) (a + (48 + n)) xs 0"
    using Cons.prems(1) by (simp_all add: c start_ptr_def)
  have le: "sz \<le> of_nat n \<longleftrightarrow> unat sz \<le> n"
    using Cons.prems(3) by (simp add: word_le_unat unat_of_nat_fits c)
  have IH: "find_free fu sz (start_ptr (a + (48 + n)) xs) h =
      Inr (case first_fit (unat sz) xs of None \<Rightarrow> 0 | Some (ys, _) \<Rightarrow> of_nat (a + (48 + n) + span ys))"
    by (rule Cons.IH [OF d]) (use Cons.prems c fu in auto)
  show ?case
    using nz b le IH
    by (auto simp: start_ptr_def [of a] c fu fits_in_def add.assoc split: option.splits)
qed

lemma length_span: "48 * length xs \<le> span xs"
  by (induction xs rule: span.induct) auto

lemma span_fuel: "span xs \<le> 2 ^ 26 \<Longrightarrow> length xs < heap_fuel"
  using length_span [of xs] by (simp add: heap_fuel_def)

lemma last_block_dll:
  assumes "dll (h_blk h) p a (xs @ [c]) 0" "0 < a" "a + span (xs @ [c]) < 2 ^ 64" "length xs < fuel"
  shows "last_block fuel (of_nat a) h = Inr (of_nat (a + span xs))"
  using assms
proof (induction xs arbitrary: p a fuel)
  case Nil
  then show ?case by (cases fuel; cases c) simp_all
next
  case (Cons d xs)
  obtain n f where d: "d = (n, f)" by (cases d)
  obtain fu where fu: "fuel = Suc fu" using Cons.prems(4) by (cases fuel) auto
  have nz: "of_nat (a + (48 + n)) \<noteq> (0 :: u64)"
    using of_nat_eq_u64 [of "a + (48 + n)" 0] Cons.prems d by (simp del: of_nat_add)
  have "last_block fu (of_nat (a + (48 + n))) h = Inr (of_nat (a + (48 + n) + span xs))"
    by (rule Cons.IH) (use Cons.prems d fu in auto)
  then show ?case
    using Cons.prems(1) nz by (simp add: d fu add.assoc del: of_nat_add)
qed

section \<open>The heap invariant\<close>

definition HS :: nat where "HS = unat KERNEL_HEAP_START"

lemma HS: "of_nat HS = KERNEL_HEAP_START" "HS + 2 ^ 46 + 2 ^ 27 < 2 ^ 64" "0 < HS" "HS mod 4096 = 0"
  by (simp_all add: HS_def KERNEL_HEAP_START_def)

definition used_total :: "chunk list \<Rightarrow> nat" where
  "used_total xs = sum_list (map fst (filter (\<lambda>c. \<not> snd c) xs))"

fun coalesced :: "chunk list \<Rightarrow> bool" where
  "coalesced (x # y # xs) = (\<not> (snd x \<and> snd y) \<and> coalesced (y # xs))"
| "coalesced xs = True"

text \<open>
  \<open>blocks_rel h xs\<close>: the headers of \<open>h\<close> are the chunk list \<open>xs\<close>. \<open>heap_ok\<close> adds that the page
  tables are intact and that every address of the heap range is mapped.
\<close>

definition blocks_rel :: "heap \<Rightarrow> chunk list \<Rightarrow> bool" where
  "blocks_rel h xs \<longleftrightarrow> dll (h_blk h) 0 HS xs 0 \<and> h_head h = start_ptr HS xs \<and>
     heapEnd h = of_nat (HS + span xs) \<and> heapMax h = of_nat (HS + 2 ^ 26) \<and> span xs \<le> 2 ^ 26 \<and>
     (\<forall>c \<in> set xs. fst c mod 16 = 0) \<and> coalesced xs \<and> usedMemory h = of_nat (used_total xs)"

definition heap_mapped :: "heap \<Rightarrow> nat \<Rightarrow> bool" where
  "heap_mapped h e \<longleftrightarrow>
     (\<forall>v. HS \<le> unat v \<and> unat v < e \<longrightarrow> is_mapped (h_vm h) (vm_kernelPML4 (h_vm h)) v)"

definition heap_ok :: "heap \<Rightarrow> chunk list \<Rightarrow> bool" where
  "heap_ok h xs \<longleftrightarrow> blocks_rel h xs \<and> span xs mod 4096 = 0 \<and>
     vm_inv (h_vm h) (vm_kernelPML4 (h_vm h)) \<and> heap_mapped h (HS + span xs)"

text \<open>The blocks in use, as pairs of header address and payload size.\<close>

fun used_at :: "nat \<Rightarrow> chunk list \<Rightarrow> (nat \<times> nat) set" where
  "used_at a [] = {}"
| "used_at a ((n, f) # xs) = (if f then {} else {(a, n)}) \<union> used_at (a + (48 + n)) xs"

definition used_blocks :: "chunk list \<Rightarrow> (nat \<times> nat) set" where
  "used_blocks xs = used_at HS xs"

lemma used_at_append [simp]: "used_at a (xs @ ys) = used_at a xs \<union> used_at (a + span xs) ys"
  by (induction a xs rule: used_at.induct) (auto simp: add.assoc)

lemma used_total_simps [simp]:
  "used_total [] = 0" "used_total ((n, f) # xs) = (if f then 0 else n) + used_total xs"
  "used_total (xs @ ys) = used_total xs + used_total ys"
  by (simp_all add: used_total_def)

lemma used_at_range: "(b, n) \<in> used_at a xs \<Longrightarrow> a \<le> b \<and> b + (48 + n) \<le> a + span xs"
  by (induction a xs rule: used_at.induct) (auto split: if_splits)

text \<open>Blocks in use do not overlap, headers included.\<close>

lemma used_at_disjoint:
  "(b, n) \<in> used_at a xs \<Longrightarrow> (c, m) \<in> used_at a xs \<Longrightarrow>
   (b, n) = (c, m) \<or> b + (48 + n) \<le> c \<or> c + (48 + m) \<le> b"
proof (induction a xs rule: used_at.induct)
  case (2 a k f xs)
  show ?case
    using 2 used_at_range [of b n "a + (48 + k)" xs] used_at_range [of c m "a + (48 + k)" xs]
    by (auto split: if_splits)
qed simp

lemma used_at_split:
  "(b, n) \<in> used_at a xs \<Longrightarrow> \<exists>ys zs. xs = ys @ (n, False) # zs \<and> b = a + span ys"
proof (induction a xs rule: used_at.induct)
  case (2 a k f xs)
  show ?case
  proof (cases "(b, n) \<in> used_at (a + (48 + k)) xs")
    case True
    then obtain ys zs where "xs = ys @ (n, False) # zs" "b = a + (48 + k) + span ys"
      using 2 by blast
    then show ?thesis
      by (intro exI [of _ "(k, f) # ys"] exI [of _ zs]) simp
  next
    case False
    then show ?thesis
      using "2.prems" by (intro exI [of _ "[]"] exI [of _ xs]) (auto split: if_splits)
  qed
qed simp

lemma coalesced_append:
  "coalesced (xs @ y # ys) \<longleftrightarrow>
   coalesced xs \<and> coalesced (y # ys) \<and> (xs \<noteq> [] \<longrightarrow> \<not> (snd (last xs) \<and> snd y))"
  by (induction xs rule: coalesced.induct) auto

lemma span_parts: "(n, f) \<in> set xs \<Longrightarrow> 48 + n \<le> span xs"
  by (induction xs rule: span.induct) auto

lemma used_le_span: "used_total xs \<le> span xs"
  by (induction xs rule: span.induct) auto

section \<open>Allocation from a free block\<close>

lemma dll_set_free:
  assumes "dll B p a (ys @ (n, f) # zs) q" "a + span (ys @ (n, f) # zs) < 2 ^ 64"
    and "w = of_nat (a + span ys)"
  shows "dll (B(w := (B w)\<lparr>hb_free := g\<rparr>)) p a (ys @ (n, g) # zs) q"
proof -
  have "dll (B(w := x)) p a ys r \<longleftrightarrow> dll B p a ys r" for x r
    unfolding assms(3) by (rule dll_frame) (use assms(2) in auto)
  moreover have "dll (B(w := x)) w (a + span ys + (48 + n)) zs q \<longleftrightarrow> dll B w (a + span ys + (48 + n)) zs q" for x
    unfolding assms(3) by (rule dll_frame) (use assms(2) in auto)
  ultimately show ?thesis
    using assms(1) unfolding dll_append by (simp add: assms(3))
qed

lemma blocks_fit: "blocks_rel h xs \<Longrightarrow> HS + span xs < 2 ^ 64"
  using HS(2) by (auto simp: blocks_rel_def)

definition carve :: "nat \<Rightarrow> chunk list \<Rightarrow> nat \<Rightarrow> chunk list \<Rightarrow> chunk list" where
  "carve s ys n zs =
     ys @ (if s + 64 < n then (s, False) # (n - s - 48, True) # zs else (n, False) # zs)"

lemma only_blocks_fields:
  "only_blocks h h' \<Longrightarrow> h_vm h' = h_vm h" "only_blocks h h' \<Longrightarrow> h_bytes h' = h_bytes h"
  "only_blocks h h' \<Longrightarrow> h_head h' = h_head h" "only_blocks h h' \<Longrightarrow> heapEnd h' = heapEnd h"
  "only_blocks h h' \<Longrightarrow> heapMax h' = heapMax h" "only_blocks h h' \<Longrightarrow> usedMemory h' = usedMemory h"
  by (simp_all add: only_blocks_def)

lemma start_ptr_append [simp]: "start_ptr a (xs @ y # ys) = of_nat a"
  by (simp add: start_ptr_def)

lemma take_block_ok:
  assumes rel: "blocks_rel h xs" and ff: "first_fit (unat sz) xs = Some (ys, n, zs)"
    and al: "unat sz mod 16 = 0" and t: "take_block (of_nat (HS + span ys)) sz h = (ptr, h')"
  shows "ptr = of_nat (HS + span ys + 48)" "blocks_rel h' (carve (unat sz) ys n zs)"
    "h_vm h' = h_vm h" "h_bytes h' = h_bytes h"
proof -
  let ?b = "of_nat (HS + span ys) :: u64"
  define h1 where "h1 = heap_splitBlock ?b sz h"
  note o = only_blocks_fields [OF splitBlock_only [of h ?b sz, folded h1_def]]
  have xs: "xs = ys @ (n, True) # zs" and le: "unat sz \<le> n"
    using first_fit_Some [OF ff] by auto
  have fit: "HS + span (ys @ (n, True) # zs) < 2 ^ 64"
    using blocks_fit [OF rel] by (simp add: xs)
  have d: "dll (h_blk h) 0 HS (ys @ (n, True) # zs) 0"
    using rel by (simp add: blocks_rel_def xs)
  then have sz: "hb_size (blk h ?b) = of_nat n"
    by (simp add: dll_append del: of_nat_add)
  define m where "m = (if unat sz + 64 < n then unat sz else n)"
  define rest where "rest = (if unat sz + 64 < n then (n - unat sz - 48, True) # zs else zs)"
  have d1: "dll (h_blk h1) 0 HS (ys @ (m, True) # rest) 0"
  proof (cases "unat sz + 64 < n")
    case True
    then show ?thesis
      using splitBlock_dll [OF d True refl fit HS(3)] by (simp add: m_def rest_def h1_def)
  next
    case False
    then have "h1 = h"
      unfolding h1_def using fit le by (intro splitBlock_small [OF sz]) auto
    then show ?thesis
      using d False by (simp add: m_def rest_def)
  qed
  have fit1: "HS + span (ys @ (m, True) # rest) < 2 ^ 64" and sp: "span (ys @ (m, False) # rest) = span xs"
    using fit by (auto simp: m_def rest_def xs)
  have h': "ptr = ?b + HEADER"
      "h_blk h' = (h_blk h1)(?b := (blk h1 ?b)\<lparr>hb_free := False\<rparr>)"
      "h_vm h' = h_vm h" "h_bytes h' = h_bytes h" "h_head h' = h_head h" "heapEnd h' = heapEnd h"
      "heapMax h' = heapMax h" "usedMemory h' = usedMemory h + hb_size (blk h1 ?b)"
    using t o by (auto simp: take_block_def Let_def h1_def [symmetric] simp del: of_nat_add)
  have hs: "hb_size (blk h1 ?b) = of_nat m"
    using d1 by (simp add: dll_append del: of_nat_add)
  have "dll (h_blk h') 0 HS (ys @ (m, False) # rest) 0"
    unfolding h'(2) by (rule dll_set_free [OF d1 fit1 refl])
  moreover have "\<forall>c \<in> set (ys @ (m, False) # rest). fst c mod 16 = 0"
  proof -
    have "n mod 16 = 0" using rel by (auto simp: blocks_rel_def xs)
    then have "(n - unat sz - 48) mod 16 = 0"
      using al by (simp add: mod_eq_0_iff_dvd dvd_diff_nat)
    then show ?thesis
      using rel al by (auto simp: blocks_rel_def xs m_def rest_def)
  qed
  moreover have "coalesced (ys @ (m, False) # rest)"
    using rel by (cases zs) (auto simp: blocks_rel_def xs rest_def coalesced_append)
  moreover have "usedMemory h' = of_nat (used_total (ys @ (m, False) # rest))"
    using rel h'(8) hs by (simp add: blocks_rel_def xs rest_def algebra_simps)
  moreover have "heapEnd h' = of_nat (HS + span (ys @ (m, False) # rest))"
      "span (ys @ (m, False) # rest) \<le> 2 ^ 26" "heapMax h' = of_nat (HS + 2 ^ 26)"
    using rel h'(6,7) unfolding blocks_rel_def sp by simp_all
  moreover have "h_head h' = start_ptr HS (ys @ (m, False) # rest)"
    using rel h'(5) unfolding blocks_rel_def xs by simp
  ultimately have "blocks_rel h' (ys @ (m, False) # rest)"
    unfolding blocks_rel_def by blast
  moreover have "carve (unat sz) ys n zs = ys @ (m, False) # rest"
    by (simp add: carve_def m_def rest_def)
  ultimately show "blocks_rel h' (carve (unat sz) ys n zs)" by simp
  show "ptr = of_nat (HS + span ys + 48)" "h_vm h' = h_vm h" "h_bytes h' = h_bytes h"
    using h' by (simp_all add: HEADER_def)
qed

section \<open>Growing\<close>

lemma page_in_range:
  assumes "unat a mod 4096 = 0" "unat a \<le> unat v" "unat v < unat a + n * 4096" "unat a + n * 4096 \<le> 2 ^ 64"
  shows "\<exists>k < n. \<exists>off. v = a + of_nat k * PAGE_SIZE + off \<and> unat off < 4096"
proof (intro exI conjI)
  let ?d = "unat v - unat a"
  show "?d div 4096 < n"
    using assms(2,3) by (simp add: less_mult_imp_div_less)
  have "unat (of_nat (?d mod 4096) :: u64) = ?d mod 4096"
    by (rule unat_of_nat_fits) (rule less_trans [of _ 4096]; simp)
  then show "unat (of_nat (?d mod 4096) :: u64) < 4096"
    by simp
  have "of_nat (?d div 4096) * PAGE_SIZE + (of_nat (?d mod 4096) :: u64) = of_nat (?d div 4096 * 4096 + ?d mod 4096)"
    by (simp only: PAGE_SIZE_def of_nat_add of_nat_mult of_nat_numeral)
  also have "\<dots> = v - a"
    using assms(2) by (simp add: of_nat_diff)
  finally show "v = a + of_nat (?d div 4096) * PAGE_SIZE + of_nat (?d mod 4096)"
    by (simp add: algebra_simps)
qed

lemma expand_pages_ok:
  assumes "vm_inv (h_vm h) root" "vm_kernelPML4 (h_vm h) = root" "(heapEnd h + off) mod PAGE_SIZE = 0"
    and "expand_pages n off h = Inr (ok, h')"
  shows "vm_inv (h_vm h') root \<and> vm_kernelPML4 (h_vm h') = root \<and> h' = h\<lparr>h_vm := h_vm h'\<rparr> \<and>
     (\<forall>w. is_mapped (h_vm h) root w \<longrightarrow> is_mapped (h_vm h') root w) \<and>
     (ok \<longrightarrow> (\<forall>k < n. \<forall>o'. unat o' < 4096 \<longrightarrow>
        is_mapped (h_vm h') root (heapEnd h + off + of_nat k * PAGE_SIZE + o')))"
  using assms
proof (induction n arbitrary: off h)
  case 0
  then show ?case by simp
next
  case (Suc n)
  obtain phys pm where a: "pmm_allocPage (vm_pmm (h_vm h)) = (phys, pm)"
    by (cases "pmm_allocPage (vm_pmm (h_vm h))")
  have pi: "pmm_inv (vm_pmm (h_vm h))"
    using Suc.prems(1) by (simp add: vm_inv_def)
  show ?case
  proof (cases "phys = 0")
    case True
    then have "avail_addrs (vm_pmm (h_vm h)) = {}"
      using pmm_alloc.alloc_zero_iff [OF pi a] by simp
    then have "pm = vm_pmm (h_vm h)"
      using pmm_alloc.alloc_none [OF pi] a by simp
    then have "ok = False" "h' = h"
      using Suc.prems(4) a True by simp_all
    then show ?thesis using Suc.prems by simp
  next
    case False
    obtain b vm where m: "vmm_mapPage root (heapEnd h + off) phys FlagWritable ((h_vm h)\<lparr>vm_pmm := pm\<rparr>) = Inr (b, vm)"
      using Suc.prems(2,4) a False by (auto simp: vmm_getKernelPml4_def Let_def split: sum.splits)
    note f = map_fresh_page [OF Suc.prems(1) a False Suc.prems(3) m]
    have keep: "is_mapped (h_vm h) root w \<Longrightarrow> is_mapped vm root w" for w
      using f(4) [of w] by (simp add: is_mapped_def split: if_splits)
    show ?thesis
    proof (cases b)
      case True
      let ?h = "h\<lparr>h_vm := vm\<rparr>"
      have e: "expand_pages n (off + 4096) ?h = Inr (ok, h')"
        using Suc.prems(2,4) a False m True by (simp add: vmm_getKernelPml4_def Let_def)
      have al: "(heapEnd ?h + (off + 4096)) mod PAGE_SIZE = 0"
        using next_page_aligned [OF Suc.prems(3)] by (simp add: PAGE_SIZE_def add.assoc)
      note IH = Suc.IH [OF _ _ al e, simplified, OF f(1)]
      have k: "vm_kernelPML4 vm = root" using f(3) Suc.prems(2) by simp
      have first: "is_mapped vm root (heapEnd h + off + o')" if "unat o' < 4096" for o'
        using f(4) [of "heapEnd h + off + o'"] page_offset(1) [OF Suc.prems(3) that] True
        by (simp add: is_mapped_def)
      have "is_mapped (h_vm h') root (heapEnd h + off + of_nat j * PAGE_SIZE + o')"
        if ok "j < Suc n" "unat o' < 4096" for j o'
      proof (cases j)
        case 0
        then show ?thesis using first [OF that(3)] IH [OF k] by simp
      next
        case (Suc i)
        then show ?thesis
          using IH [OF k] that by (simp add: algebra_simps PAGE_SIZE_def)
      qed
      then show ?thesis
        using IH [OF k] keep by simp
    next
      case b: False
      obtain pm' where p: "pmm_freePage phys (vm_pmm vm) = Inr pm'" "vm_inv (vm\<lparr>vm_pmm := pm'\<rparr>) root"
        using f(5) by blast
      then have "ok = False" "h' = h\<lparr>h_vm := vm\<lparr>vm_pmm := pm'\<rparr>\<rparr>"
        using Suc.prems(2,4) a False m b by (simp_all add: vmm_getKernelPml4_def Let_def)
      then show ?thesis
        using p f(3) Suc.prems(2) keep by simp
    qed
  qed
qed

definition grow :: "nat \<Rightarrow> chunk list \<Rightarrow> chunk list" where
  "grow s xs = (if xs \<noteq> [] \<and> snd (last xs) then butlast xs @ [(fst (last xs) + s, True)]
                else xs @ [(s - 48, True)])"

lemma append_block_ok:
  assumes rel: "blocks_rel h xs" and s: "4096 \<le> unat sz" "unat sz mod 16 = 0" "span xs + unat sz \<le> 2 ^ 26"
  shows "\<exists>h'. append_block sz h = Inr h' \<and>
    blocks_rel (h'\<lparr>heapEnd := heapEnd h + sz, freeMemory := f\<rparr>) (grow (unat sz) xs) \<and>
    h_vm h' = h_vm h \<and> h_bytes h' = h_bytes h \<and> heapEnd h' = heapEnd h \<and> freeMemory h' = freeMemory h"
proof -
  define e where "e = HS + span xs"
  define c where "c = (unat sz - 48, True)"
  have fit: "e + unat sz < 2 ^ 64" "e < 2 ^ 64" and e0: "of_nat e \<noteq> (0 :: u64)"
    using HS s(3) of_nat_eq_u64 [of e 0] by (simp_all add: e_def)
  have he: "heapEnd h = of_nat e" and d: "dll (h_blk h) 0 HS xs 0"
    and hd: "h_head h = start_ptr HS xs" and um: "usedMemory h = of_nat (used_total xs)"
    and hm: "heapMax h = of_nat (HS + 2 ^ 26)"
    using rel by (simp_all only: blocks_rel_def e_def)
  have sz: "sz - HEADER = of_nat (unat sz - 48)"
    using s(1) by (simp add: HEADER_def of_nat_diff)
  define B1 where "B1 = (h_blk h)(of_nat e := \<lparr>hb_magic = HEAP_MAGIC, hb_size = of_nat (unat sz - 48),
      hb_free = True, hb_next = 0, hb_prev = 0\<rparr>)"
  have fr: "dll (B(of_nat e := x)) 0 HS xs q \<longleftrightarrow> dll B 0 HS xs q" for B x q
    by (rule dll_frame) (use fit in \<open>simp_all add: e_def\<close>)
  define h1 where "h1 = set_blk (of_nat e) \<lparr>hb_magic = HEAP_MAGIC, hb_size = of_nat (unat sz - 48),
      hb_free = True, hb_next = 0, hb_prev = 0\<rparr> h"
  have h1: "h_blk h1 = B1" "h_head h1 = h_head h"
    by (simp_all add: h1_def B1_def)
  have d1: "dll B1 0 HS xs 0" by (simp add: B1_def fr d)
  have endp: "of_nat e + sz = (of_nat (HS + span (grow (unat sz) xs)) :: u64)"
    and small: "span (grow (unat sz) xs) \<le> 2 ^ 26"
    and m16: "\<forall>c \<in> set (grow (unat sz) xs). fst c mod 16 = 0"
    and co: "coalesced (grow (unat sz) xs)" and ut: "used_total (grow (unat sz) xs) = used_total xs"
  proof -
    have g: "span (grow (unat sz) xs) = span xs + unat sz"
      using s(1) by (cases xs rule: rev_cases; cases "last xs") (auto simp: grow_def)
    then show "of_nat e + sz = (of_nat (HS + span (grow (unat sz) xs)) :: u64)"
      "span (grow (unat sz) xs) \<le> 2 ^ 26"
      using s(3) by (simp_all add: e_def)
    have "(unat sz - 48) mod 16 = 0"
      using s(2) by (simp add: mod_eq_0_iff_dvd dvd_diff_nat)
    then show "\<forall>c \<in> set (grow (unat sz) xs). fst c mod 16 = 0"
      using rel s(2) by (cases xs rule: rev_cases) (auto simp: grow_def blocks_rel_def)
    show "coalesced (grow (unat sz) xs)"
      using rel by (cases xs rule: rev_cases) (auto simp: grow_def blocks_rel_def coalesced_append)
    show "used_total (grow (unat sz) xs) = used_total xs"
      by (cases xs rule: rev_cases; cases "last xs") (auto simp: grow_def)
  qed
  show ?thesis
  proof (cases xs rule: rev_cases)
    case Nil
    have ab: "append_block sz h = Inr (h1\<lparr>h_head := of_nat e\<rparr>)"
      using hd by (simp add: append_block_def he sz h1_def [symmetric] start_ptr_def Nil h1(2) Let_def)
    have "dll B1 0 HS (grow (unat sz) xs) 0"
      by (simp add: Nil grow_def B1_def e_def)
    then show ?thesis
      using ab endp small m16 co ut um hm he
      by (simp add: blocks_rel_def h1 Nil start_ptr_def grow_def e_def) (simp add: h1_def)
  next
    case (snoc ys z)
    obtain n f where z: "z = (n, f)" by (cases z)
    let ?l = "of_nat (HS + span ys) :: u64"
    have hd': "h_head h1 = of_nat HS" "of_nat HS \<noteq> (0 :: u64)"
      using hd HS of_nat_eq_u64 [of HS 0] by (simp_all add: h1 snoc start_ptr_def)
    have lb: "last_block heap_fuel (of_nat HS) h1 = Inr ?l"
      by (rule last_block_dll [of _ 0 _ _ z])
         (use d1 HS(3) fit span_fuel [of ys] s(3) in \<open>simp_all add: h1 snoc [symmetric] e_def [symmetric]\<close>,
          simp add: snoc)
    have le: "?l \<noteq> of_nat e"
      using fit by (subst of_nat_eq_u64) (auto simp: e_def snoc z)
    let ?B2 = "B1(?l := (B1 ?l)\<lparr>hb_next := of_nat e\<rparr>)"
    let ?B3 = "?B2(of_nat e := (?B2 (of_nat e))\<lparr>hb_prev := ?l\<rparr>)"
    define h3 where "h3 = set_blk (of_nat e) ((?B2 (of_nat e))\<lparr>hb_prev := ?l\<rparr>)
        (set_blk ?l ((B1 ?l)\<lparr>hb_next := of_nat e\<rparr>) h1)"
    have h3: "h_blk h3 = ?B3" by (simp add: h3_def h1)
    have d2: "dll ?B2 0 HS xs (of_nat e)"
      unfolding snoc z
      by (rule dll_set_next [of _ _ _ _ _ _ 0]) (use d1 fit in \<open>simp_all add: snoc z e_def\<close>)
    have lp: "lastp 0 HS xs = ?l"
      by (simp add: snoc z lastp_append)
    have new: "?B3 (of_nat e) = \<lparr>hb_magic = HEAP_MAGIC, hb_size = of_nat (unat sz - 48),
        hb_free = True, hb_next = 0, hb_prev = ?l\<rparr>"
      using le by (simp add: B1_def)
    have d3: "dll ?B3 0 HS (xs @ [c]) 0"
      unfolding dll_append fr lp e_def [symmetric] using d2 new
      by (simp add: c_def del: fun_upd_apply of_nat_diff)
    have ab: "append_block sz h = Inr (if f then heap_mergeWithNext ?l h3 else h3)"
    proof -
      have "hb_free (?B3 ?l) = f"
        using d3 le by (simp add: snoc z dll_append del: of_nat_add)
      then show ?thesis
        using hd' lb le
        by (simp add: append_block_def he sz h1_def [symmetric] h1 Let_def h3_def del: of_nat_add)
    qed
    define h' where "h' = (if f then heap_mergeWithNext ?l h3 else h3)"
    have o: "only_blocks h3 h'"
      using mergeWithNext_only by (simp add: h'_def only_blocks_def)
    have "dll (h_blk h') 0 HS (grow (unat sz) xs) 0"
    proof (cases f)
      case True
      have "dll (h_blk (heap_mergeWithNext ?l h3)) 0 HS (ys @ (n + 48 + (unat sz - 48), f) # []) 0"
        by (rule mergeWithNext_dll [where p = 0])
           (use d3 h3 True fit s(1) in \<open>simp_all add: snoc z c_def e_def\<close>)
      then show ?thesis
        using s(1) True by (simp add: h'_def grow_def snoc z add.assoc)
    next
      case False
      then show ?thesis
        using d3 h3 by (simp add: h'_def grow_def snoc z c_def)
    qed
    then show ?thesis
      using ab [folded h'_def] o endp small m16 co ut um hm hd' hd
      unfolding only_blocks_def by (auto simp: blocks_rel_def he h3_def h1_def start_ptr_def grow_def snoc)
  qed
qed

lemma heap_ok_vm_only:
  assumes "heap_ok h xs" "h' = h\<lparr>h_vm := vm\<rparr>" "vm_inv vm (vm_kernelPML4 vm)"
    and "vm_kernelPML4 vm = vm_kernelPML4 (h_vm h)"
    and "\<And>w. is_mapped (h_vm h) (vm_kernelPML4 vm) w \<Longrightarrow> is_mapped vm (vm_kernelPML4 vm) w"
  shows "heap_ok h' xs"
  using assms by (simp add: heap_ok_def blocks_rel_def heap_mapped_def)

lemma expandHeap_ok:
  assumes ok: "heap_ok h xs" and s: "0 < unat sz0" "unat sz0 \<le> 2 ^ 46 + 2 ^ 20"
    and S: "S = (unat sz0 + 4095) div 4096 * 4096"
    and e: "heap_expandHeap sz0 h = Inr (b, h')"
  shows "if b then span xs + S \<le> 2 ^ 26 \<and> heap_ok h' (grow S xs) \<and> h_bytes h' = h_bytes h
         else heap_ok h' xs \<and> h_bytes h' = h_bytes h"
proof -
  define sz where "sz = alignUp sz0 4096"
  have S64: "S \<le> 2 ^ 46 + 2 ^ 20 + 4095" "4096 \<le> S" "S mod 4096 = 0"
    using s by (auto simp: S div_le_mono div_mult2_eq)
  have sz: "unat sz = S"
    using unat_alignUp_pow2 [of 12 sz0] s by (simp add: sz_def S)
  have rel: "blocks_rel h xs" and p0: "span xs mod 4096 = 0"
    and inv: "vm_inv (h_vm h) (vm_kernelPML4 (h_vm h))" and mp: "heap_mapped h (HS + span xs)"
    using ok by (simp_all add: heap_ok_def)
  have he: "heapEnd h = of_nat (HS + span xs)" "span xs \<le> 2 ^ 26" "heapMax h = of_nat (HS + 2 ^ 26)"
    using rel by (simp_all only: blocks_rel_def)
  have u: "unat (heapEnd h) = HS + span xs" "unat (heapMax h) = HS + 2 ^ 26"
    unfolding he(1,3) by (rule unat_of_nat_fits, use HS(2) he(2) in simp)+
  have "unat (heapEnd h + sz) = HS + span xs + S"
    using u sz S64(1) he(2) HS(2) by (simp add: unat_add_fits)
  then have cmp: "heapMax h < heapEnd h + sz \<longleftrightarrow> 2 ^ 26 < span xs + S"
    using u by (simp add: word_less_unat)
  show ?thesis
  proof (cases "2 ^ 26 < span xs + S")
    case True
    then have "b = False" "h' = h"
      using e cmp by (simp_all add: heap_expandHeap_def sz_def [symmetric] Let_def)
    then show ?thesis using ok by simp
  next
    case False
    have al: "(heapEnd h + 0) mod PAGE_SIZE = 0"
    proof (rule unat_eqI)
      show "unat ((heapEnd h + 0) mod PAGE_SIZE) = unat (0 :: u64)"
        using u p0 HS(4) by (simp add: unat_mod PAGE_SIZE_def mod_add_eq [symmetric])
    qed
    obtain b1 h1 where p: "expand_pages (unat (sz div 4096)) 0 h = Inr (b1, h1)"
      using e False cmp by (auto simp: heap_expandHeap_def sz_def [symmetric] Let_def split: sum.splits)
    note q = expand_pages_ok [OF inv refl al p]
    have ok1: "heap_ok h1 xs"
      by (rule heap_ok_vm_only [OF ok, of _ "h_vm h1"]) (use q in auto)
    have eq1: "heapEnd h1 = heapEnd h" "h_bytes h1 = h_bytes h" "freeMemory h1 = freeMemory h"
      using q by (metis heap.select_convs heap.update_convs(1) heap.surjective)+
    show ?thesis
    proof (cases b1)
      case b1: False
      then have "b = False" "h' = h1"
        using e False cmp p by (simp_all add: heap_expandHeap_def sz_def [symmetric] Let_def)
      then show ?thesis using ok1 eq1 by simp
    next
      case True
      have m16: "unat sz mod 16 = 0"
        unfolding sz mod_eq_0_iff_dvd by (rule dvd_trans [of _ 4096]) (use S64(3) in auto)
      obtain h2 where h2: "append_block sz h1 = Inr h2"
          "blocks_rel (h2\<lparr>heapEnd := heapEnd h1 + sz, freeMemory := freeMemory h + (sz - HEADER)\<rparr>) (grow S xs)"
          "h_vm h2 = h_vm h1" "h_bytes h2 = h_bytes h1" "heapEnd h2 = heapEnd h1" "freeMemory h2 = freeMemory h1"
        using append_block_ok [of h1 xs sz "freeMemory h + (sz - HEADER)"] ok1 sz S64 False m16
        by (auto simp: heap_ok_def)
      have b: "b" and h': "h' = h2\<lparr>heapEnd := heapEnd h1 + sz, freeMemory := freeMemory h + (sz - HEADER)\<rparr>"
        using e False cmp p True h2(1,5,6) eq1 by (simp_all add: heap_expandHeap_def sz_def [symmetric] Let_def)
      have sg: "span (grow S xs) = span xs + S"
        using S64(2) by (cases xs rule: rev_cases; cases "last xs") (auto simp: grow_def)
      have "heap_mapped h' (HS + span (grow S xs))"
        unfolding heap_mapped_def
      proof (intro allI impI)
        fix v :: virtAddr assume v: "HS \<le> unat v \<and> unat v < HS + span (grow S xs)"
        show "is_mapped (h_vm h') (vm_kernelPML4 (h_vm h')) v"
        proof (cases "unat v < HS + span xs")
          case True
          then show ?thesis
            using ok1 v h2(3) by (simp add: h' heap_ok_def heap_mapped_def)
        next
          case False
          then have "\<exists>k < S div 4096. \<exists>off. v = heapEnd h + of_nat k * PAGE_SIZE + off \<and> unat off < 4096"
            using v u p0 HS S64 he(2) by (intro page_in_range) (auto simp: sg mod_add_eq [symmetric])
          then show ?thesis
            using q True sz h2(3) by (auto simp: h' unat_div)
        qed
      qed
      then have "heap_ok h' (grow S xs)"
        using h2(2,3) ok1 p0 S64(3) sg by (simp add: heap_ok_def h' mod_add_eq [symmetric])
      then show ?thesis
        using b False h2(4) eq1 by (simp add: h')
    qed
  qed
qed

section \<open>Allocate and release\<close>

lemma used_carve:
  assumes "xs = ys @ (n, True) # zs" "s \<le> n"
  shows "\<exists>m. s \<le> m \<and> used_blocks (carve s ys n zs) = insert (HS + span ys, m) (used_blocks xs) \<and>
             (HS + span ys, m) \<notin> used_blocks xs"
proof -
  define m where "m = (if s + 64 < n then s else n)"
  have "(HS + span ys, m) \<notin> used_at HS ys"
    using used_at_range [of "HS + span ys" m HS ys] by auto
  moreover have "(HS + span ys, m) \<notin> used_at (HS + span ys + (48 + n)) zs"
    using used_at_range [of "HS + span ys" m "HS + span ys + (48 + n)" zs] by auto
  moreover have "HS + span ys + (48 + s) + (48 + (n - s - 48)) = HS + span ys + (48 + n)" if "s + 64 < n"
    using that by simp
  ultimately show ?thesis
    using assms by (intro exI [of _ m]) (auto simp: used_blocks_def carve_def m_def add.assoc)
qed

lemma used_grow: "used_blocks (grow s xs) = used_blocks xs"
  by (cases xs rule: rev_cases; cases "last xs") (auto simp: grow_def used_blocks_def)

lemma take_block_heap_ok:
  assumes ok: "heap_ok h xs" and ff: "first_fit (unat sz) xs = Some (ys, n, zs)"
    and al: "unat sz mod 16 = 0" and t: "take_block (of_nat (HS + span ys)) sz h = (ptr, h')"
  shows "heap_ok h' (carve (unat sz) ys n zs)" "h_bytes h' = h_bytes h" "h_vm h' = h_vm h"
    "ptr = of_nat (HS + span ys + 48)"
proof -
  have xs: "xs = ys @ (n, True) # zs" using first_fit_Some [OF ff] by simp
  have rel: "blocks_rel h xs" using ok by (simp add: heap_ok_def)
  note tb = take_block_ok [OF rel ff al t]
  have "span (carve (unat sz) ys n zs) = span xs"
    using first_fit_Some [OF ff] by (auto simp: carve_def)
  then show "heap_ok h' (carve (unat sz) ys n zs)"
    using ok tb(2,3) by (simp add: heap_ok_def heap_mapped_def)
  show "h_bytes h' = h_bytes h" "h_vm h' = h_vm h" "ptr = of_nat (HS + span ys + 48)"
    using tb by simp_all
qed

lemma findFreeBlock_ok:
  assumes "blocks_rel h xs"
  shows "heap_findFreeBlock sz h =
     Inr (case first_fit (unat sz) xs of None \<Rightarrow> 0 | Some (ys, _) \<Rightarrow> of_nat (HS + span ys))"
proof -
  have "length xs \<le> heap_fuel"
    using span_fuel [of xs] assms by (simp add: blocks_rel_def)
  then show ?thesis
    unfolding heap_findFreeBlock_def using assms blocks_fit [OF assms]
    by (simp add: blocks_rel_def find_free_dll [where p = 0] HS(3))
qed

lemma header_nonzero:
  assumes "blocks_rel h (ys @ zs)"
  shows "(of_nat (HS + span ys) :: u64) \<noteq> 0" "zs \<noteq> [] \<Longrightarrow> (of_nat (HS + span ys + 48) :: u64) \<noteq> 0"
proof -
  show "(of_nat (HS + span ys) :: u64) \<noteq> 0"
    using of_nat_eq_u64 [of "HS + span ys" 0] blocks_fit [OF assms] HS(3) by (simp del: of_nat_add)
  assume "zs \<noteq> []"
  then have "48 \<le> span zs" by (cases zs rule: span.cases) auto
  then show "(of_nat (HS + span ys + 48) :: u64) \<noteq> 0"
    using of_nat_eq_u64 [of "HS + span ys + 48" 0] blocks_fit [OF assms] HS(3) by (simp del: of_nat_add)
qed

definition rounded :: "u64 \<Rightarrow> nat" where
  "rounded req = (unat req + 15) div 16 * 16"

lemma allocate_found:
  assumes ok: "heap_ok h xs" and s: "0 < unat req" "unat req \<le> 2 ^ 46"
    and ff: "first_fit (rounded req) xs = Some (ys, n, zs)"
  shows "\<exists>h'. heap_allocate req h = Inr (of_nat (HS + span ys + 48), h') \<and>
           heap_ok h' (carve (rounded req) ys n zs) \<and> h_bytes h' = h_bytes h \<and> h_vm h' = h_vm h"
proof -
  let ?sz = "alignUp req 16"
  have sz: "unat ?sz = rounded req"
    using unat_alignUp_pow2 [of 4 req] s by (simp add: rounded_def)
  have rel: "blocks_rel h xs" using ok by (simp add: heap_ok_def)
  have xs: "xs = ys @ (n, True) # zs" using first_fit_Some [OF ff] by simp
  obtain ptr h' where t: "take_block (of_nat (HS + span ys)) ?sz h = (ptr, h')"
    by (cases "take_block (of_nat (HS + span ys)) ?sz h")
  have nz: "(of_nat (HS + span ys) :: u64) \<noteq> 0"
    using header_nonzero(1) rel unfolding xs by blast
  note tb = take_block_heap_ok [OF ok, of ?sz, unfolded sz, OF ff _ t]
  have "req \<noteq> 0" using s(1) by auto
  then have "heap_allocate req h = Inr (ptr, h')"
    using findFreeBlock_ok [OF rel, of ?sz] ff nz t
    by (simp add: heap_allocate_def sz Let_def del: of_nat_add)
  then show ?thesis
    using tb by (simp add: rounded_def del: of_nat_add)
qed

lemma allocate_effect:
  assumes ok: "heap_ok h xs" and s: "0 < unat req" "unat req \<le> 2 ^ 46"
    and a: "heap_allocate req h = Inr (ptr, h')"
  shows "\<exists>xs'. heap_ok h' xs' \<and> h_bytes h' = h_bytes h \<and>
     (ptr = 0 \<and> used_blocks xs' = used_blocks xs \<or>
      ptr \<noteq> 0 \<and> (\<exists>b n. ptr = of_nat (b + 48) \<and> unat req \<le> n \<and> (b, n) \<notin> used_blocks xs \<and>
         used_blocks xs' = insert (b, n) (used_blocks xs)))"
proof -
  have le: "unat req \<le> rounded req" by (simp add: rounded_def)
  have take: ?thesis
    if "heap_ok h1 ys1" "first_fit (rounded req) ys1 = Some (ys, n, zs)" "used_blocks ys1 = used_blocks xs"
      "h_bytes h1 = h_bytes h" "take_block (of_nat (HS + span ys)) (alignUp req 16) h1 = (ptr, h')"
    for h1 ys1 ys n zs
  proof -
    have sz: "unat (alignUp req 16) = rounded req"
      using unat_alignUp_pow2 [of 4 req] s by (simp add: rounded_def)
    note ff = first_fit_Some [OF that(2)]
    have "rounded req mod 16 = 0" by (simp add: rounded_def)
    note tb = take_block_heap_ok [OF that(1), of "alignUp req 16", unfolded sz, OF that(2) this that(5)]
    obtain m where m: "rounded req \<le> m"
        "used_blocks (carve (rounded req) ys n zs) = insert (HS + span ys, m) (used_blocks ys1)"
        "(HS + span ys, m) \<notin> used_blocks ys1"
      using used_carve [of ys1 ys n zs "rounded req"] ff by blast
    have "(of_nat (HS + span ys + 48) :: u64) \<noteq> 0"
      using header_nonzero(2) [of h1 ys "(n, True) # zs"] that(1) ff by (simp add: heap_ok_def del: of_nat_add)
    then show ?thesis
      using tb m le that(3,4)
      by (intro exI [of _ "carve (rounded req) ys n zs"] conjI disjI2 exI [of _ "HS + span ys"] exI [of _ m])
         (simp_all del: of_nat_add)
  qed
  show ?thesis
  proof (cases "first_fit (rounded req) xs")
    case (Some r)
    then obtain ys n zs where ff: "first_fit (rounded req) xs = Some (ys, n, zs)" by (cases r) auto
    have "req \<noteq> 0" using s(1) by auto
    have sz: "unat (alignUp req 16) = rounded req"
      using unat_alignUp_pow2 [of 4 req] s by (simp add: rounded_def)
    have rel: "blocks_rel h xs" using ok by (simp add: heap_ok_def)
    have nz: "(of_nat (HS + span ys) :: u64) \<noteq> 0"
      using header_nonzero(1) [of h ys "(n, True) # zs"] rel first_fit_Some [OF ff] by simp
    have "take_block (of_nat (HS + span ys)) (alignUp req 16) h = (ptr, h')"
      using a findFreeBlock_ok [OF rel, of "alignUp req 16"] ff nz \<open>req \<noteq> 0\<close>
      by (simp add: heap_allocate_def sz Let_def del: of_nat_add)
    then show ?thesis by (rule take [OF ok ff refl refl])
  next
    case None
    let ?sz = "alignUp req 16"
    have sz: "unat ?sz = rounded req"
      using unat_alignUp_pow2 [of 4 req] s by (simp add: rounded_def)
    have rel: "blocks_rel h xs" using ok by (simp add: heap_ok_def)
    have r: "rounded req \<le> 2 ^ 46 + 15" using s(2) unfolding rounded_def by simp
    define ex where "ex = (if ?sz + HEADER < 4096 then 4096 else ?sz + HEADER)"
    have "unat (?sz + HEADER) = rounded req + 48"
      using r by (simp add: unat_add_fits sz HEADER_def)
    then have ex: "0 < unat ex" "unat ex \<le> 2 ^ 46 + 2 ^ 20"
      using r by (auto simp: ex_def word_less_unat)
    have "req \<noteq> 0" using s(1) by auto
    then obtain b h1 where e: "heap_expandHeap ex h = Inr (b, h1)"
      using a findFreeBlock_ok [OF rel, of ?sz] None
      by (auto simp: heap_allocate_def sz Let_def ex_def [symmetric] split: sum.splits)
    note eo = expandHeap_ok [OF ok ex refl e]
    show ?thesis
    proof (cases b)
      case False
      then have "ptr = 0" "h' = h1"
        using a findFreeBlock_ok [OF rel, of ?sz] None e \<open>req \<noteq> 0\<close>
        by (simp_all add: heap_allocate_def sz Let_def ex_def [symmetric])
      then show ?thesis using eo False by auto
    next
      case True
      let ?xs = "grow ((unat ex + 4095) div 4096 * 4096) xs"
      have ok1: "heap_ok h1 ?xs" "h_bytes h1 = h_bytes h" using eo True by auto
      have rel1: "blocks_rel h1 ?xs" using ok1 by (simp add: heap_ok_def)
      show ?thesis
      proof (cases "first_fit (rounded req) ?xs")
        case n2: None
        then have "ptr = 0" "h' = h1"
          using a findFreeBlock_ok [OF rel, of ?sz] findFreeBlock_ok [OF rel1, of ?sz] None e True \<open>req \<noteq> 0\<close>
          by (simp_all add: heap_allocate_def sz Let_def ex_def [symmetric])
        then show ?thesis using ok1 by (auto simp: used_grow)
      next
        case (Some r)
        then obtain ys n zs where ff: "first_fit (rounded req) ?xs = Some (ys, n, zs)" by (cases r) auto
        have nz: "(of_nat (HS + span ys) :: u64) \<noteq> 0"
          using header_nonzero(1) [of h1 ys "(n, True) # zs"] rel1 first_fit_Some [OF ff] by simp
        have "take_block (of_nat (HS + span ys)) ?sz h1 = (ptr, h')"
          using a findFreeBlock_ok [OF rel, of ?sz] findFreeBlock_ok [OF rel1, of ?sz] None e True \<open>req \<noteq> 0\<close> ff nz
          by (simp add: heap_allocate_def sz Let_def ex_def [symmetric] del: of_nat_add)
        then show ?thesis
          by (rule take [OF ok1(1) ff used_grow ok1(2)])
      qed
    qed
  qed
qed

lemma dll_at:
  assumes "dll B p a (ys @ (n, f) # zs) q" "w = of_nat (a + span ys)"
  shows "B w = \<lparr>hb_magic = HEAP_MAGIC, hb_size = of_nat n, hb_free = f,
      hb_next = (if zs = [] then q else of_nat (a + span ys + (48 + n))), hb_prev = lastp p a ys\<rparr>"
  using assms by (simp add: dll_append del: of_nat_add)

text \<open>What coalescing makes of a chunk that becomes free.\<close>

fun join_next :: "nat \<Rightarrow> chunk list \<Rightarrow> chunk list" where
  "join_next n ((m, True) # zs) = (n + 48 + m, True) # zs"
| "join_next n zs = (n, True) # zs"

definition join_prev :: "chunk list \<Rightarrow> nat \<Rightarrow> chunk list \<Rightarrow> chunk list" where
  "join_prev ys n zs = (if ys \<noteq> [] \<and> snd (last ys)
     then butlast ys @ (fst (last ys) + 48 + n, True) # zs else ys @ (n, True) # zs)"

definition released :: "chunk list \<Rightarrow> nat \<Rightarrow> chunk list \<Rightarrow> chunk list" where
  "released ys n zs = (case join_next n zs of c # zs' \<Rightarrow> join_prev ys (fst c) zs')"

lemma join_next_cases:
  obtains (free) m zs' where "zs = (m, True) # zs'" "join_next n zs = (n + 48 + m, True) # zs'"
  | (used) "join_next n zs = (n, True) # zs" "zs = [] \<or> \<not> snd (hd zs)"
proof (cases zs)
  case Nil
  then show ?thesis by (intro used) auto
next
  case (Cons c zs')
  then show ?thesis using free used by (cases c; cases "snd c") auto
qed

lemma mergeWithNext_step:
  assumes "dll (h_blk h) 0 HS (ys @ (n, True) # zs) 0" "b = of_nat (HS + span ys)"
    and "HS + span (ys @ (n, True) # zs) < 2 ^ 64"
  shows "dll (h_blk (if hb_next (blk h b) \<noteq> 0 \<and> hb_free (blk h (hb_next (blk h b)))
            then heap_mergeWithNext b h else h)) 0 HS (ys @ join_next n zs) 0"
proof (cases zs n rule: join_next_cases)
  case (free m zs')
  have "of_nat (HS + span ys + (48 + n)) \<noteq> (0 :: u64)"
    using of_nat_eq_u64 [of "HS + span ys + (48 + n)" 0] assms(3) by (simp add: free del: of_nat_add)
  moreover have "hb_free (blk h (of_nat (HS + span ys + (48 + n))))"
    using dll_at [of "h_blk h" 0 HS "ys @ [(n, True)]" m True zs' 0 "of_nat (HS + span ys + (48 + n))"]
      assms(1) by (simp add: free(1) add.assoc del: of_nat_add)
  ultimately have "hb_next (blk h b) \<noteq> 0 \<and> hb_free (blk h (hb_next (blk h b)))"
    using dll_at [OF assms(1,2)] by (simp add: free(1) del: of_nat_add)
  then show ?thesis
    using mergeWithNext_dll [of h 0 HS ys n True m zs' b] assms free by simp
next
  case used
  have "\<not> (hb_next (blk h b) \<noteq> 0 \<and> hb_free (blk h (hb_next (blk h b))))"
  proof (cases zs)
    case Nil
    then show ?thesis using dll_at [OF assms(1,2)] by simp
  next
    case (Cons c zs')
    then obtain m where c: "c = (m, False)" using used(2) by (cases c) auto
    show ?thesis
      using dll_at [of "h_blk h" 0 HS "ys @ [(n, True)]" m False zs' 0 "of_nat (HS + span ys + (48 + n))"]
        dll_at [OF assms(1,2)] assms(1) by (simp add: Cons c add.assoc del: of_nat_add)
  qed
  then show ?thesis using assms(1) by (simp only: if_not_P used(1) if_False)
qed

lemma mergePrev_step:
  assumes "dll (h_blk h) 0 HS (ys @ (n, True) # zs) 0" "b = of_nat (HS + span ys)"
    and "HS + span (ys @ (n, True) # zs) < 2 ^ 64"
  shows "dll (h_blk (if hb_prev (blk h b) \<noteq> 0 \<and> hb_free (blk h (hb_prev (blk h b)))
            then heap_mergeWithNext (hb_prev (blk h b)) h else h)) 0 HS (join_prev ys n zs) 0"
proof (cases ys rule: rev_cases)
  case Nil
  then show ?thesis using assms(1) dll_at [OF assms(1,2)] by (simp add: join_prev_def)
next
  case (snoc xs c)
  obtain k f where c: "c = (k, f)" by (cases c)
  let ?p = "of_nat (HS + span xs) :: u64"
  have p: "hb_prev (blk h b) = ?p"
    using dll_at [OF assms(1,2)] by (simp add: snoc c lastp_append)
  have "?p \<noteq> 0"
    using of_nat_eq_u64 [of "HS + span xs" 0] assms(3) HS(3) by (simp add: snoc del: of_nat_add)
  moreover have "hb_free (blk h ?p) = f"
    using dll_at [of "h_blk h" 0 HS xs k f "(n, True) # zs" 0 ?p] assms(1) by (simp add: snoc c del: of_nat_add)
  ultimately show ?thesis
    using assms(1,3) mergeWithNext_dll [of h 0 HS xs k f n zs ?p]
    by (cases f) (simp_all add: p snoc c join_prev_def del: of_nat_add)
qed

lemma released_facts:
  assumes "xs = ys @ (n, False) # zs" "coalesced xs" "\<forall>c \<in> set xs. fst c mod 16 = 0"
  shows "span (released ys n zs) = span xs" "coalesced (released ys n zs)"
    "\<forall>c \<in> set (released ys n zs). fst c mod 16 = 0"
    "used_at a (released ys n zs) = used_at a xs - {(a + span ys, n)}"
    "used_total (released ys n zs) + n = used_total xs"
proof -
  have j: "\<exists>N zs'. join_next n zs = (N, True) # zs' \<and> N + span zs' = n + span zs \<and> N mod 16 = 0 \<and>
      (\<forall>c \<in> set zs'. fst c mod 16 = 0) \<and> coalesced ((N, True) # zs') \<and> used_total zs' = used_total zs \<and>
      used_at (b + N) zs' = used_at (b + n) zs" for b
  proof (cases zs n rule: join_next_cases)
    case (free m zs')
    have "(n + 48 + m) mod 16 = 0"
      using assms(1,3) free(1) by (auto simp: mod_eq_0_iff_dvd dvd_add)
    then show ?thesis
      using assms free by (cases zs') (auto simp: coalesced_append algebra_simps)
  next
    case used
    then show ?thesis
      using assms by (cases zs) (auto simp: coalesced_append)
  qed
  obtain N zs' where N: "join_next n zs = (N, True) # zs'" "N + span zs' = n + span zs" "N mod 16 = 0"
      "\<forall>c \<in> set zs'. fst c mod 16 = 0" "coalesced ((N, True) # zs')" "used_total zs' = used_total zs"
    using j [of 0] by (elim exE conjE) (rule that)
  have ua: "used_at (b + N) zs' = used_at (b + n) zs" for b
    using j [of b] N(1) by auto
  have ny: "(a + span ys, n) \<notin> used_at a ys" "(a + span ys, n) \<notin> used_at (a + span ys + (48 + n)) zs"
    using used_at_range [of "a + span ys" n a ys] used_at_range [of "a + span ys" n "a + span ys + (48 + n)" zs]
    by auto
  have ue: "used_at a xs - {(a + span ys, n)} = used_at a ys \<union> used_at (a + span ys + (48 + n)) zs"
    using ny by (auto simp: assms(1) add.assoc)
  have u2: "used_at (a + span ys + (48 + N)) zs' = used_at (a + span ys + (48 + n)) zs"
    using ua [of "a + span ys + 48"] by (simp add: add.assoc)
  show "span (released ys n zs) = span xs" "coalesced (released ys n zs)"
    "\<forall>c \<in> set (released ys n zs). fst c mod 16 = 0"
    "used_at a (released ys n zs) = used_at a xs - {(a + span ys, n)}"
    "used_total (released ys n zs) + n = used_total xs"
    unfolding ue
    using assms N u2
    by (cases ys rule: rev_cases; cases "last ys"; cases zs';
        auto simp: released_def join_prev_def coalesced_append mod_eq_0_iff_dvd dvd_add add.assoc)+
qed

lemma used_blocks_split:
  assumes "(a, n) \<in> used_blocks xs"
  obtains ys zs where "xs = ys @ (n, False) # zs" "a = HS + span ys"
  using used_at_split [of a n HS xs] assms by (auto simp: used_blocks_def)

lemma heap_free_effect:
  assumes ok: "heap_ok h xs" and u: "(a, n) \<in> used_blocks xs"
  shows "\<exists>h' xs'. heap_free (of_nat (a + 48)) h = Inr h' \<and> heap_ok h' xs' \<and>
           used_blocks xs' = used_blocks xs - {(a, n)} \<and> h_bytes h' = h_bytes h \<and> h_vm h' = h_vm h \<and>
           usedMemory h' = usedMemory h - of_nat n"
proof -
  obtain ys zs where xs: "xs = ys @ (n, False) # zs" and a: "a = HS + span ys"
    using used_blocks_split [OF u] .
  define b where "b = (of_nat (HS + span ys) :: u64)"
  have rel: "blocks_rel h xs" using ok by (simp add: heap_ok_def)
  have d: "dll (h_blk h) 0 HS (ys @ (n, False) # zs) 0" and um: "usedMemory h = of_nat (used_total xs)"
    using rel by (simp_all add: blocks_rel_def xs)
  have fit: "HS + span (ys @ (n, False) # zs) < 2 ^ 64"
    using blocks_fit [OF rel] by (simp add: xs)
  note at = dll_at [OF d b_def]
  have ptr: "of_nat (a + 48) - HEADER = b" "of_nat (a + 48) \<noteq> (0 :: u64)"
    using header_nonzero(2) [of h ys "(n, False) # zs"] rel by (simp_all add: a b_def HEADER_def xs)
  define h1 where "h1 = (set_blk b ((blk h b)\<lparr>hb_free := True\<rparr>) h)
      \<lparr>usedMemory := usedMemory h - of_nat n, freeMemory := freeMemory h + of_nat n\<rparr>"
  define h2 where "h2 = (if hb_next (blk h1 b) \<noteq> 0 \<and> hb_free (blk h1 (hb_next (blk h1 b)))
      then heap_mergeWithNext b h1 else h1)"
  define h3 where "h3 = (if hb_prev (blk h2 b) \<noteq> 0 \<and> hb_free (blk h2 (hb_prev (blk h2 b)))
      then heap_mergeWithNext (hb_prev (blk h2 b)) h2 else h2)"
  have f: "heap_free (of_nat (a + 48)) h = Inr h3"
    using ptr(2) at by (simp add: heap_free_def ptr(1) h3_def h2_def h1_def Let_def del: of_nat_add)
  have o: "only_blocks h1 h3"
    using mergeWithNext_only by (auto simp: h3_def h2_def only_blocks_def)
  have d1: "dll (h_blk h1) 0 HS (ys @ (n, True) # zs) 0"
    using dll_set_free [OF d fit b_def, of True] by (simp add: h1_def)
  have fit1: "HS + span (ys @ (n, True) # zs) < 2 ^ 64" using fit by simp
  have d2: "dll (h_blk h2) 0 HS (ys @ join_next n zs) 0"
    unfolding h2_def by (rule mergeWithNext_step [OF d1 b_def fit1])
  have "coalesced xs" "\<forall>c \<in> set xs. fst c mod 16 = 0"
    using rel by (simp_all add: blocks_rel_def)
  note r = released_facts [OF xs this]
  have d3: "dll (h_blk h3) 0 HS (released ys n zs) 0"
  proof (cases zs n rule: join_next_cases)
    case (free m zs')
    then show ?thesis
      using mergePrev_step [of h2 ys "n + 48 + m" zs' b] d2 fit by (simp add: h3_def released_def b_def)
  next
    case used
    then show ?thesis
      using mergePrev_step [of h2 ys n zs b] d2 fit by (simp add: h3_def released_def b_def)
  qed
  have ne: "released ys n zs \<noteq> []"
    by (cases zs n rule: join_next_cases) (simp_all add: released_def join_prev_def)
  have "heapEnd h3 = heapEnd h" "heapMax h3 = heapMax h" "h_head h3 = h_head h"
    using o by (simp_all add: only_blocks_def h1_def)
  then have "heapEnd h3 = of_nat (HS + span (released ys n zs))" "heapMax h3 = of_nat (HS + 2 ^ 26)"
      "span (released ys n zs) \<le> 2 ^ 26" "h_head h3 = start_ptr HS (released ys n zs)"
    using rel ne unfolding blocks_rel_def r(1) start_ptr_def xs by simp_all
  moreover have "usedMemory h3 = of_nat (used_total (released ys n zs))"
    using o um unfolding only_blocks_def r(5) [symmetric] by (simp add: h1_def)
  ultimately have "blocks_rel h3 (released ys n zs)"
    unfolding blocks_rel_def using d3 r(2,3) by blast
  then have "heap_ok h3 (released ys n zs)"
    using ok o r(1) by (simp add: heap_ok_def only_blocks_def h1_def heap_mapped_def)
  moreover have "used_blocks (released ys n zs) = used_blocks xs - {(a, n)}"
    unfolding used_blocks_def r(4) a ..
  moreover have "h_bytes h3 = h_bytes h" "h_vm h3 = h_vm h" "usedMemory h3 = usedMemory h - of_nat n"
    using o by (simp_all add: only_blocks_def h1_def)
  ultimately show ?thesis
    using f by blast
qed

text \<open>A block that is on the list and free is refused.\<close>

lemma heap_free_refused:
  assumes "blocks_rel h (ys @ (n, True) # zs)"
  shows "heap_free (of_nat (HS + span ys + 48)) h = Inl AssertFailed"
proof -
  define b where "b = (of_nat (HS + span ys) :: u64)"
  have "dll (h_blk h) 0 HS (ys @ (n, True) # zs) 0"
    using assms by (simp add: blocks_rel_def)
  note at = dll_at [OF this b_def]
  have "of_nat (HS + span ys + 48) - HEADER = b" "of_nat (HS + span ys + 48) \<noteq> (0 :: u64)"
    using header_nonzero(2) [OF assms] by (simp_all add: b_def HEADER_def)
  then show ?thesis
    using at by (simp add: heap_free_def Let_def del: of_nat_add)
qed

section \<open>The interface of the heap\<close>

text \<open>
  What every client of dynamic memory relies on. \<open>live s U\<close>: \<open>U\<close> is the set of blocks in use,
  header address and payload size.
\<close>

locale heap_allocator =
  fixes alloc :: "u64 \<Rightarrow> 's \<Rightarrow> (virtAddr \<times> 's) result"
    and release :: "virtAddr \<Rightarrow> 's \<Rightarrow> 's result"
    and live :: "'s \<Rightarrow> (nat \<times> nat) set \<Rightarrow> bool"
  assumes alloc_law: "live s U \<Longrightarrow> 0 < unat n \<Longrightarrow> unat n \<le> 2 ^ 46 \<Longrightarrow> alloc n s = Inr (p, s') \<Longrightarrow>
      p = 0 \<and> live s' U \<or>
      p \<noteq> 0 \<and> (\<exists>a m. p = of_nat (a + 48) \<and> unat n \<le> m \<and> (a, m) \<notin> U \<and> live s' (insert (a, m) U))"
    and release_law: "live s U \<Longrightarrow> (a, m) \<in> U \<Longrightarrow>
      \<exists>s'. release (of_nat (a + 48)) s = Inr s' \<and> live s' (U - {(a, m)})"
    and apart: "live s U \<Longrightarrow> (a, m) \<in> U \<Longrightarrow> (b, k) \<in> U \<Longrightarrow>
      (a, m) = (b, k) \<or> a + (48 + m) \<le> b \<or> b + (48 + k) \<le> a"
    and fits: "live s U \<Longrightarrow> (a, m) \<in> U \<Longrightarrow> 0 < a \<and> a + (48 + m) < 2 ^ 64"
begin

lemma alloc_release:
  assumes "live s U" "0 < unat n" "unat n \<le> 2 ^ 46" "alloc n s = Inr (p, s1)" "p \<noteq> 0"
  shows "\<exists>s2. release p s1 = Inr s2 \<and> live s2 U"
proof -
  obtain a m where a: "p = of_nat (a + 48)" "(a, m) \<notin> U" "live s1 (insert (a, m) U)"
    using alloc_law [OF assms(1-4)] assms(5) by blast
  then show ?thesis
    using release_law [OF a(3), of a m] by (simp add: insert_Diff_if)
qed

text \<open>A byte of a new block is a byte of no other block.\<close>

lemma payload_private:
  assumes "live s U" "(a, m) \<in> U" "(b, k) \<in> U" "(a, m) \<noteq> (b, k)" "i < m" "j < k"
  shows "(of_nat (a + 48) + of_nat i :: u64) \<noteq> of_nat (b + 48) + of_nat j"
proof -
  have "a + 48 + i \<noteq> b + 48 + j"
    using apart [OF assms(1-3)] assms(4-6) by auto
  moreover have "a + 48 + i < 2 ^ 64" "b + 48 + j < 2 ^ 64"
    using fits [OF assms(1,2)] fits [OF assms(1,3)] assms(5,6) by auto
  ultimately have "(of_nat (a + 48 + i) :: u64) \<noteq> of_nat (b + 48 + j)"
    by (simp add: of_nat_eq_u64 del: of_nat_add)
  then show ?thesis by (simp add: add.assoc)
qed

end

definition heap_live :: "heap \<Rightarrow> (nat \<times> nat) set \<Rightarrow> bool" where
  "heap_live h U \<longleftrightarrow> (\<exists>xs. heap_ok h xs \<and> used_blocks xs = U)"

interpretation kernel_heap: heap_allocator heap_allocate heap_free heap_live
proof unfold_locales
  fix h U n p h'
  assume "heap_live h U" and n: "0 < unat n" "unat n \<le> 2 ^ 46" and a: "heap_allocate n h = Inr (p, h')"
  then obtain xs where xs: "heap_ok h xs" "used_blocks xs = U" by (auto simp: heap_live_def)
  show "p = 0 \<and> heap_live h' U \<or>
      p \<noteq> 0 \<and> (\<exists>a m. p = of_nat (a + 48) \<and> unat n \<le> m \<and> (a, m) \<notin> U \<and> heap_live h' (insert (a, m) U))"
    using allocate_effect [OF xs(1) n a] xs(2) unfolding heap_live_def by metis
next
  fix h U a m
  assume "heap_live h U" "(a, m) \<in> U"
  then show "\<exists>h'. heap_free (of_nat (a + 48)) h = Inr h' \<and> heap_live h' (U - {(a, m)})"
    using heap_free_effect unfolding heap_live_def by metis
next
  fix h U a m b k
  assume "heap_live h U" "(a, m) \<in> U" "(b, k) \<in> U"
  then show "(a, m) = (b, k) \<or> a + (48 + m) \<le> b \<or> b + (48 + k) \<le> a"
    using used_at_disjoint [of a m HS _ b k] by (auto simp: heap_live_def used_blocks_def)
next
  fix h U a m
  assume "heap_live h U" "(a, m) \<in> U"
  then show "0 < a \<and> a + (48 + m) < 2 ^ 64"
    using used_at_range [of a m HS] blocks_fit HS(3) unfolding heap_live_def heap_ok_def used_blocks_def
    by fastforce
qed

section \<open>Properties\<close>


lemma merge_keeps_marks:
  "hb_free (blk (heap_mergeWithNext b h) x) = hb_free (blk h x)"
  "hb_magic (blk (heap_mergeWithNext b h) x) = hb_magic (blk h x)"
  by (auto simp: heap_mergeWithNext_def Let_def)

lemma heap_free_marks:
  assumes "heap_free p h = Inr h'" "p \<noteq> 0"
  shows "heap_free p h' = Inl AssertFailed"
proof -
  have "hb_free (blk h' (p - HEADER))"
    using assms by (auto simp: heap_free_def Let_def merge_keeps_marks split: if_splits)
  then show ?thesis
    using assms(2) by (simp add: heap_free_def Let_def)
qed

text \<open>
  C2. \<^verbatim>\<open>heap::free\<close> on a pointer to a block in use releases exactly that block: the
  other blocks stay in use at their addresses, no payload byte changes, free neighbours are merged, and
  releasing the same pointer again panics, also when the header has been absorbed by a neighbour.
\<close>

theorem heap_free_correct:
  assumes "heap_ok h xs" "(a, n) \<in> used_blocks xs"
  shows "\<exists>h' xs'. heap_free (of_nat (a + 48)) h = Inr h' \<and> heap_ok h' xs' \<and>
           used_blocks xs' = used_blocks xs - {(a, n)} \<and> h_bytes h' = h_bytes h \<and>
           usedMemory h' = usedMemory h - of_nat n \<and>
           heap_free (of_nat (a + 48)) h' = Inl AssertFailed"
proof -
  have "heap_live h (used_blocks xs)" using assms(1) by (auto simp: heap_live_def)
  then have "0 < a + 48 \<and> a + 48 < 2 ^ 64"
    using kernel_heap.fits assms(2) by fastforce
  then have "of_nat (a + 48) \<noteq> (0 :: u64)"
    using of_nat_eq_u64 [of "a + 48" 0] by (simp del: of_nat_add)
  then show ?thesis
    using heap_free_effect [OF assms] heap_free_marks by blast
qed

lemma heap_ok_bytes [simp]: "heap_ok (h\<lparr>h_bytes := m\<rparr>) xs = heap_ok h xs"
  by (simp add: heap_ok_def blocks_rel_def heap_mapped_def)

lemma used_header:
  assumes "heap_ok h xs" "(a, n) \<in> used_blocks xs"
  shows "hb_magic (blk h (of_nat a)) = HEAP_MAGIC" "hb_size (blk h (of_nat a)) = of_nat n"
    "of_nat (a + 48) \<noteq> (0 :: u64)" "n \<le> 2 ^ 26"
proof -
  obtain ys zs where xs: "xs = ys @ (n, False) # zs" and a: "a = HS + span ys"
    using used_blocks_split [OF assms(2)] .
  have rel: "blocks_rel h xs" using assms(1) by (simp add: heap_ok_def)
  have d: "dll (h_blk h) 0 HS (ys @ (n, False) # zs) 0"
    using rel by (simp add: blocks_rel_def xs)
  show "hb_magic (blk h (of_nat a)) = HEAP_MAGIC" "hb_size (blk h (of_nat a)) = of_nat n"
    using dll_at [OF d refl] by (simp_all add: a del: of_nat_add)
  show "of_nat (a + 48) \<noteq> (0 :: u64)"
    using header_nonzero(2) [of h ys "(n, False) # zs"] rel by (simp add: a xs del: of_nat_add)
  show "n \<le> 2 ^ 26"
    using rel by (simp add: blocks_rel_def xs)
qed


lemma expand_pages_total:
  assumes "vm_inv (h_vm h) root" "vm_kernelPML4 (h_vm h) = root" "(heapEnd h + off) mod PAGE_SIZE = 0"
    and "4 * n \<le> card (avail_addrs (vm_pmm (h_vm h)))" "n \<le> 2 ^ 36"
    and "\<And>k. k < n \<Longrightarrow> \<not> is_mapped (h_vm h) root (heapEnd h + off + of_nat k * PAGE_SIZE)"
  shows "\<exists>h'. expand_pages n off h = Inr (True, h')"
  using assms
proof (induction n arbitrary: off h)
  case (Suc n)
  let ?s = "h_vm h"
  obtain phys pm where a: "pmm_allocPage (vm_pmm ?s) = (phys, pm)"
    by (cases "pmm_allocPage (vm_pmm ?s)")
  have pi: "pmm_inv (vm_pmm ?s)" using Suc.prems(1) by (simp add: vm_inv_def)
  have "avail_addrs (vm_pmm ?s) \<noteq> {}" using Suc.prems(4) by auto
  then have nz: "phys \<noteq> 0" using pmm_alloc.alloc_zero_iff [OF pi a] by simp
  note f = pmm_alloc.alloc_keeps_ok [OF pi a]
  have "totalPages pm = totalPages (vm_pmm ?s)"
    using allocPage_totalPages [OF _ a] pi by (simp add: pmm_inv_def)
  then have inv1: "vm_inv (?s\<lparr>vm_pmm := pm\<rparr>) root"
    using f by (intro vm_inv_shrink [OF Suc.prems(1)]) auto
  have "4 * n + 3 \<le> card (avail_addrs (vm_pmm (?s\<lparr>vm_pmm := pm\<rparr>)))"
    using f Suc.prems(4) diff_card_le_card_Diff [of "{phys}" "avail_addrs (vm_pmm ?s)"] by simp
  from mapPage_total_card [OF inv1 this] obtain ok vm where
    m: "vmm_mapPage root (heapEnd h + off) phys FlagWritable (?s\<lparr>vm_pmm := pm\<rparr>) = Inr (ok, vm)"
      "4 * n \<le> card (avail_addrs (vm_pmm vm))" by blast
  note e = map_fresh_page [OF Suc.prems(1) a nz Suc.prems(3) m(1)]
  have ok using e(2) Suc.prems(6) [of 0] by simp
  have "\<not> is_mapped vm root (heapEnd h + (off + 4096) + of_nat k * PAGE_SIZE)" if "k < n" for k
  proof -
    let ?w = "heapEnd h + off + of_nat (Suc k) * PAGE_SIZE"
    have "\<not> same_page ?w (heapEnd h + off)"
      by (rule distinct_pages) (use that Suc.prems(5) in auto)
    moreover have "\<not> is_mapped ?s root ?w" using Suc.prems(6) that by blast
    ultimately have "\<not> is_mapped vm root ?w"
      using e(4) [of ?w] unfolding is_mapped_def by simp
    then show ?thesis by (simp add: algebra_simps PAGE_SIZE_def)
  qed
  moreover have "(heapEnd h + (off + 4096)) mod PAGE_SIZE = 0"
    using next_page_aligned [OF Suc.prems(3)] by (simp add: PAGE_SIZE_def add.assoc)
  ultimately have "\<exists>h'. expand_pages n (off + 4096) (h\<lparr>h_vm := vm\<rparr>) = Inr (True, h')"
    using e(1,3) m(2) Suc.prems(2,5) by (intro Suc.IH) auto
  then show ?case
    using a nz m(1) \<open>ok\<close> Suc.prems(2) by (simp add: vmm_getKernelPml4_def Let_def)
qed simp

text \<open>
  \<^verbatim>\<open>heap::init\<close> does not panic when 64 physical pages are free and the first 16
  pages of the heap range are unmapped (16 pages, and at most three tables each), and it establishes the
  heap invariant with one free block of 16 pages less one header.
\<close>

theorem heap_init_correct:
  assumes "vm_inv (h_vm h) (vm_kernelPML4 (h_vm h))" "64 \<le> card (avail_addrs (vm_pmm (h_vm h)))"
    and "\<forall>k < 16. \<not> is_mapped (h_vm h) (vm_kernelPML4 (h_vm h)) (KERNEL_HEAP_START + of_nat k * PAGE_SIZE)"
  shows "\<exists>h'. heap_init h = Inr h' \<and> heap_ok h' [(16 * 4096 - 48, True)] \<and> usedMemory h' = 0"
proof -
  let ?h = "h\<lparr>h_head := 0, heapStart := KERNEL_HEAP_START, heapEnd := KERNEL_HEAP_START,
           heapMax := KERNEL_HEAP_START + KERNEL_HEAP_MAX_SIZE, usedMemory := 0, freeMemory := 0\<rparr>"
  have ok: "heap_ok ?h []"
    using assms(1) HS(1)
    by (auto simp: heap_ok_def blocks_rel_def heap_mapped_def start_ptr_def KERNEL_HEAP_MAX_SIZE_def)
  obtain h1 where e: "expand_pages 16 0 ?h = Inr (True, h1)"
    using expand_pages_total [of ?h "vm_kernelPML4 (h_vm h)" 0 16] assms
    by (auto simp: KERNEL_HEAP_START_def PAGE_SIZE_def)
  have al0: "(heapEnd ?h + 0) mod PAGE_SIZE = 0" by (simp add: KERNEL_HEAP_START_def PAGE_SIZE_def)
  have "h1 = ?h\<lparr>h_vm := h_vm h1\<rparr>"
    using expand_pages_ok [OF _ _ al0 e] assms(1) by simp
  then have "blocks_rel h1 [] = blocks_rel ?h []"
    unfolding blocks_rel_def by (metis (no_types, lifting) heap.select_convs heap.update_convs(1) heap.surjective)
  then obtain h2 where h2: "append_block 0x10000 h1 = Inr h2"
    using append_block_ok [of h1 "[]" "0x10000"] ok by (auto simp: heap_ok_def)
  have "alignUp (0x10000 :: u64) 4096 = 0x10000" by (simp add: alignUp_def)
  then obtain h' where h': "heap_expandHeap KERNEL_HEAP_INITIAL_SIZE ?h = Inr (True, h')"
    using e h2 by (simp add: heap_expandHeap_def KERNEL_HEAP_INITIAL_SIZE_def KERNEL_HEAP_START_def
        KERNEL_HEAP_MAX_SIZE_def)
  have "unat KERNEL_HEAP_INITIAL_SIZE = 16 * 4096"
    by (simp add: KERNEL_HEAP_INITIAL_SIZE_def)
  then have "heap_ok h' (grow (16 * 4096) [])"
    using expandHeap_ok [OF ok _ _ refl h'] by simp
  then show ?thesis
    using h' by (simp add: heap_init_def grow_def) (simp add: heap_ok_def blocks_rel_def)
qed

text \<open>
  The rounding in \<^verbatim>\<open>heap::allocate\<close> wraps: a request for \<open>2\<^sup>6\<^sup>4 - 1\<close> bytes is
  rounded up to 0 and served from the first free block, so the caller gets a non-null pointer from a
  heap of at most 64 MiB.
\<close>

theorem heap_allocate_wraps:
  assumes "heap_ok h xs" "\<exists>c \<in> set xs. snd c"
  shows "\<exists>ptr h'. heap_allocate 0xFFFFFFFFFFFFFFFF h = Inr (ptr, h') \<and> ptr \<noteq> 0"
proof -
  have z: "alignUp (0xFFFFFFFFFFFFFFFF :: u64) 16 = 0"
    by (simp add: alignUp_def)
  have rel: "blocks_rel h xs" using assms(1) by (simp add: heap_ok_def)
  obtain r where "first_fit 0 xs = Some r"
    using assms(2) first_fit_None [of 0 xs] by (auto simp: fits_in_def)
  then obtain ys n zs where ff: "first_fit 0 xs = Some (ys, n, zs)" by (cases r) auto
  have xs: "xs = ys @ (n, True) # zs" using first_fit_Some [OF ff] by simp
  note nz = header_nonzero [of h ys "(n, True) # zs"]
  obtain ptr h' where t: "take_block (of_nat (HS + span ys)) 0 h = (ptr, h')"
    by (cases "take_block (of_nat (HS + span ys)) 0 h")
  have "ptr = of_nat (HS + span ys + 48)"
    using take_block_heap_ok(4) [OF assms(1), of 0] ff t by simp
  then show ?thesis
    using findFreeBlock_ok [OF rel, of 0] ff t nz rel xs
    by (simp add: heap_allocate_def z Let_def del: of_nat_add)
qed

text \<open>
  Growth does not recover from a partial failure: once the page at \<^verbatim>\<open>heapEnd\<close> is
  mapped, which is what an expansion that failed after its first page leaves behind, every later
  expansion is refused, however much memory is free by then.
\<close>

theorem heap_growth_blocked:
  assumes "heap_ok h xs" "is_mapped (h_vm h) (vm_kernelPML4 (h_vm h)) (heapEnd h)"
    and "0 < unat req" "unat req \<le> 2 ^ 46 + 2 ^ 20" "heap_expandHeap req h = Inr (b, h')"
  shows "\<not> b"
proof
  assume b
  let ?sz = "alignUp req 4096" and ?root = "vm_kernelPML4 (h_vm h)"
  have "unat ?sz = (unat req + 4095) div 4096 * 4096"
    using unat_alignUp_pow2 [of 12 req] assms(4) by simp
  then have "unat (?sz div 4096) = (unat req + 4095) div 4096"
    by (simp add: unat_div)
  moreover have "0 < (unat req + 4095) div 4096"
    using assms(3) by (simp add: div_greater_zero_iff)
  ultimately obtain n where n: "unat (?sz div 4096) = Suc n"
    by (metis gr0_implies_Suc)
  obtain h1 where p: "expand_pages (Suc n) 0 h = Inr (True, h1)"
    using assms(5) \<open>b\<close> n by (auto simp: heap_expandHeap_def Let_def split: sum.splits if_splits)
  have rel: "blocks_rel h xs" and inv: "vm_inv (h_vm h) ?root" and m0: "span xs mod 4096 = 0"
    using assms(1) by (simp_all add: heap_ok_def)
  obtain phys pm where a: "pmm_allocPage (vm_pmm (h_vm h)) = (phys, pm)"
    by (cases "pmm_allocPage (vm_pmm (h_vm h))")
  then have "phys \<noteq> 0" using p by auto
  then obtain vm where m: "vmm_mapPage ?root (heapEnd h) phys FlagWritable ((h_vm h)\<lparr>vm_pmm := pm\<rparr>) = Inr (True, vm)"
    using p a by (auto simp: vmm_getKernelPml4_def Let_def split: sum.splits if_splits)
  have al: "heapEnd h mod PAGE_SIZE = 0"
  proof (rule unat_eqI)
    have "unat (heapEnd h) = HS + span xs"
      using rel blocks_fit [OF rel] unfolding blocks_rel_def by (simp add: unat_of_nat_fits del: of_nat_add)
    then show "unat (heapEnd h mod PAGE_SIZE) = unat (0 :: u64)"
      using m0 HS(4) by (simp add: unat_mod PAGE_SIZE_def mod_add_eq [symmetric])
  qed
  show False
    using map_fresh_page(2) [OF inv a \<open>phys \<noteq> 0\<close> al m] assms(2) by simp
qed

end
