(* ===== verification/Memory_Witnesses.thy ===== *)
theory Memory_Witnesses
  imports Vmm
begin

text \<open>
  A machine with eight pages of physical memory, on which the properties of the physical and
  virtual memory managers are applied: pages 0, 1 and 7 are taken, page 1 holds the empty root
  table.
\<close>

definition pm8 :: phys_mem where
  "pm8 = \<lparr>bitmap = (\<lambda>i. if i = 0 then 0x83 else 0xFF), bitmapPhysicalAddress = 0x7000,
     bitmapSize = 4096, totalPages = 8, usedPages = 3, freePages = 5, highestAddress = 0x8000,
     lastAllocIndex = 0\<rparr>"

lemma pages_below_8:
  assumes "p < (8 :: u64)"
  shows "p \<in> {0, 1, 2, 3, 4, 5, 6, 7}"
proof -
  have "unat p < 8" using assms by (simp add: word_less_unat)
  then have "unat p \<in> {0, 1, 2, 3, 4, 5, 6, 7}" by auto
  then have "p \<in> of_nat ` {0, 1, 2, 3, 4, 5, 6, 7}"
    by (intro image_eqI [of p of_nat "unat p"]) (simp_all only: of_nat_unat ucast_id)
  then show ?thesis
    by simp
qed

lemma pm8_free: "free_pages pm8 = {2, 3, 4, 5, 6}"
proof -
  have t: "bitmapTest pm8 0" "bitmapTest pm8 1" "\<not> bitmapTest pm8 2" "\<not> bitmapTest pm8 3"
      "\<not> bitmapTest pm8 4" "\<not> bitmapTest pm8 5" "\<not> bitmapTest pm8 6" "bitmapTest pm8 7"
    by (simp_all add: bitmapTest_def pm8_def bit_of_def)
  have "p \<in> free_pages pm8 \<longleftrightarrow> p \<in> {2, 3, 4, 5, 6}" for p
    using pages_below_8 [of p] t by (auto simp: free_pages_def pm8_def)
  then show ?thesis by blast
qed

lemma pm8_inv: "pmm_inv pm8"
  by (simp add: pmm_inv_def counters_ok_def pm8_free) (simp add: pm8_def)

lemma pm8_avail: "avail_addrs pm8 = {0x2000, 0x3000, 0x4000, 0x5000, 0x6000}"
  by (simp add: avail_addrs_def pm8_free pageToPhysical_def PAGE_SIZE_def)

theorem pmm_allocPage_correct_witness:
  "\<exists>a pm'. pmm_allocPage pm8 = (a, pm') \<and> a \<noteq> 0 \<and> pmm_inv pm'"
proof -
  obtain a pm' where "pmm_allocPage pm8 = (a, pm')" by (cases "pmm_allocPage pm8")
  with pmm_allocPage_correct [OF pm8_inv this] show ?thesis by (auto simp: pm8_free)
qed

theorem pmm_freePage_double_free_witness: "pmm_freePage (pageToPhysical 2) pm8 = Inl AssertFailed"
  by (rule pmm_freePage_double_free [OF pm8_inv, of 2]) (simp add: pm8_free)

lemma pm8_run: "clear_run pm8 2 3"
proof -
  have "clear_at pm8 2" "clear_at pm8 3" "clear_at pm8 4"
    using clear_at_free [of pm8 2] clear_at_free [of pm8 3] clear_at_free [of pm8 4]
    by (simp_all add: pm8_free)
  then show ?thesis
    by (auto simp: clear_run_def less_Suc_eq numeral_eq_Suc)
qed

theorem pmm_allocPages_first_fit_witness:
  "\<exists>a pm'. pmm_allocPages 3 pm8 = (a, pm') \<and> a \<noteq> 0 \<and> pmm_inv pm'"
proof -
  obtain a pm' where "pmm_allocPages 3 pm8 = (a, pm')" by (cases "pmm_allocPages 3 pm8")
  with pmm_allocPages_first_fit [OF pm8_inv _ this] pm8_run show ?thesis
    by (auto split: if_splits)
qed

theorem pmm_freePages_run_witness:
  "\<exists>pm'. pmm_freePages (pageToPhysical 7) 1 pm8 = Inr pm' \<and> pmm_inv pm'"
proof -
  have "p \<notin> {2, 3, 4, 5, 6}" if "7 \<le> unat p" for p :: u64
    using that by auto
  then show ?thesis
    using pmm_freePages_run [OF pm8_inv, of 7 1] pm8_free
    by (auto simp: pm8_def [THEN arg_cong [where f = totalPages]])
qed

theorem pmm_freePage_past_end_witness:
  "\<exists>pm'. pmm_freePage (pageToPhysical (totalPages pm8)) pm8 = Inr pm' \<and> \<not> counters_ok pm'"
  using pmm_freePage_past_end [OF pm8_inv]
  by (auto simp: pm8_def bitmapTest_def bit_of_def)

definition map8 :: "memmap_entry list" where
  "map8 = [\<lparr>mm_base = 0, mm_length = 0x1000, mm_usable = False\<rparr>,
           \<lparr>mm_base = 0x1000, mm_length = 0x7000, mm_usable = True\<rparr>]"

theorem pmm_init_correct_witness: "\<exists>pm. pmm_init (\<lambda>_ _. 0) (Some (Some map8)) = Inr pm \<and> pmm_inv pm"
proof -
  have sz: "bitmap_bytes (pages_of_highest (highest_end map8 0)) = 4096"
    by (simp add: bitmap_bytes_def pages_of_highest_def map8_def alignUp_def PAGE_SIZE_def)
  have home: "bitmap_home map8 4096 = 0x1000"
    by (simp add: map8_def entry_end_def entry_start_def alignUp_def alignDown_def PAGE_SIZE_def)
  have "\<forall>e \<in> set map8. entry_fits e"
    by (simp add: map8_def entry_fits_def)
  moreover have "(0x1000 :: u64) \<noteq> 0" by simp
  ultimately obtain pm where "pmm_init (\<lambda>_ _. 0) (Some (Some map8)) = Inr pm \<and> pmm_inv pm"
    using pmm_init_correct [OF _ home [symmetric] _ sz [symmetric], of "\<lambda>_ _. 0"] by blast
  then show ?thesis ..
qed

definition km8 :: kmem where
  "km8 = \<lparr>vm_pmm = pm8, vm_hhdm = 0xFFFF800000000000, vm_table = \<lambda>_ _. 0, vm_cr3 = 0x1000,
     vm_kernelPML4 = 0xFFFF800000001000\<rparr>"

abbreviation "root8 \<equiv> 0xFFFF800000001000 :: virtAddr"

lemma km8_node: "node km8 root8 q = Some t \<longleftrightarrow> q = [] \<and> t = root8"
  by (cases q) (auto simp: next_table_def km8_def)

lemma km8_inv: "vm_inv km8 root8"
proof -
  have pm: "vm_pmm km8 = pm8" by (simp add: km8_def)
  show ?thesis
    unfolding vm_inv_def km8_node pm
    by (simp add: pm8_inv pm8_avail physicalToVirtual_def virtualToPhysicalHHDM_def)
      (simp add: km8_def pm8_def)
qed

lemma km8_map: "\<exists>s'. vmm_mapPage root8 0x400000 0x2000 2 km8 = Inr (True, s')"
proof -
  have "3 \<le> card (avail_addrs (vm_pmm km8))"
    by (simp add: km8_def pm8_avail)
  from mapPage_total [OF km8_inv this] obtain ok s' where
    m: "vmm_mapPage root8 0x400000 0x2000 2 km8 = Inr (ok, s')" by blast
  moreover have "\<not> is_mapped km8 root8 0x400000"
    by (simp add: is_mapped_def pte_def path_of_def next_table_def) (simp add: km8_def)
  ultimately show ?thesis
    using mapPage_effect [OF km8_inv _ _ m] by (simp add: PAGE_SIZE_def)
qed

theorem vmm_mapPage_correct_witness:
  "\<exists>s'. vmm_mapPage root8 0x400000 0x2000 2 km8 = Inr (True, s') \<and> vm_inv s' root8 \<and>
        pte s' root8 0x400000 = 0x2003"
proof -
  obtain s' where m: "vmm_mapPage root8 0x400000 0x2000 2 km8 = Inr (True, s')"
    using km8_map by blast
  show ?thesis
    using vmm_mapPage_correct [OF km8_inv _ _ m] m
    by (simp add: PAGE_SIZE_def PTE_ADDR_MASK_def PTE_PRESENT_def)
qed

theorem vmm_mapPage_no_panic_witness:
  "\<exists>ok s'. vmm_mapPage root8 0x400000 0x2000 2 km8 = Inr (ok, s') \<and> 2 \<le> card (avail_addrs (vm_pmm s'))"
  by (rule vmm_mapPage_no_panic [OF km8_inv]) (simp add: km8_def pm8_avail)

theorem vmm_translate_after_map_witness:
  "\<exists>s'. vmm_mapPage root8 0x400000 0x2000 2 km8 = Inr (True, s') \<and>
        vmm_virtToPhysical root8 0x400123 s' = Inr 0x2123"
proof -
  obtain s' where m: "vmm_mapPage root8 0x400000 0x2000 2 km8 = Inr (True, s')"
    using km8_map by blast
  show ?thesis
    using vmm_translate_after_map [OF km8_inv _ _ _ _ _ m, where off = "0x123"] m
    by (simp add: PAGE_SIZE_def PTE_ADDR_MASK_def)
qed

theorem vmm_mapRange_correct_witness:
  "\<exists>s'. vmm_mapRange root8 0x400000 0x2000 4096 2 km8 = Inr (True, s') \<and>
        pte s' root8 0x400000 = leaf_entry 0x2000 2"
proof -
  obtain s' where "vmm_mapPage root8 0x400000 0x2000 2 km8 = Inr (True, s')"
    using km8_map by blast
  then have m: "vmm_mapRange root8 0x400000 0x2000 4096 2 km8 = Inr (True, s')"
    by (simp add: vmm_mapRange_def PAGE_SIZE_def)
  show ?thesis
    using vmm_mapRange_correct [OF km8_inv _ _ refl _ m] m
    by (auto simp: PAGE_SIZE_def)
qed

end
