(* ===== verification/Heap_Witnesses.thy ===== *)
theory Heap_Witnesses
  imports Kheap Memory_Witnesses
begin

text \<open>
  A machine with 128 pages of memory, its heap after initialisation, and the properties of the
  kernel heap applied to them.
\<close>

definition pm128 :: phys_mem where
  "pm128 = \<lparr>bitmap = (\<lambda>i. if i = 0 then 3 else 0), bitmapPhysicalAddress = 0x7F000,
     bitmapSize = 4096, totalPages = 128, usedPages = 2, freePages = 126, highestAddress = 0x80000,
     lastAllocIndex = 0\<rparr>"

lemma pm128_free: "free_pages pm128 = {p. 2 \<le> unat p \<and> unat p < 128}"
proof -
  have "bitmapTest pm128 p \<longleftrightarrow> unat p < 2" if "unat p < 128" for p
  proof (cases "p div 8 = 0")
    case True
    have "unat (p div 8) = 0" unfolding True by simp
    then have "unat p div 8 = 0" by (simp only: unat_div) simp
    then have "unat p < 8" by simp
    moreover have "unat (p mod 8) = unat p mod 8" by (simp add: unat_mod)
    ultimately have m: "unat (p mod 8) = unat p" by simp
    have "unat p \<in> {0, 1, 2, 3, 4, 5, 6, 7}" using \<open>unat p < 8\<close> by auto
    then show ?thesis
      by (auto simp: bitmapTest_def bit_of_def m pm128_def True)
  next
    case False
    then have "\<not> unat p < 8"
      by (intro notI) (erule notE, rule unat_eqI, simp add: unat_div)
    then show ?thesis using False by (simp add: bitmapTest_def pm128_def)
  qed
  then show ?thesis
    by (auto simp: free_pages_def word_less_unat) (auto simp: pm128_def)
qed

lemma pm128_inv: "pmm_inv pm128"
proof -
  have "card (free_pages pm128) = 126"
    unfolding pm128_free by (subst card_word_interval) simp_all
  then show ?thesis
    by (simp add: pmm_inv_def counters_ok_def pm128_free) (simp add: pm128_def)
qed

definition km128 :: kmem where
  "km128 = \<lparr>vm_pmm = pm128, vm_hhdm = 0xFFFF800000000000, vm_table = \<lambda>_ _. 0, vm_cr3 = 0x1000,
     vm_kernelPML4 = root8\<rparr>"

lemma km128_node: "node km128 root8 q = Some t \<longleftrightarrow> q = [] \<and> t = root8"
  by (cases q) (auto simp: next_table_def km128_def)

lemma pm128_avail:
  assumes "a \<in> avail_addrs pm128"
  shows "0x2000 \<le> unat a" "unat a < 0x80000"
  using assms unat_pageToPhysical [of "physicalToPage a"]
  by (auto simp: avail_addrs_def pm128_free unat_pageToPhysical)

lemma km128_inv: "vm_inv km128 root8"
proof -
  have pm: "vm_pmm km128 = pm128" and h: "vm_hhdm km128 = 0xFFFF800000000000" by (simp_all add: km128_def)
  have "physicalToVirtual km128 a \<noteq> 0" if "a \<in> avail_addrs pm128" for a
  proof
    assume "physicalToVirtual km128 a = 0"
    then have "a = - 0xFFFF800000000000"
      by (simp add: physicalToVirtual_def h eq_neg_iff_add_eq_0)
    then show False using pm128_avail(2) [OF that] by simp
  qed
  moreover have "virtualToPhysicalHHDM km128 root8 \<notin> avail_addrs pm128"
    using pm128_avail(1) [of "virtualToPhysicalHHDM km128 root8"]
    by (auto simp: virtualToPhysicalHHDM_def h)
  ultimately show ?thesis
    unfolding vm_inv_def km128_node pm by (simp add: pm128_inv) (simp add: pm128_def)
qed

lemma km128_unmapped: "\<not> is_mapped km128 root8 v"
  by (simp add: is_mapped_def pte_def path_of_def next_table_def) (simp add: km128_def)

lemma km128_card: "126 \<le> card (avail_addrs (vm_pmm km128))"
proof -
  have "inj_on pageToPhysical (free_pages pm128)"
    by (rule inj_on_subset [OF inj_pageToPhysical [of pm128]])
       (use pm128_inv in \<open>auto simp: pmm_inv_def free_pages_def\<close>)
  then have "card (avail_addrs pm128) = card (free_pages pm128)"
    by (simp add: avail_addrs_def card_image)
  also have "\<dots> = 126"
    unfolding pm128_free by (subst card_word_interval) simp_all
  finally show ?thesis by (simp add: km128_def)
qed

definition heap0 :: heap where
  "heap0 = \<lparr>h_vm = km128, h_blk = (\<lambda>_. \<lparr>hb_magic = 0, hb_size = 0, hb_free = False, hb_next = 0, hb_prev = 0\<rparr>),
     h_bytes = (\<lambda>a. ucast a), h_head = 0, heapStart = KERNEL_HEAP_START, heapEnd = KERNEL_HEAP_START,
     heapMax = KERNEL_HEAP_START + KERNEL_HEAP_MAX_SIZE, usedMemory = 0, freeMemory = 0\<rparr>"

lemma heap0_vm: "h_vm heap0 = km128" "vm_kernelPML4 km128 = root8"
  by (simp_all add: heap0_def km128_def)

theorem heap_init_correct_witness: "\<exists>h'. heap_init heap0 = Inr h' \<and> heap_ok h' [(65488, True)]"
  using heap_init_correct [of heap0] km128_inv km128_card km128_unmapped by (auto simp: heap0_vm)

lemma heap0_ok: "heap_ok heap0 []"
  using km128_inv HS(1)
  by (auto simp: heap_ok_def blocks_rel_def heap_mapped_def start_ptr_def heap0_vm)
     (simp_all add: heap0_def KERNEL_HEAP_MAX_SIZE_def)

lemma expand_heap0: "\<exists>h'. heap_expandHeap 4096 heap0 = Inr (True, h')"
proof -
  have al0: "(heapEnd heap0 + 0) mod PAGE_SIZE = 0"
    by (simp add: heap0_def KERNEL_HEAP_START_def PAGE_SIZE_def)
  have vm: "vm_inv (h_vm heap0) root8" "vm_kernelPML4 (h_vm heap0) = root8"
    using km128_inv by (simp_all add: heap0_vm)
  obtain h' where e: "expand_pages 1 0 heap0 = Inr (True, h')"
    using expand_pages_total [OF vm al0, of 1] km128_card km128_unmapped by (auto simp: heap0_vm)
  have al: "alignUp (4096 :: u64) 4096 = 4096" by (simp add: alignUp_def)
  have "h' = heap0\<lparr>h_vm := h_vm h'\<rparr>"
    using expand_pages_ok [OF vm al0 e] by simp
  then have "blocks_rel h' [] = blocks_rel heap0 []"
    unfolding blocks_rel_def by (metis (no_types, lifting) heap.select_convs heap.update_convs(1) heap.surjective)
  then obtain h2 where "append_block 4096 h' = Inr h2"
    using append_block_ok [of h' "[]" 4096] heap0_ok by (auto simp: heap_ok_def)
  moreover have "\<not> heapMax heap0 < heapEnd heap0 + 4096"
    by (simp add: heap0_def KERNEL_HEAP_START_def KERNEL_HEAP_MAX_SIZE_def)
  ultimately show ?thesis
    using e by (simp add: heap_expandHeap_def al)
qed

definition heap1 :: heap where
  "heap1 = (case heap_expandHeap 4096 heap0 of Inr (b, h) \<Rightarrow> h | Inl e \<Rightarrow> heap0)"

lemma heap1_ok: "heap_ok heap1 [(4048, True)]"
proof -
  obtain h' where e: "heap_expandHeap 4096 heap0 = Inr (True, h')" using expand_heap0 by blast
  show ?thesis
    using expandHeap_ok [OF heap0_ok _ _ refl e] by (simp add: heap1_def e grow_def)
qed

definition heap2 :: heap where
  "heap2 = (case heap_allocate 100 heap1 of Inr (p, h) \<Rightarrow> h | Inl e \<Rightarrow> heap1)"

lemma heap1_allocate:
  "heap_allocate 100 heap1 = Inr (of_nat (HS + 48), heap2)" "heap_ok heap2 [(112, False), (3888, True)]"
proof -
  have "first_fit (rounded 100) [(4048, True)] = Some ([], 4048, [])"
    by (simp add: rounded_def fits_in_def)
  from allocate_found [OF heap1_ok _ _ this] obtain h' where
    "heap_allocate 100 heap1 = Inr (of_nat (HS + 48), h')" "heap_ok h' (carve (rounded 100) [] 4048 [])"
    by auto
  then show "heap_allocate 100 heap1 = Inr (of_nat (HS + 48), heap2)"
    "heap_ok heap2 [(112, False), (3888, True)]"
    by (simp_all add: heap2_def carve_def rounded_def del: of_nat_add)
qed

lemma heap2_used: "used_blocks [(112, False), (3888, True)] = {(HS, 112)}"
  by (simp add: used_blocks_def)


theorem heap_free_correct_witness:
  "\<exists>h'. heap_free (of_nat (HS + 48)) heap2 = Inr h' \<and> usedMemory h' = usedMemory heap2 - 112"
  using heap_free_correct [OF heap1_allocate(2), of HS 112] heap2_used by auto

lemma heap2_realloc: "\<exists>q h'. heap_realloc (of_nat (HS + 48)) 200 heap2 = Inr (q, h') \<and> q \<noteq> 0"
proof -
  have ff: "first_fit (rounded 200) [(112, False), (3888, True)] = Some ([(112, False)], 3888, [])"
    by (simp add: rounded_def fits_in_def)
  have u: "(HS, 112) \<in> used_blocks [(112, False), (3888, True)]" by (simp add: heap2_used)
  obtain q h1 where q: "heap_allocate 200 heap2 = Inr (q, h1)" "q = of_nat (HS + span [(112, False)] + 48)"
    using allocate_found [OF heap1_allocate(2) _ _ ff] by auto
  obtain xs1 where x: "heap_ok h1 xs1" "(HS, 112) \<in> used_blocks xs1"
    using allocate_effect [OF heap1_allocate(2) _ _ q(1)] u by auto
  have "q \<noteq> 0"
    unfolding q(2)
    by (rule header_nonzero(2) [of heap2 "[(112, False)]" "[(3888, True)]"])
       (use heap1_allocate(2) in \<open>simp_all add: heap_ok_def\<close>)
  let ?m = "memory_copy q (of_nat (HS + 48)) (ucast (hb_size (blk h1 (of_nat HS)))) (h_bytes h1)"
  obtain h2 where f: "heap_free (of_nat (HS + 48)) (h1\<lparr>h_bytes := ?m\<rparr>) = Inr h2"
    using heap_free_effect [of "h1\<lparr>h_bytes := ?m\<rparr>" xs1, OF _ x(2)] x(1) by auto
  have b: "of_nat (HS + 48) - HEADER = of_nat HS" by (simp add: HEADER_def)
  note hd = used_header [OF heap1_allocate(2) u]
  have "heap_realloc (of_nat (HS + 48)) 200 heap2 = Inr (q, h2)"
    unfolding heap_realloc_def Let_def b
    using q(1) f \<open>q \<noteq> 0\<close> hd by (simp add: word_le_unat del: of_nat_add)
  then show ?thesis using \<open>q \<noteq> 0\<close> by blast
qed


theorem heap_allocate_wraps_witness:
  "\<exists>ptr h'. heap_allocate 0xFFFFFFFFFFFFFFFF heap1 = Inr (ptr, h') \<and> ptr \<noteq> 0"
  by (rule heap_allocate_wraps [OF heap1_ok]) simp

text \<open>The page at the end of the heap is mapped, as after a growth that ran out of memory.\<close>

lemma km128_map:
  "\<exists>vm. vmm_mapPage root8 KERNEL_HEAP_START 0x3000 2 km128 = Inr (True, vm) \<and> vm_inv vm root8 \<and>
        vm_kernelPML4 vm = root8 \<and> is_mapped vm root8 KERNEL_HEAP_START \<and>
        4 \<le> card (avail_addrs (vm_pmm vm))"
proof -
  have al: "KERNEL_HEAP_START mod PAGE_SIZE = 0" "(0x3000 :: u64) mod PAGE_SIZE = 0"
    by (simp_all add: KERNEL_HEAP_START_def PAGE_SIZE_def)
  obtain ok vm where m: "vmm_mapPage root8 KERNEL_HEAP_START 0x3000 2 km128 = Inr (ok, vm)"
      "4 \<le> card (avail_addrs (vm_pmm vm))"
    using mapPage_total_card [OF km128_inv, of 4] km128_card by fastforce
  note e = mapPage_effect [OF km128_inv al m(1)]
  then have ok using km128_unmapped by simp
  then show ?thesis
    using e m by (simp add: is_mapped_def heap0_vm)
qed

theorem heap_growth_blocked_witness:
  "\<exists>vm h'. is_mapped vm root8 (heapEnd heap0) \<and>
           heap_expandHeap 4096 (heap0\<lparr>h_vm := vm\<rparr>) = Inr (False, h')"
proof -
  obtain vm where vm: "vm_inv vm root8" "vm_kernelPML4 vm = root8"
      "is_mapped vm root8 KERNEL_HEAP_START" "4 \<le> card (avail_addrs (vm_pmm vm))"
    using km128_map by blast
  let ?h = "heap0\<lparr>h_vm := vm\<rparr>"
  have end0: "heapEnd heap0 = KERNEL_HEAP_START" by (simp add: heap0_def)
  have ok: "heap_ok ?h []"
    using heap0_ok vm by (auto simp: heap_ok_def blocks_rel_def heap_mapped_def)
  obtain phys pm where a: "pmm_allocPage (vm_pmm vm) = (phys, pm)"
    by (cases "pmm_allocPage (vm_pmm vm)")
  have pi: "pmm_inv (vm_pmm vm)" using vm(1) by (simp add: vm_inv_def)
  have "avail_addrs (vm_pmm vm) \<noteq> {}" using vm(4) by auto
  then have nz: "phys \<noteq> 0" using pmm_alloc.alloc_zero_iff [OF pi a] by simp
  note f = pmm_alloc.alloc_keeps_ok [OF pi a]
  have "totalPages pm = totalPages (vm_pmm vm)"
    using allocPage_totalPages [OF _ a] pi by (simp add: pmm_inv_def)
  then have inv1: "vm_inv (vm\<lparr>vm_pmm := pm\<rparr>) root8"
    using f by (intro vm_inv_shrink [OF vm(1)]) auto
  have "3 \<le> card (avail_addrs (vm_pmm (vm\<lparr>vm_pmm := pm\<rparr>)))"
    using f vm(4) diff_card_le_card_Diff [of "{phys}" "avail_addrs (vm_pmm vm)"] by simp
  from mapPage_total [OF inv1 this] obtain b vm' where
    m: "vmm_mapPage root8 KERNEL_HEAP_START phys FlagWritable (vm\<lparr>vm_pmm := pm\<rparr>) = Inr (b, vm')" by blast
  have "KERNEL_HEAP_START mod PAGE_SIZE = 0" by (simp add: KERNEL_HEAP_START_def PAGE_SIZE_def)
  note e = map_fresh_page [OF vm(1) a nz this m]
  have "\<not> b" using e(2) vm(3) by simp
  moreover obtain pm' where "pmm_freePage phys (vm_pmm vm') = Inr pm'" using e(5) by blast
  ultimately have p: "expand_pages (Suc 0) 0 ?h = Inr (False, ?h\<lparr>h_vm := vm'\<lparr>vm_pmm := pm'\<rparr>\<rparr>)"
    using a nz m vm(2) by (simp add: vmm_getKernelPml4_def Let_def end0)
  have "alignUp (4096 :: u64) 4096 = 4096" by (simp add: alignUp_def)
  moreover have "\<not> heapMax ?h < heapEnd ?h + 4096"
    by (simp add: heap0_def KERNEL_HEAP_START_def KERNEL_HEAP_MAX_SIZE_def)
  ultimately obtain b h' where x: "heap_expandHeap 4096 ?h = Inr (b, h')"
    using p by (simp add: heap_expandHeap_def del: expand_pages.simps)
  then have "\<not> b"
    using heap_growth_blocked [OF ok _ _ _ x] vm(2,3) by (simp add: end0)
  then show ?thesis using x vm(3) by (auto simp: end0)
qed

end
