(* ===== verification/Block_Device.thy ===== *)
theory Block_Device
  imports Avery_Prelude
begin

text \<open>
  Block devices: \<^verbatim>\<open>BlockDevice\<close> of \<^verbatim>\<open>include/drivers/driver.h\<close> and its
  implementation \<^verbatim>\<open>ATADiskDevice::access\<close> of \<^verbatim>\<open>kernel/drivers/storage/ata.cpp\<close>
  at sector granularity: the checks, the order of the transfers and where a failing transfer stops. Whether
  the drive accepts the transfer of one sector is a parameter of the medium. The interface the file system
  relies on is a locale, interpreted on this model.
\<close>

section \<open>The disk\<close>

record medium =
  m_blocks :: u64
  m_sector :: "u64 \<Rightarrow> u8 list"
  m_unreadable :: "u64 \<Rightarrow> bool"
  m_unwritable :: "u64 \<Rightarrow> bool"

fun read_sectors :: "nat \<Rightarrow> u64 \<Rightarrow> medium \<Rightarrow> u8 list option" where
  "read_sectors 0 lba m = Some []"
| "read_sectors (Suc n) lba m =
     (if m_unreadable m lba then None
      else case read_sectors n (lba + 1) m of
          None \<Rightarrow> None
        | Some rest \<Rightarrow> Some (m_sector m lba @ rest))"

fun write_sectors :: "nat \<Rightarrow> u64 \<Rightarrow> u8 list \<Rightarrow> medium \<Rightarrow> bool \<times> medium" where
  "write_sectors 0 lba buf m = (True, m)"
| "write_sectors (Suc n) lba buf m =
     (if m_unwritable m lba then (False, m)
      else write_sectors n (lba + 1) (drop 512 buf)
             (m\<lparr>m_sector := (m_sector m)(lba := take 512 buf)\<rparr>))"

definition disk_readBlocks :: "u64 \<Rightarrow> u32 \<Rightarrow> medium \<Rightarrow> u8 list option" where
  "disk_readBlocks lba count m =
     (if count = 0 then Some []
      else if m_blocks m < lba + ucast count then None
      else if 0x0FFFFFFF < lba then None
      else read_sectors (unat count) lba m)"

definition disk_writeBlocks :: "u64 \<Rightarrow> u32 \<Rightarrow> u8 list \<Rightarrow> medium \<Rightarrow> bool \<times> medium" where
  "disk_writeBlocks lba count buf m =
     (if count = 0 then (True, m)
      else if m_blocks m < lba + ucast count then (False, m)
      else if 0x0FFFFFFF < lba then (False, m)
      else write_sectors (unat count) lba buf m)"

section \<open>The interface\<close>

text \<open>
  \<open>sector s a\<close> is the content of block \<open>a\<close>. Reading returns the blocks in order; a write that
  succeeds replaces exactly its blocks, one that fails may have replaced some of them and no other.
\<close>

locale block_device =
  fixes rd :: "u64 \<Rightarrow> u32 \<Rightarrow> 's \<Rightarrow> u8 list option"
    and wr :: "u64 \<Rightarrow> u32 \<Rightarrow> u8 list \<Rightarrow> 's \<Rightarrow> bool \<times> 's"
    and sector :: "'s \<Rightarrow> u64 \<Rightarrow> u8 list"
    and ok :: "'s \<Rightarrow> bool"
  assumes sector_length: "ok s \<Longrightarrow> length (sector s a) = 512"
    and read_law: "rd a n s = Some buf \<Longrightarrow>
      buf = concat (map (\<lambda>i. sector s (a + of_nat i)) [0..<unat n])"
    and write_ok: "ok s \<Longrightarrow> length buf = 512 * unat n \<Longrightarrow> wr a n buf s = (b, s') \<Longrightarrow> ok s'"
    and write_frame: "wr a n buf s = (b, s') \<Longrightarrow> (\<And>i. i < unat n \<Longrightarrow> x \<noteq> a + of_nat i) \<Longrightarrow>
      sector s' x = sector s x"
    and write_hit: "wr a n buf s = (True, s') \<Longrightarrow> i < unat n \<Longrightarrow>
      sector s' (a + of_nat i) = take 512 (drop (512 * i) buf)"
begin

lemma read_length:
  assumes "ok s" "rd a n s = Some buf"
  shows "length buf = 512 * unat n"
proof -
  have "length (concat (map (\<lambda>i. sector s (a + of_nat i)) [0..<k])) = 512 * k" for k
    by (induction k) (auto simp: sector_length [OF assms(1)])
  then show ?thesis using read_law [OF assms(2)] by simp
qed

lemma read_one: "rd a 1 s = Some buf \<Longrightarrow> buf = sector s a"
  using read_law [of a 1 s buf] by simp

lemma write_one: "wr a 1 buf s = (True, s') \<Longrightarrow> length buf = 512 \<Longrightarrow> sector s' a = buf"
  using write_hit [of a 1 buf s s' 0] by simp

lemma write_one_frame: "wr a 1 buf s = (b, s') \<Longrightarrow> x \<noteq> a \<Longrightarrow> sector s' x = sector s x"
  using write_frame [of a 1 buf s b s' x] by simp

lemma concat_chunks:
  "length buf = 512 * k \<Longrightarrow> concat (map (\<lambda>i. take 512 (drop (512 * i) buf)) [0..<k]) = buf"
proof (induction k arbitrary: buf)
  case (Suc k)
  let ?b = "take (512 * k) buf"
  have "length ?b = 512 * k" using Suc.prems by simp
  note IH = Suc.IH [OF this]
  have "take 512 (drop (512 * i) ?b) = take 512 (drop (512 * i) buf)" if "i < k" for i
  proof -
    have "512 \<le> 512 * k - 512 * i" using that by simp
    then show ?thesis by (simp only: drop_take take_take min_absorb1)
  qed
  then have eq: "map (\<lambda>i. take 512 (drop (512 * i) buf)) [0..<k] = map (\<lambda>i. take 512 (drop (512 * i) ?b)) [0..<k]"
    by (intro map_cong refl) (auto simp del: drop_take)
  have "take 512 (drop (512 * k) buf) = drop (512 * k) buf"
    using Suc.prems by simp
  then have "concat (map (\<lambda>i. take 512 (drop (512 * i) buf)) [0..<Suc k]) = ?b @ drop (512 * k) buf"
    by (simp only: upt_Suc_append zero_le map_append concat_append eq IH) simp
  then show ?case by (simp only: append_take_drop_id)
qed simp

text \<open>What was written is what is read.\<close>

lemma read_after_write:
  assumes "length buf = 512 * unat n" "wr a n buf s = (True, s')" "rd a n s' = Some buf'"
  shows "buf' = buf"
proof -
  have eq: "map (\<lambda>i. sector s' (a + of_nat i)) [0..<unat n] = map (\<lambda>i. take 512 (drop (512 * i) buf)) [0..<unat n]"
    using write_hit [OF assms(2)] by simp
  show ?thesis
    unfolding read_law [OF assms(3)] eq by (rule concat_chunks [OF assms(1)])
qed

text \<open>Blocks that do not meet the written range read as before.\<close>

lemma read_frame:
  assumes "wr a n buf s = (b, s')" "rd c k s = Some x" "rd c k s' = Some y"
    and "\<And>i j. i < unat n \<Longrightarrow> j < unat k \<Longrightarrow> c + of_nat j \<noteq> a + of_nat i"
  shows "y = x"
proof -
  have eq: "map (\<lambda>i. sector s' (c + of_nat i)) [0..<unat k] = map (\<lambda>i. sector s (c + of_nat i)) [0..<unat k]"
    using write_frame [OF assms(1)] assms(4) by simp
  show ?thesis
    unfolding read_law [OF assms(2)] read_law [OF assms(3)] eq ..
qed

end

section \<open>The model provides it\<close>

definition disk_ok :: "medium \<Rightarrow> bool" where
  "disk_ok m \<longleftrightarrow> (\<forall>a. length (m_sector m a) = 512)"

lemma read_sectors_law:
  "read_sectors n a m = Some buf \<Longrightarrow> buf = concat (map (\<lambda>i. m_sector m (a + of_nat i)) [0..<n])"
proof (induction n arbitrary: a buf)
  case (Suc n)
  then obtain rest where r: "read_sectors n (a + 1) m = Some rest" "buf = m_sector m a @ rest"
    by (auto split: if_splits option.splits)
  have "[0..<Suc n] = 0 # map Suc [0..<n]"
    by (simp add: upt_conv_Cons map_Suc_upt del: upt_Suc)
  then show ?case
    using r Suc.IH [OF r(1)] by (simp add: o_def add.assoc)
qed simp

lemma write_sectors_ok:
  "disk_ok m \<Longrightarrow> 512 * n \<le> length buf \<Longrightarrow> write_sectors n a buf m = (b, m') \<Longrightarrow> disk_ok m'"
  by (induction n a buf m rule: write_sectors.induct) (auto simp: disk_ok_def split: if_splits)

lemma write_sectors_frame:
  "write_sectors n a buf m = (b, m') \<Longrightarrow> (\<And>i. i < n \<Longrightarrow> x \<noteq> a + of_nat i) \<Longrightarrow> m_sector m' x = m_sector m x"
proof (induction n a buf m rule: write_sectors.induct)
  case (2 n a buf m)
  have "x \<noteq> a" using "2.prems"(2) [of 0] by simp
  moreover have "x \<noteq> a + 1 + of_nat i" if "i < n" for i
    using "2.prems"(2) [of "Suc i"] that by (simp add: add.assoc)
  ultimately show ?case
    using 2 by (auto split: if_splits)
qed simp

lemma of_nat_plus_neq:
  assumes "i < 2 ^ 32"
  shows "(a :: u64) \<noteq> a + 1 + of_nat i"
proof
  assume "a = a + 1 + of_nat i"
  then have "(of_nat (Suc i) :: u64) = 0" by (simp add: add.assoc)
  moreover have "unat (of_nat (Suc i) :: u64) = Suc i"
    using assms by (intro unat_of_nat_fits) simp
  ultimately show False by simp
qed

lemma write_sectors_hit:
  "write_sectors n a buf m = (True, m') \<Longrightarrow> i < n \<Longrightarrow> n \<le> 2 ^ 32 \<Longrightarrow>
   m_sector m' (a + of_nat i) = take 512 (drop (512 * i) buf)"
proof (induction n a buf m arbitrary: i rule: write_sectors.induct)
  case (2 n a buf m)
  let ?m = "m\<lparr>m_sector := (m_sector m)(a := take 512 buf)\<rparr>"
  have w: "write_sectors n (a + 1) (drop 512 buf) ?m = (True, m')"
    using "2.prems"(1) by (auto split: if_splits)
  show ?case
  proof (cases i)
    case 0
    have "m_sector m' a = m_sector ?m a"
      by (rule write_sectors_frame [OF w]) (use of_nat_plus_neq "2.prems"(3) in auto)
    then show ?thesis using 0 by simp
  next
    case (Suc j)
    have "\<not> m_unwritable m a" using "2.prems"(1) by (auto split: if_splits)
    then show ?thesis
      using "2.IH" [OF _ w, of j] "2.prems" Suc by (simp add: add.commute add.left_commute)
  qed
qed simp

lemma write_sectors_same: "write_sectors n a buf m = (b, m') \<Longrightarrow> m' = m\<lparr>m_sector := m_sector m'\<rparr>"
  by (induction n a buf m rule: write_sectors.induct) (fastforce split: if_splits)+

lemma disk_writeBlocks_same: "disk_writeBlocks a n buf m = (b, m') \<Longrightarrow> m' = m\<lparr>m_sector := m_sector m'\<rparr>"
  using write_sectors_same [of "unat n" a buf m b m'] by (auto simp: disk_writeBlocks_def split: if_splits)

text \<open>Transfers of readable and writable blocks succeed.\<close>

lemma read_sectors_total: "(\<And>x. \<not> m_unreadable m x) \<Longrightarrow> read_sectors n a m \<noteq> None"
  by (induction n arbitrary: a) (auto split: option.splits)

lemma write_sectors_total: "(\<And>x. \<not> m_unwritable m x) \<Longrightarrow> fst (write_sectors n a buf m)"
  by (induction n a buf m rule: write_sectors.induct) auto

definition disk_healthy :: "medium \<Rightarrow> bool" where
  "disk_healthy m \<longleftrightarrow> disk_ok m \<and> (\<forall>x. \<not> m_unreadable m x \<and> \<not> m_unwritable m x)"

lemma disk_transfers_total:
  assumes "disk_healthy m" "unat a + unat n \<le> unat (m_blocks m)" "unat a \<le> 0x0FFFFFFF"
  shows "disk_readBlocks a n m \<noteq> None" "fst (disk_writeBlocks a n buf m)"
proof -
  have "unat (a + ucast n) = unat a + unat (ucast n :: u64)"
    using assms(3) unsigned_less [of n, where ?'a = nat]
    by (intro unat_add_fits) (simp add: unsigned_ucast_eq take_bit_nat_eq_self)
  then have "\<not> m_blocks m < a + ucast n"
    using assms(2) unsigned_less [of n, where ?'a = nat]
    by (simp add: word_less_unat unsigned_ucast_eq take_bit_nat_eq_self)
  moreover have "\<not> 0x0FFFFFFF < a" using assms(3) by (simp add: word_less_unat)
  ultimately show "disk_readBlocks a n m \<noteq> None" "fst (disk_writeBlocks a n buf m)"
    using assms(1) read_sectors_total [of m "unat n" a] write_sectors_total [of m "unat n" a buf]
    by (simp_all add: disk_readBlocks_def disk_writeBlocks_def disk_healthy_def)
qed

interpretation disk: block_device disk_readBlocks disk_writeBlocks m_sector disk_ok
proof unfold_locales
  fix s :: medium and a n buf b s' x i
  show "disk_ok s \<Longrightarrow> length (m_sector s a) = 512"
    by (simp add: disk_ok_def)
  show "disk_readBlocks a n s = Some buf \<Longrightarrow> buf = concat (map (\<lambda>i. m_sector s (a + of_nat i)) [0..<unat n])"
    using read_sectors_law [of "unat n" a s buf] by (auto simp: disk_readBlocks_def split: if_splits)
  show "disk_ok s \<Longrightarrow> length buf = 512 * unat n \<Longrightarrow> disk_writeBlocks a n buf s = (b, s') \<Longrightarrow> disk_ok s'"
    using write_sectors_ok [of s "unat n" buf a b s'] by (auto simp: disk_writeBlocks_def split: if_splits)
  show "disk_writeBlocks a n buf s = (b, s') \<Longrightarrow> (\<And>i. i < unat n \<Longrightarrow> x \<noteq> a + of_nat i) \<Longrightarrow>
      m_sector s' x = m_sector s x"
    using write_sectors_frame [of "unat n" a buf s b s' x] by (auto simp: disk_writeBlocks_def split: if_splits)
  show "disk_writeBlocks a n buf s = (True, s') \<Longrightarrow> i < unat n \<Longrightarrow>
      m_sector s' (a + of_nat i) = take 512 (drop (512 * i) buf)"
    using write_sectors_hit [of "unat n" a buf s s' i] unsigned_less [of n, where ?'a = nat]
    by (auto simp: disk_writeBlocks_def split: if_splits)
qed

end
