(* ===== verification/Fat_Names.thy ===== *)
theory Fat_Names
  imports Avery_Prelude
begin

text \<open>
  Names and paths of the FAT32 file system, the anonymous namespace and
  \<^verbatim>\<open>splitPath\<close> of \<^verbatim>\<open>kernel/fs/fat32.cpp\<close>: case folding, 8.3 names and
  their decoding, long-name pieces, path components. Strings are lists of bytes.
\<close>

section \<open>Case and comparison\<close>

definition toLower :: "u8 \<Rightarrow> u8" where
  "toLower c = (if 65 \<le> c \<and> c \<le> 90 then c - 65 + 97 else c)"

definition toUpper :: "u8 \<Rightarrow> u8" where
  "toUpper c = (if 97 \<le> c \<and> c \<le> 122 then c - 97 + 65 else c)"

definition namesEqual :: "u8 list \<Rightarrow> u8 list \<Rightarrow> bool" where
  "namesEqual a b \<longleftrightarrow> length a = length b \<and> (\<forall>i \<in> {..<length a}. toLower (a ! i) = toLower (b ! i))"

definition isEndOfChain :: "u32 \<Rightarrow> bool" where
  "isEndOfChain cluster \<longleftrightarrow> 0x0FFFFFF8 \<le> cluster"

definition isDotEntry :: "u8 list \<Rightarrow> bool" where
  "isDotEntry name \<longleftrightarrow> name = [46] \<or> name = [46, 46]"

section \<open>Short names\<close>

text \<open>The scan of \<^verbatim>\<open>makeShortName\<close>: \<open>None\<close> at a slash, otherwise the last dot and the number of dots.\<close>

fun scan_dots :: "u8 list \<Rightarrow> nat \<Rightarrow> nat \<times> nat \<Rightarrow> (nat \<times> nat) option" where
  "scan_dots [] i st = Some st"
| "scan_dots (c # cs) i (dot, count) =
     (if c = 47 then None
      else if c = 46 then scan_dots cs (i + 1) (i, count + 1)
      else scan_dots cs (i + 1) (dot, count))"

fun put_upper :: "nat \<Rightarrow> u8 list \<Rightarrow> u8 list \<Rightarrow> u8 list" where
  "put_upper k [] out = out"
| "put_upper k (c # cs) out = put_upper (k + 1) cs (out[k := toUpper c])"

definition makeShortName :: "u8 list \<Rightarrow> u8 list option" where
  "makeShortName name =
     (if name = [] then None
      else case scan_dots name 0 (length name, 0) of
          None \<Rightarrow> None
        | Some (dot, dotCount) \<Rightarrow>
            if 1 < dotCount then None
            else
              let baseLength = dot;
                  extLength = (if dotCount = 0 then 0 else length name - dot - 1)
              in if baseLength = 0 \<or> 8 < baseLength \<or> 3 < extLength then None
                 else Some (put_upper 8 (take extLength (drop (dot + 1) name))
                             (put_upper 0 (take baseLength name) (replicate 11 32))))"

text \<open>\<^verbatim>\<open>while (end > low && name[end - 1] == ' ') end--\<close>\<close>

fun trim_end :: "nat \<Rightarrow> u8 list \<Rightarrow> nat \<Rightarrow> nat" where
  "trim_end low name 0 = 0"
| "trim_end low name (Suc n) = (if low < Suc n \<and> name ! n = 32 then trim_end low name n else Suc n)"

text \<open>The constructor from a C string stops at the first NUL.\<close>

definition of_cstr :: "u8 list \<Rightarrow> u8 list" where
  "of_cstr cs = takeWhile (\<lambda>c. c \<noteq> 0) cs"

definition shortNameToString :: "u8 list \<Rightarrow> u8 list" where
  "shortNameToString raw =
     (let baseEnd = trim_end 0 raw 8;
          extEnd = trim_end 8 raw 11
      in of_cstr (map toLower (take baseEnd raw) @
           (if 8 < extEnd then 46 # map toLower (take (extEnd - 8) (drop 8 raw)) else [])))"

fun appendLFNChars :: "u8 list \<Rightarrow> u16 list \<Rightarrow> u8 list" where
  "appendLFNChars out [] = out"
| "appendLFNChars out (c # cs) =
     (if c = 0 then out
      else if c = 0xFFFF then appendLFNChars out cs
      else appendLFNChars (out @ [ucast (c AND 0xFF)]) cs)"

definition fillDotName :: "bool \<Rightarrow> u8 list" where
  "fillDotName parent =
     (let out = (replicate 11 32)[0 := 46] in if parent then out[1 := 46] else out)"

section \<open>Paths\<close>

definition pathComponent :: "u8 list \<Rightarrow> nat \<Rightarrow> nat \<Rightarrow> u8 list" where
  "pathComponent path start stop = take (stop - start) (drop start path)"

fun strip_slashes :: "u8 list \<Rightarrow> nat \<Rightarrow> nat" where
  "strip_slashes path 0 = 0"
| "strip_slashes path (Suc n) = (if 1 < Suc n \<and> path ! n = 47 then strip_slashes path n else Suc n)"

fun back_to_slash :: "u8 list \<Rightarrow> nat \<Rightarrow> nat" where
  "back_to_slash path 0 = 0"
| "back_to_slash path (Suc n) = (if path ! n \<noteq> 47 then back_to_slash path n else Suc n)"

definition basenameOf :: "u8 list \<Rightarrow> u8 list" where
  "basenameOf path =
     (if path = [47] then [47]
      else let stop = strip_slashes path (length path) in
           pathComponent path (back_to_slash path stop) stop)"

definition parentOf :: "u8 list \<Rightarrow> u8 list" where
  "parentOf path =
     (if path = [47] then [47]
      else let slash = back_to_slash path (strip_slashes path (length path)) in
           if slash \<le> 1 then [47] else pathComponent path 0 (slash - 1))"

text \<open>\<^verbatim>\<open>splitPath\<close>; the argument is the path from \<^verbatim>\<open>start\<close> on.\<close>

function splitPath :: "u8 list \<Rightarrow> u8 list list" where
  "splitPath path =
     (if path = [] then []
      else let rest = dropWhile (\<lambda>c. c = 47) path;
               part = takeWhile (\<lambda>c. c \<noteq> 47) rest;
               rest' = dropWhile (\<lambda>c. c \<noteq> 47) rest
           in (if part \<noteq> [] then [part] else []) @ splitPath rest')"
  by pat_completeness auto
termination
proof (relation "measure length")
  fix path rest part rest' :: "u8 list"
  assume p: "path \<noteq> []" and r: "rest = dropWhile (\<lambda>c. c = 47) path"
    and q: "rest' = dropWhile (\<lambda>c. c \<noteq> 47) rest"
  show "(rest', path) \<in> measure length"
  proof (cases "hd path = 47")
    case True
    then have "length rest < length path"
      using p r by (cases path) (auto simp: length_dropWhile_le less_Suc_eq_le)
    then show ?thesis
      using q length_dropWhile_le [of "\<lambda>c. c \<noteq> 47" rest] by simp
  next
    case False
    then have "rest = path" using p r by (cases path) auto
    then have "length rest' < length path"
      using p q False by (cases path) (auto simp: length_dropWhile_le less_Suc_eq_le)
    then show ?thesis by simp
  qed
qed simp

declare splitPath.simps [simp del]

section \<open>Properties of paths\<close>

text \<open>Splitting with an accumulator, for reasoning by induction on the characters.\<close>

fun split_acc :: "u8 list \<Rightarrow> u8 list \<Rightarrow> u8 list list" where
  "split_acc acc [] = (if acc = [] then [] else [acc])"
| "split_acc acc (c # cs) =
     (if c = 47 then (if acc = [] then [] else [acc]) @ split_acc [] cs else split_acc (acc @ [c]) cs)"

lemma split_acc_slashes: "split_acc [] (dropWhile (\<lambda>c. c = 47) p) = split_acc [] p"
  by (induction p) auto

lemma split_acc_part:
  "split_acc acc p = (if acc @ takeWhile (\<lambda>c. c \<noteq> 47) p = [] then [] else [acc @ takeWhile (\<lambda>c. c \<noteq> 47) p]) @
     split_acc [] (dropWhile (\<lambda>c. c \<noteq> 47) p)"
  by (induction acc p rule: split_acc.induct) auto

lemma splitPath_acc: "splitPath p = split_acc [] p"
proof (induction p rule: splitPath.induct)
  case (1 p)
  show ?case
  proof (cases "p = []")
    case True
    then show ?thesis by (simp add: splitPath.simps)
  next
    case False
    then show ?thesis
      using 1 split_acc_part [of "[]" "dropWhile (\<lambda>c. c = 47) p"] split_acc_slashes [of p]
      by (subst splitPath.simps) (simp add: Let_def)
  qed
qed

lemma split_acc_append: "split_acc acc (xs @ 47 # ys) = split_acc acc xs @ split_acc [] ys"
  by (induction acc xs rule: split_acc.induct) auto

lemma split_acc_component: "47 \<notin> set xs \<Longrightarrow> split_acc acc xs = (if acc @ xs = [] then [] else [acc @ xs])"
  by (induction acc xs rule: split_acc.induct) auto

lemma split_acc_only_slashes: "set ys \<subseteq> {47} \<Longrightarrow> split_acc [] ys = []"
  by (induction ys) auto

lemma split_acc_trailing: "set ys \<subseteq> {47} \<Longrightarrow> split_acc acc (xs @ ys) = split_acc acc xs"
  using split_acc_append [of acc xs "tl ys"] split_acc_only_slashes [of "tl ys"]
  by (cases ys) auto

lemma strip_slashes_spec:
  "strip_slashes p n \<le> n \<and> (0 < n \<longrightarrow> 0 < strip_slashes p n) \<and>
   (\<forall>i. strip_slashes p n \<le> i \<and> i < n \<longrightarrow> p ! i = 47) \<and>
   (1 < strip_slashes p n \<longrightarrow> p ! (strip_slashes p n - 1) \<noteq> 47)"
proof (induction n)
  case (Suc n)
  show ?case
  proof (cases "1 < Suc n \<and> p ! n = 47")
    case True
    have "p ! i = 47" if "strip_slashes p n \<le> i" "i < Suc n" for i
      using Suc True that by (cases "i = n") auto
    then show ?thesis using Suc True by simp
  next
    case False
    then have "strip_slashes p (Suc n) = Suc n" by (simp only: strip_slashes.simps if_False)
    then show ?thesis using False by auto
  qed
qed simp

lemma back_to_slash_spec:
  "back_to_slash p n \<le> n \<and> (\<forall>i. back_to_slash p n \<le> i \<and> i < n \<longrightarrow> p ! i \<noteq> 47) \<and>
   (0 < back_to_slash p n \<longrightarrow> p ! (back_to_slash p n - 1) = 47)"
proof (induction n)
  case (Suc n)
  show ?case
  proof (cases "p ! n \<noteq> 47")
    case True
    have "p ! i \<noteq> 47" if "back_to_slash p n \<le> i" "i < Suc n" for i
      using Suc True that by (cases "i = n") auto
    then show ?thesis using Suc True by simp
  qed auto
qed simp

lemma path_parts:
  assumes "p \<noteq> []" "k = strip_slashes p (length p)" "b = back_to_slash p k"
  shows "p = take b p @ pathComponent p b k @ drop k p" "47 \<notin> set (pathComponent p b k)"
    "set (drop k p) \<subseteq> {47}" "b \<le> k" "k \<le> length p" "0 < k" "0 < b \<Longrightarrow> p ! (b - 1) = 47"
    "1 < k \<Longrightarrow> p ! (k - 1) \<noteq> 47"
proof -
  note s = strip_slashes_spec [of p "length p", folded assms(2)]
  note t = back_to_slash_spec [of p k, folded assms(3)]
  show k: "b \<le> k" "k \<le> length p" "0 < k" "0 < b \<Longrightarrow> p ! (b - 1) = 47" "1 < k \<Longrightarrow> p ! (k - 1) \<noteq> 47"
    using s t assms(1) by auto
  show "p = take b p @ pathComponent p b k @ drop k p"
    using k(1) by (simp add: pathComponent_def) (metis append_take_drop_id drop_drop le_add_diff_inverse2)
  show "47 \<notin> set (pathComponent p b k)"
  proof
    assume "47 \<in> set (pathComponent p b k)"
    then obtain i where "i < k - b" "b + i < length p" "p ! (b + i) = 47"
      by (auto simp: pathComponent_def in_set_conv_nth)
    then show False using t k by auto
  qed
  show "set (drop k p) \<subseteq> {47}"
  proof
    fix x assume "x \<in> set (drop k p)"
    then obtain i where "i < length p - k" "x = p ! (k + i)"
      by (auto simp: in_set_conv_nth)
    then show "x \<in> {47}" using s by auto
  qed
qed

text \<open>
  C14. \<^verbatim>\<open>parentOf\<close> and \<^verbatim>\<open>basenameOf\<close> take a path apart the way
  \<^verbatim>\<open>splitPath\<close> walks it: for every path with at least one component, the components are those of
  the parent followed by the base name, whatever extra slashes the path has.
\<close>

theorem path_parent_basename:
  assumes "splitPath path \<noteq> []"
  shows "splitPath path = splitPath (parentOf path) @ [basenameOf path]"
proof -
  define k where "k = strip_slashes path (length path)"
  define b where "b = back_to_slash path k"
  have ne: "path \<noteq> []" and nr: "path \<noteq> [47]"
    using assms by (auto simp: splitPath_acc)
  note pp = path_parts [OF ne k_def b_def]
  have base: "basenameOf path = pathComponent path b k"
    using nr by (simp add: basenameOf_def k_def b_def Let_def)
  have bk: "b < k"
  proof (rule ccontr)
    assume "\<not> b < k"
    then have "b = k" using pp(4) by simp
    then have "k = 1" using pp(6,7,8) by fastforce
    then have "path ! 0 = 47" using pp(7) \<open>b = k\<close> by simp
    then have "set path \<subseteq> {47}"
      using pp(3) \<open>k = 1\<close> ne by (cases path) auto
    then show False using assms split_acc_trailing [of path "[]" "[]"] by (simp add: splitPath_acc)
  qed
  then have cne: "pathComponent path b k \<noteq> []"
    using pp(5) by (simp add: pathComponent_def)
  have all: "splitPath path = split_acc [] (take b path @ pathComponent path b k)"
    unfolding splitPath_acc
    by (subst pp(1)) (simp only: append_assoc [symmetric] split_acc_trailing [OF pp(3)])
  show ?thesis
  proof (cases "b = 0")
    case True
    then have "parentOf path = [47]"
      using nr by (simp add: parentOf_def k_def [symmetric] b_def [symmetric] Let_def)
    then show ?thesis
      using all True pp(2) cne by (simp add: base split_acc_component splitPath_acc)
  next
    case False
    have tb: "take b path = take (b - 1) path @ [47]"
      using False pp(4,5,7) take_Suc_conv_app_nth [of "b - 1" path] by simp
    have par: "split_acc [] (take (b - 1) path) = splitPath (parentOf path)"
      using nr False by (cases "b = 1") (auto simp: parentOf_def k_def [symmetric] b_def [symmetric] Let_def
          pathComponent_def splitPath_acc)
    have "split_acc [] (take b path @ pathComponent path b k) =
        split_acc [] (take (b - 1) path) @ split_acc [] (pathComponent path b k)"
      unfolding tb using split_acc_append [of "[]" "take (b - 1) path" "pathComponent path b k"] by simp
    then show ?thesis
      using all par pp(2) cne by (simp add: base split_acc_component)
  qed
qed

theorem path_parent_basename_witness:
  "splitPath [47, 97, 47, 98] = splitPath (parentOf [47, 97, 47, 98]) @ [basenameOf [47, 97, 47, 98]]"
  by (rule path_parent_basename) (simp add: splitPath_acc)

section \<open>Properties of short names\<close>

lemma toUpper_range: "97 \<le> c \<Longrightarrow> c \<le> 122 \<Longrightarrow> 65 \<le> c - 97 + 65 \<and> c - 97 + 65 \<le> (90 :: u8)"
  by unat_arith

lemma toLower_toUpper [simp]: "toLower (toUpper c) = toLower c"
proof (cases "97 \<le> c \<and> c \<le> 122")
  case True
  then have "\<not> c \<le> 90" by unat_arith
  then show ?thesis using True toUpper_range [of c] by (simp add: toLower_def toUpper_def)
next
  case False
  then show ?thesis by (simp only: toUpper_def if_False)
qed

lemma toUpper_neq: "c \<noteq> 32 \<Longrightarrow> toUpper c \<noteq> 32"
  using toUpper_range [of c] by (auto simp: toUpper_def)

lemma unat_lower:
  "65 \<le> c \<Longrightarrow> c \<le> 90 \<Longrightarrow> unat (c - 65 + 97) = unat c + 32" for c :: u8
  by (simp add: word_le_unat unat_add_fits unat_sub_fits del: diff_add_eq)

lemma toLower_eq_0: "toLower c = 0 \<longleftrightarrow> c = 0"
proof (cases "65 \<le> c \<and> c \<le> 90")
  case True
  then have "unat (c - 65 + 97) \<noteq> 0" "c \<noteq> 0" using unat_lower by auto
  then have "c - 65 + 97 \<noteq> 0" "c \<noteq> 0" by auto
  then show ?thesis using True by (simp add: toLower_def)
next
  case False
  then show ?thesis by (simp only: toLower_def if_False)
qed

lemma put_upper_eq:
  "k + length cs \<le> length out \<Longrightarrow> put_upper k cs out = take k out @ map toUpper cs @ drop (k + length cs) out"
proof (induction k cs out rule: put_upper.induct)
  case (2 k c cs out)
  have "take (k + 1) (out[k := toUpper c]) = take k out @ [toUpper c]"
    using "2.prems" by (simp add: take_Suc_conv_app_nth)
  then show ?case using 2 by (simp add: add.commute)
qed simp

lemma trim_end_eq:
  assumes "low \<le> m" "m \<le> n" "\<And>i. m \<le> i \<Longrightarrow> i < n \<Longrightarrow> raw ! i = 32" "m = low \<or> raw ! (m - 1) \<noteq> 32"
  shows "trim_end low raw n = m"
  using assms(2,3)
proof (induction n)
  case 0
  then show ?case by simp
next
  case (Suc n)
  show ?case
  proof (cases "m = Suc n")
    case True
    then show ?thesis using assms(4) by auto
  next
    case False
    then show ?thesis using Suc assms(1) by simp
  qed
qed

lemma scan_dots_spec:
  "scan_dots cs i (dot, count) = Some (dot', count') \<Longrightarrow>
   47 \<notin> set cs \<and> count' = count + length (filter (\<lambda>c. c = 46) cs) \<and>
   (46 \<notin> set cs \<longrightarrow> dot' = dot) \<and>
   (46 \<in> set cs \<longrightarrow> (\<exists>xs ys. cs = xs @ 46 # ys \<and> 46 \<notin> set ys \<and> dot' = i + length xs))"
proof (induction cs arbitrary: i dot count)
  case (Cons c cs)
  have c: "c \<noteq> 47" using Cons.prems by auto
  define dc where "dc = (if c = 46 then (i, count + 1) else (dot, count))"
  have "scan_dots cs (i + 1) (fst dc, snd dc) = Some (dot', count')"
    using Cons.prems c by (simp add: dc_def split: if_splits)
  note IH = Cons.IH [OF this]
  have "\<exists>xs ys. c # cs = xs @ 46 # ys \<and> 46 \<notin> set ys \<and> dot' = i + length xs" if "46 \<in> set (c # cs)"
  proof (cases "46 \<in> set cs")
    case True
    then obtain xs ys where x: "cs = xs @ 46 # ys" "46 \<notin> set ys" "dot' = i + 1 + length xs"
      using IH by blast
    then have "c # cs = (c # xs) @ 46 # ys" "dot' = i + length (c # xs)" by simp_all
    then show ?thesis using x(2) by blast
  next
    case False
    then have e: "c = 46" using that by simp
    then have "dot' = i" using IH False by (simp add: dc_def)
    then have "c # cs = [] @ 46 # cs" "dot' = i + length ([] :: u8 list)" using e by simp_all
    then show ?thesis using False by blast
  qed
  then show ?case
    using IH c by (simp add: dc_def)
qed simp

text \<open>The accepted names: a base of one to eight characters, with or without a dot and at most three more.\<close>

lemma makeShortName_cases:
  assumes "makeShortName name = Some s"
  obtains (plain) "46 \<notin> set name" "1 \<le> length name" "length name \<le> 8"
      "s = map toUpper name @ replicate (11 - length name) 32"
  | (dotted) base ext where "name = base @ 46 # ext" "46 \<notin> set base" "46 \<notin> set ext"
      "1 \<le> length base" "length base \<le> 8" "length ext \<le> 3"
      "s = map toUpper base @ replicate (8 - length base) 32 @ map toUpper ext @ replicate (3 - length ext) 32"
proof -
  obtain dot count where sc: "scan_dots name 0 (length name, 0) = Some (dot, count)"
    using assms by (auto simp: makeShortName_def split: if_splits option.splits)
  note sd = scan_dots_spec [OF sc]
  have c1: "\<not> 1 < count" and len: "1 \<le> dot" "dot \<le> 8"
    using assms sc by (auto simp: makeShortName_def Let_def split: if_splits)
  show thesis
  proof (cases "46 \<in> set name")
    case False
    then have f: "filter (\<lambda>c. c = 46) name = []" by (auto simp: filter_empty_conv)
    then have "count = 0" "dot = length name" using sd False by simp_all
    then have "s = put_upper 0 name (replicate 11 32)"
      using assms sc by (auto simp: makeShortName_def Let_def split: if_splits)
    then have "s = map toUpper name @ replicate (11 - length name) 32"
      using len \<open>dot = _\<close> by (simp add: put_upper_eq)
    then show thesis using plain False len \<open>dot = _\<close> by simp
  next
    case True
    then obtain base ext where d: "name = base @ 46 # ext" "46 \<notin> set ext" "dot = length base"
      using sd by auto
    have "length (filter (\<lambda>c. c = 46) base) = 0"
      using sd c1 d by simp
    then have nb: "46 \<notin> set base" by (auto simp: filter_empty_conv)
    have ct: "count \<noteq> 0" using sd d by simp
    have el: "length ext \<le> 3"
      using assms sc ct d by (auto simp: makeShortName_def Let_def split: if_splits)
    have "s = put_upper 8 ext (put_upper 0 base (replicate 11 32))"
      using assms sc ct d c1 by (auto simp: makeShortName_def Let_def split: if_splits)
    then have "s = map toUpper base @ replicate (8 - length base) 32 @ map toUpper ext @ replicate (3 - length ext) 32"
      using len d(3) el by (simp add: put_upper_eq)
    then show thesis using dotted d nb el len by simp
  qed
qed

lemma of_cstr_id: "0 \<notin> set cs \<Longrightarrow> of_cstr cs = cs"
  unfolding of_cstr_def by (rule takeWhile_eq_all_conv [THEN iffD2]) auto

text \<open>
  Names survive the 8.3 encoding: a name accepted by \<^verbatim>\<open>makeShortName\<close> that has no
  blanks or NULs and does not end in a dot is decoded by \<^verbatim>\<open>shortNameToString\<close> to itself in
  lower case, so \<^verbatim>\<open>namesEqual\<close> finds the entry that was created for it.
\<close>

theorem short_name_roundtrip:
  assumes "makeShortName name = Some s" "32 \<notin> set name" "0 \<notin> set name" "last name \<noteq> 46"
  shows "length s = 11 \<and> shortNameToString s = map toLower name \<and> namesEqual (shortNameToString s) name"
proof -
  have z: "0 \<notin> set (map toLower cs)" if "0 \<notin> set cs" for cs
    using that toLower_eq_0 by auto
  have ll: "map (\<lambda>c. toLower (toUpper c)) cs = map toLower cs" for cs by simp
  have tt: "toLower (toLower c) = toLower c" for c
  proof (cases "65 \<le> c \<and> c \<le> 90")
    case True
    then have "unat (c - 65 + 97) = unat c + 32"
      using unat_lower by blast
    then have "\<not> c - 65 + 97 \<le> 90" using True by (simp add: word_le_unat)
    then show ?thesis using True by (simp add: toLower_def)
  next
    case False
    then show ?thesis by (simp only: toLower_def if_False)
  qed
  have res: "length s = 11 \<and> shortNameToString s = map toLower name"
    using assms(1)
  proof (cases rule: makeShortName_cases)
    case plain
    have "toUpper (name ! (length name - 1)) \<noteq> 32"
      using assms(2) plain(2) by (intro toUpper_neq) (auto simp: in_set_conv_nth)
    then have "trim_end 0 s 8 = length name"
      using plain by (intro trim_end_eq) (auto simp: nth_append)
    moreover have "trim_end 8 s 11 = 8"
      using plain by (intro trim_end_eq) (auto simp: nth_append)
    ultimately show ?thesis
      using plain z assms(3) by (simp add: shortNameToString_def of_cstr_id Let_def)
  next
    case (dotted base ext)
    have ne: "ext \<noteq> []" using assms(4) dotted(1) by auto
    have "toUpper (base ! (length base - 1)) \<noteq> 32" "toUpper (ext ! (length ext - 1)) \<noteq> 32"
      using assms(2) dotted(1,4) ne by (intro toUpper_neq; auto simp: in_set_conv_nth)+
    note nz = this
    have "trim_end 0 s 8 = length base"
      using dotted nz by (intro trim_end_eq) (auto simp: nth_append)
    moreover have "trim_end 8 s 11 = 8 + length ext"
    proof -
      define pre where "pre = map toUpper base @ replicate (8 - length base) 32"
      have l: "length pre = 8" and s: "s = pre @ map toUpper ext @ replicate (3 - length ext) 32"
        using dotted by (simp_all add: pre_def)
      show ?thesis
        using nz(2) ne dotted(6) unfolding s by (intro trim_end_eq) (auto simp: nth_append l)
    qed
    moreover have "0 \<notin> set (map toLower base @ 46 # map toLower ext)"
      using z assms(3) dotted(1) toLower_eq_0 by auto
    moreover have "toLower 46 = 46" by (simp add: toLower_def)
    ultimately show ?thesis
      using dotted ne by (simp add: shortNameToString_def of_cstr_id Let_def)
  qed
  then show ?thesis
    using tt by (simp add: namesEqual_def)
qed

theorem short_name_roundtrip_witness:
  "\<exists>s. makeShortName [97, 46, 66] = Some s \<and> shortNameToString s = [97, 46, 98]"
proof -
  obtain s where s: "makeShortName [97, 46, 66] = Some s"
    by (simp add: makeShortName_def Let_def)
  then show ?thesis
    using short_name_roundtrip [OF s] by (simp add: toLower_def)
qed

text \<open>
  A trailing dot is accepted but not stored: the entry created for such a name decodes to a
  different name, so the lookup that follows the creation fails and every further attempt adds one more
  entry.
\<close>

theorem short_name_trailing_dot:
  assumes "makeShortName name = Some s" "last name = 46" "32 \<notin> set name" "0 \<notin> set name"
  shows "\<not> namesEqual (shortNameToString s) name"
  using assms(1)
proof (cases rule: makeShortName_cases)
  case plain
  then show ?thesis using assms(2) by (metis One_nat_def last_in_set list.size(3) not_one_le_zero)
next
  case (dotted base ext)
  then have "ext = []" using assms(2) by (auto dest: last_in_set split: if_splits)
  have "toUpper (base ! (length base - 1)) \<noteq> 32"
    using assms(3) dotted(1,4) by (intro toUpper_neq) (auto simp: in_set_conv_nth)
  then have "trim_end 0 s 8 = length base"
    using dotted \<open>ext = []\<close> by (intro trim_end_eq) (auto simp: nth_append)
  moreover have "trim_end 8 s 11 = 8"
    using dotted \<open>ext = []\<close> by (intro trim_end_eq) (auto simp: nth_append)
  moreover have "0 \<notin> set (map toLower base)"
    using assms(4) dotted(1) toLower_eq_0 by auto
  ultimately have "length (shortNameToString s) = length base"
    using dotted by (simp add: shortNameToString_def of_cstr_id Let_def)
  then show ?thesis
    using dotted(1) by (simp add: namesEqual_def)
qed

theorem short_name_trailing_dot_witness:
  "\<exists>s. makeShortName [97, 46] = Some s \<and> \<not> namesEqual (shortNameToString s) [97, 46]"
proof -
  obtain s where s: "makeShortName [97, 46] = Some s"
    by (simp add: makeShortName_def Let_def)
  then show ?thesis
    using short_name_trailing_dot [OF s] by simp
qed

end
