(* ===== verification/Fat_Table.thy ===== *)
theory Fat_Table
  imports Block_Device Fat_Names "HOL-Library.Monad_Syntax"
begin

text \<open>
  The volume and the file allocation table of the FAT32 file system
  (\<^verbatim>\<open>kernel/fs/fat32.cpp\<close>, \<^verbatim>\<open>include/fs/fat32.h\<close>): boot sector, FSInfo
  sector, mounting, cluster access, table entries, allocation, release and extension of cluster chains.

  Buffers are lists of bytes and multi-byte fields are little-endian. An operation that reports success
  through a \<^verbatim>\<open>bool\<close> and a reference parameter returns an option. The walks that the code
  repeats until the end of a chain carry fuel: cluster numbers have 28 bits, so a walk that makes
  \<open>chain_fuel\<close> steps has met a cluster twice and, as the table does not change meanwhile, never
  ends; \<open>None\<close> of the outer option stands for that.
\<close>

section \<open>Fields of buffers\<close>

definition get16 :: "u8 list \<Rightarrow> nat \<Rightarrow> u16" where
  "get16 b i = ucast (b ! i) OR push_bit 8 (ucast (b ! (i + 1)))"

definition get32 :: "u8 list \<Rightarrow> nat \<Rightarrow> u32" where
  "get32 b i = ucast (b ! i) OR push_bit 8 (ucast (b ! (i + 1))) OR
     push_bit 16 (ucast (b ! (i + 2))) OR push_bit 24 (ucast (b ! (i + 3)))"

definition bytes16 :: "u16 \<Rightarrow> u8 list" where
  "bytes16 v = [ucast v, ucast (drop_bit 8 v)]"

definition bytes32 :: "u32 \<Rightarrow> u8 list" where
  "bytes32 v = [ucast v, ucast (drop_bit 8 v), ucast (drop_bit 16 v), ucast (drop_bit 24 v)]"

text \<open>\<^verbatim>\<open>memory::copy(buffer + i, piece, length)\<close>\<close>

definition put_bytes :: "nat \<Rightarrow> u8 list \<Rightarrow> u8 list \<Rightarrow> u8 list" where
  "put_bytes i piece b = take i b @ piece @ drop (i + length piece) b"

section \<open>The volume\<close>

record bpb =
  bytesPerSector :: u16
  sectorsPerCluster :: u8
  reservedSectorCount :: u16
  tableCount :: u8
  totalSectors16 :: u16
  totalSectors32 :: u32
  tableSize32 :: u32
  rootCluster :: u32
  fsInfoSector :: u16

record fsinfo =
  leadSignature :: u32
  reserved0 :: "u8 list"
  structureSignature :: u32
  freeClusterCount :: u32
  nextFreeCluster :: u32
  reserved1 :: "u8 list"
  trailSignature :: u32

record fat32 =
  f_disk :: medium
  f_attached :: bool
  f_mounted :: bool
  f_readOnly :: bool
  f_bpb :: bpb
  f_info :: fsinfo
  f_firstSector :: u32
  f_firstDataSector :: u32
  f_totalSectors :: u32
  f_totalClusters :: u32
  f_signature :: u16

definition EndOfChain :: u32 where "EndOfChain = 0x0FFFFFF8"
definition BadCluster :: u32 where "BadCluster = 0x0FFFFFF7"
definition FreeCluster :: u32 where "FreeCluster = 0"

definition parse_bpb :: "u8 list \<Rightarrow> bpb" where
  "parse_bpb b = \<lparr>bytesPerSector = get16 b 11, sectorsPerCluster = b ! 13,
     reservedSectorCount = get16 b 14, tableCount = b ! 16, totalSectors16 = get16 b 19,
     totalSectors32 = get32 b 32, tableSize32 = get32 b 36, rootCluster = get32 b 44,
     fsInfoSector = get16 b 48\<rparr>"

definition parse_fsinfo :: "u8 list \<Rightarrow> fsinfo" where
  "parse_fsinfo b = \<lparr>leadSignature = get32 b 0, reserved0 = take 480 (drop 4 b),
     structureSignature = get32 b 484, freeClusterCount = get32 b 488, nextFreeCluster = get32 b 492,
     reserved1 = take 12 (drop 496 b), trailSignature = get32 b 508\<rparr>"

definition fsinfo_bytes :: "fsinfo \<Rightarrow> u8 list" where
  "fsinfo_bytes i = bytes32 (leadSignature i) @ reserved0 i @ bytes32 (structureSignature i) @
     bytes32 (freeClusterCount i) @ bytes32 (nextFreeCluster i) @ reserved1 i @ bytes32 (trailSignature i)"

definition fat_readSectors :: "u64 \<Rightarrow> u32 \<Rightarrow> fat32 \<Rightarrow> u8 list option" where
  "fat_readSectors s n fs = (if f_attached fs then disk_readBlocks s n (f_disk fs) else None)"

definition fat_writeSectors :: "u64 \<Rightarrow> u32 \<Rightarrow> u8 list \<Rightarrow> fat32 \<Rightarrow> bool \<times> fat32" where
  "fat_writeSectors s n buf fs =
     (if f_attached fs then
        case disk_writeBlocks s n buf (f_disk fs) of (ok, m) \<Rightarrow> (ok, fs\<lparr>f_disk := m\<rparr>)
      else (False, fs))"

definition fat_readBootSector :: "fat32 \<Rightarrow> bool \<times> fat32" where
  "fat_readBootSector fs =
     (case fat_readSectors 0 1 fs of
        None \<Rightarrow> (False, fs)
      | Some b \<Rightarrow> (True, fs\<lparr>f_bpb := parse_bpb b, f_signature := get16 b 510\<rparr>))"

definition fat_validateBootSector :: "fat32 \<Rightarrow> bool" where
  "fat_validateBootSector fs =
     (let p = f_bpb fs in
      if bytesPerSector p \<noteq> 512 then False
      else if sectorsPerCluster p = 0 \<or> sectorsPerCluster p AND (sectorsPerCluster p - 1) \<noteq> 0 then False
      else if reservedSectorCount p = 0 \<or> tableCount p = 0 \<or> tableSize32 p = 0 then False
      else if rootCluster p < 2 then False
      else f_signature fs = 0xAA55)"

definition fat_readFSInfo :: "fat32 \<Rightarrow> fat32" where
  "fat_readFSInfo fs =
     (let fs = fs\<lparr>f_info := (f_info fs)\<lparr>freeClusterCount := 0xFFFFFFFF, nextFreeCluster := 2\<rparr>\<rparr> in
      if fsInfoSector (f_bpb fs) = 0 then fs
      else case fat_readSectors (ucast (fsInfoSector (f_bpb fs))) 1 fs of
          None \<Rightarrow> fs
        | Some b \<Rightarrow>
            let i = parse_fsinfo b in
            fs\<lparr>f_info :=
              (if leadSignature i \<noteq> 0x41615252 \<or> structureSignature i \<noteq> 0x61417272 \<or>
                  trailSignature i \<noteq> 0xAA550000
               then i\<lparr>freeClusterCount := 0xFFFFFFFF, nextFreeCluster := 2\<rparr> else i)\<rparr>)"

definition fat_mount :: "medium option \<Rightarrow> fat32 \<Rightarrow> bool \<times> fat32" where
  "fat_mount device fs =
     (case device of
        None \<Rightarrow> (False, fs)
      | Some m \<Rightarrow>
          if f_mounted fs then (False, fs)
          else
            let fs = fs\<lparr>f_disk := m, f_attached := True\<rparr> in
            case fat_readBootSector fs of (ok, fs) \<Rightarrow>
              if \<not> ok \<or> \<not> fat_validateBootSector fs then (False, fs\<lparr>f_attached := False\<rparr>)
              else
                let p = f_bpb fs;
                    total' = (if totalSectors16 p \<noteq> 0 then ucast (totalSectors16 p) else totalSectors32 p);
                    first = ucast (reservedSectorCount p);
                    first_data = ucast (reservedSectorCount p) + ucast (tableCount p) * tableSize32 p;
                    fs = fs\<lparr>f_totalSectors := total', f_firstSector := first,
                            f_firstDataSector := first_data\<rparr>
                in if total' \<le> first_data then (False, fs\<lparr>f_attached := False\<rparr>)
                   else
                     let clusters = (total' - first_data) div ucast (sectorsPerCluster p);
                         fs = fs\<lparr>f_totalClusters := clusters\<rparr>
                     in if clusters = 0 then (False, fs\<lparr>f_attached := False\<rparr>)
                        else (True, (fat_readFSInfo fs)\<lparr>f_readOnly := False, f_mounted := True\<rparr>))"

definition fat_clusterSize :: "fat32 \<Rightarrow> u32" where
  "fat_clusterSize fs = ucast (bytesPerSector (f_bpb fs)) * ucast (sectorsPerCluster (f_bpb fs))"

definition fat_clusterToSector :: "u32 \<Rightarrow> fat32 \<Rightarrow> u64" where
  "fat_clusterToSector cluster fs =
     ucast (f_firstDataSector fs + (cluster - 2) * ucast (sectorsPerCluster (f_bpb fs)))"

definition fat_readCluster :: "u32 \<Rightarrow> fat32 \<Rightarrow> u8 list option" where
  "fat_readCluster cluster fs =
     (if cluster < 2 then None
      else fat_readSectors (fat_clusterToSector cluster fs) (ucast (sectorsPerCluster (f_bpb fs))) fs)"

definition fat_writeCluster :: "u32 \<Rightarrow> u8 list \<Rightarrow> fat32 \<Rightarrow> bool \<times> fat32" where
  "fat_writeCluster cluster buf fs =
     (if cluster < 2 then (False, fs)
      else fat_writeSectors (fat_clusterToSector cluster fs) (ucast (sectorsPerCluster (f_bpb fs))) buf fs)"

definition fat_syncFSInfo :: "fat32 \<Rightarrow> bool \<times> fat32" where
  "fat_syncFSInfo fs =
     (if fsInfoSector (f_bpb fs) = 0 then (True, fs)
      else
        let fs = fs\<lparr>f_info := (f_info fs)\<lparr>leadSignature := 0x41615252, structureSignature := 0x61417272,
                     trailSignature := 0xAA550000\<rparr>\<rparr>
        in fat_writeSectors (ucast (fsInfoSector (f_bpb fs))) 1
             (put_bytes 0 (fsinfo_bytes (f_info fs)) (replicate 512 0)) fs)"

definition fat_unmount :: "fat32 \<Rightarrow> bool \<times> fat32" where
  "fat_unmount fs =
     (if \<not> f_mounted fs then (False, fs)
      else (True, (snd (fat_syncFSInfo fs))\<lparr>f_mounted := False, f_attached := False\<rparr>))"

section \<open>Table entries\<close>

definition entry_sector :: "u32 \<Rightarrow> fat32 \<Rightarrow> u32" where
  "entry_sector cluster fs = cluster * 4 div ucast (bytesPerSector (f_bpb fs))"

definition entry_offset :: "u32 \<Rightarrow> fat32 \<Rightarrow> nat" where
  "entry_offset cluster fs = unat (cluster * 4 mod ucast (bytesPerSector (f_bpb fs)))"

definition fat_readFATEntry :: "u32 \<Rightarrow> fat32 \<Rightarrow> u32 option" where
  "fat_readFATEntry cluster fs =
     (case fat_readSectors (ucast (f_firstSector fs + entry_sector cluster fs)) 1 fs of
        None \<Rightarrow> None
      | Some sector \<Rightarrow> Some (get32 sector (entry_offset cluster fs) AND 0x0FFFFFFF))"

fun write_tables :: "nat \<Rightarrow> u8 \<Rightarrow> u32 \<Rightarrow> u32 \<Rightarrow> fat32 \<Rightarrow> bool \<times> fat32" where
  "write_tables 0 table cluster v fs = (True, fs)"
| "write_tables (Suc n) table cluster v fs =
     (let fatSector = ucast (f_firstSector fs + ucast table * tableSize32 (f_bpb fs) + entry_sector cluster fs) in
      case fat_readSectors fatSector 1 fs of
        None \<Rightarrow> (False, fs)
      | Some sector \<Rightarrow>
          let off = entry_offset cluster fs;
              oldValue = get32 sector off;
              rawValue = (oldValue AND 0xF0000000) OR (v AND 0x0FFFFFFF)
          in case fat_writeSectors fatSector 1 (put_bytes off (bytes32 rawValue) sector) fs of
              (ok, fs) \<Rightarrow> if \<not> ok then (False, fs) else write_tables n (table + 1) cluster v fs)"

definition fat_writeFATEntry :: "u32 \<Rightarrow> u32 \<Rightarrow> fat32 \<Rightarrow> bool \<times> fat32" where
  "fat_writeFATEntry cluster v fs = write_tables (unat (tableCount (f_bpb fs))) 0 cluster v fs"

section \<open>Clusters\<close>

definition fat_zeroCluster :: "u32 \<Rightarrow> fat32 \<Rightarrow> bool \<times> fat32" where
  "fat_zeroCluster cluster fs =
     fat_writeCluster cluster (replicate (unat (fat_clusterSize fs)) 0) fs"

text \<open>The bookkeeping after a free cluster has been claimed.\<close>

definition note_allocated :: "u32 \<Rightarrow> fat32 \<Rightarrow> fat32" where
  "note_allocated cluster fs =
     (let i = f_info fs;
          i = i\<lparr>nextFreeCluster := cluster + 1\<rparr>;
          i = (if f_totalClusters fs + 2 \<le> nextFreeCluster i then i\<lparr>nextFreeCluster := 2\<rparr> else i);
          i = (if freeClusterCount i \<noteq> 0xFFFFFFFF \<and> 0 < freeClusterCount i
               then i\<lparr>freeClusterCount := freeClusterCount i - 1\<rparr> else i)
      in snd (fat_syncFSInfo (fs\<lparr>f_info := i\<rparr>)))"

fun alloc_scan :: "nat \<Rightarrow> u32 \<Rightarrow> u32 \<Rightarrow> fat32 \<Rightarrow> u32 option \<times> fat32" where
  "alloc_scan 0 i start fs = (None, fs)"
| "alloc_scan (Suc n) i start fs =
     (let cluster = 2 + ((start - 2 + i) mod f_totalClusters fs) in
      case fat_readFATEntry cluster fs of
        None \<Rightarrow> (None, fs)
      | Some v \<Rightarrow>
          if v \<noteq> FreeCluster then alloc_scan n (i + 1) start fs
          else case fat_writeFATEntry cluster 0x0FFFFFFF fs of (ok, fs) \<Rightarrow>
            if \<not> ok then (None, fs)
            else case fat_zeroCluster cluster fs of (ok, fs) \<Rightarrow>
              if \<not> ok then (None, snd (fat_writeFATEntry cluster FreeCluster fs))
              else (Some cluster, note_allocated cluster fs))"

definition alloc_start :: "fat32 \<Rightarrow> u32" where
  "alloc_start fs =
     (if 2 \<le> nextFreeCluster (f_info fs) \<and> nextFreeCluster (f_info fs) < f_totalClusters fs + 2
      then nextFreeCluster (f_info fs) else 2)"

definition fat_allocateCluster :: "fat32 \<Rightarrow> u32 option \<times> fat32" where
  "fat_allocateCluster fs = alloc_scan (unat (f_totalClusters fs)) 0 (alloc_start fs) fs"

section \<open>Chains\<close>

definition chain_fuel :: nat where "chain_fuel = 2 ^ 28"

fun free_walk :: "nat \<Rightarrow> u32 \<Rightarrow> fat32 \<Rightarrow> (bool \<times> fat32) option" where
  "free_walk 0 current fs = None"
| "free_walk (Suc n) current fs =
     (if \<not> (2 \<le> current \<and> \<not> isEndOfChain current) then Some (True, snd (fat_syncFSInfo fs))
      else case fat_readFATEntry current fs of
          None \<Rightarrow> Some (False, fs)
        | Some next \<Rightarrow>
            case fat_writeFATEntry current FreeCluster fs of (ok, fs) \<Rightarrow>
              if \<not> ok then Some (False, fs)
              else
                let i = f_info fs;
                    fs = (if freeClusterCount i \<noteq> 0xFFFFFFFF
                          then fs\<lparr>f_info := i\<lparr>freeClusterCount := freeClusterCount i + 1\<rparr>\<rparr> else fs)
                in if next = BadCluster \<or> next = FreeCluster then Some (True, snd (fat_syncFSInfo fs))
                   else free_walk n next fs)"

definition fat_freeClusterChain :: "u32 \<Rightarrow> fat32 \<Rightarrow> (bool \<times> fat32) option" where
  "fat_freeClusterChain firstCluster fs =
     (if firstCluster < 2 then Some (True, fs) else free_walk (chain_fuel + 1) firstCluster fs)"

text \<open>\<open>Some None\<close>: the walk failed; \<open>Some (Some c)\<close>: \<open>c\<close> is the last cluster of the chain.\<close>

fun last_cluster :: "nat \<Rightarrow> u32 \<Rightarrow> fat32 \<Rightarrow> u32 option option" where
  "last_cluster 0 current fs = None"
| "last_cluster (Suc n) current fs =
     (case fat_readFATEntry current fs of
        None \<Rightarrow> Some None
      | Some next \<Rightarrow>
          if isEndOfChain next then Some (Some current)
          else if next = FreeCluster \<or> next = BadCluster then Some None
          else last_cluster n next fs)"

definition fat_extendClusterChain :: "u32 \<Rightarrow> fat32 \<Rightarrow> (u32 option \<times> fat32) option" where
  "fat_extendClusterChain startCluster fs =
     (if startCluster < 2 then Some (fat_allocateCluster fs)
      else do {
        found \<leftarrow> last_cluster (chain_fuel + 1) startCluster fs;
        Some (case found of
            None \<Rightarrow> (None, fs)
          | Some current \<Rightarrow>
              (case fat_allocateCluster fs of
                 (None, fs) \<Rightarrow> (None, fs)
               | (Some newCluster, fs) \<Rightarrow>
                   (case fat_writeFATEntry current newCluster fs of
                      (ok, fs) \<Rightarrow> (if ok then Some newCluster else None, fs))))
      })"

fun offset_walk :: "nat \<Rightarrow> u32 \<Rightarrow> u32 \<Rightarrow> bool \<Rightarrow> fat32 \<Rightarrow> (u32 option \<times> fat32) option" where
  "offset_walk 0 firstCluster cluster allocateIfMissing fs = Some (Some cluster, fs)"
| "offset_walk (Suc index) firstCluster cluster allocateIfMissing fs =
     (case fat_readFATEntry cluster fs of
        None \<Rightarrow> Some (None, fs)
      | Some next \<Rightarrow>
          if isEndOfChain next then
            (if \<not> allocateIfMissing then Some (None, fs)
             else do {
               r \<leftarrow> fat_extendClusterChain firstCluster fs;
               case r of
                 (None, fs) \<Rightarrow> Some (None, fs)
               | (Some next, fs) \<Rightarrow>
                   if next = FreeCluster \<or> next = BadCluster then Some (None, fs)
                   else offset_walk index firstCluster next allocateIfMissing fs
             })
          else if next = FreeCluster \<or> next = BadCluster then Some (None, fs)
          else offset_walk index firstCluster next allocateIfMissing fs)"

definition fat_getClusterForOffset :: "u32 \<Rightarrow> u64 \<Rightarrow> bool \<Rightarrow> fat32 \<Rightarrow> (u32 option \<times> fat32) option" where
  "fat_getClusterForOffset firstCluster offset allocateIfMissing fs =
     (if firstCluster < 2 then Some (None, fs)
      else offset_walk (unat (offset div ucast (fat_clusterSize fs))) firstCluster firstCluster
             allocateIfMissing fs)"

section \<open>Bytes and words\<close>

lemma length_bytes [simp]: "length (bytes32 v) = 4" "length (bytes16 h) = 2"
  by (simp_all add: bytes32_def bytes16_def)

lemma length_put_bytes: "i + length p \<le> length b \<Longrightarrow> length (put_bytes i p b) = length b"
  by (simp add: put_bytes_def)

lemma nth_put_bytes:
  "i + length p \<le> length b \<Longrightarrow> j < length b \<Longrightarrow>
   put_bytes i p b ! j = (if i \<le> j \<and> j < i + length p then p ! (j - i) else b ! j)"
  by (auto simp: put_bytes_def nth_append min_def)

lemma get32_bytes32: "get32 (bytes32 v) 0 = v"
proof (rule bit_eqI)
  fix n assume "possible_bit TYPE(u32) n"
  then have n: "n < 32" by simp
  then consider "n < 8" | "8 \<le> n" "n < 16" | "16 \<le> n" "n < 24" | "24 \<le> n" by linarith
  then show "bit (get32 (bytes32 v) 0) n = bit v n"
    by cases (use n in \<open>auto simp: get32_def bytes32_def bit_simps\<close>)
qed

lemma get32_cong:
  assumes "\<And>k. k < 4 \<Longrightarrow> a ! (i + k) = b ! (j + k)"
  shows "get32 a i = get32 b j"
  using assms [of 0] assms [of 1] assms [of 2] assms [of 3] by (simp add: get32_def)

lemma get32_put_same: "i + 4 \<le> length b \<Longrightarrow> get32 (put_bytes i (bytes32 v) b) i = v"
proof -
  assume "i + 4 \<le> length b"
  then have "get32 (put_bytes i (bytes32 v) b) i = get32 (bytes32 v) 0"
    by (intro get32_cong) (simp add: nth_put_bytes)
  then show ?thesis by (simp add: get32_bytes32)
qed

lemma get32_put_other:
  assumes "i + 4 \<le> length b" "j + 4 \<le> length b" "i + 4 \<le> j \<or> j + 4 \<le> i"
  shows "get32 (put_bytes i (bytes32 v) b) j = get32 b j"
  by (rule get32_cong) (use assms in \<open>auto simp: nth_put_bytes\<close>)

lemma mask28: "((old AND 0xF0000000) OR (v AND 0x0FFFFFFF)) AND 0x0FFFFFFF = v AND (0x0FFFFFFF :: u32)"
proof -
  have "(0xF0000000 :: u32) AND 0x0FFFFFFF = 0" by simp
  then show ?thesis
    by (simp add: bit.conj_disj_distrib2 and.assoc)
qed

section \<open>The geometry of a volume\<close>

text \<open>
  What a well-formed volume has and mounting does not check in full: the tables cover the clusters, the
  data region fits 28-bit addresses, and the FSInfo sector lies in the reserved region.
\<close>

definition fat_geom :: "fat32 \<Rightarrow> bool" where
  "fat_geom fs \<longleftrightarrow> f_attached fs \<and> disk_ok (f_disk fs) \<and> bytesPerSector (f_bpb fs) = 512 \<and>
     sectorsPerCluster (f_bpb fs) \<noteq> 0 \<and> tableCount (f_bpb fs) \<noteq> 0 \<and>
     unat (f_firstDataSector fs) =
       unat (f_firstSector fs) + unat (tableCount (f_bpb fs)) * unat (tableSize32 (f_bpb fs)) \<and>
     unat (f_totalClusters fs) + 2 \<le> 128 * unat (tableSize32 (f_bpb fs)) \<and> f_totalClusters fs \<noteq> 0 \<and>
     unat (f_firstDataSector fs) + unat (f_totalClusters fs) * unat (sectorsPerCluster (f_bpb fs)) \<le> 2 ^ 28 \<and>
     unat (fsInfoSector (f_bpb fs)) < unat (f_firstSector fs) \<and>
     unat (f_totalClusters fs) + 2 < 0x0FFFFFF7 \<and>
     length (reserved0 (f_info fs)) = 480 \<and> length (reserved1 (f_info fs)) = 12"

definition valid_cluster :: "fat32 \<Rightarrow> u32 \<Rightarrow> bool" where
  "valid_cluster fs c \<longleftrightarrow> 2 \<le> unat c \<and> unat c < unat (f_totalClusters fs) + 2"

text \<open>The abstract table: the entry of the first copy. The abstract content of a cluster.\<close>

definition table_sector :: "fat32 \<Rightarrow> u32 \<Rightarrow> u64" where
  "table_sector fs c = ucast (f_firstSector fs + entry_sector c fs)"

definition fat_entry :: "fat32 \<Rightarrow> u32 \<Rightarrow> u32" where
  "fat_entry fs c = get32 (m_sector (f_disk fs) (table_sector fs c)) (entry_offset c fs) AND 0x0FFFFFFF"

definition cluster_data :: "fat32 \<Rightarrow> u32 \<Rightarrow> u8 list" where
  "cluster_data fs c = concat (map (\<lambda>i. m_sector (f_disk fs) (fat_clusterToSector c fs + of_nat i))
     [0..<unat (sectorsPerCluster (f_bpb fs))])"

lemma readFATEntry_value: "fat_readFATEntry c fs = Some v \<Longrightarrow> v = fat_entry fs c"
  by (auto simp: fat_readFATEntry_def fat_readSectors_def fat_entry_def table_sector_def
      dest: disk.read_one split: option.splits if_splits)

lemma unat_ucast_up [simp]:
  "unat (ucast (w :: u32) :: u64) = unat w" "unat (ucast (b :: u8) :: u32) = unat b"
  "unat (ucast (h :: u16) :: u64) = unat h" "unat (ucast (h :: u16) :: u32) = unat h"
  by (simp_all add: unsigned_ucast_eq take_bit_nat_eq_self unsigned_less [THEN less_le_trans])

lemma cluster_bounds:
  assumes "fat_geom fs" "unat c < unat (f_totalClusters fs) + 2"
  shows "unat c * 4 < 2 ^ 32" "entry_offset c fs = unat c * 4 mod 512"
    "unat (entry_sector c fs) = unat c * 4 div 512"
    "unat c * 4 div 512 < unat (tableSize32 (f_bpb fs))"
proof -
  show b: "unat c * 4 < 2 ^ 32" using assms by (simp add: fat_geom_def)
  then have u: "unat (c * 4) = unat c * 4" by (simp add: unat_mult_fits)
  show "entry_offset c fs = unat c * 4 mod 512" "unat (entry_sector c fs) = unat c * 4 div 512"
    using assms(1) u by (simp_all add: entry_offset_def entry_sector_def fat_geom_def unat_mod unat_div)
  have "unat (f_totalClusters fs) + 2 \<le> 128 * unat (tableSize32 (f_bpb fs))"
    using assms(1) by (simp add: fat_geom_def)
  then have "unat c * 4 < unat (tableSize32 (f_bpb fs)) * 512" using assms(2) by linarith
  then show "unat c * 4 div 512 < unat (tableSize32 (f_bpb fs))" by (rule less_mult_imp_div_less)
qed

text \<open>Sector numbers as natural numbers.\<close>

lemma fat_sector_nat:
  assumes "fat_geom fs" "unat c < unat (f_totalClusters fs) + 2" "unat (t :: u8) < unat (tableCount (f_bpb fs))"
  shows "unat (ucast (f_firstSector fs + ucast t * tableSize32 (f_bpb fs) + entry_sector c fs) :: u64) =
    unat (f_firstSector fs) + unat t * unat (tableSize32 (f_bpb fs)) + unat c * 4 div 512"
    "unat (f_firstSector fs) + unat t * unat (tableSize32 (f_bpb fs)) + unat c * 4 div 512 <
      unat (f_firstDataSector fs)"
proof -
  note cb = cluster_bounds [OF assms(1,2)]
  let ?T = "unat (tableSize32 (f_bpb fs))" and ?n = "unat (tableCount (f_bpb fs))"
  have d: "unat (f_firstDataSector fs) = unat (f_firstSector fs) + ?n * ?T" "unat (f_firstDataSector fs) \<le> 2 ^ 28"
    using assms(1) by (simp_all add: fat_geom_def)
  have le: "unat t * ?T + ?T \<le> ?n * ?T"
    using mult_le_mono1 [of "Suc (unat t)" ?n ?T] assms(3) by simp
  then show lt: "unat (f_firstSector fs) + unat t * ?T + unat c * 4 div 512 < unat (f_firstDataSector fs)"
    using d(1) cb(4) by linarith
  have "unat t * ?T \<le> 2 ^ 28" using lt d(2) by linarith
  then have "unat t * ?T < 2 ^ 32" by simp
  then have "unat (ucast t * tableSize32 (f_bpb fs)) = unat t * ?T"
    by (subst unat_mult_fits) simp_all
  moreover from this have "unat (f_firstSector fs + ucast t * tableSize32 (f_bpb fs)) = unat (f_firstSector fs) + unat t * ?T"
    using lt d(2) by (simp add: unat_add_fits)
  ultimately show "unat (ucast (f_firstSector fs + ucast t * tableSize32 (f_bpb fs) + entry_sector c fs) :: u64) =
    unat (f_firstSector fs) + unat t * ?T + unat c * 4 div 512"
    using lt d(2) cb(3) by (simp add: unat_add_fits)
qed

lemma table_sector_nat:
  assumes "fat_geom fs" "unat c < unat (f_totalClusters fs) + 2"
  shows "unat (table_sector fs c) = unat (f_firstSector fs) + unat c * 4 div 512"
proof -
  have "unat (0 :: u8) < unat (tableCount (f_bpb fs))"
    using assms(1) by (simp add: fat_geom_def unat_gt_0)
  from fat_sector_nat(1) [OF assms this] show ?thesis by (simp add: table_sector_def)
qed

lemma cluster_sector_nat:
  assumes "fat_geom fs" "valid_cluster fs c"
  shows "unat (fat_clusterToSector c fs) =
    unat (f_firstDataSector fs) + (unat c - 2) * unat (sectorsPerCluster (f_bpb fs))"
    "unat (fat_clusterToSector c fs) + unat (sectorsPerCluster (f_bpb fs)) \<le> 2 ^ 28"
proof -
  let ?s = "unat (sectorsPerCluster (f_bpb fs))"
  have "Suc (unat c - 2) \<le> unat (f_totalClusters fs)"
    using assms(2) by (auto simp: valid_cluster_def)
  then have "(unat c - 2) * ?s + ?s \<le> unat (f_totalClusters fs) * ?s"
    using mult_le_mono1 [of "Suc (unat c - 2)" "unat (f_totalClusters fs)" ?s] by simp
  then have b: "unat (f_firstDataSector fs) + (unat c - 2) * ?s + ?s \<le> 2 ^ 28"
    using assms(1) by (simp add: fat_geom_def)
  have "unat (c - 2) = unat c - 2"
    using assms(2) by (simp add: valid_cluster_def unat_sub_fits)
  moreover have "(unat c - 2) * ?s \<le> 2 ^ 28" using b by linarith
  then have "(unat c - 2) * ?s < 2 ^ 32" by simp
  ultimately have "unat ((c - 2) * ucast (sectorsPerCluster (f_bpb fs))) = (unat c - 2) * ?s"
    by (subst unat_mult_fits) simp_all
  then show "unat (fat_clusterToSector c fs) = unat (f_firstDataSector fs) + (unat c - 2) * ?s"
    using b by (simp add: fat_clusterToSector_def unat_add_fits)
  then show "unat (fat_clusterToSector c fs) + ?s \<le> 2 ^ 28" using b by simp
qed

end
