(* ===== verification/Fat_Alloc.thy ===== *)
theory Fat_Alloc
  imports Fat_Table
begin

text \<open>
  What the operations on table entries and clusters change: an effect relation on volumes, one lemma per
  operation that states its effect, and allocation and release of clusters on top of them.
\<close>

section \<open>Effects\<close>

definition same_volume :: "fat32 \<Rightarrow> fat32 \<Rightarrow> bool" where
  "same_volume fs fs' \<longleftrightarrow>
     fs' = fs\<lparr>f_disk := (f_disk fs)\<lparr>m_sector := m_sector (f_disk fs')\<rparr>, f_info := f_info fs'\<rparr>"

lemma same_volume_refl [simp]: "same_volume fs fs"
  by (simp add: same_volume_def)

lemma same_volumeD:
  assumes "same_volume fs fs'"
  shows "f_attached fs' = f_attached fs" "f_mounted fs' = f_mounted fs" "f_readOnly fs' = f_readOnly fs"
    "f_bpb fs' = f_bpb fs" "f_firstSector fs' = f_firstSector fs" "f_firstDataSector fs' = f_firstDataSector fs"
    "f_totalSectors fs' = f_totalSectors fs" "f_totalClusters fs' = f_totalClusters fs"
    "f_signature fs' = f_signature fs" "m_blocks (f_disk fs') = m_blocks (f_disk fs)"
    "m_unreadable (f_disk fs') = m_unreadable (f_disk fs)" "m_unwritable (f_disk fs') = m_unwritable (f_disk fs)"
proof -
  obtain s i where "fs' = fs\<lparr>f_disk := (f_disk fs)\<lparr>m_sector := s\<rparr>, f_info := i\<rparr>"
    using assms unfolding same_volume_def by blast
  then show "f_attached fs' = f_attached fs" "f_mounted fs' = f_mounted fs" "f_readOnly fs' = f_readOnly fs"
    "f_bpb fs' = f_bpb fs" "f_firstSector fs' = f_firstSector fs" "f_firstDataSector fs' = f_firstDataSector fs"
    "f_totalSectors fs' = f_totalSectors fs" "f_totalClusters fs' = f_totalClusters fs"
    "f_signature fs' = f_signature fs" "m_blocks (f_disk fs') = m_blocks (f_disk fs)"
    "m_unreadable (f_disk fs') = m_unreadable (f_disk fs)" "m_unwritable (f_disk fs') = m_unwritable (f_disk fs)"
    by simp_all
qed

lemma same_volumeI:
  assumes "f_attached fs' = f_attached fs" "f_mounted fs' = f_mounted fs" "f_readOnly fs' = f_readOnly fs"
    "f_bpb fs' = f_bpb fs" "f_firstSector fs' = f_firstSector fs" "f_firstDataSector fs' = f_firstDataSector fs"
    "f_totalSectors fs' = f_totalSectors fs" "f_totalClusters fs' = f_totalClusters fs"
    "f_signature fs' = f_signature fs" "m_blocks (f_disk fs') = m_blocks (f_disk fs)"
    "m_unreadable (f_disk fs') = m_unreadable (f_disk fs)" "m_unwritable (f_disk fs') = m_unwritable (f_disk fs)"
  shows "same_volume fs fs'"
  using assms unfolding same_volume_def by simp

lemma same_volume_trans: "same_volume a b \<Longrightarrow> same_volume b c \<Longrightarrow> same_volume a c"
  by (rule same_volumeI) (simp_all add: same_volumeD)

text \<open>The entry of a cluster in each copy of the table.\<close>

definition copy_sector :: "u8 \<Rightarrow> fat32 \<Rightarrow> u32 \<Rightarrow> u64" where
  "copy_sector t fs c = ucast (f_firstSector fs + ucast t * tableSize32 (f_bpb fs) + entry_sector c fs)"

lemma same_volume_addr:
  assumes "same_volume fs fs'"
  shows "entry_sector c fs' = entry_sector c fs" "entry_offset c fs' = entry_offset c fs"
    "table_sector fs' c = table_sector fs c" "fat_clusterToSector c fs' = fat_clusterToSector c fs"
    "fat_clusterSize fs' = fat_clusterSize fs" "valid_cluster fs' c = valid_cluster fs c"
    "copy_sector t fs' c = copy_sector t fs c"
  using same_volumeD [OF assms]
  by (simp_all add: entry_sector_def entry_offset_def table_sector_def fat_clusterToSector_def
      fat_clusterSize_def valid_cluster_def copy_sector_def)

definition fat_copy :: "u8 \<Rightarrow> fat32 \<Rightarrow> u32 \<Rightarrow> u32" where
  "fat_copy t fs c = get32 (m_sector (f_disk fs) (copy_sector t fs c)) (entry_offset c fs) AND 0x0FFFFFFF"

lemma fat_copy_0: "fat_copy 0 = fat_entry"
  by (intro ext) (simp add: fat_copy_def fat_entry_def table_sector_def copy_sector_def)

definition fat_healthy :: "fat32 \<Rightarrow> bool" where
  "fat_healthy fs \<longleftrightarrow> fat_geom fs \<and> disk_healthy (f_disk fs) \<and>
     unat (f_firstDataSector fs) + unat (f_totalClusters fs) * unat (sectorsPerCluster (f_bpb fs))
       \<le> unat (m_blocks (f_disk fs))"

text \<open>
  \<open>changes_only E D fs fs'\<close>: apart from the table entries of the clusters in \<open>E\<close>, the
  contents of the clusters in \<open>D\<close> and the FSInfo sector, \<open>fs'\<close> is the volume \<open>fs\<close>;
  in particular its boot sector is.
\<close>

definition changes_only :: "u32 set \<Rightarrow> u32 set \<Rightarrow> fat32 \<Rightarrow> fat32 \<Rightarrow> bool" where
  "changes_only E D fs fs' \<longleftrightarrow> same_volume fs fs' \<and> disk_ok (f_disk fs') \<and>
     reserved0 (f_info fs') = reserved0 (f_info fs) \<and> reserved1 (f_info fs') = reserved1 (f_info fs) \<and>
     (\<forall>t c. unat t < unat (tableCount (f_bpb fs)) \<longrightarrow> valid_cluster fs c \<longrightarrow> c \<notin> E \<longrightarrow>
        fat_copy t fs' c = fat_copy t fs c) \<and>
     (\<forall>c. valid_cluster fs c \<longrightarrow> c \<notin> D \<longrightarrow> cluster_data fs' c = cluster_data fs c) \<and>
     m_sector (f_disk fs') 0 = m_sector (f_disk fs) 0"

lemma changes_only_refl: "disk_ok (f_disk fs) \<Longrightarrow> changes_only E D fs fs"
  by (simp add: changes_only_def)

lemma changes_only_trans:
  assumes "changes_only E D fs fs1" "changes_only E' D' fs1 fs2" "E \<union> E' \<subseteq> F" "D \<union> D' \<subseteq> G"
  shows "changes_only F G fs fs2"
proof -
  have s: "same_volume fs fs1" "same_volume fs1 fs2" "disk_ok (f_disk fs2)"
    using assms(1,2) by (simp_all add: changes_only_def)
  note v = same_volume_addr(6) [OF s(1)] and b = same_volumeD(4) [OF s(1)]
  have "fat_copy t fs2 c = fat_copy t fs c"
    if "unat t < unat (tableCount (f_bpb fs))" "valid_cluster fs c" "c \<notin> F" for t c
    using that assms v b unfolding changes_only_def by (metis Un_iff subset_iff)
  moreover have "cluster_data fs2 c = cluster_data fs c" if "valid_cluster fs c" "c \<notin> G" for c
    using that assms v unfolding changes_only_def by (metis Un_iff subset_iff)
  ultimately show ?thesis
    using s same_volume_trans [OF s(1,2)] assms(1,2) by (simp add: changes_only_def)
qed

lemma changes_only_mono: "changes_only E D fs fs' \<Longrightarrow> E \<subseteq> F \<Longrightarrow> D \<subseteq> G \<Longrightarrow> changes_only F G fs fs'"
  by (auto simp: changes_only_def)

lemma changes_only_entry:
  assumes "changes_only E D fs fs'" "fat_geom fs" "valid_cluster fs c" "c \<notin> E"
  shows "fat_entry fs' c = fat_entry fs c"
proof -
  have "unat (0 :: u8) < unat (tableCount (f_bpb fs))"
    using assms(2) by (simp add: fat_geom_def unat_gt_0)
  then show ?thesis
    using assms by (metis changes_only_def fat_copy_0)
qed

lemma changes_only_data:
  "changes_only E D fs fs' \<Longrightarrow> valid_cluster fs c \<Longrightarrow> c \<notin> D \<Longrightarrow> cluster_data fs' c = cluster_data fs c"
  by (simp add: changes_only_def)

lemma changes_only_geom: "changes_only E D fs fs' \<Longrightarrow> fat_geom fs \<Longrightarrow> fat_geom fs'"
  by (auto simp: changes_only_def fat_geom_def same_volumeD)

lemma changes_only_healthy: "changes_only E D fs fs' \<Longrightarrow> fat_healthy fs \<Longrightarrow> fat_healthy fs'"
  using changes_only_geom [of E D fs fs']
  by (auto simp: fat_healthy_def changes_only_def disk_healthy_def same_volumeD)

lemma changes_only_same: "changes_only E D fs fs' \<Longrightarrow> same_volume fs fs'"
  by (simp add: changes_only_def)

section \<open>Where the sectors of a volume are\<close>

lemma copy_sector_eq:
  assumes "fat_geom fs" "valid_cluster fs c" "valid_cluster fs d"
    "unat (t :: u8) < unat (tableCount (f_bpb fs))" "unat (u :: u8) < unat (tableCount (f_bpb fs))"
  shows "copy_sector t fs c = copy_sector u fs d \<longleftrightarrow> t = u \<and> unat c * 4 div 512 = unat d * 4 div 512"
    (is "?l = ?r \<longleftrightarrow> _")
proof -
  have c: "unat c < unat (f_totalClusters fs) + 2" and d: "unat d < unat (f_totalClusters fs) + 2"
    using assms by (simp_all add: valid_cluster_def)
  let ?T = "unat (tableSize32 (f_bpb fs))"
  note n = fat_sector_nat(1) [OF assms(1) c assms(4), folded copy_sector_def]
    fat_sector_nat(1) [OF assms(1) d assms(5), folded copy_sector_def]
  have b: "unat c * 4 div 512 < ?T" "unat d * 4 div 512 < ?T"
    using cluster_bounds(4) [OF assms(1)] c d by simp_all
  have "?l = ?r \<longleftrightarrow> unat ?l = unat ?r" by (metis unat_eqI)
  also have "\<dots> \<longleftrightarrow> unat t * ?T + unat c * 4 div 512 = unat u * ?T + unat d * 4 div 512"
    unfolding n by simp
  also have "\<dots> \<longleftrightarrow> unat t = unat u \<and> unat c * 4 div 512 = unat d * 4 div 512"
  proof
    assume e: "unat t * ?T + unat c * 4 div 512 = unat u * ?T + unat d * 4 div 512"
    have "unat t = (unat t * ?T + unat c * 4 div 512) div ?T"
      using b(1) by simp
    also have "\<dots> = unat u" unfolding e using b(2) by simp
    finally show "unat t = unat u \<and> unat c * 4 div 512 = unat d * 4 div 512" using e by simp
  qed simp
  finally show ?thesis by (metis unat_eqI)
qed

lemma entry_offset_fits: "bytesPerSector (f_bpb fs) = 512 \<Longrightarrow> entry_offset c fs + 4 \<le> 512 \<and> entry_offset c fs mod 4 = 0"
proof -
  assume b: "bytesPerSector (f_bpb fs) = 512"
  have "unat (c * 4) mod 4 = 0"
  proof -
    have "unat (c * 4) = (unat c * 4) mod 2 ^ 32"
      by (simp add: unat_word_ariths)
    then show ?thesis by (simp add: mod_mod_cancel)
  qed
  then have "entry_offset c fs mod 4 = 0" "entry_offset c fs < 512"
    using b by (simp_all add: entry_offset_def unat_mod mod_mod_cancel)
  then show ?thesis by presburger
qed

lemma copy_sector_range:
  assumes "fat_geom fs" "valid_cluster fs c" "unat (t :: u8) < unat (tableCount (f_bpb fs))"
  shows "unat (f_firstSector fs) \<le> unat (copy_sector t fs c)"
    "unat (copy_sector t fs c) < unat (f_firstDataSector fs)"
  using fat_sector_nat [OF assms(1) _ assms(3), of c, folded copy_sector_def] assms(2)
  by (simp_all add: valid_cluster_def)

section \<open>Writing table entries\<close>

lemma fat_write_one:
  assumes "fat_writeSectors a 1 buf fs = (ok, fs')" "disk_ok (f_disk fs)" "length buf = 512"
  shows "same_volume fs fs' \<and> f_info fs' = f_info fs \<and> disk_ok (f_disk fs') \<and>
     (\<forall>x. x \<noteq> a \<longrightarrow> m_sector (f_disk fs') x = m_sector (f_disk fs) x) \<and>
     (ok \<longrightarrow> m_sector (f_disk fs') a = buf)"
proof (cases "f_attached fs")
  case True
  obtain m where w: "disk_writeBlocks a 1 buf (f_disk fs) = (ok, m)" "fs' = fs\<lparr>f_disk := m\<rparr>"
    using assms(1) True by (auto simp: fat_writeSectors_def split: prod.splits)
  have "same_volume fs fs'"
    using disk_writeBlocks_same [OF w(1)] w(2) by (simp add: same_volume_def)
  moreover have "disk_ok m" using disk.write_ok [OF assms(2) _ w(1)] assms(3) by simp
  ultimately show ?thesis
    using w disk.write_one_frame [OF w(1)] disk.write_one [of a buf "f_disk fs" m] assms(3) by auto
qed (use assms in \<open>simp add: fat_writeSectors_def\<close>)

lemma fat_write_one_failed: "fat_writeSectors a 1 buf fs = (False, fs') \<Longrightarrow> fs' = fs"
  by (auto simp: fat_writeSectors_def disk_writeBlocks_def split: if_splits prod.splits)

lemma get32_entry_disjoint:
  assumes "fat_geom fs" "valid_cluster fs c" "valid_cluster fs d" "c \<noteq> d" "unat c * 4 div 512 = unat d * 4 div 512"
  shows "entry_offset c fs + 4 \<le> entry_offset d fs \<or> entry_offset d fs + 4 \<le> entry_offset c fs"
proof -
  have o: "entry_offset c fs = unat c * 4 mod 512" "entry_offset d fs = unat d * 4 mod 512"
    using cluster_bounds(2) assms(1-3) by (auto simp: valid_cluster_def)
  have "unat c < unat d \<or> unat d < unat c" using assms(4) by (metis linorder_neqE_nat unat_eqI)
  then show ?thesis
    unfolding o using assms(5) div_mult_mod_eq [of "unat c * 4" 512] div_mult_mod_eq [of "unat d * 4" 512]
    by linarith
qed

lemma table_write_step:
  assumes r: "fat_readSectors (copy_sector t fs c) 1 fs = Some sector"
    and w: "fat_writeSectors (copy_sector t fs c) 1
      (put_bytes (entry_offset c fs) (bytes32 ((old AND 0xF0000000) OR (v AND 0x0FFFFFFF))) sector) fs = (ok, fs')"
    and g: "fat_geom fs" and c: "valid_cluster fs c" and t: "unat t < unat (tableCount (f_bpb fs))"
  shows "same_volume fs fs' \<and> f_info fs' = f_info fs \<and> disk_ok (f_disk fs') \<and>
     (\<forall>x. x \<noteq> copy_sector t fs c \<longrightarrow> m_sector (f_disk fs') x = m_sector (f_disk fs) x) \<and>
     (\<forall>u d. unat u < unat (tableCount (f_bpb fs)) \<longrightarrow> valid_cluster fs d \<longrightarrow> d \<noteq> c \<longrightarrow>
        fat_copy u fs' d = fat_copy u fs d) \<and>
     (ok \<longrightarrow> fat_copy t fs' c = v AND 0x0FFFFFFF)"
proof -
  have dk: "disk_ok (f_disk fs)" and b: "bytesPerSector (f_bpb fs) = 512"
    using g by (simp_all add: fat_geom_def)
  have s: "sector = m_sector (f_disk fs) (copy_sector t fs c)"
    using r by (auto simp: fat_readSectors_def dest: disk.read_one split: if_splits)
  then have ls: "length sector = 512" using dk by (simp add: disk_ok_def)
  let ?raw = "(old AND 0xF0000000) OR (v AND 0x0FFFFFFF)"
  let ?buf = "put_bytes (entry_offset c fs) (bytes32 ?raw) sector"
  note off = entry_offset_fits [OF b]
  have lb: "length ?buf = 512" using off ls by (simp add: length_put_bytes)
  note e = fat_write_one [OF w dk lb]
  then have sv: "same_volume fs fs'" by simp
  note ad = same_volume_addr [OF sv]
  have "fat_copy u fs' d = fat_copy u fs d"
    if u: "unat u < unat (tableCount (f_bpb fs))" and d: "valid_cluster fs d" "d \<noteq> c" for u d
  proof (cases "copy_sector u fs d = copy_sector t fs c")
    case False
    then show ?thesis using e by (simp add: fat_copy_def ad)
  next
    case True
    then have "unat c * 4 div 512 = unat d * 4 div 512"
      using copy_sector_eq [OF g d(1) c u t] by simp
    then have dis: "entry_offset c fs + 4 \<le> entry_offset d fs \<or> entry_offset d fs + 4 \<le> entry_offset c fs"
      using get32_entry_disjoint [OF g c d(1)] d(2) by metis
    have "get32 ?buf (entry_offset d fs) = get32 sector (entry_offset d fs)"
      by (rule get32_put_other) (use dis off ls in auto)
    moreover have "ok \<or> m_sector (f_disk fs') (copy_sector t fs c) = sector"
    proof (cases ok)
      case False
      then have "fs' = fs" using fat_write_one_failed w by simp
      then show ?thesis using s by simp
    qed simp
    ultimately show ?thesis
      using e s True by (cases ok) (auto simp: fat_copy_def ad)
  qed
  moreover have "fat_copy t fs' c = v AND 0x0FFFFFFF" if ok
    using that e get32_put_same [of "entry_offset c fs" sector ?raw] off ls
    by (simp add: fat_copy_def ad mask28)
  ultimately show ?thesis using e by blast
qed

lemma write_tables_effect:
  assumes "write_tables n t c v fs = (ok, fs')" "fat_geom fs" "valid_cluster fs c"
    "unat t + n = unat (tableCount (f_bpb fs))"
  shows "same_volume fs fs' \<and> f_info fs' = f_info fs \<and> disk_ok (f_disk fs') \<and>
     (\<forall>x. (\<forall>u. unat t \<le> unat u \<longrightarrow> unat u < unat (tableCount (f_bpb fs)) \<longrightarrow> x \<noteq> copy_sector u fs c) \<longrightarrow>
        m_sector (f_disk fs') x = m_sector (f_disk fs) x) \<and>
     (\<forall>u d. unat u < unat (tableCount (f_bpb fs)) \<longrightarrow> valid_cluster fs d \<longrightarrow> d \<noteq> c \<longrightarrow>
        fat_copy u fs' d = fat_copy u fs d) \<and>
     (ok \<longrightarrow> (\<forall>u. unat t \<le> unat u \<longrightarrow> unat u < unat (tableCount (f_bpb fs)) \<longrightarrow>
        fat_copy u fs' c = v AND 0x0FFFFFFF))"
  using assms
proof (induction n arbitrary: t fs ok fs')
  case 0
  then show ?case by (auto simp: fat_geom_def)
next
  case (Suc n)
  let ?N = "unat (tableCount (f_bpb fs))"
  show ?case
  proof (cases "fat_readSectors (copy_sector t fs c) 1 fs")
    case None
    then show ?thesis using Suc.prems by (simp add: copy_sector_def Let_def fat_geom_def)
  next
    case (Some sector)
    define raw where "raw = (get32 sector (entry_offset c fs) AND 0xF0000000) OR (v AND 0x0FFFFFFF)"
    obtain ok1 fs1 where w: "fat_writeSectors (copy_sector t fs c) 1
        (put_bytes (entry_offset c fs) (bytes32 raw) sector) fs = (ok1, fs1)"
      by fastforce
    have t: "unat t < ?N" using Suc.prems(4) by simp
    note st = table_write_step [OF Some w [unfolded raw_def] Suc.prems(2,3) t]
    then have sv: "same_volume fs fs1" by simp
    note ad = same_volume_addr [OF sv] and sd = same_volumeD [OF sv]
    have run: "(if \<not> ok1 then (False, fs1) else write_tables n (t + 1) c v fs1) = (ok, fs')"
      using Suc.prems(1) Some w by (simp add: copy_sector_def [symmetric] raw_def Let_def)
    show ?thesis
    proof (cases ok1)
      case False
      then have "ok = False" "fs' = fs1" using run by auto
      then show ?thesis using st t by auto
    next
      case True
      have r: "write_tables n (t + 1) c v fs1 = (ok, fs')" using run True by simp
      have t1: "unat (t + 1) = Suc (unat t)"
        using t by (metis unat_inc word_less_unat)
      have g1: "fat_geom fs1" using Suc.prems(2) sd st by (simp add: fat_geom_def)
      have IH: "same_volume fs1 fs' \<and> f_info fs' = f_info fs1 \<and> disk_ok (f_disk fs') \<and>
         (\<forall>x. (\<forall>u. unat (t + 1) \<le> unat u \<longrightarrow> unat u < ?N \<longrightarrow> x \<noteq> copy_sector u fs c) \<longrightarrow>
            m_sector (f_disk fs') x = m_sector (f_disk fs1) x) \<and>
         (\<forall>u d. unat u < ?N \<longrightarrow> valid_cluster fs d \<longrightarrow> d \<noteq> c \<longrightarrow> fat_copy u fs' d = fat_copy u fs1 d) \<and>
         (ok \<longrightarrow> (\<forall>u. unat (t + 1) \<le> unat u \<longrightarrow> unat u < ?N \<longrightarrow> fat_copy u fs' c = v AND 0x0FFFFFFF))"
        using Suc.IH [OF r g1] Suc.prems(3,4) t1 unfolding ad sd by simp
      have cur: "x \<noteq> copy_sector t fs c" if "\<forall>u. unat t \<le> unat u \<longrightarrow> unat u < ?N \<longrightarrow> x \<noteq> copy_sector u fs c" for x
        using that t by blast
      have "fat_copy u fs' c = v AND 0x0FFFFFFF" if "ok" "unat t \<le> unat u" "unat u < ?N" for u
      proof (cases "u = t")
        case True
        have "m_sector (f_disk fs') (copy_sector t fs c) = m_sector (f_disk fs1) (copy_sector t fs c)"
          using IH copy_sector_eq [OF Suc.prems(2,3,3) t] t1 by (metis Suc_n_not_le_n)
        moreover have "fat_copy t fs1 c = v AND 0x0FFFFFFF" using st \<open>ok1\<close> by simp
        moreover have "same_volume fs fs'" using sv IH same_volume_trans by blast
        ultimately show ?thesis using True by (simp add: fat_copy_def ad same_volume_addr)
      next
        case False
        then have "unat t \<noteq> unat u" by (metis unat_eqI)
        then show ?thesis using IH t1 that by simp
      qed
      then show ?thesis
        using IH st cur same_volume_trans [OF sv] t1 by (auto simp: Suc_le_eq)
    qed
  qed
qed

lemma data_sector_range:
  assumes "fat_geom fs" "valid_cluster fs c" "i < unat (sectorsPerCluster (f_bpb fs))"
  shows "unat (fat_clusterToSector c fs + of_nat i) =
      unat (f_firstDataSector fs) + (unat c - 2) * unat (sectorsPerCluster (f_bpb fs)) + i"
proof -
  note n = cluster_sector_nat [OF assms(1,2)]
  have i: "unat (of_nat i :: u64) = i"
    using assms(3) unsigned_less [of "sectorsPerCluster (f_bpb fs)", where ?'a = nat]
    by (intro unat_of_nat_fits) simp
  have "unat (fat_clusterToSector c fs) + unat (of_nat i :: u64) < 2 ^ LENGTH(64)"
    using n(2) assms(3) i by simp
  then have "unat (fat_clusterToSector c fs + of_nat i) = unat (fat_clusterToSector c fs) + unat (of_nat i :: u64)"
    by (rule unat_add_fits)
  then show ?thesis using i n(1) by simp
qed

lemma cluster_data_cong:
  assumes "same_volume fs fs'" "\<And>i. i < unat (sectorsPerCluster (f_bpb fs)) \<Longrightarrow>
    m_sector (f_disk fs') (fat_clusterToSector c fs + of_nat i) = m_sector (f_disk fs) (fat_clusterToSector c fs + of_nat i)"
  shows "cluster_data fs' c = cluster_data fs c"
  unfolding cluster_data_def same_volume_addr [OF assms(1)] same_volumeD [OF assms(1)]
  by (rule arg_cong [of _ _ concat], rule map_cong [OF refl]) (simp add: assms(2))

lemma fat_geom_first: "fat_geom fs \<Longrightarrow> 0 < unat (f_firstSector fs) \<and>
    unat (f_firstSector fs) \<le> unat (f_firstDataSector fs) \<and> disk_ok (f_disk fs)"
  by (auto simp: fat_geom_def)

text \<open>An entry of every copy of the table is written, and nothing else.\<close>

lemma writeFATEntry_effect:
  assumes "fat_writeFATEntry c v fs = (ok, fs')" "fat_geom fs" "valid_cluster fs c"
  shows "changes_only {c} {} fs fs'" "f_info fs' = f_info fs"
    "ok \<Longrightarrow> unat t < unat (tableCount (f_bpb fs)) \<Longrightarrow> fat_copy t fs' c = v AND 0x0FFFFFFF"
    "ok \<Longrightarrow> fat_entry fs' c = v AND 0x0FFFFFFF"
proof -
  note e = write_tables_effect [OF assms(1) [unfolded fat_writeFATEntry_def] assms(2,3)]
  then have frame: "m_sector (f_disk fs') x = m_sector (f_disk fs) x"
    if "\<forall>u. unat u < unat (tableCount (f_bpb fs)) \<longrightarrow> x \<noteq> copy_sector u fs c" for x
    using that by auto
  have sv: "same_volume fs fs'" using e by simp
  have "cluster_data fs' d = cluster_data fs d" if d: "valid_cluster fs d" for d
  proof (rule cluster_data_cong [OF sv], rule frame, intro allI impI)
    fix i and u :: u8
    assume "i < unat (sectorsPerCluster (f_bpb fs))" "unat u < unat (tableCount (f_bpb fs))"
    then show "fat_clusterToSector d fs + of_nat i \<noteq> copy_sector u fs c"
      using data_sector_range [OF assms(2) d] copy_sector_range(2) [OF assms(2,3)] by (metis add_lessD1 less_not_refl)
  qed
  moreover have "m_sector (f_disk fs') 0 = m_sector (f_disk fs) 0"
  proof (rule frame, intro allI impI)
    fix u :: u8
    assume "unat u < unat (tableCount (f_bpb fs))"
    from copy_sector_range(1) [OF assms(2,3) this] show "0 \<noteq> copy_sector u fs c"
      using fat_geom_first [OF assms(2)] by force
  qed
  ultimately show "changes_only {c} {} fs fs'"
    using e by (auto simp: changes_only_def)
  show "f_info fs' = f_info fs" using e by simp
  show cp: "ok \<Longrightarrow> unat t < unat (tableCount (f_bpb fs)) \<Longrightarrow> fat_copy t fs' c = v AND 0x0FFFFFFF" for t
    using e by simp
  have "unat (0 :: u8) < unat (tableCount (f_bpb fs))"
    using assms(2) by (simp add: fat_geom_def unat_gt_0)
  then show "ok \<Longrightarrow> fat_entry fs' c = v AND 0x0FFFFFFF"
    using cp [of 0] by (simp add: fat_copy_0)
qed

section \<open>Writing clusters and the FSInfo sector\<close>

lemma fat_write_sectors_effect:
  assumes "fat_writeSectors a n buf fs = (ok, fs')" "disk_ok (f_disk fs)" "length buf = 512 * unat n"
  shows "same_volume fs fs'" "f_info fs' = f_info fs" "disk_ok (f_disk fs')"
    "(\<And>i. i < unat n \<Longrightarrow> x \<noteq> a + of_nat i) \<Longrightarrow> m_sector (f_disk fs') x = m_sector (f_disk fs) x"
    "ok \<Longrightarrow> i < unat n \<Longrightarrow> m_sector (f_disk fs') (a + of_nat i) = take 512 (drop (512 * i) buf)"
proof -
  consider "f_attached fs" | "\<not> f_attached fs" "fs' = fs" "\<not> ok"
    using assms(1) by (cases "f_attached fs") (auto simp: fat_writeSectors_def)
  then have "same_volume fs fs' \<and> f_info fs' = f_info fs \<and> disk_ok (f_disk fs') \<and>
    ((\<forall>i < unat n. x \<noteq> a + of_nat i) \<longrightarrow> m_sector (f_disk fs') x = m_sector (f_disk fs) x) \<and>
    (ok \<longrightarrow> i < unat n \<longrightarrow> m_sector (f_disk fs') (a + of_nat i) = take 512 (drop (512 * i) buf))"
  proof cases
    case 1
    then obtain m where w: "disk_writeBlocks a n buf (f_disk fs) = (ok, m)" "fs' = fs\<lparr>f_disk := m\<rparr>"
      using assms(1) by (auto simp: fat_writeSectors_def split: prod.splits)
    then have "same_volume fs fs'" using disk_writeBlocks_same [OF w(1)] by (simp add: same_volume_def)
    then show ?thesis
      using w disk.write_ok [OF assms(2,3) w(1)] disk.write_frame [OF w(1), of x] disk.write_hit [of a n buf _ m i]
      by auto
  qed (use assms(2) in auto)
  then show "same_volume fs fs'" "f_info fs' = f_info fs" "disk_ok (f_disk fs')"
    "(\<And>i. i < unat n \<Longrightarrow> x \<noteq> a + of_nat i) \<Longrightarrow> m_sector (f_disk fs') x = m_sector (f_disk fs) x"
    "ok \<Longrightarrow> i < unat n \<Longrightarrow> m_sector (f_disk fs') (a + of_nat i) = take 512 (drop (512 * i) buf)"
    by auto
qed

lemma unat_cluster_bytes:
  assumes "bytesPerSector (f_bpb fs) = 512"
  shows "unat (fat_clusterSize fs) = 512 * unat (sectorsPerCluster (f_bpb fs))"
proof -
  have "unat (sectorsPerCluster (f_bpb fs)) < 256"
    using unsigned_less [of "sectorsPerCluster (f_bpb fs)", where ?'a = nat] by simp
  then show ?thesis
    using assms by (simp add: fat_clusterSize_def unat_mult_fits)
qed

lemma length_cluster_data: "fat_geom fs \<Longrightarrow> length (cluster_data fs c) = unat (fat_clusterSize fs)"
proof -
  assume g: "fat_geom fs"
  then have "length (concat (map (\<lambda>i. m_sector (f_disk fs) (a + of_nat i)) [0..<n])) = 512 * n" for n a
    by (induction n) (auto simp: fat_geom_def disk_ok_def)
  then show ?thesis
    using g by (simp add: cluster_data_def unat_cluster_bytes fat_geom_def)
qed

lemma writeCluster_effect:
  assumes "fat_writeCluster c buf fs = (ok, fs')" "fat_geom fs" "valid_cluster fs c"
    "length buf = unat (fat_clusterSize fs)"
  shows "changes_only {} {c} fs fs'" "f_info fs' = f_info fs" "ok \<Longrightarrow> cluster_data fs' c = buf"
proof -
  let ?n = "unat (sectorsPerCluster (f_bpb fs))"
  have g: "disk_ok (f_disk fs)" "bytesPerSector (f_bpb fs) = 512" using assms(2) by (simp_all add: fat_geom_def)
  have "\<not> c < 2" using assms(3) by (simp add: valid_cluster_def word_less_unat)
  then have w: "fat_writeSectors (fat_clusterToSector c fs) (ucast (sectorsPerCluster (f_bpb fs))) buf fs = (ok, fs')"
    using assms(1) by (simp add: fat_writeCluster_def)
  have l: "length buf = 512 * unat (ucast (sectorsPerCluster (f_bpb fs)) :: u32)"
    using assms(4) g unat_cluster_bytes by simp
  note e = fat_write_sectors_effect [OF w g(1) l]
  note r = data_sector_range [OF assms(2)]
  have "fat_copy t fs' d = fat_copy t fs d"
    if "unat t < unat (tableCount (f_bpb fs))" "valid_cluster fs d" for t d
  proof -
    have "m_sector (f_disk fs') (copy_sector t fs d) = m_sector (f_disk fs) (copy_sector t fs d)"
    proof (rule e(4))
      fix i assume "i < unat (ucast (sectorsPerCluster (f_bpb fs)) :: u32)"
      then show "copy_sector t fs d \<noteq> fat_clusterToSector c fs + of_nat i"
        using copy_sector_range(2) [OF assms(2) that(2,1)] r [OF assms(3), of i] by auto
    qed
    then show ?thesis by (simp add: fat_copy_def same_volume_addr [OF e(1)])
  qed
  moreover have "cluster_data fs' d = cluster_data fs d" if d: "valid_cluster fs d" "d \<noteq> c" for d
  proof (rule cluster_data_cong [OF e(1)], rule e(4))
    fix i j assume ij: "i < ?n" "j < unat (ucast (sectorsPerCluster (f_bpb fs)) :: u32)"
    have "unat c - 2 < unat d - 2 \<or> unat d - 2 < unat c - 2"
      using d assms(3) unat_eqI [of c d] by (fastforce simp: valid_cluster_def)
    then have "(unat d - 2) * ?n + i \<noteq> (unat c - 2) * ?n + j"
    proof
      assume "unat c - 2 < unat d - 2"
      then have "Suc (unat c - 2) * ?n \<le> (unat d - 2) * ?n" by (intro mult_le_mono1) simp
      then show ?thesis using ij by simp
    next
      assume "unat d - 2 < unat c - 2"
      then have "Suc (unat d - 2) * ?n \<le> (unat c - 2) * ?n" by (intro mult_le_mono1) simp
      then show ?thesis using ij by simp
    qed
    then show "fat_clusterToSector d fs + of_nat i \<noteq> fat_clusterToSector c fs + of_nat j"
      using r [OF d(1) ij(1)] r [OF assms(3), of j] ij(2) by auto
  qed
  moreover have "m_sector (f_disk fs') 0 = m_sector (f_disk fs) 0"
    by (rule e(4)) (use r [OF assms(3)] fat_geom_first [OF assms(2)] in force)
  ultimately show "changes_only {} {c} fs fs'"
    using e(1-3) by (simp add: changes_only_def)
  show "f_info fs' = f_info fs" by (rule e(2))
  assume ok
  have eq: "map (\<lambda>i. m_sector (f_disk fs') (fat_clusterToSector c fs + of_nat i)) [0..<?n] =
      map (\<lambda>i. take 512 (drop (512 * i) buf)) [0..<?n]"
    using e(5) [OF \<open>ok\<close>] by (intro map_cong refl) simp
  then show "cluster_data fs' c = buf"
    unfolding cluster_data_def same_volume_addr [OF e(1)] same_volumeD [OF e(1)] eq
    using disk.concat_chunks [of buf ?n] l by simp
qed

lemma readCluster_value:
  assumes "fat_readCluster c fs = Some buf" "valid_cluster fs c"
  shows "buf = cluster_data fs c"
  using assms
  by (auto simp: fat_readCluster_def fat_readSectors_def cluster_data_def dest!: disk.read_law split: if_splits)

lemma changes_only_info:
  assumes "disk_ok (f_disk fs)" "reserved0 i = reserved0 (f_info fs)" "reserved1 i = reserved1 (f_info fs)"
  shows "changes_only E D fs (fs\<lparr>f_info := i\<rparr>)"
proof -
  have "same_volume fs (fs\<lparr>f_info := i\<rparr>)" by (simp add: same_volume_def)
  then show ?thesis
    using assms by (auto simp: changes_only_def fat_copy_def cluster_data_def same_volume_addr)
qed

lemma reserved_write_effect:
  assumes "fat_writeSectors a 1 buf fs = (ok, fs')" "fat_geom fs" "length buf = 512"
    "a \<noteq> 0" "unat a < unat (f_firstSector fs)"
  shows "changes_only {} {} fs fs'" "f_info fs' = f_info fs" "ok \<Longrightarrow> m_sector (f_disk fs') a = buf"
proof -
  note gf = fat_geom_first [OF assms(2)]
  note e = fat_write_one [OF assms(1) _ assms(3)]
  then have sv: "same_volume fs fs'" using gf by simp
  have "fat_copy t fs' d = fat_copy t fs d"
    if "unat t < unat (tableCount (f_bpb fs))" "valid_cluster fs d" for t d
  proof -
    have "copy_sector t fs d \<noteq> a"
      using copy_sector_range(1) [OF assms(2) that(2,1)] assms(5) by auto
    then show ?thesis using e gf by (simp add: fat_copy_def same_volume_addr [OF sv])
  qed
  moreover have "cluster_data fs' d = cluster_data fs d" if d: "valid_cluster fs d" for d
  proof (rule cluster_data_cong [OF sv])
    fix i assume "i < unat (sectorsPerCluster (f_bpb fs))"
    then have "fat_clusterToSector d fs + of_nat i \<noteq> a"
      using data_sector_range [OF assms(2) d, of i] assms(5) gf by auto
    then show "m_sector (f_disk fs') (fat_clusterToSector d fs + of_nat i) =
        m_sector (f_disk fs) (fat_clusterToSector d fs + of_nat i)"
      using e gf by simp
  qed
  ultimately show "changes_only {} {} fs fs'"
    using e gf assms(4) by (simp add: changes_only_def)
  show "f_info fs' = f_info fs" "ok \<Longrightarrow> m_sector (f_disk fs') a = buf" using e gf by simp_all
qed

lemma length_fsinfo_bytes:
  "length (reserved0 i) = 480 \<Longrightarrow> length (reserved1 i) = 12 \<Longrightarrow> length (fsinfo_bytes i) = 512"
  by (simp add: fsinfo_bytes_def)

lemma syncFSInfo_effect:
  assumes "fat_syncFSInfo fs = (ok, fs')" "fat_geom fs"
  shows "changes_only {} {} fs fs'" "freeClusterCount (f_info fs') = freeClusterCount (f_info fs)"
    "nextFreeCluster (f_info fs') = nextFreeCluster (f_info fs)"
proof -
  have "changes_only {} {} fs fs' \<and> freeClusterCount (f_info fs') = freeClusterCount (f_info fs) \<and>
    nextFreeCluster (f_info fs') = nextFreeCluster (f_info fs)"
  proof (cases "fsInfoSector (f_bpb fs) = 0")
    case True
    then show ?thesis
      using assms fat_geom_first [OF assms(2)] by (auto simp: fat_syncFSInfo_def intro: changes_only_refl)
  next
    case False
    define i where "i = (f_info fs)\<lparr>leadSignature := 0x41615252, structureSignature := 0x61417272,
                     trailSignature := 0xAA550000\<rparr>"
    let ?fs1 = "fs\<lparr>f_info := i\<rparr>"
    have c1: "changes_only {} {} fs ?fs1"
      using fat_geom_first [OF assms(2)] by (intro changes_only_info) (simp_all add: i_def)
    have g1: "fat_geom ?fs1" by (rule changes_only_geom [OF c1 assms(2)])
    have w: "fat_writeSectors (ucast (fsInfoSector (f_bpb ?fs1))) 1
        (put_bytes 0 (fsinfo_bytes i) (replicate 512 0)) ?fs1 = (ok, fs')"
      using assms(1) False by (simp add: fat_syncFSInfo_def i_def Let_def)
    have "length (fsinfo_bytes i) = 512"
      using assms(2) by (intro length_fsinfo_bytes) (simp_all add: i_def fat_geom_def)
    then have l: "length (put_bytes 0 (fsinfo_bytes i) (replicate 512 0)) = 512"
      by (simp add: length_put_bytes)
    have nz: "(ucast (fsInfoSector (f_bpb ?fs1)) :: u64) \<noteq> 0"
    proof
      assume "(ucast (fsInfoSector (f_bpb ?fs1)) :: u64) = 0"
      then have "unat (ucast (fsInfoSector (f_bpb fs)) :: u64) = 0" by simp
      then have "unat (fsInfoSector (f_bpb fs)) = 0" by (simp only: unat_ucast_up)
      then show False using False unat_eqI [of "fsInfoSector (f_bpb fs)" 0] by simp
    qed
    have lt: "unat (ucast (fsInfoSector (f_bpb ?fs1)) :: u64) < unat (f_firstSector ?fs1)"
      using assms(2) by (simp add: fat_geom_def)
    note r = reserved_write_effect [OF w g1 l nz lt]
    show ?thesis
      using changes_only_trans [OF c1 r(1)] r(2) by (simp add: i_def)
  qed
  then show "changes_only {} {} fs fs'" "freeClusterCount (f_info fs') = freeClusterCount (f_info fs)"
    "nextFreeCluster (f_info fs') = nextFreeCluster (f_info fs)" by simp_all
qed

section \<open>Healthy volumes\<close>

lemma healthy_transfers:
  fixes n :: u32
  assumes "fat_healthy fs" "unat a + unat n \<le> unat (m_blocks (f_disk fs))" "unat a \<le> 0x0FFFFFFF"
  shows "fat_readSectors a n fs \<noteq> None" "fst (fat_writeSectors a n buf fs)"
  using disk_transfers_total [of "f_disk fs" a n] assms
  by (simp_all add: fat_readSectors_def fat_writeSectors_def fat_healthy_def fat_geom_def case_prod_unfold)

lemma healthy_copy_sector:
  assumes "fat_healthy fs" "valid_cluster fs c" "unat t < unat (tableCount (f_bpb fs))"
  shows "fat_readSectors (copy_sector t fs c) 1 fs \<noteq> None" "fst (fat_writeSectors (copy_sector t fs c) 1 buf fs)"
proof -
  have g: "fat_geom fs" "unat (f_firstDataSector fs) \<le> unat (m_blocks (f_disk fs))"
    "unat (f_firstDataSector fs) \<le> 0x10000000"
    using assms(1) by (simp_all add: fat_healthy_def fat_geom_def)
  note r = copy_sector_range(2) [OF g(1) assms(2,3)]
  show "fat_readSectors (copy_sector t fs c) 1 fs \<noteq> None" "fst (fat_writeSectors (copy_sector t fs c) 1 buf fs)"
    using healthy_transfers [OF assms(1), of "copy_sector t fs c" 1] r g(2,3) by simp_all
qed

lemma healthy_readFATEntry:
  assumes "fat_healthy fs" "valid_cluster fs c"
  shows "fat_readFATEntry c fs = Some (fat_entry fs c)"
proof -
  have "unat (0 :: u8) < unat (tableCount (f_bpb fs))"
    using assms(1) by (simp add: fat_healthy_def fat_geom_def unat_gt_0)
  from healthy_copy_sector(1) [OF assms this] have "fat_readFATEntry c fs \<noteq> None"
    by (auto simp: fat_readFATEntry_def copy_sector_def split: option.splits)
  then show ?thesis using readFATEntry_value by blast
qed

lemma healthy_write_tables:
  "fat_healthy fs \<Longrightarrow> valid_cluster fs c \<Longrightarrow> unat t + n = unat (tableCount (f_bpb fs)) \<Longrightarrow>
   fst (write_tables n t c v fs)"
proof (induction n arbitrary: t fs)
  case (Suc n)
  let ?N = "unat (tableCount (f_bpb fs))"
  have t: "unat t < ?N" and g: "fat_geom fs" using Suc.prems by (simp_all add: fat_healthy_def)
  obtain sector where r: "fat_readSectors (copy_sector t fs c) 1 fs = Some sector"
    using healthy_copy_sector(1) [OF Suc.prems(1,2) t] by blast
  define raw where "raw = (get32 sector (entry_offset c fs) AND 0xF0000000) OR (v AND 0x0FFFFFFF)"
  obtain fs1 where w: "fat_writeSectors (copy_sector t fs c) 1
      (put_bytes (entry_offset c fs) (bytes32 raw) sector) fs = (True, fs1)"
    using healthy_copy_sector(2) [OF Suc.prems(1,2) t] by (metis prod.collapse)
  note st = table_write_step [OF r w [unfolded raw_def] g Suc.prems(2) t]
  then have sv: "same_volume fs fs1" by simp
  have "unat (t + 1) = Suc (unat t)" using t by (metis unat_inc word_less_unat)
  moreover have "fat_healthy fs1"
    using Suc.prems(1) st same_volumeD [OF sv] by (simp add: fat_healthy_def fat_geom_def disk_healthy_def)
  ultimately have "fst (write_tables n (t + 1) c v fs1)"
    using Suc.prems(2,3) by (intro Suc.IH) (simp_all add: same_volume_addr [OF sv] same_volumeD [OF sv])
  then show ?case
    using r w by (simp add: copy_sector_def [symmetric] raw_def Let_def)
qed simp

lemma healthy_writeFATEntry:
  assumes "fat_healthy fs" "valid_cluster fs c"
  shows "fst (fat_writeFATEntry c v fs)"
  using healthy_write_tables [OF assms, of 0] by (simp add: fat_writeFATEntry_def)

lemma healthy_cluster_sectors:
  assumes "fat_healthy fs" "valid_cluster fs c"
  shows "unat (fat_clusterToSector c fs) + unat (sectorsPerCluster (f_bpb fs)) \<le> unat (m_blocks (f_disk fs))"
    "unat (fat_clusterToSector c fs) \<le> 0x0FFFFFFF"
proof -
  let ?n = "unat (sectorsPerCluster (f_bpb fs))"
  have g: "fat_geom fs" using assms(1) by (simp add: fat_healthy_def)
  have n0: "0 < ?n" using g by (simp add: fat_geom_def unat_gt_0)
  note r = cluster_sector_nat [OF g assms(2)]
  have "Suc (unat c - 2) * ?n \<le> unat (f_totalClusters fs) * ?n"
    using assms(2) by (intro mult_le_mono1) (auto simp: valid_cluster_def)
  then show "unat (fat_clusterToSector c fs) + ?n \<le> unat (m_blocks (f_disk fs))"
    using r(1) assms(1) by (simp add: fat_healthy_def)
  show "unat (fat_clusterToSector c fs) \<le> 0x0FFFFFFF" using r(2) n0 by simp
qed

lemma valid_ge2: "valid_cluster fs c \<Longrightarrow> \<not> c < 2"
  by (simp add: valid_cluster_def word_less_unat)

lemma healthy_readCluster:
  assumes "fat_healthy fs" "valid_cluster fs c"
  shows "fat_readCluster c fs = Some (cluster_data fs c)"
proof -
  have "fat_readCluster c fs \<noteq> None"
    using healthy_transfers(1) [OF assms(1), of "fat_clusterToSector c fs" "ucast (sectorsPerCluster (f_bpb fs))"]
      healthy_cluster_sectors [OF assms] valid_ge2 [OF assms(2)] by (simp add: fat_readCluster_def)
  then show ?thesis using readCluster_value [OF _ assms(2)] by blast
qed

lemma healthy_writeCluster:
  assumes "fat_healthy fs" "valid_cluster fs c"
  shows "fst (fat_writeCluster c buf fs)"
  using healthy_transfers(2) [OF assms(1), of "fat_clusterToSector c fs" "ucast (sectorsPerCluster (f_bpb fs))"]
    healthy_cluster_sectors [OF assms] valid_ge2 [OF assms(2)] by (simp add: fat_writeCluster_def)

section \<open>Allocation\<close>

definition free_clusters :: "fat32 \<Rightarrow> u32 set" where
  "free_clusters fs = {c. valid_cluster fs c \<and> fat_entry fs c = FreeCluster}"

lemma zeroCluster_effect:
  assumes "fat_zeroCluster c fs = (ok, fs')" "fat_geom fs" "valid_cluster fs c"
  shows "changes_only {} {c} fs fs'" "f_info fs' = f_info fs"
    "ok \<Longrightarrow> cluster_data fs' c = replicate (unat (fat_clusterSize fs)) 0"
  using writeCluster_effect [OF assms(1) [unfolded fat_zeroCluster_def] assms(2,3)] by simp_all

lemma note_allocated_effect:
  assumes "fat_geom fs"
  shows "changes_only {} {} fs (note_allocated c fs)"
proof -
  define i1 where "i1 = (f_info fs)\<lparr>nextFreeCluster := c + 1\<rparr>"
  define i2 where "i2 = (if f_totalClusters fs + 2 \<le> nextFreeCluster i1 then i1\<lparr>nextFreeCluster := 2\<rparr> else i1)"
  define i3 where "i3 = (if freeClusterCount i2 \<noteq> 0xFFFFFFFF \<and> 0 < freeClusterCount i2
               then i2\<lparr>freeClusterCount := freeClusterCount i2 - 1\<rparr> else i2)"
  have "reserved0 i3 = reserved0 (f_info fs)" "reserved1 i3 = reserved1 (f_info fs)"
    by (simp_all add: i3_def i2_def i1_def)
  then have c1: "changes_only {} {} fs (fs\<lparr>f_info := i3\<rparr>)"
    using fat_geom_first [OF assms] by (intro changes_only_info) simp_all
  have g1: "fat_geom (fs\<lparr>f_info := i3\<rparr>)" by (rule changes_only_geom [OF c1 assms])
  have "note_allocated c fs = snd (fat_syncFSInfo (fs\<lparr>f_info := i3\<rparr>))"
    by (simp only: note_allocated_def Let_def i1_def i2_def i3_def)
  then have "fat_syncFSInfo (fs\<lparr>f_info := i3\<rparr>) = (fst (fat_syncFSInfo (fs\<lparr>f_info := i3\<rparr>)), note_allocated c fs)"
    by simp
  from changes_only_trans [OF c1 syncFSInfo_effect(1) [OF this g1]] show ?thesis by simp
qed

definition scanned :: "fat32 \<Rightarrow> u32 \<Rightarrow> u32 \<Rightarrow> u32" where
  "scanned fs start i = 2 + ((start - 2 + i) mod f_totalClusters fs)"

lemma scanned_nat:
  assumes "fat_geom fs" "valid_cluster fs start" "unat i \<le> unat (f_totalClusters fs)"
  shows "unat (scanned fs start i) = 2 + (unat start - 2 + unat i) mod unat (f_totalClusters fs)"
    "valid_cluster fs (scanned fs start i)"
proof -
  let ?T = "unat (f_totalClusters fs)"
  have T: "0 < ?T" "?T < 0x0FFFFFF5" using assms(1) by (simp_all add: fat_geom_def unat_gt_0)
  have s: "unat (start - 2) = unat start - 2"
    using assms(2) by (simp add: valid_cluster_def unat_sub_fits)
  then have "unat (start - 2 + i) = unat start - 2 + unat i"
    using assms(2,3) T by (subst unat_add_fits) (auto simp: valid_cluster_def)
  then have m: "unat ((start - 2 + i) mod f_totalClusters fs) = (unat start - 2 + unat i) mod ?T"
    by (simp add: unat_mod)
  have lt: "(unat start - 2 + unat i) mod ?T < ?T" using T by simp
  have "unat (2 + (start - 2 + i) mod f_totalClusters fs) = 2 + (unat start - 2 + unat i) mod ?T"
  proof -
    have "unat (2 :: u32) + unat ((start - 2 + i) mod f_totalClusters fs) < 2 ^ LENGTH(32)"
      unfolding m using less_trans [OF lt T(2)] by simp
    then show ?thesis using m by (simp add: unat_add_fits)
  qed
  then show "unat (scanned fs start i) = 2 + (unat start - 2 + unat i) mod ?T"
    by (simp only: scanned_def)
  then show "valid_cluster fs (scanned fs start i)" using lt by (simp add: valid_cluster_def)
qed

lemma scanned_onto:
  assumes "fat_geom fs" "valid_cluster fs start" "valid_cluster fs c"
  shows "\<exists>i. unat i < unat (f_totalClusters fs) \<and> scanned fs start i = c"
proof -
  let ?T = "unat (f_totalClusters fs)"
  have T: "0 < ?T" using assms(1) by (simp add: fat_geom_def unat_gt_0)
  define k where "k = (unat c - 2 + ?T - (unat start - 2)) mod ?T"
  have "k < ?T" using T by (simp add: k_def)
  then have i: "unat (of_nat k :: u32) = k"
    using unsigned_less [of "f_totalClusters fs", where ?'a = nat] by (intro unat_of_nat_fits) simp
  have "(unat start - 2 + k) mod ?T = (unat start - 2 + (unat c - 2 + ?T - (unat start - 2))) mod ?T"
    by (simp add: k_def mod_add_right_eq)
  also have "unat start - 2 + (unat c - 2 + ?T - (unat start - 2)) = unat c - 2 + ?T"
    using assms(2) by (auto simp: valid_cluster_def)
  also have "(unat c - 2 + ?T) mod ?T = (unat c - 2) mod ?T" by simp
  also have "\<dots> = unat c - 2" using assms(3) by (auto simp: valid_cluster_def)
  finally have "unat (scanned fs start (of_nat k)) = unat c"
    using scanned_nat(1) [OF assms(1,2), of "of_nat k"] i \<open>k < ?T\<close> assms(3) by (auto simp: valid_cluster_def)
  then show ?thesis using i \<open>k < ?T\<close> by (metis unat_eqI)
qed

lemma alloc_scan_effect:
  assumes "alloc_scan n i start fs = (r, fs')" "fat_geom fs" "valid_cluster fs start"
    "unat i + n = unat (f_totalClusters fs)"
  shows "changes_only (free_clusters fs) (free_clusters fs) fs fs' \<and>
    (case r of
       None \<Rightarrow> fat_healthy fs \<longrightarrow> fs' = fs \<and>
         (\<forall>j. unat i \<le> unat j \<longrightarrow> unat j < unat (f_totalClusters fs) \<longrightarrow> scanned fs start j \<notin> free_clusters fs)
     | Some c \<Rightarrow> c \<in> free_clusters fs \<and> changes_only {c} {c} fs fs' \<and> fat_entry fs' c = 0x0FFFFFFF \<and>
         cluster_data fs' c = replicate (unat (fat_clusterSize fs)) 0)"
  using assms
proof (induction n arbitrary: i)
  case 0
  then show ?case using fat_geom_first by (auto intro: changes_only_refl)
next
  case (Suc n)
  let ?c = "scanned fs start i"
  have v: "valid_cluster fs ?c" using scanned_nat(2) [OF Suc.prems(2,3)] Suc.prems(4) by simp
  have refl: "changes_only E D fs fs" for E D using fat_geom_first [OF Suc.prems(2)] by (simp add: changes_only_refl)
  consider (unread) "fat_readFATEntry ?c fs = None" | (used) "fat_readFATEntry ?c fs = Some (fat_entry fs ?c)"
      "fat_entry fs ?c \<noteq> FreeCluster" | (free) "fat_readFATEntry ?c fs = Some FreeCluster" "?c \<in> free_clusters fs"
    using readFATEntry_value [of ?c fs] v by (cases "fat_readFATEntry ?c fs") (auto simp: free_clusters_def)
  then show ?case
  proof cases
    case unread
    then have "r = None" "fs' = fs" using Suc.prems(1) by (simp_all add: scanned_def Let_def)
    then show ?thesis using unread healthy_readFATEntry [OF _ v] refl by auto
  next
    case used
    have i1: "unat (i + 1) = Suc (unat i)"
      using Suc.prems(4) unsigned_less [of "f_totalClusters fs", where ?'a = nat]
      by (subst unat_add_fits) simp_all
    have "alloc_scan n (i + 1) start fs = (r, fs')"
      using Suc.prems(1) used by (simp add: scanned_def Let_def)
    note IH = Suc.IH [OF this Suc.prems(2,3)]
    have "?c \<notin> free_clusters fs" using used by (simp add: free_clusters_def)
    then have "scanned fs start j \<notin> free_clusters fs"
      if "unat i \<le> unat j" "\<forall>j. Suc (unat i) \<le> unat j \<longrightarrow> unat j < unat (f_totalClusters fs) \<longrightarrow> scanned fs start j \<notin> free_clusters fs"
        "unat j < unat (f_totalClusters fs)" for j
      using that by (metis le_antisym not_less_eq_eq unat_eqI)
    then show ?thesis using IH i1 Suc.prems(4) by (auto split: option.splits)
  next
    case free
    obtain ok1 fs1 where w: "fat_writeFATEntry ?c 0x0FFFFFFF fs = (ok1, fs1)" by fastforce
    note e1 = writeFATEntry_effect [OF w Suc.prems(2) v]
    have g1: "fat_geom fs1" "valid_cluster fs1 ?c"
      using changes_only_geom [OF e1(1) Suc.prems(2)] same_volume_addr(6) [OF changes_only_same [OF e1(1)]] v by simp_all
    obtain ok2 fs2 where z: "fat_zeroCluster ?c fs1 = (ok2, fs2)" by fastforce
    note e2 = zeroCluster_effect [OF z g1]
    have g2: "fat_geom fs2" "valid_cluster fs2 ?c"
      using changes_only_geom [OF e2(1) g1(1)] same_volume_addr(6) [OF changes_only_same [OF e2(1)]] g1(2) by simp_all
    have c2: "changes_only {?c} {?c} fs fs2" using changes_only_trans [OF e1(1) e2(1)] by simp
    have sub: "changes_only {?c} {?c} fs x \<Longrightarrow> changes_only (free_clusters fs) (free_clusters fs) fs x" for x
      using free(2) by (elim changes_only_mono) simp_all
    have res: "(r, fs') = (if \<not> ok1 then (None, fs1)
        else if \<not> ok2 then (None, snd (fat_writeFATEntry ?c FreeCluster fs2)) else (Some ?c, note_allocated ?c fs2))"
      using Suc.prems(1) unfolding alloc_scan.simps scanned_def [symmetric] Let_def free(1)
      by (simp add: w z split: if_splits)
    have hl: "ok1 \<and> ok2" if h: "fat_healthy fs"
    proof -
      have "fat_healthy fs1" by (rule changes_only_healthy [OF e1(1) h])
      then show ?thesis
        using healthy_writeFATEntry [OF h v, of "0x0FFFFFFF"] healthy_writeCluster [OF _ g1(2)] w z
        by (simp add: fat_zeroCluster_def) (metis fst_conv)
    qed
    consider "\<not> ok1" "r = None" "fs' = fs1" | "ok1" "\<not> ok2" "r = None" "fs' = snd (fat_writeFATEntry ?c FreeCluster fs2)"
      | "ok1" "ok2" "r = Some ?c" "fs' = note_allocated ?c fs2"
      using res by (auto split: if_splits)
    then show ?thesis
    proof cases
      case 1
      have "changes_only {?c} {?c} fs fs1" using changes_only_mono [OF e1(1)] by simp
      then show ?thesis using 1 sub hl by auto
    next
      case 2
      have "fat_writeFATEntry ?c FreeCluster fs2 = (fst (fat_writeFATEntry ?c FreeCluster fs2), fs')"
        using 2 by simp
      from changes_only_trans [OF c2 writeFATEntry_effect(1) [OF this g2]]
      have "changes_only {?c} {?c} fs fs'" by simp
      then show ?thesis using 2 sub hl by auto
    next
      case 3
      note e3 = note_allocated_effect [OF g2(1), of ?c]
      have c3: "changes_only {?c} {?c} fs fs'" using changes_only_trans [OF c2 e3] 3 by simp
      have "fat_entry fs' ?c = fat_entry fs1 ?c"
        using changes_only_entry [OF e3 g2] changes_only_entry [OF e2(1) g1] 3 by simp
      moreover have "fat_entry fs1 ?c = 0x0FFFFFFF" using e1(4) 3 by simp
      moreover have "cluster_data fs' ?c = cluster_data fs2 ?c"
        using changes_only_data [OF e3 g2(2)] 3 by simp
      moreover have "cluster_data fs2 ?c = replicate (unat (fat_clusterSize fs)) 0"
        using e2(3) 3 same_volume_addr(5) [OF changes_only_same [OF e1(1)]] by simp
      ultimately show ?thesis using 3 c3 sub free(2) by simp
    qed
  qed
qed

lemma alloc_start_valid: "fat_geom fs \<Longrightarrow> valid_cluster fs (alloc_start fs)"
proof -
  assume g: "fat_geom fs"
  then have T: "0 < unat (f_totalClusters fs)" "unat (f_totalClusters fs) + 2 < 0x0FFFFFF7"
    by (simp_all add: fat_geom_def unat_gt_0)
  then have "unat (f_totalClusters fs + 2) = unat (f_totalClusters fs) + 2"
    by (subst unat_add_fits) simp_all
  then show ?thesis
    using T by (auto simp: valid_cluster_def alloc_start_def word_le_unat word_less_unat)
qed

lemma allocateCluster_effect:
  assumes "fat_allocateCluster fs = (r, fs')" "fat_geom fs"
  shows "changes_only (free_clusters fs) (free_clusters fs) fs fs' \<and>
    (case r of
       None \<Rightarrow> fat_healthy fs \<longrightarrow> fs' = fs \<and> free_clusters fs = {}
     | Some c \<Rightarrow> c \<in> free_clusters fs \<and> changes_only {c} {c} fs fs' \<and> fat_entry fs' c = 0x0FFFFFFF \<and>
         cluster_data fs' c = replicate (unat (fat_clusterSize fs)) 0)"
proof -
  note s = alloc_start_valid [OF assms(2)]
  note e = alloc_scan_effect [OF assms(1) [unfolded fat_allocateCluster_def] assms(2) s]
  have "free_clusters fs = {}"
    if "\<forall>j. unat j < unat (f_totalClusters fs) \<longrightarrow> scanned fs (alloc_start fs) j \<notin> free_clusters fs"
    using that scanned_onto [OF assms(2) s] unfolding free_clusters_def by blast
  then show ?thesis using e by (auto split: option.splits)
qed

end
