(* ===== verification/Fat_Chain.thy ===== *)
theory Fat_Chain
  imports Fat_Alloc
begin

text \<open>
  Cluster chains: what a chain is, releasing, extending and walking one; when the walks end.
\<close>

section \<open>Chains\<close>

fun is_chain :: "fat32 \<Rightarrow> u32 list \<Rightarrow> bool" where
  "is_chain fs [] = False"
| "is_chain fs [c] = (valid_cluster fs c \<and> isEndOfChain (fat_entry fs c))"
| "is_chain fs (c # d # ds) = (valid_cluster fs c \<and> fat_entry fs c = d \<and> is_chain fs (d # ds))"

lemma fat_entry_28: "unat (fat_entry fs c) < 2 ^ 28"
proof -
  have "fat_entry fs c = take_bit 28 (get32 (m_sector (f_disk fs) (table_sector fs c)) (entry_offset c fs))"
    by (simp add: fat_entry_def take_bit_eq_mask mask_eq_exp_minus_1)
  then have "unat (fat_entry fs c) =
      take_bit 28 (unat (get32 (m_sector (f_disk fs) (table_sector fs c)) (entry_offset c fs)))"
    by (simp add: unsigned_take_bit_eq)
  then show ?thesis by (metis take_bit_nat_less_exp)
qed

lemma mask_small: "unat v < 2 ^ 28 \<Longrightarrow> v AND 0x0FFFFFFF = v" for v :: u32
proof -
  assume "unat v < 2 ^ 28"
  then have "take_bit 28 v = v"
    by (intro unat_eqI) (simp add: unsigned_take_bit_eq take_bit_nat_eq_self)
  then show ?thesis by (simp add: take_bit_eq_mask mask_eq_exp_minus_1)
qed

lemma valid_cluster_value:
  assumes "fat_geom fs" "valid_cluster fs c"
  shows "\<not> isEndOfChain c" "c \<noteq> FreeCluster" "c \<noteq> BadCluster" "2 \<le> c" "c AND 0x0FFFFFFF = c"
proof -
  have b: "2 \<le> unat c" "unat c < 0x0FFFFFF7" using assms by (simp_all add: valid_cluster_def fat_geom_def)
  then show "\<not> isEndOfChain c" "2 \<le> c" by (simp_all add: isEndOfChain_def word_le_unat)
  show "c \<noteq> FreeCluster" "c \<noteq> BadCluster" using b by (auto simp: FreeCluster_def BadCluster_def)
  show "c AND 0x0FFFFFFF = c" using b by (intro mask_small) simp
qed

lemma end_of_chain_value: "isEndOfChain v \<Longrightarrow> v \<noteq> FreeCluster \<and> v \<noteq> BadCluster \<and> 2 \<le> v"
  by (auto simp: isEndOfChain_def FreeCluster_def BadCluster_def word_le_unat)

lemma is_chain_Cons:
  "is_chain fs (c # cs) \<longleftrightarrow> valid_cluster fs c \<and>
     (if cs = [] then isEndOfChain (fat_entry fs c) else fat_entry fs c = hd cs \<and> is_chain fs cs)"
  by (cases cs) auto

lemma chain_valid: "is_chain fs cs \<Longrightarrow> c \<in> set cs \<Longrightarrow> valid_cluster fs c"
  by (induction fs cs rule: is_chain.induct) auto

lemma chain_tail: "is_chain fs (xs @ ys) \<Longrightarrow> ys \<noteq> [] \<Longrightarrow> is_chain fs ys"
  by (induction xs) (auto simp: is_chain_Cons split: if_splits)

lemma chain_unique:
  "fat_geom fs \<Longrightarrow> is_chain fs (c # xs) \<Longrightarrow> is_chain fs (c # ys) \<Longrightarrow> xs = ys"
proof (induction xs arbitrary: c ys)
  case Nil
  show ?case
  proof (cases ys)
    case (Cons d ds)
    then have "valid_cluster fs d" "isEndOfChain d" using Nil by (auto dest: chain_valid)
    then show ?thesis using valid_cluster_value(1) [OF Nil(1)] by blast
  qed simp
next
  case (Cons d ds)
  have d: "valid_cluster fs d" "fat_entry fs c = d" "is_chain fs (d # ds)"
    using Cons.prems(2) by (auto dest: chain_valid)
  have "ys \<noteq> []" using Cons.prems(3) d valid_cluster_value(1) [OF Cons.prems(1) d(1)] by auto
  then obtain es where "ys = d # es" using Cons.prems(3) d(2) by (cases ys) auto
  then show ?case using Cons.IH [OF Cons.prems(1) d(3), of es] Cons.prems(3) by simp
qed

lemma chain_distinct:
  assumes "fat_geom fs" "is_chain fs cs"
  shows "distinct cs"
proof (rule ccontr)
  assume "\<not> distinct cs"
  then obtain xs ys zs y where c: "cs = xs @ [y] @ ys @ [y] @ zs"
    using not_distinct_decomp by blast
  have "is_chain fs (y # ys @ [y] @ zs)" using chain_tail [of fs xs] assms(2) c by simp
  moreover have "is_chain fs (y # zs)" using chain_tail [of fs "xs @ [y] @ ys" "y # zs"] assms(2) c by simp
  ultimately have "ys @ [y] @ zs = zs" using chain_unique [OF assms(1)] by blast
  then have "length (ys @ [y] @ zs) = length zs" by (rule arg_cong)
  then show False by simp
qed

lemma chain_length:
  assumes "fat_geom fs" "is_chain fs cs"
  shows "length cs \<le> unat (f_totalClusters fs)"
proof -
  let ?V = "{c :: u32. 2 \<le> unat c \<and> unat c < unat (f_totalClusters fs) + 2}"
  have "card ?V = unat (f_totalClusters fs) + 2 - 2"
    by (rule card_word_interval) (use assms(1) in \<open>simp add: fat_geom_def\<close>)
  moreover have "card (set cs) \<le> card ?V"
    by (rule card_mono) (use chain_valid [OF assms(2)] in \<open>auto simp: valid_cluster_def\<close>)
  ultimately show ?thesis using distinct_card [OF chain_distinct [OF assms]] by simp
qed

lemma chain_entry_used:
  assumes "fat_geom fs" "is_chain fs cs" "c \<in> set cs"
  shows "fat_entry fs c \<noteq> FreeCluster"
  using assms(2,3)
proof (induction cs)
  case (Cons d ds)
  have "fat_entry fs d \<noteq> FreeCluster"
  proof (cases ds)
    case Nil
    then show ?thesis using Cons.prems(1) end_of_chain_value by auto
  next
    case (Cons e es)
    then show ?thesis
      using \<open>is_chain fs (d # ds)\<close> chain_valid [of fs "e # es" e] valid_cluster_value(2) [OF assms(1), of e] by auto
  qed
  then show ?case using Cons by (auto simp: is_chain_Cons split: if_splits)
qed simp

lemma chain_not_free: "fat_geom fs \<Longrightarrow> is_chain fs cs \<Longrightarrow> set cs \<inter> free_clusters fs = {}"
  using chain_entry_used by (auto simp: free_clusters_def)

lemma chain_cong:
  assumes "\<And>c. c \<in> set cs \<Longrightarrow> fat_entry fs' c = fat_entry fs c"
    "\<And>c. valid_cluster fs' c = valid_cluster fs c"
  shows "is_chain fs' cs = is_chain fs cs"
  using assms(1)
proof (induction cs)
  case (Cons c cs)
  then show ?case by (simp add: is_chain_Cons assms(2))
qed simp

lemma chain_frame:
  assumes "changes_only E D fs fs'" "fat_geom fs" "set cs \<inter> E = {}" "is_chain fs cs"
  shows "is_chain fs' cs"
proof -
  have "is_chain fs' cs = is_chain fs cs"
    using assms changes_only_entry [OF assms(1,2)] chain_valid [OF assms(4)]
    by (intro chain_cong) (auto simp: same_volume_addr [OF changes_only_same [OF assms(1)]])
  then show ?thesis using assms(4) by simp
qed

text \<open>A chain grows by linking its last cluster to a new end.\<close>

lemma chain_snoc:
  assumes "is_chain fs cs" "distinct cs" "fat_entry fs' (last cs) = n" "valid_cluster fs' n"
    "isEndOfChain (fat_entry fs' n)" "\<And>c. valid_cluster fs' c = valid_cluster fs c"
    "\<And>c. c \<in> set cs \<Longrightarrow> c \<noteq> last cs \<Longrightarrow> fat_entry fs' c = fat_entry fs c"
  shows "is_chain fs' (cs @ [n])"
  using assms(1,2,3,7)
proof (induction cs)
  case (Cons c cs)
  show ?case
  proof (cases "cs = []")
    case True
    then show ?thesis using Cons.prems assms(4-6) by simp
  next
    case False
    then have "c \<noteq> last cs" using Cons.prems(2) by auto
    then have "fat_entry fs' c = fat_entry fs c" using Cons.prems(4) False by simp
    moreover have "is_chain fs' (cs @ [n])"
      using Cons False by (intro Cons.IH) (auto simp: is_chain_Cons)
    ultimately show ?thesis using Cons.prems(1) False assms(6) by (simp add: is_chain_Cons)
  qed
qed simp

section \<open>Releasing a chain\<close>

text \<open>One turn of the loop after a successful write.\<close>

definition note_freed :: "fat32 \<Rightarrow> fat32" where
  "note_freed fs = (let i = f_info fs in
     if freeClusterCount i \<noteq> 0xFFFFFFFF then fs\<lparr>f_info := i\<lparr>freeClusterCount := freeClusterCount i + 1\<rparr>\<rparr> else fs)"

lemma note_freed_effect: "disk_ok (f_disk fs) \<Longrightarrow> changes_only {} {} fs (note_freed fs)"
  by (auto simp: note_freed_def Let_def intro!: changes_only_info intro: changes_only_refl)

lemma note_freed_entry: "fat_entry (note_freed fs) c = fat_entry fs c" "f_disk (note_freed fs) = f_disk fs"
    "f_bpb (note_freed fs) = f_bpb fs" "same_volume fs (note_freed fs)"
  by (auto simp: note_freed_def Let_def fat_entry_def table_sector_def entry_sector_def entry_offset_def same_volume_def)

lemma free_walk_step:
  "free_walk (Suc n) current fs =
     (if \<not> (2 \<le> current \<and> \<not> isEndOfChain current) then Some (True, snd (fat_syncFSInfo fs))
      else case fat_readFATEntry current fs of
          None \<Rightarrow> Some (False, fs)
        | Some next \<Rightarrow>
            case fat_writeFATEntry current FreeCluster fs of (ok, fs) \<Rightarrow>
              if \<not> ok then Some (False, fs)
              else if next = BadCluster \<or> next = FreeCluster then Some (True, snd (fat_syncFSInfo (note_freed fs)))
              else free_walk n next (note_freed fs))"
  unfolding free_walk.simps Let_def note_freed_def ..

lemma sync_changes: "fat_geom fs \<Longrightarrow> changes_only {} {} fs (snd (fat_syncFSInfo fs))"
  using syncFSInfo_effect(1) [of fs "fst (fat_syncFSInfo fs)" "snd (fat_syncFSInfo fs)"] by simp

lemma free_walk_chain:
  assumes "fat_healthy fs" "is_chain fs (c # cs)" "length cs + 1 < n"
  shows "\<exists>fs'. free_walk n c fs = Some (True, fs') \<and> changes_only (set (c # cs)) {} fs fs' \<and>
     (\<forall>d \<in> set (c # cs). fat_entry fs' d = FreeCluster)"
  using assms
proof (induction cs arbitrary: c fs n)
  case Nil
  then obtain m where n: "n = Suc (Suc m)" by (metis Suc_eq_plus1 add_0 less_imp_Suc_add list.size(3) plus_nat.simps(2))
  have g: "fat_geom fs" using Nil.prems(1) by (simp add: fat_healthy_def)
  have v: "valid_cluster fs c" and e: "isEndOfChain (fat_entry fs c)" using Nil.prems(2) by simp_all
  obtain fs1 where w: "fat_writeFATEntry c FreeCluster fs = (True, fs1)"
    using healthy_writeFATEntry [OF Nil.prems(1) v] by (metis prod.collapse)
  note ef = writeFATEntry_effect [OF w g v]
  have g1: "fat_geom fs1" by (rule changes_only_geom [OF ef(1) g])
  note nf = note_freed_effect [OF fat_geom_first [OF g1, THEN conjunct2, THEN conjunct2]]
  have g2: "fat_geom (note_freed fs1)" by (rule changes_only_geom [OF nf g1])
  let ?fs' = "snd (fat_syncFSInfo (note_freed fs1))"
  have "free_walk n c fs = Some (True, ?fs')"
    unfolding n free_walk_step [of "Suc m"]
    using valid_cluster_value [OF g v] healthy_readFATEntry [OF Nil.prems(1) v] w e
      end_of_chain_value [OF e] by (simp add: free_walk_step)
  moreover have ch: "changes_only {} {} fs1 ?fs'"
    using changes_only_trans [OF nf sync_changes [OF g2]] by simp
  moreover have "valid_cluster fs1 c" using same_volume_addr(6) [OF changes_only_same [OF ef(1)]] v by simp
  moreover from changes_only_entry [OF ch g1 this] have "fat_entry ?fs' c = FreeCluster"
    using ef(4) by (simp add: FreeCluster_def)
  ultimately show ?case using changes_only_trans [OF ef(1) ch, of "{c}" "{}"] by auto
next
  case (Cons d ds)
  then obtain m where n: "n = Suc m" "length ds + 1 < m" by (cases n) auto
  have g: "fat_geom fs" using Cons.prems(1) by (simp add: fat_healthy_def)
  have v: "valid_cluster fs c" and e: "fat_entry fs c = d" and tl: "is_chain fs (d # ds)"
    using Cons.prems(2) by simp_all
  have dn: "c \<notin> set (d # ds)" using chain_distinct [OF g Cons.prems(2)] by simp
  obtain fs1 where w: "fat_writeFATEntry c FreeCluster fs = (True, fs1)"
    using healthy_writeFATEntry [OF Cons.prems(1) v] by (metis prod.collapse)
  note ef = writeFATEntry_effect [OF w g v]
  have g1: "fat_geom fs1" by (rule changes_only_geom [OF ef(1) g])
  note nf = note_freed_effect [OF fat_geom_first [OF g1, THEN conjunct2, THEN conjunct2]]
  let ?fs2 = "note_freed fs1"
  have c2: "changes_only {c} {} fs ?fs2" using changes_only_trans [OF ef(1) nf] by simp
  have h2: "fat_healthy ?fs2" by (rule changes_only_healthy [OF c2 Cons.prems(1)])
  then have g2: "fat_geom ?fs2" by (simp add: fat_healthy_def)
  have "is_chain ?fs2 (d # ds)" by (rule chain_frame [OF c2 g _ tl]) (use dn in auto)
  from Cons.IH [OF h2 this n(2)] obtain fs' where r: "free_walk m d ?fs2 = Some (True, fs')"
    "changes_only (set (d # ds)) {} ?fs2 fs'" "\<forall>x \<in> set (d # ds). fat_entry fs' x = FreeCluster"
    by blast
  have dv: "valid_cluster fs d" using chain_valid [OF tl] by simp
  have "free_walk n c fs = Some (True, fs')"
    unfolding n free_walk_step
    using valid_cluster_value [OF g v] valid_cluster_value [OF g dv] healthy_readFATEntry [OF Cons.prems(1) v] w e r(1)
    by simp
  moreover have "changes_only (set (c # d # ds)) {} fs fs'"
    by (rule changes_only_trans [OF c2 r(2)]) auto
  moreover have "fat_entry fs' c = FreeCluster"
  proof -
    have "valid_cluster ?fs2 c" using same_volume_addr(6) [OF changes_only_same [OF c2]] v by simp
    from changes_only_entry [OF r(2) g2 this dn] show ?thesis
      using ef(4) by (simp add: FreeCluster_def note_freed_entry(1))
  qed
  ultimately show ?case using r(3) by auto
qed

section \<open>Releasing always ends\<close>

text \<open>
  Whatever the table holds, corrupt or cyclic: a release turns the entry of each cluster it visits to
  0, never makes one non-zero, and stops at an entry that is 0.
\<close>

lemma write_zero_step:
  assumes w: "fat_writeSectors a 1 (put_bytes (entry_offset c fs) (bytes32 ((get32 sector (entry_offset c fs)
      AND 0xF0000000) OR (0 AND 0x0FFFFFFF))) sector) fs = (ok, fs')"
    and r: "fat_readSectors a 1 fs = Some sector" and dk: "disk_ok (f_disk fs)" "bytesPerSector (f_bpb fs) = 512"
  shows "same_volume fs fs'" "disk_ok (f_disk fs')" "fat_entry fs' x = fat_entry fs x \<or> fat_entry fs' x = 0"
    "ok \<Longrightarrow> a = table_sector fs c \<Longrightarrow> fat_entry fs' c = 0"
proof -
  define raw where "raw = (get32 sector (entry_offset c fs) AND 0xF0000000) OR (0 AND (0x0FFFFFFF :: u32))"
  have s: "sector = m_sector (f_disk fs) a"
    using r by (auto simp: fat_readSectors_def dest: disk.read_one split: if_splits)
  then have l: "length sector = 512" using dk by (simp add: disk_ok_def)
  note off = entry_offset_fits [OF dk(2)]
  let ?buf = "put_bytes (entry_offset c fs) (bytes32 raw) sector"
  have lb: "length ?buf = 512" using off l by (simp add: length_put_bytes)
  note e = fat_write_one [OF w [folded raw_def] dk(1) lb]
  then show sv: "same_volume fs fs'" and "disk_ok (f_disk fs')" by simp_all
  note ad = same_volume_addr [OF sv]
  have zero: "get32 ?buf (entry_offset c fs) AND 0x0FFFFFFF = 0"
  proof -
    have "raw AND 0x0FFFFFFF = 0" unfolding raw_def mask28 by simp
    then show ?thesis using get32_put_same [of "entry_offset c fs" sector raw] off l by simp
  qed
  show "ok \<Longrightarrow> a = table_sector fs c \<Longrightarrow> fat_entry fs' c = 0"
    using e zero by (simp add: fat_entry_def ad)
  show "fat_entry fs' x = fat_entry fs x \<or> fat_entry fs' x = 0"
  proof (cases "ok \<and> table_sector fs x = a")
    case False
    then have "m_sector (f_disk fs') (table_sector fs x) = m_sector (f_disk fs) (table_sector fs x)"
      using e fat_write_one_failed w by (cases ok) auto
    then show ?thesis by (simp add: fat_entry_def ad)
  next
    case True
    show ?thesis
    proof (cases "entry_offset x fs = entry_offset c fs")
      case True
      then show ?thesis using \<open>ok \<and> _\<close> e zero by (simp add: fat_entry_def ad)
    next
      case False
      have "get32 ?buf (entry_offset x fs) = get32 sector (entry_offset x fs)"
      proof (rule get32_put_other)
        have "entry_offset c fs mod 4 = 0" "entry_offset x fs mod 4 = 0"
          using off entry_offset_fits [OF dk(2), of x] by simp_all
        then show "entry_offset c fs + 4 \<le> entry_offset x fs \<or> entry_offset x fs + 4 \<le> entry_offset c fs"
          using False by presburger
      qed (use off entry_offset_fits [OF dk(2), of x] l in simp_all)
      then show ?thesis using True e s by (simp add: fat_entry_def ad)
    qed
  qed
qed

lemma write_zero:
  assumes "write_tables n t c 0 fs = (ok, fs')" "disk_ok (f_disk fs)" "bytesPerSector (f_bpb fs) = 512"
  shows "same_volume fs fs' \<and> disk_ok (f_disk fs') \<and> (\<forall>x. fat_entry fs' x = fat_entry fs x \<or> fat_entry fs' x = 0) \<and>
     (ok \<longrightarrow> 0 < n \<longrightarrow> t = 0 \<longrightarrow> fat_entry fs' c = 0)"
  using assms
proof (induction n arbitrary: t fs ok fs')
  case (Suc n)
  define a where "a = (ucast (f_firstSector fs + ucast t * tableSize32 (f_bpb fs) + entry_sector c fs) :: u64)"
  show ?case
  proof (cases "fat_readSectors a 1 fs")
    case None
    then show ?thesis using Suc.prems by (simp add: a_def Let_def)
  next
    case (Some sector)
    obtain ok1 fs1 where w: "fat_writeSectors a 1 (put_bytes (entry_offset c fs) (bytes32 ((get32 sector (entry_offset c fs)
      AND 0xF0000000) OR (0 AND 0x0FFFFFFF))) sector) fs = (ok1, fs1)"
      by fastforce
    note st = write_zero_step [OF w Some Suc.prems(2,3)]
    have a: "t = 0 \<Longrightarrow> a = table_sector fs c" by (simp add: a_def table_sector_def)
    have run: "(if \<not> ok1 then (False, fs1) else write_tables n (t + 1) c 0 fs1) = (ok, fs')"
      using Suc.prems(1) Some w by (simp add: a_def [symmetric] Let_def)
    show ?thesis
    proof (cases ok1)
      case False
      then show ?thesis using run st(1-3) by auto
    next
      case True
      then have r: "write_tables n (t + 1) c 0 fs1 = (ok, fs')" using run by simp
      have "bytesPerSector (f_bpb fs1) = 512" using Suc.prems(3) same_volumeD [OF st(1)] by simp
      note IH = Suc.IH [OF r st(2) this]
      then have "fat_entry fs' x = fat_entry fs x \<or> fat_entry fs' x = 0" for x
        using st(3) [of x] by metis
      moreover have "fat_entry fs' c = 0" if "t = 0"
        using IH st(4) [OF True a [OF that]] by metis
      ultimately show ?thesis using IH same_volume_trans [OF st(1)] by blast
    qed
  qed
qed simp

definition used_entries :: "fat32 \<Rightarrow> u32 set" where
  "used_entries fs = {x. unat x < 2 ^ 28 \<and> fat_entry fs x \<noteq> 0}"

lemma used_entries_card: "finite (used_entries fs)" "card (used_entries fs) \<le> 2 ^ 28"
proof -
  have "card {x :: u32. 0 \<le> unat x \<and> unat x < 2 ^ 28} = 2 ^ 28 - 0"
    by (rule card_word_interval) simp
  then show "finite (used_entries fs)" "card (used_entries fs) \<le> 2 ^ 28"
    using card_mono [of "{x :: u32. 0 \<le> unat x \<and> unat x < 2 ^ 28}" "used_entries fs"]
    by (auto simp: used_entries_def)
qed

lemma free_walk_ends:
  assumes "disk_ok (f_disk fs)" "bytesPerSector (f_bpb fs) = 512" "tableCount (f_bpb fs) \<noteq> 0"
    "card (used_entries fs) < n"
  shows "free_walk n c fs \<noteq> None"
  using assms
proof (induction n arbitrary: c fs)
  case (Suc n)
  show ?case
  proof (cases "2 \<le> c \<and> \<not> isEndOfChain c")
    case False
    then show ?thesis by (simp only: free_walk_step) simp
  next
    case go: True
    show ?thesis
    proof (cases "fat_readFATEntry c fs")
      case None
      then show ?thesis using go by (simp only: free_walk_step) simp
    next
      case (Some nxt)
      then have nx: "nxt = fat_entry fs c" by (rule readFATEntry_value)
      obtain ok fs1 where w: "fat_writeFATEntry c FreeCluster fs = (ok, fs1)" by fastforce
      show ?thesis
      proof (cases "ok \<and> nxt \<noteq> BadCluster \<and> nxt \<noteq> FreeCluster")
        case False
        then show ?thesis using go Some w by (simp only: free_walk_step) auto
      next
        case True
        have wt: "write_tables (unat (tableCount (f_bpb fs))) 0 c 0 fs = (ok, fs1)"
          using w by (simp add: fat_writeFATEntry_def FreeCluster_def)
        note e = write_zero [OF wt Suc.prems(1,2)]
        have "0 < unat (tableCount (f_bpb fs))" using Suc.prems(3) by (simp add: unat_gt_0)
        then have z: "fat_entry fs1 c = 0" using e True by simp
        have "unat c < 2 ^ 28" using go by (simp add: isEndOfChain_def not_le word_less_unat)
        then have "c \<in> used_entries fs"
          using True nx by (simp add: used_entries_def FreeCluster_def)
        moreover have "used_entries (note_freed fs1) \<subseteq> used_entries fs"
        proof
          fix x assume "x \<in> used_entries (note_freed fs1)"
          then have "unat x < 2 ^ 28" "fat_entry fs1 x \<noteq> 0" by (simp_all add: used_entries_def note_freed_entry)
          moreover have "fat_entry fs1 x = fat_entry fs x \<or> fat_entry fs1 x = 0" using e by simp
          ultimately show "x \<in> used_entries fs" by (simp add: used_entries_def)
        qed
        moreover have "c \<notin> used_entries (note_freed fs1)" using z by (simp add: used_entries_def note_freed_entry)
        ultimately have "card (used_entries (note_freed fs1)) < card (used_entries fs)"
          by (intro psubset_card_mono used_entries_card) auto
        then have "free_walk n nxt (note_freed fs1) \<noteq> None"
          using Suc.prems e same_volumeD [of fs fs1] by (intro Suc.IH) (simp_all add: note_freed_entry)
        then show ?thesis using go Some w True by (simp only: free_walk_step) simp
      qed
    qed
  qed
qed simp

section \<open>Walking to the end\<close>

lemma last_cluster_chain:
  assumes "fat_healthy fs" "is_chain fs (c # cs)" "length cs < n"
  shows "last_cluster n c fs = Some (Some (last (c # cs)))"
  using assms(2,3)
proof (induction cs arbitrary: c n)
  case Nil
  then show ?case
    using healthy_readFATEntry [OF assms(1)] by (cases n) auto
next
  case (Cons d ds)
  have g: "fat_geom fs" using assms(1) by (simp add: fat_healthy_def)
  have v: "valid_cluster fs c" "fat_entry fs c = d" "is_chain fs (d # ds)" "valid_cluster fs d"
    using Cons.prems(1) chain_valid [of fs "d # ds" d] by simp_all
  obtain m where n: "n = Suc m" "length ds < m" using Cons.prems(2) by (cases n) auto
  then show ?case
    using healthy_readFATEntry [OF assms(1) v(1)] v(2) valid_cluster_value [OF g v(4)] Cons.IH [OF v(3) n(2)] by simp
qed

text \<open>A walk that has not ended within the fuel never does.\<close>

definition walk_on :: "fat32 \<Rightarrow> u32 \<Rightarrow> bool" where
  "walk_on fs c \<longleftrightarrow> (\<exists>v. fat_readFATEntry c fs = Some v \<and> \<not> isEndOfChain v \<and> v \<noteq> FreeCluster \<and> v \<noteq> BadCluster)"

lemma last_cluster_walk:
  "last_cluster (Suc n) c fs = None \<longleftrightarrow> walk_on fs c \<and> last_cluster n (fat_entry fs c) fs = None"
  using readFATEntry_value [of c fs] by (auto simp: walk_on_def split: option.splits)

declare last_cluster.simps [simp del]

lemma last_cluster_None:
  "last_cluster n c fs = None \<longleftrightarrow> (\<forall>i<n. walk_on fs ((fat_entry fs ^^ i) c))"
proof (induction n arbitrary: c)
  case (Suc n)
  have "(\<forall>i<Suc n. walk_on fs ((fat_entry fs ^^ i) c)) \<longleftrightarrow>
      walk_on fs c \<and> (\<forall>i<n. walk_on fs ((fat_entry fs ^^ i) (fat_entry fs c)))"
    by (auto simp: less_Suc_eq_0_disj funpow_Suc_right simp del: funpow.simps(2))
  then show ?case unfolding last_cluster_walk Suc.IH by simp
qed (simp add: last_cluster.simps)

lemma orbit_cycle:
  fixes f :: "'a \<Rightarrow> 'a"
  assumes "(f ^^ i) c = (f ^^ j) c" "i < j" "\<And>k. k < j \<Longrightarrow> P ((f ^^ k) c)"
  shows "P ((f ^^ k) c)"
proof (induction k rule: less_induct)
  case (less k)
  show ?case
  proof (cases "k < j")
    case False
    then have "(f ^^ k) c = (f ^^ (k - j)) ((f ^^ j) c)"
      by (simp flip: funpow_add [THEN fun_cong, unfolded o_apply])
    also have "\<dots> = (f ^^ (k - j + i)) c"
      unfolding assms(1) [symmetric] by (simp add: funpow_add)
    finally show ?thesis using less [of "k - j + i"] False assms(2) by simp
  qed (rule assms(3))
qed

lemma last_cluster_fuel:
  assumes "last_cluster (chain_fuel + 1) c fs = None"
  shows "last_cluster n c fs = None"
proof -
  let ?f = "\<lambda>i. (fat_entry fs ^^ i) c" and ?W = "{x :: u32. unat x < 0x0FFFFFF7}"
  have on: "walk_on fs (?f i)" if "i \<le> chain_fuel" for i
    using assms that unfolding last_cluster_None by simp
  have mem: "?f (Suc i) \<in> ?W" if "i \<le> chain_fuel" for i
  proof -
    note w = on [OF that]
    obtain v where v: "fat_readFATEntry (?f i) fs = Some v" "\<not> isEndOfChain v" "v \<noteq> BadCluster"
      using w unfolding walk_on_def by metis
    then have "v = ?f (Suc i)" using readFATEntry_value by simp
    moreover have "unat v \<noteq> 0x0FFFFFF7"
      using v(3) unat_eqI [of v BadCluster] by (auto simp: BadCluster_def)
    ultimately show ?thesis using v(2) by (simp add: isEndOfChain_def not_le word_less_unat)
  qed
  have "card ?W = 0x0FFFFFF7"
    using card_word_interval [of "0x0FFFFFF7" 0, where 'a = 32] by simp
  moreover have "(\<lambda>i. ?f (Suc i)) ` {..chain_fuel} \<subseteq> ?W" using mem by auto
  ultimately have "\<not> inj_on (\<lambda>i. ?f (Suc i)) {..chain_fuel}"
    using card_inj_on_le [of "\<lambda>i. ?f (Suc i)" "{..chain_fuel}" ?W] by (auto simp: chain_fuel_def)
  then obtain i j where ij: "i < j" "j \<le> chain_fuel" "?f (Suc i) = ?f (Suc j)"
    unfolding inj_on_def by (metis atMost_iff linorder_neqE_nat)
  have "walk_on fs (?f k)" for k
  proof (cases k)
    case 0
    then show ?thesis using on [of 0] by simp
  next
    case (Suc m)
    have "walk_on fs ((fat_entry fs ^^ m) (fat_entry fs c))"
    proof (rule orbit_cycle [of i "fat_entry fs" "fat_entry fs c" j])
      show "(fat_entry fs ^^ i) (fat_entry fs c) = (fat_entry fs ^^ j) (fat_entry fs c)"
        using ij(3) by (simp add: funpow_Suc_right del: funpow.simps(2))
      show "walk_on fs ((fat_entry fs ^^ k) (fat_entry fs c))" if "k < j" for k
        using on [of "Suc k"] that ij(2) by (simp add: funpow_Suc_right del: funpow.simps(2))
    qed (rule ij(1))
    then show ?thesis using Suc by (simp add: funpow_Suc_right del: funpow.simps(2))
  qed
  then show ?thesis unfolding last_cluster_None by simp
qed

section \<open>Extending\<close>

lemma extend_effect:
  assumes h: "fat_healthy fs" and ch: "is_chain fs cs"
  shows "\<exists>r fs'. fat_extendClusterChain (hd cs) fs = Some (r, fs') \<and>
    (case r of
       None \<Rightarrow> fs' = fs \<and> free_clusters fs = {}
     | Some n \<Rightarrow> n \<in> free_clusters fs \<and> is_chain fs' (cs @ [n]) \<and>
         changes_only {last cs, n} {n} fs fs' \<and> cluster_data fs' n = replicate (unat (fat_clusterSize fs)) 0)"
proof -
  obtain c ds where cs: "cs = c # ds" using ch by (cases cs) auto
  have g: "fat_geom fs" using h by (simp add: fat_healthy_def)
  have v: "valid_cluster fs c" "valid_cluster fs (last cs)" using chain_valid [OF ch] cs by simp_all
  have d: "distinct cs" by (rule chain_distinct [OF g ch])
  have "length ds < chain_fuel + 1"
    using chain_length [OF g ch] g cs by (simp add: chain_fuel_def fat_geom_def)
  then have l: "last_cluster (chain_fuel + 1) c fs = Some (Some (last cs))"
    by (metis cs ch h last_cluster_chain)
  obtain r1 fs1 where a: "fat_allocateCluster fs = (r1, fs1)" by fastforce
  note e = allocateCluster_effect [OF a g]
  show ?thesis
  proof (cases r1)
    case None
    then show ?thesis
      using e h l a cs valid_ge2 [OF v(1)] by (simp add: fat_extendClusterChain_def)
  next
    case (Some n)
    have n: "n \<in> free_clusters fs" "changes_only {n} {n} fs fs1" "fat_entry fs1 n = 0x0FFFFFFF"
      "cluster_data fs1 n = replicate (unat (fat_clusterSize fs)) 0"
      using e Some by simp_all
    have nc: "n \<notin> set cs" using chain_not_free [OF g ch] n(1) by auto
    have h1: "fat_healthy fs1" by (rule changes_only_healthy [OF n(2) h])
    then have g1: "fat_geom fs1" by (simp add: fat_healthy_def)
    note v1 = same_volume_addr(6) [OF changes_only_same [OF n(2)]]
    have vl: "valid_cluster fs1 (last cs)" "valid_cluster fs1 n"
      using v(2) n(1) v1 by (simp_all add: free_clusters_def)
    obtain fs2 where w: "fat_writeFATEntry (last cs) n fs1 = (True, fs2)"
      using healthy_writeFATEntry [OF h1 vl(1)] by (metis prod.collapse)
    note e2 = writeFATEntry_effect [OF w g1 vl(1)]
    note v2 = same_volume_addr(6) [OF changes_only_same [OF e2(1)]]
    have ln: "last cs \<noteq> n" using nc cs by (metis last_in_set list.discI)
    have "fat_extendClusterChain (hd cs) fs = Some (Some n, fs2)"
      using l a Some w cs valid_ge2 [OF v(1)] by (simp add: fat_extendClusterChain_def)
    moreover have "is_chain fs2 (cs @ [n])"
    proof (rule chain_snoc [OF ch d])
      show "fat_entry fs2 (last cs) = n" using e2(4) valid_cluster_value(5) [OF g1 vl(2)] by simp
      show "valid_cluster fs2 n" using vl v2 by simp
      have "fat_entry fs2 n = fat_entry fs1 n"
        by (rule changes_only_entry [OF e2(1) g1 vl(2)]) (use ln in simp)
      then show "isEndOfChain (fat_entry fs2 n)" using n(3) by (simp add: isEndOfChain_def)
      show "valid_cluster fs2 x = valid_cluster fs x" for x using v1 v2 by simp
      show "fat_entry fs2 x = fat_entry fs x" if x: "x \<in> set cs" "x \<noteq> last cs" for x
      proof -
        have vx: "valid_cluster fs x" by (rule chain_valid [OF ch x(1)])
        then have "fat_entry fs2 x = fat_entry fs1 x"
          using changes_only_entry [OF e2(1) g1, of x] x(2) v1 by simp
        also have "\<dots> = fat_entry fs x"
          using changes_only_entry [OF n(2) g vx] x(1) nc by auto
        finally show ?thesis .
      qed
    qed
    moreover have "changes_only {last cs, n} {n} fs fs2"
      by (rule changes_only_trans [OF n(2) e2(1)]) auto
    moreover have "cluster_data fs2 n = replicate (unat (fat_clusterSize fs)) 0"
      using changes_only_data [OF e2(1) vl(2)] n(4) by simp
    ultimately show ?thesis using n(1) by auto
  qed
qed

section \<open>Walking to an offset\<close>

lemma offset_walk_step:
  assumes "fat_healthy fs" "is_chain fs cs" "Suc i < length cs"
  shows "offset_walk (Suc k) f (cs ! i) allocate fs = offset_walk k f (cs ! Suc i) allocate fs"
proof -
  have g: "fat_geom fs" using assms(1) by (simp add: fat_healthy_def)
  have v: "valid_cluster fs (cs ! i)" "valid_cluster fs (cs ! Suc i)"
    using chain_valid [OF assms(2)] assms(3) by simp_all
  have "is_chain fs (drop i cs)"
    using chain_tail [of fs "take i cs" "drop i cs"] assms(2,3) by simp
  moreover have "drop i cs = cs ! i # cs ! Suc i # drop (Suc (Suc i)) cs"
    using assms(3) by (simp add: Cons_nth_drop_Suc)
  ultimately have "fat_entry fs (cs ! i) = cs ! Suc i" by simp
  then show ?thesis
    using healthy_readFATEntry [OF assms(1) v(1)] valid_cluster_value [OF g v(2)] by simp
qed

lemma chain_last_entry: "is_chain fs cs \<Longrightarrow> isEndOfChain (fat_entry fs (last cs))"
  by (induction fs cs rule: is_chain.induct) auto

lemma offset_walk_inside:
  assumes "fat_healthy fs" "is_chain fs cs"
  shows "i + k < length cs \<Longrightarrow> offset_walk k f (cs ! i) allocate fs = Some (Some (cs ! (i + k)), fs)"
    and "i < length cs \<Longrightarrow> length cs \<le> i + k \<Longrightarrow> offset_walk k f (cs ! i) False fs = Some (None, fs)"
proof (induction k arbitrary: i)
  case (Suc k)
  {
    case 1
    then show ?case using offset_walk_step [OF assms, of i] Suc.IH(1) [of "Suc i"] by simp
  next
    case 2
    show ?case
    proof (cases "Suc i < length cs")
      case True
      then show ?thesis using 2 offset_walk_step [OF assms, of i] Suc.IH(2) [of "Suc i"] by simp
    next
      case False
      then have "length cs - 1 = i" using 2(1) by simp
      then have "cs ! i = last cs" using 2(1) by (metis last_conv_nth list.size(3) not_less_zero)
      then show ?thesis
        using chain_last_entry [OF assms(2)] healthy_readFATEntry [OF assms(1)] chain_valid [OF assms(2), of "last cs"]
          2(1) by (cases cs) auto
    qed
  }
qed simp_all

text \<open>With allocation: each missing cluster is appended, until the disk is full.\<close>

lemma offset_walk_grow:
  assumes "fat_healthy fs" "is_chain fs cs" "i < length cs"
  shows "\<exists>r fs' new. offset_walk k (hd cs) (cs ! i) True fs = Some (r, fs') \<and> is_chain fs' (cs @ new) \<and>
    set new \<subseteq> free_clusters fs \<and> changes_only (insert (last cs) (set new)) (set new) fs fs' \<and>
    (\<forall>n \<in> set new. cluster_data fs' n = replicate (unat (fat_clusterSize fs)) 0) \<and>
    (if i + k < length cs + length new then length new = Suc (i + k) - length cs \<and> r = Some ((cs @ new) ! (i + k))
     else r = None \<and> free_clusters fs' = {})"
  using assms
proof (induction k arbitrary: i fs cs)
  case 0
  have "disk_ok (f_disk fs)" using 0 by (simp add: fat_healthy_def disk_healthy_def)
  then show ?case
    using 0 by (intro exI [of _ "Some (cs ! i)"] exI [of _ fs] exI [of _ "[]"]) (auto intro: changes_only_refl)
next
  case (Suc k)
  have g: "fat_geom fs" using Suc.prems(1) by (simp add: fat_healthy_def)
  have dk: "disk_ok (f_disk fs)" using g by (simp add: fat_geom_def)
  show ?case
  proof (cases "Suc i < length cs")
    case True
    then show ?thesis
      using Suc.IH [OF Suc.prems(1,2) True]
      unfolding offset_walk_step [OF Suc.prems(1,2) True] by (simp only: add_Suc add_Suc_right)
  next
    case False
    then have i: "length cs = Suc i" using Suc.prems(3) by simp
    then have li: "cs ! i = last cs" by (metis diff_Suc_1 last_conv_nth list.size(3) nat.distinct(1))
    have ne: "cs \<noteq> []" using i by auto
    have v: "valid_cluster fs (last cs)" using chain_valid [OF Suc.prems(2)] ne by simp
    note rd = healthy_readFATEntry [OF Suc.prems(1) v]
    note eoc = chain_last_entry [OF Suc.prems(2)]
    obtain r fs1 where x: "fat_extendClusterChain (hd cs) fs = Some (r, fs1)"
      and e: "case r of None \<Rightarrow> fs1 = fs \<and> free_clusters fs = {}
         | Some n \<Rightarrow> n \<in> free_clusters fs \<and> is_chain fs1 (cs @ [n]) \<and>
           changes_only {last cs, n} {n} fs fs1 \<and> cluster_data fs1 n = replicate (unat (fat_clusterSize fs)) 0"
      using extend_effect [OF Suc.prems(1,2)] by blast
    show ?thesis
    proof (cases r)
      case None
      then have "offset_walk (Suc k) (hd cs) (cs ! i) True fs = Some (None, fs)"
        using x e rd eoc li by simp
      then show ?thesis
        using None e i Suc.prems(2) changes_only_refl [OF dk]
        by (intro exI [of _ None] exI [of _ fs] exI [of _ "[]"]) auto
    next
      case (Some n)
      have n: "n \<in> free_clusters fs" "is_chain fs1 (cs @ [n])" "changes_only {last cs, n} {n} fs fs1"
        "cluster_data fs1 n = replicate (unat (fat_clusterSize fs)) 0"
        using e Some by simp_all
      have h1: "fat_healthy fs1" by (rule changes_only_healthy [OF n(3) Suc.prems(1)])
      have g1: "fat_geom fs1" using h1 by (simp add: fat_healthy_def)
      have vn: "valid_cluster fs n" using n(1) by (simp add: free_clusters_def)
      have step: "offset_walk (Suc k) (hd cs) (cs ! i) True fs = offset_walk k (hd (cs @ [n])) ((cs @ [n]) ! Suc i) True fs1"
        using x Some rd eoc li valid_cluster_value [OF g vn] i ne by (simp add: nth_append)
      have "Suc i < length (cs @ [n])" using i by simp
      from Suc.IH [OF h1 n(2) this] obtain r' fs' new where r': "offset_walk k (hd (cs @ [n])) ((cs @ [n]) ! Suc i) True fs1 = Some (r', fs')"
        "is_chain fs' ((cs @ [n]) @ new)" "set new \<subseteq> free_clusters fs1"
        "changes_only (insert (last (cs @ [n])) (set new)) (set new) fs1 fs'"
        "\<forall>m \<in> set new. cluster_data fs' m = replicate (unat (fat_clusterSize fs1)) 0"
        "if Suc i + k < length (cs @ [n]) + length new then length new = Suc (Suc i + k) - length (cs @ [n]) \<and>
           r' = Some (((cs @ [n]) @ new) ! (Suc i + k)) else r' = None \<and> free_clusters fs' = {}"
        by blast
      have sv: "\<And>c. valid_cluster fs1 c = valid_cluster fs c" "fat_clusterSize fs1 = fat_clusterSize fs"
        using same_volume_addr [OF changes_only_same [OF n(3)]] by simp_all
      have nn: "n \<notin> set new" using chain_not_free [OF g1 n(2)] r'(3) by auto
      have "set new \<subseteq> free_clusters fs"
      proof
        fix m assume m: "m \<in> set new"
        then have mv: "valid_cluster fs m" "fat_entry fs1 m = FreeCluster" using r'(3) sv by (auto simp: free_clusters_def)
        have "m \<notin> set (cs @ [n])" using chain_not_free [OF g1 n(2)] r'(3) m by blast
        then have "m \<notin> {last cs, n}" using ne by auto
        then show "m \<in> free_clusters fs"
          using changes_only_entry [OF n(3) g mv(1)] mv by (simp add: free_clusters_def)
      qed
      moreover have "changes_only (insert (last cs) (set (n # new))) (set (n # new)) fs fs'"
        by (rule changes_only_trans [OF n(3) r'(4)]) auto
      moreover have "cluster_data fs' n = replicate (unat (fat_clusterSize fs)) 0"
        using changes_only_data [OF r'(4), of n] nn n(4) vn sv by simp
      moreover have "is_chain fs' (cs @ n # new)" using r'(2) by simp
      moreover have "if i + Suc k < length cs + length (n # new)
          then length (n # new) = Suc (i + Suc k) - length cs \<and> r' = Some ((cs @ n # new) ! (i + Suc k))
          else r' = None \<and> free_clusters fs' = {}"
        using r'(6) i by (simp split: if_splits)
      ultimately show ?thesis
        using r'(5) n(1) step [unfolded r'(1)] sv(2)
        by (intro exI [of _ r'] exI [of _ fs'] exI [of _ "n # new"] conjI) simp_all
    qed
  qed
qed

section \<open>Properties\<close>

text \<open>
  C9. Writing a table entry changes that entry, in every copy of the table and to the low 28 bits of
  the value, and nothing else: not the entry of another cluster in any copy, not the content of a cluster,
  not the boot sector.
\<close>

theorem fat_entry_write:
  assumes "fat_geom fs" "valid_cluster fs c" "fat_writeFATEntry c v fs = (True, fs')"
  shows "(\<forall>t d. unat t < unat (tableCount (f_bpb fs)) \<longrightarrow> valid_cluster fs d \<longrightarrow>
       fat_copy t fs' d = (if d = c then v AND 0x0FFFFFFF else fat_copy t fs d)) \<and>
    (\<forall>d. valid_cluster fs d \<longrightarrow> cluster_data fs' d = cluster_data fs d) \<and>
    m_sector (f_disk fs') 0 = m_sector (f_disk fs) 0"
  using writeFATEntry_effect(1,3) [OF assms(3,1,2)] by (auto simp: changes_only_def)

text \<open>
  C10. \<^verbatim>\<open>allocateCluster\<close> claims a free cluster, marks it as the end of a chain and zeroes
  it; other entries and contents stay. It fails only when no cluster is free or the disk refuses a transfer,
  and even then only free clusters have been touched.
\<close>

theorem fat_allocate_correct:
  assumes "fat_geom fs" "fat_allocateCluster fs = (r, fs')"
  shows "changes_only (free_clusters fs) (free_clusters fs) fs fs' \<and>
    (case r of
       None \<Rightarrow> fat_healthy fs \<longrightarrow> fs' = fs \<and> free_clusters fs = {}
     | Some c \<Rightarrow> c \<in> free_clusters fs \<and> changes_only {c} {c} fs fs' \<and> fat_entry fs' c = 0x0FFFFFFF \<and>
         cluster_data fs' c = replicate (unat (fat_clusterSize fs)) 0)"
  by (rule allocateCluster_effect [OF assms(2,1)])

lemma free_chain_effect:
  assumes "fat_healthy fs" "is_chain fs (c # cs)"
  shows "\<exists>fs'. fat_freeClusterChain c fs = Some (True, fs') \<and>
    free_clusters fs' = free_clusters fs \<union> set (c # cs) \<and> changes_only (set (c # cs)) {} fs fs' \<and>
    (\<forall>ds. is_chain fs ds \<longrightarrow> set ds \<inter> set (c # cs) = {} \<longrightarrow> is_chain fs' ds)"
proof -
  have g: "fat_geom fs" using assms(1) by (simp add: fat_healthy_def)
  have v: "\<not> c < 2" using chain_valid [OF assms(2), of c] valid_ge2 by simp
  have "length cs + 1 < chain_fuel + 1"
    using chain_length [OF g assms(2)] g by (simp add: chain_fuel_def fat_geom_def)
  from free_walk_chain [OF assms this] obtain fs' where r: "free_walk (chain_fuel + 1) c fs = Some (True, fs')"
    "changes_only (set (c # cs)) {} fs fs'" "\<forall>d \<in> set (c # cs). fat_entry fs' d = FreeCluster"
    by blast
  note va = same_volume_addr(6) [OF changes_only_same [OF r(2)]]
  have "x \<in> free_clusters fs' \<longleftrightarrow> x \<in> free_clusters fs \<union> set (c # cs)" for x
    using r(3) changes_only_entry [OF r(2) g, of x] chain_valid [OF assms(2), of x]
    by (cases "x \<in> set (c # cs)") (auto simp: free_clusters_def va)
  moreover have "fat_freeClusterChain c fs = Some (True, fs')"
    using r(1) v by (simp add: fat_freeClusterChain_def del: free_walk.simps)
  ultimately show ?thesis
    using r(2) chain_frame [OF r(2) g] by blast
qed

text \<open>
  C11. \<^verbatim>\<open>freeClusterChain\<close> on a healthy volume frees exactly the clusters of the chain
  that starts at its argument; every chain that shares no cluster with it is intact, with its contents.
\<close>

theorem fat_free_chain_correct:
  assumes "fat_healthy fs" "is_chain fs (c # cs)"
  shows "\<exists>fs'. fat_freeClusterChain c fs = Some (True, fs') \<and>
    free_clusters fs' = free_clusters fs \<union> set (c # cs) \<and> changes_only (set (c # cs)) {} fs fs' \<and>
    (\<forall>ds. is_chain fs ds \<longrightarrow> set ds \<inter> set (c # cs) = {} \<longrightarrow> is_chain fs' ds)"
  by (rule free_chain_effect [OF assms])

text \<open>
  C13. \<^verbatim>\<open>freeClusterChain\<close> ends on every table, cyclic and corrupt ones included, whatever
  transfers the disk refuses.
\<close>

theorem fat_free_terminates:
  assumes "disk_ok (f_disk fs)" "bytesPerSector (f_bpb fs) = 512" "tableCount (f_bpb fs) \<noteq> 0"
  shows "\<exists>ok fs'. fat_freeClusterChain c fs = Some (ok, fs')"
proof -
  have "card (used_entries fs) < chain_fuel + 1"
    using used_entries_card(2) [of fs] by (simp add: chain_fuel_def)
  from free_walk_ends [OF assms this, of c] show ?thesis
    by (auto simp: fat_freeClusterChain_def simp del: free_walk.simps)
qed

text \<open>
  C12. \<^verbatim>\<open>extendClusterChain\<close> on a healthy volume appends one free, zeroed cluster to the
  chain that starts at its argument, or reports that none is free; the contents of the chain and of every
  other cluster stay.
\<close>

theorem fat_extend_correct:
  assumes "fat_healthy fs" "is_chain fs cs"
  shows "\<exists>r fs'. fat_extendClusterChain (hd cs) fs = Some (r, fs') \<and>
    (case r of
       None \<Rightarrow> fs' = fs \<and> free_clusters fs = {}
     | Some n \<Rightarrow> n \<in> free_clusters fs \<and> is_chain fs' (cs @ [n]) \<and>
         changes_only {last cs, n} {n} fs fs' \<and> cluster_data fs' n = replicate (unat (fat_clusterSize fs)) 0)"
  by (rule extend_effect [OF assms])

text \<open>
  On a cyclic table \<^verbatim>\<open>extendClusterChain\<close> never returns: no number of turns of its
  loop ends it. A 28-bit table entry leads back into the cycle each time, and nothing counts the turns.
\<close>

theorem fat_extend_diverges:
  assumes "c \<in> C" "\<And>x. x \<in> C \<Longrightarrow> \<exists>y \<in> C. fat_readFATEntry x fs = Some y \<and> 2 \<le> x \<and> x < 0x0FFFFFF7"
  shows "fat_extendClusterChain c fs = None \<and> (\<forall>n. last_cluster n c fs = None)"
proof -
  have nx: "fat_entry fs x \<in> C \<and> walk_on fs x" if "x \<in> C" for x
  proof -
    note step = assms(2) [OF that]
    obtain y where y: "y \<in> C" "fat_readFATEntry x fs = Some y" using step by blast
    then have "2 \<le> y" "y < 0x0FFFFFF7" using assms(2) by auto
    then have "\<not> isEndOfChain y" "y \<noteq> FreeCluster" "y \<noteq> BadCluster"
      by (auto simp: isEndOfChain_def FreeCluster_def BadCluster_def word_le_unat word_less_unat)
    then show ?thesis using y readFATEntry_value [OF y(2)] by (simp add: walk_on_def)
  qed
  have "(fat_entry fs ^^ i) c \<in> C" for i
    by (induction i) (use assms(1) nx in simp_all)
  then have "last_cluster n c fs = None" for n unfolding last_cluster_None using nx by blast
  moreover have "\<not> c < 2" using assms(2) [OF assms(1)] by (auto simp: not_less)
  ultimately show ?thesis by (simp add: fat_extendClusterChain_def)
qed

lemma offset_effect:
  assumes "fat_healthy fs" "is_chain fs cs"
  shows "let i = unat offset div unat (fat_clusterSize fs) in
    (i < length cs \<longrightarrow> fat_getClusterForOffset (hd cs) offset allocate fs = Some (Some (cs ! i), fs)) \<and>
    (length cs \<le> i \<longrightarrow> fat_getClusterForOffset (hd cs) offset False fs = Some (None, fs)) \<and>
    (length cs \<le> i \<longrightarrow> (\<exists>r fs' new. fat_getClusterForOffset (hd cs) offset True fs = Some (r, fs') \<and>
       is_chain fs' (cs @ new) \<and> set new \<subseteq> free_clusters fs \<and>
       changes_only (insert (last cs) (set new)) (set new) fs fs' \<and>
       (\<forall>n \<in> set new. cluster_data fs' n = replicate (unat (fat_clusterSize fs)) 0) \<and>
       (if length cs + length new = Suc i then r = Some (last new)
        else r = None \<and> length cs + length new \<le> i \<and> free_clusters fs' = {})))"
proof -
  define i where "i = unat offset div unat (fat_clusterSize fs)"
  have g: "fat_geom fs" using assms(1) by (simp add: fat_healthy_def)
  have ne: "cs \<noteq> []" "0 < length cs" using assms(2) by auto
  then have h: "cs ! 0 = hd cs" by (simp add: hd_conv_nth)
  have v: "\<not> hd cs < 2" using chain_valid [OF assms(2), of "hd cs"] ne valid_ge2 by simp
  have "unat (offset div ucast (fat_clusterSize fs)) = i" by (simp add: i_def unat_div)
  then have u: "fat_getClusterForOffset (hd cs) offset a fs = offset_walk i (hd cs) (cs ! 0) a fs" for a
    using v h by (simp add: fat_getClusterForOffset_def)
  note inside = offset_walk_inside [OF assms, of 0 i]
  have "\<exists>r fs' new. offset_walk i (hd cs) (cs ! 0) True fs = Some (r, fs') \<and>
       is_chain fs' (cs @ new) \<and> set new \<subseteq> free_clusters fs \<and>
       changes_only (insert (last cs) (set new)) (set new) fs fs' \<and>
       (\<forall>n \<in> set new. cluster_data fs' n = replicate (unat (fat_clusterSize fs)) 0) \<and>
       (if length cs + length new = Suc i then r = Some (last new)
        else r = None \<and> length cs + length new \<le> i \<and> free_clusters fs' = {})" if "length cs \<le> i"
  proof -
    obtain r fs' new where o: "offset_walk i (hd cs) (cs ! 0) True fs = Some (r, fs')"
       "is_chain fs' (cs @ new)" "set new \<subseteq> free_clusters fs"
       "changes_only (insert (last cs) (set new)) (set new) fs fs'"
       "\<forall>n \<in> set new. cluster_data fs' n = replicate (unat (fat_clusterSize fs)) 0"
       "if 0 + i < length cs + length new then length new = Suc (0 + i) - length cs \<and> r = Some ((cs @ new) ! (0 + i))
        else r = None \<and> free_clusters fs' = {}"
      using offset_walk_grow [OF assms ne(2), of i] by blast
    have "if length cs + length new = Suc i then r = Some (last new)
        else r = None \<and> length cs + length new \<le> i \<and> free_clusters fs' = {}"
    proof (cases "i < length cs + length new")
      case True
      then have n: "length new = Suc i - length cs" "r = Some ((cs @ new) ! i)" using o(6) by simp_all
      then have "new \<noteq> []" using True that by auto
      then have "(cs @ new) ! i = last new"
        using n(1) that by (simp add: nth_append last_conv_nth Suc_diff_le)
      then show ?thesis using n that by simp
    next
      case False
      then show ?thesis using o(6) by simp
    qed
    then show ?thesis using o by blast
  qed
  then show ?thesis
    unfolding Let_def i_def [symmetric] u using inside ne(2) by simp
qed

text \<open>
  \<^verbatim>\<open>getClusterForOffset\<close> returns the cluster of the chain at the index
  \<open>offset div clusterSize\<close>. Past the end it fails when it may not allocate; when it may, it appends
  free, zeroed clusters until the index exists or the disk is full, and leaves a chain either way.
\<close>

theorem fat_offset_correct:
  assumes "fat_healthy fs" "is_chain fs cs"
  shows "let i = unat offset div unat (fat_clusterSize fs) in
    (i < length cs \<longrightarrow> fat_getClusterForOffset (hd cs) offset allocate fs = Some (Some (cs ! i), fs)) \<and>
    (length cs \<le> i \<longrightarrow> fat_getClusterForOffset (hd cs) offset False fs = Some (None, fs)) \<and>
    (length cs \<le> i \<longrightarrow> (\<exists>r fs' new. fat_getClusterForOffset (hd cs) offset True fs = Some (r, fs') \<and>
       is_chain fs' (cs @ new) \<and> set new \<subseteq> free_clusters fs \<and>
       changes_only (insert (last cs) (set new)) (set new) fs fs' \<and>
       (\<forall>n \<in> set new. cluster_data fs' n = replicate (unat (fat_clusterSize fs)) 0) \<and>
       (if length cs + length new = Suc i then r = Some (last new)
        else r = None \<and> length cs + length new \<le> i \<and> free_clusters fs' = {})))"
  by (rule offset_effect [OF assms])

end
