(* ===== verification/Fat_Dir.thy ===== *)
theory Fat_Dir
  imports Fat_Chain
begin

text \<open>
  Directories of the FAT32 file system (\<^verbatim>\<open>kernel/fs/fat32.cpp\<close>): reading a directory,
  path lookup, and the operations that create, change and delete entries. A raw entry is 32 bytes. As in
  \<open>Fat_Table\<close>, the outer option is \<open>None\<close> when a walk never ends.
\<close>

section \<open>Entries\<close>

definition AttributeVolumeID :: u8 where "AttributeVolumeID = 0x08"
definition AttributeDirectory :: u8 where "AttributeDirectory = 0x10"
definition AttributeArchive :: u8 where "AttributeArchive = 0x20"
definition AttributeLongName :: u8 where "AttributeLongName = 0x0F"
definition EntryDeleted :: u8 where "EntryDeleted = 0xE5"

record dir_info =
  di_name :: "u8 list"
  di_attributes :: u8
  di_firstCluster :: u32
  di_size :: u32
  di_parentCluster :: u32
  di_entryCluster :: u32
  di_entryOffset :: u32
  di_entryIndex :: u32

definition isDirectory :: "dir_info \<Rightarrow> bool" where
  "isDirectory e \<longleftrightarrow> di_attributes e AND AttributeDirectory \<noteq> 0"

text \<open>The raw entry at an index of a cluster, and the fields of \<^verbatim>\<open>DirectoryEntryRaw\<close> and \<^verbatim>\<open>LongDirectoryEntryRaw\<close>.\<close>

definition raw_at :: "u8 list \<Rightarrow> nat \<Rightarrow> u8 list" where
  "raw_at cluster i = take 32 (drop (32 * i) cluster)"

definition raw_name :: "u8 list \<Rightarrow> u8 list" where "raw_name raw = take 11 raw"
definition raw_attributes :: "u8 list \<Rightarrow> u8" where "raw_attributes raw = raw ! 11"
definition raw_firstCluster :: "u8 list \<Rightarrow> u32" where
  "raw_firstCluster raw = push_bit 16 (ucast (get16 raw 20)) OR ucast (get16 raw 26)"
definition raw_fileSize :: "u8 list \<Rightarrow> u32" where "raw_fileSize raw = get32 raw 28"

definition lfn_chars :: "u8 list \<Rightarrow> nat \<Rightarrow> nat \<Rightarrow> u16 list" where
  "lfn_chars raw at count = map (\<lambda>k. get16 raw (at + 2 * k)) [0..<count]"

definition lfn_part :: "u8 list \<Rightarrow> u8 list" where
  "lfn_part raw =
     appendLFNChars (appendLFNChars (appendLFNChars [] (lfn_chars raw 1 5)) (lfn_chars raw 14 6)) (lfn_chars raw 28 2)"

definition make_raw :: "u8 list \<Rightarrow> u8 \<Rightarrow> u32 \<Rightarrow> u32 \<Rightarrow> u8 list" where
  "make_raw name attributes firstCluster fileSize =
     name @ [attributes] @ replicate 8 0 @ bytes16 (ucast (drop_bit 16 firstCluster AND 0xFFFF)) @
     replicate 4 0 @ bytes16 (ucast (firstCluster AND 0xFFFF)) @ bytes32 fileSize"

definition set_raw_fields :: "nat \<Rightarrow> u8 \<Rightarrow> u32 \<Rightarrow> u32 \<Rightarrow> u8 list \<Rightarrow> u8 list" where
  "set_raw_fields at attributes firstCluster fileSize b =
     put_bytes (at + 28) (bytes32 fileSize)
       (put_bytes (at + 26) (bytes16 (ucast (firstCluster AND 0xFFFF)))
         (put_bytes (at + 20) (bytes16 (ucast (drop_bit 16 firstCluster AND 0xFFFF)))
           (put_bytes (at + 11) [attributes] b)))"

section \<open>Reading a directory\<close>

text \<open>
  The entries of one cluster. The state is the long name collected so far, the running index and the
  entries found; the flag tells that the end marker was met.
\<close>

fun scan_entries ::
  "nat \<Rightarrow> nat \<Rightarrow> u8 list \<Rightarrow> u32 \<Rightarrow> u32 \<Rightarrow> u8 list \<Rightarrow> u32 \<Rightarrow> dir_info list \<Rightarrow>
   bool \<times> u8 list \<times> u32 \<times> dir_info list" where
  "scan_entries 0 i data first current lfn globalIndex entries = (False, lfn, globalIndex, entries)"
| "scan_entries (Suc n) i data first current lfn globalIndex entries =
     (let raw = raw_at data i in
      if raw ! 0 = 0 then (True, lfn, globalIndex, entries)
      else if raw ! 0 = EntryDeleted then
        scan_entries n (i + 1) data first current [] (globalIndex + 1) entries
      else if raw_attributes raw = AttributeLongName then
        scan_entries n (i + 1) data first current (of_cstr (lfn_part raw) @ lfn) (globalIndex + 1) entries
      else if raw_attributes raw AND AttributeVolumeID \<noteq> 0 then
        scan_entries n (i + 1) data first current [] (globalIndex + 1) entries
      else
        let info = \<lparr>di_name = (if lfn = [] then shortNameToString raw else lfn),
              di_attributes = raw_attributes raw, di_firstCluster = raw_firstCluster raw,
              di_size = raw_fileSize raw, di_parentCluster = first, di_entryCluster = current,
              di_entryOffset = of_nat (i * 32), di_entryIndex = globalIndex\<rparr>
        in scan_entries n (i + 1) data first current [] (globalIndex + 1) (entries @ [info]))"

fun read_dir_walk ::
  "nat \<Rightarrow> u32 \<Rightarrow> u32 \<Rightarrow> u8 list \<Rightarrow> u32 \<Rightarrow> dir_info list \<Rightarrow> fat32 \<Rightarrow> dir_info list option option" where
  "read_dir_walk 0 first current lfn globalIndex entries fs = None"
| "read_dir_walk (Suc n) first current lfn globalIndex entries fs =
     (case fat_readCluster current fs of
        None \<Rightarrow> Some None
      | Some data \<Rightarrow>
          (case scan_entries (unat (fat_clusterSize fs) div 32) 0 data first current lfn globalIndex entries of
             (stop, lfn, globalIndex, entries) \<Rightarrow>
               if stop then Some (Some entries)
               else case fat_readFATEntry current fs of
                   None \<Rightarrow> Some None
                 | Some nextCluster \<Rightarrow>
                     if isEndOfChain nextCluster then Some (Some entries)
                     else if nextCluster = FreeCluster \<or> nextCluster = BadCluster then Some None
                     else read_dir_walk n first nextCluster lfn globalIndex entries fs))"

definition fat_readDirectory :: "u32 \<Rightarrow> fat32 \<Rightarrow> dir_info list option option" where
  "fat_readDirectory firstCluster fs = read_dir_walk (chain_fuel + 1) firstCluster firstCluster [] 0 [] fs"

section \<open>Lookup\<close>

definition root_info :: "fat32 \<Rightarrow> dir_info" where
  "root_info fs = \<lparr>di_name = [47], di_attributes = AttributeDirectory,
     di_firstCluster = rootCluster (f_bpb fs), di_size = 0, di_parentCluster = rootCluster (f_bpb fs),
     di_entryCluster = 0, di_entryOffset = 0, di_entryIndex = 0\<rparr>"

fun find_parts :: "u8 list list \<Rightarrow> u32 \<Rightarrow> fat32 \<Rightarrow> dir_info option option" where
  "find_parts [] currentDirectory fs = Some None"
| "find_parts (part # parts) currentDirectory fs =
     do {
       r \<leftarrow> fat_readDirectory currentDirectory fs;
       case r of
         None \<Rightarrow> Some None
       | Some entries \<Rightarrow>
           (case find (\<lambda>candidate. namesEqual (di_name candidate) part) entries of
              None \<Rightarrow> Some None
            | Some candidate \<Rightarrow>
                if parts = [] then Some (Some candidate)
                else if \<not> isDirectory candidate then Some None
                else find_parts parts (di_firstCluster candidate) fs)
     }"

definition fat_findEntry :: "u8 list \<Rightarrow> fat32 \<Rightarrow> dir_info option option" where
  "fat_findEntry path fs =
     (if path = [] \<or> path = [47] then Some (Some (root_info fs))
      else find_parts (splitPath path) (rootCluster (f_bpb fs)) fs)"

section \<open>Changing entries\<close>

definition fat_writeDirectoryEntry :: "u32 \<Rightarrow> u32 \<Rightarrow> u8 list \<Rightarrow> fat32 \<Rightarrow> bool \<times> fat32" where
  "fat_writeDirectoryEntry directoryCluster entryOffset raw fs =
     (case fat_readCluster directoryCluster fs of
        None \<Rightarrow> (False, fs)
      | Some data \<Rightarrow> fat_writeCluster directoryCluster (put_bytes (unat entryOffset) raw data) fs)"

definition fat_updateDirectoryEntry :: "dir_info \<Rightarrow> fat32 \<Rightarrow> bool \<times> fat32" where
  "fat_updateDirectoryEntry e fs =
     (if di_entryCluster e < 2 then (True, fs)
      else case fat_readCluster (di_entryCluster e) fs of
          None \<Rightarrow> (False, fs)
        | Some data \<Rightarrow>
            fat_writeCluster (di_entryCluster e)
              (set_raw_fields (unat (di_entryOffset e)) (di_attributes e) (di_firstCluster e)
                 (if isDirectory e then 0 else di_size e) data) fs)"

fun first_free_slot :: "nat \<Rightarrow> nat \<Rightarrow> u8 list \<Rightarrow> nat option" where
  "first_free_slot 0 i data = None"
| "first_free_slot (Suc n) i data =
     (if raw_at data i ! 0 = 0 \<or> raw_at data i ! 0 = EntryDeleted then Some i
      else first_free_slot n (i + 1) data)"

fun free_entry_walk :: "nat \<Rightarrow> u32 \<Rightarrow> u32 \<Rightarrow> fat32 \<Rightarrow> ((u32 \<times> u32) option \<times> fat32) option" where
  "free_entry_walk 0 directoryCluster current fs = None"
| "free_entry_walk (Suc n) directoryCluster current fs =
     (case fat_readCluster current fs of
        None \<Rightarrow> Some (None, fs)
      | Some data \<Rightarrow>
          (case first_free_slot (unat (fat_clusterSize fs) div 32) 0 data of
             Some i \<Rightarrow> Some (Some (current, of_nat (i * 32)), fs)
           | None \<Rightarrow>
               (case fat_readFATEntry current fs of
                  None \<Rightarrow> Some (None, fs)
                | Some next \<Rightarrow>
                    if isEndOfChain next then
                      do {
                        r \<leftarrow> fat_extendClusterChain directoryCluster fs;
                        case r of
                          (None, fs) \<Rightarrow> Some (None, fs)
                        | (Some newCluster, fs) \<Rightarrow> Some (Some (newCluster, 0), fs)
                      }
                    else free_entry_walk n directoryCluster next fs)))"

definition fat_findFreeDirectoryEntry :: "u32 \<Rightarrow> fat32 \<Rightarrow> ((u32 \<times> u32) option \<times> fat32) option" where
  "fat_findFreeDirectoryEntry directoryCluster fs =
     free_entry_walk (chain_fuel + 1) directoryCluster directoryCluster fs"

text \<open>The content of a fresh directory: the entries \<^verbatim>\<open>.\<close> and \<^verbatim>\<open>..\<close>\<close>

definition new_directory_data :: "u32 \<Rightarrow> u32 \<Rightarrow> fat32 \<Rightarrow> u8 list" where
  "new_directory_data firstCluster parentDirectoryCluster fs =
     put_bytes 32 (make_raw (fillDotName True) AttributeDirectory parentDirectoryCluster 0)
       (put_bytes 0 (make_raw (fillDotName False) AttributeDirectory firstCluster 0)
         (replicate (unat (fat_clusterSize fs)) 0))"

definition fat_createDirectoryEntry ::
  "u32 \<Rightarrow> u8 list \<Rightarrow> u8 \<Rightarrow> fat32 \<Rightarrow> (dir_info option \<times> fat32) option" where
  "fat_createDirectoryEntry parentDirectoryCluster name attributes fs =
     (case makeShortName name of
        None \<Rightarrow> Some (None, fs)
      | Some shortName \<Rightarrow>
          do {
            r \<leftarrow> fat_findFreeDirectoryEntry parentDirectoryCluster fs;
            case r of
              (None, fs) \<Rightarrow> Some (None, fs)
            | (Some (entryCluster, entryOffset), fs) \<Rightarrow>
                let is_dir = (attributes AND AttributeDirectory \<noteq> 0);
                    finish = (\<lambda>firstCluster fs.
                      let raw = make_raw shortName attributes firstCluster 0 in
                      case fat_writeDirectoryEntry entryCluster entryOffset raw fs of
                        (ok, fs) \<Rightarrow>
                          if \<not> ok then
                            (if 2 \<le> firstCluster then
                               do { f \<leftarrow> fat_freeClusterChain firstCluster fs; Some (None, snd f) }
                             else Some (None, fs))
                          else Some (Some \<lparr>di_name = name, di_attributes = attributes,
                                 di_firstCluster = firstCluster, di_size = 0,
                                 di_parentCluster = parentDirectoryCluster, di_entryCluster = entryCluster,
                                 di_entryOffset = entryOffset, di_entryIndex = entryOffset div 32\<rparr>, fs))
                in if is_dir then
                     (case fat_allocateCluster fs of
                        (None, fs) \<Rightarrow> Some (None, fs)
                      | (Some firstCluster, fs) \<Rightarrow>
                          (case fat_writeCluster firstCluster
                                  (new_directory_data firstCluster parentDirectoryCluster fs) fs of
                             (ok, fs) \<Rightarrow>
                               if \<not> ok then
                                 do { f \<leftarrow> fat_freeClusterChain firstCluster fs; Some (None, snd f) }
                               else finish firstCluster fs))
                   else finish 0 fs
          })"

text \<open>\<^verbatim>\<open>markEntryAndLongNameDeleted\<close>: the entry, and the long-name entries right before it.\<close>

fun mark_long_names :: "nat \<Rightarrow> u8 list \<Rightarrow> u8 list" where
  "mark_long_names 0 data = data"
| "mark_long_names (Suc index) data =
     (if raw_attributes (raw_at data index) \<noteq> AttributeLongName then data
      else mark_long_names index (put_bytes (32 * index) [EntryDeleted] data))"

definition markEntryAndLongNameDeleted :: "u8 list \<Rightarrow> u32 \<Rightarrow> u8 list" where
  "markEntryAndLongNameDeleted data entryOffset =
     (let index = unat entryOffset div 32 in
      mark_long_names index (put_bytes (32 * index) [EntryDeleted] data))"

end
