(* ===== verification/Fat_Fs.thy ===== *)
theory Fat_Fs
  imports Fat_Dir
begin

text \<open>
  The operations of the FAT32 file system on paths and the open files it hands out
  (\<^verbatim>\<open>FAT32FileSystem\<close>, \<^verbatim>\<open>FAT32VNode\<close>,
  \<^verbatim>\<open>FAT32FileHandle\<close> and \<^verbatim>\<open>FAT32DirectoryHandle\<close> of
  \<^verbatim>\<open>kernel/fs/fat32.cpp\<close>). An operation returns its error code, \<open>NoError\<close> when
  the code returns \<^verbatim>\<open>true\<close> or a handle, with the volume it leaves; the outer option is
  \<open>None\<close> when a walk never ends.
\<close>

section \<open>Errors and modes\<close>

datatype vfs_error =
    NoError | NotFound | AlreadyExists | NotDirectory | IsDirectory | InvalidPath | PermissionDenied
  | ReadOnly | IOError | Unsupported | NoSpace

datatype node_type = UnknownNode | FileNode | DirectoryNode | DeviceNode | SymlinkNode

definition ModeRead :: u32 where "ModeRead = 1"
definition ModeWrite :: u32 where "ModeWrite = 2"
definition ModeAppend :: u32 where "ModeAppend = 4"
definition ModeCreate :: u32 where "ModeCreate = 8"
definition ModeTruncate :: u32 where "ModeTruncate = 16"

definition hasMode :: "u32 \<Rightarrow> u32 \<Rightarrow> bool" where
  "hasMode mode flag \<longleftrightarrow> mode AND flag \<noteq> 0"

record vfs_stat =
  st_name :: "u8 list"
  st_type :: node_type
  st_size :: u64
  st_blockSize :: u64

section \<open>Creating, removing and renaming\<close>

text \<open>\<^verbatim>\<open>createFile\<close> and \<^verbatim>\<open>createDirectory\<close> differ in the attribute only.\<close>

definition create_at :: "u8 \<Rightarrow> u8 list \<Rightarrow> fat32 \<Rightarrow> (vfs_error \<times> fat32) option" where
  "create_at attributes path fs =
     do {
       existing \<leftarrow> fat_findEntry path fs;
       if existing \<noteq> None then Some (AlreadyExists, fs)
       else do {
         parent \<leftarrow> fat_findEntry (parentOf path) fs;
         case parent of
           None \<Rightarrow> Some (NotDirectory, fs)
         | Some parent \<Rightarrow>
             if \<not> isDirectory parent then Some (NotDirectory, fs)
             else do {
               r \<leftarrow> fat_createDirectoryEntry (di_firstCluster parent) (basenameOf path) attributes fs;
               case r of
                 (None, fs) \<Rightarrow> Some (IOError, fs)
               | (Some created, fs) \<Rightarrow> Some (NoError, fs)
             }
       }
     }"

definition fat_createFile :: "u8 list \<Rightarrow> fat32 \<Rightarrow> (vfs_error \<times> fat32) option" where
  "fat_createFile path fs = create_at AttributeArchive path fs"

definition fat_createDirectory :: "u8 list \<Rightarrow> fat32 \<Rightarrow> (vfs_error \<times> fat32) option" where
  "fat_createDirectory path fs = create_at AttributeDirectory path fs"

definition fat_remove :: "u8 list \<Rightarrow> fat32 \<Rightarrow> (vfs_error \<times> fat32) option" where
  "fat_remove path fs =
     do {
       found \<leftarrow> fat_findEntry path fs;
       case found of
         None \<Rightarrow> Some (NotFound, fs)
       | Some e \<Rightarrow>
           if di_entryCluster e < 2 \<or> isDotEntry (di_name e) then Some (InvalidPath, fs)
           else do {
             refused \<leftarrow>
               (if isDirectory e then
                  do {
                    entries \<leftarrow> fat_readDirectory (di_firstCluster e) fs;
                    Some (case entries of
                        None \<Rightarrow> IOError
                      | Some entries \<Rightarrow>
                          if list_all (\<lambda>x. isDotEntry (di_name x)) entries then NoError else PermissionDenied)
                  }
                else Some NoError);
             if refused \<noteq> NoError then Some (refused, fs)
             else case fat_readCluster (di_entryCluster e) fs of
                 None \<Rightarrow> Some (IOError, fs)
               | Some data \<Rightarrow>
                   (case fat_writeCluster (di_entryCluster e) (markEntryAndLongNameDeleted data (di_entryOffset e)) fs of
                      (wrote, fs) \<Rightarrow>
                        if \<not> wrote then Some (IOError, fs)
                        else if 2 \<le> di_firstCluster e then
                          do {
                            f \<leftarrow> fat_freeClusterChain (di_firstCluster e) fs;
                            Some (if fst f then NoError else IOError, snd f)
                          }
                        else Some (NoError, fs))
           }
     }"

text \<open>The renamed entry, in place.\<close>

definition renamed_data :: "u8 list \<Rightarrow> dir_info \<Rightarrow> u8 list \<Rightarrow> u8 list" where
  "renamed_data shortName oldEntry data =
     set_raw_fields (unat (di_entryOffset oldEntry)) (di_attributes oldEntry) (di_firstCluster oldEntry)
       (if isDirectory oldEntry then 0 else di_size oldEntry)
       (put_bytes (unat (di_entryOffset oldEntry)) shortName
         (markEntryAndLongNameDeleted data (di_entryOffset oldEntry)))"

text \<open>The branch that undoes the new entry when the old one cannot be deleted.\<close>

definition undo_rename :: "u8 list \<Rightarrow> dir_info \<Rightarrow> fat32 \<Rightarrow> (vfs_error \<times> fat32) option" where
  "undo_rename newPath newEntry fs =
     do {
       f \<leftarrow> fat_remove newPath (snd (fat_updateDirectoryEntry (newEntry\<lparr>di_firstCluster := 0\<rparr>) fs));
       Some (IOError, snd f)
     }"

definition rename_within :: "u8 list \<Rightarrow> dir_info \<Rightarrow> fat32 \<Rightarrow> vfs_error \<times> fat32" where
  "rename_within shortName oldEntry fs =
     (case fat_readCluster (di_entryCluster oldEntry) fs of
        None \<Rightarrow> (IOError, fs)
      | Some data \<Rightarrow>
          (case fat_writeCluster (di_entryCluster oldEntry) (renamed_data shortName oldEntry data) fs of
             (ok, fs) \<Rightarrow> (if ok then NoError else IOError, fs)))"

definition rename_across :: "u8 list \<Rightarrow> dir_info \<Rightarrow> dir_info \<Rightarrow> fat32 \<Rightarrow> (vfs_error \<times> fat32) option" where
  "rename_across newPath oldEntry newParent fs =
     do {
       r \<leftarrow> fat_createDirectoryEntry (di_firstCluster newParent) (basenameOf newPath) (di_attributes oldEntry) fs;
       case r of
         (None, fs) \<Rightarrow> Some (IOError, fs)
       | (Some created, fs) \<Rightarrow>
           let newEntry = created\<lparr>di_firstCluster := di_firstCluster oldEntry, di_size := di_size oldEntry\<rparr> in
           (case fat_updateDirectoryEntry newEntry fs of (ok, fs) \<Rightarrow>
              if \<not> ok then Some (IOError, fs)
              else case fat_readCluster (di_entryCluster oldEntry) fs of
                  None \<Rightarrow> undo_rename newPath newEntry fs
                | Some data \<Rightarrow>
                    (case fat_writeCluster (di_entryCluster oldEntry)
                            (markEntryAndLongNameDeleted data (di_entryOffset oldEntry)) fs of
                       (removed, fs) \<Rightarrow>
                         if \<not> removed then undo_rename newPath newEntry fs else Some (NoError, fs)))
     }"

definition fat_rename :: "u8 list \<Rightarrow> u8 list \<Rightarrow> fat32 \<Rightarrow> (vfs_error \<times> fat32) option" where
  "fat_rename oldPath newPath fs =
     do {
       old \<leftarrow> fat_findEntry oldPath fs;
       case old of
         None \<Rightarrow> Some (NotFound, fs)
       | Some oldEntry \<Rightarrow>
           do {
             existing \<leftarrow> fat_findEntry newPath fs;
             if existing \<noteq> None then Some (AlreadyExists, fs)
             else case makeShortName (basenameOf newPath) of
                 None \<Rightarrow> Some (InvalidPath, fs)
               | Some shortName \<Rightarrow>
                   do {
                     oldParent \<leftarrow> fat_findEntry (parentOf oldPath) fs;
                     case oldParent of
                       None \<Rightarrow> Some (NotDirectory, fs)
                     | Some oldParent \<Rightarrow>
                         do {
                           newParent \<leftarrow> fat_findEntry (parentOf newPath) fs;
                           case newParent of
                             None \<Rightarrow> Some (NotDirectory, fs)
                           | Some newParent \<Rightarrow>
                               if di_firstCluster oldParent = di_firstCluster newParent
                               then Some (rename_within shortName oldEntry fs)
                               else rename_across newPath oldEntry newParent fs
                         }
                   }
           }
     }"

section \<open>Open files\<close>

record vnode =
  nodeName :: "u8 list"
  nodeFirstCluster :: u32
  nodeSize :: u64
  entryInfo :: "dir_info option"

record file_handle =
  fatNode :: vnode
  openMode :: u32
  offset :: u64
  closed :: bool
  dirty :: bool

definition fat_setFirstCluster :: "u32 \<Rightarrow> file_handle \<Rightarrow> file_handle" where
  "fat_setFirstCluster c h = h\<lparr>fatNode := (fatNode h)\<lparr>nodeFirstCluster := c,
     entryInfo := map_option (\<lambda>e. e\<lparr>di_firstCluster := c\<rparr>) (entryInfo (fatNode h))\<rparr>\<rparr>"

definition fat_setSize :: "u64 \<Rightarrow> file_handle \<Rightarrow> file_handle" where
  "fat_setSize s h = h\<lparr>fatNode := (fatNode h)\<lparr>nodeSize := s,
     entryInfo := map_option (\<lambda>e. e\<lparr>di_size := ucast s\<rparr>) (entryInfo (fatNode h))\<rparr>\<rparr>"

definition file_seek :: "u64 \<Rightarrow> file_handle \<Rightarrow> bool \<times> file_handle" where
  "file_seek newOffset h = (if closed h then (False, h) else (True, h\<lparr>offset := newOffset\<rparr>))"

text \<open>\<open>bytes\<close> is the part of the buffer already filled; the result of \<^verbatim>\<open>read\<close> is its length.\<close>

function read_loop :: "nat \<Rightarrow> u8 list \<Rightarrow> file_handle \<Rightarrow> fat32 \<Rightarrow> (u8 list \<times> file_handle \<times> fat32) option" where
  "read_loop remaining bytes h fs =
     (if remaining = 0 then Some (bytes, h, fs)
      else do {
        r \<leftarrow> fat_getClusterForOffset (nodeFirstCluster (fatNode h)) (offset h) False fs;
        case r of
          (None, fs) \<Rightarrow> Some (bytes, h, fs)
        | (Some cluster, fs) \<Rightarrow>
            (case fat_readCluster cluster fs of
               None \<Rightarrow> Some (bytes, h, fs)
             | Some data \<Rightarrow>
                 let clusterSize = unat (fat_clusterSize fs);
                     clusterOffset = unat (offset h) mod clusterSize;
                     chunk = min (clusterSize - clusterOffset) remaining
                 in if chunk = 0 then None
                    else read_loop (remaining - chunk) (bytes @ take chunk (drop clusterOffset data))
                           (h\<lparr>offset := offset h + of_nat chunk\<rparr>) fs)
      })"
  by pat_completeness auto
termination by (relation "measure (\<lambda>(remaining, _, _, _). remaining)") auto

definition file_read :: "u64 \<Rightarrow> file_handle \<Rightarrow> fat32 \<Rightarrow> (u8 list \<times> file_handle \<times> fat32) option" where
  "file_read count h fs =
     (if closed h \<or> \<not> hasMode (openMode h) ModeRead then Some ([], h, fs)
      else if nodeSize (fatNode h) \<le> offset h then Some ([], h, fs)
      else
        let available = nodeSize (fatNode h) - offset h;
            remaining = (if available < count then available else count)
        in read_loop (unat remaining) [] h fs)"

text \<open>\<open>done\<close> counts the bytes of the buffer already written.\<close>

function write_loop :: "u8 list \<Rightarrow> nat \<Rightarrow> file_handle \<Rightarrow> fat32 \<Rightarrow> (nat \<times> file_handle \<times> fat32) option" where
  "write_loop buf written h fs =
     (if buf = [] then Some (written, h, fs)
      else do {
        r \<leftarrow> fat_getClusterForOffset (nodeFirstCluster (fatNode h)) (offset h) True fs;
        case r of
          (None, fs) \<Rightarrow> Some (written, h, fs)
        | (Some cluster, fs) \<Rightarrow>
            let clusterSize = unat (fat_clusterSize fs);
                clusterOffset = unat (offset h) mod clusterSize;
                chunk = min (clusterSize - clusterOffset) (length buf)
            in (case (if chunk \<noteq> clusterSize then fat_readCluster cluster fs
                      else Some (replicate clusterSize 0)) of
                  None \<Rightarrow> Some (written, h, fs)
                | Some data \<Rightarrow>
                    (case fat_writeCluster cluster (put_bytes clusterOffset (take chunk buf) data) fs of
                       (ok, fs) \<Rightarrow>
                         if \<not> ok then Some (written, h, fs)
                         else if chunk = 0 then None
                         else
                           let h = h\<lparr>offset := offset h + of_nat chunk\<rparr>;
                               h = (if nodeSize (fatNode h) < offset h then fat_setSize (offset h) h else h)
                           in write_loop (drop chunk buf) (written + chunk) (h\<lparr>dirty := True\<rparr>) fs))
      })"
  by pat_completeness auto
termination by (relation "measure (\<lambda>(buf, _, _, _). length buf)") auto

definition file_write :: "u8 list \<Rightarrow> file_handle \<Rightarrow> fat32 \<Rightarrow> (nat \<times> file_handle \<times> fat32) option" where
  "file_write buf h fs =
     (if closed h \<or> \<not> hasMode (openMode h) ModeWrite then Some (0, h, fs)
      else if nodeFirstCluster (fatNode h) < 2 then
        (case fat_allocateCluster fs of
           (None, fs) \<Rightarrow> Some (0, h, fs)
         | (Some firstCluster, fs) \<Rightarrow> write_loop buf 0 ((fat_setFirstCluster firstCluster h)\<lparr>dirty := True\<rparr>) fs)
      else write_loop buf 0 h fs)"

definition file_flush :: "file_handle \<Rightarrow> fat32 \<Rightarrow> bool \<times> file_handle \<times> fat32" where
  "file_flush h fs =
     (if closed h then (False, h, fs)
      else if \<not> dirty h then (True, h, fs)
      else case entryInfo (fatNode h) of
          None \<Rightarrow> (True, h\<lparr>dirty := False\<rparr>, fs)
        | Some e \<Rightarrow>
            (case fat_updateDirectoryEntry e fs of
               (ok, fs) \<Rightarrow> (ok, if ok then h\<lparr>dirty := False\<rparr> else h, fs)))"

definition file_close :: "file_handle \<Rightarrow> fat32 \<Rightarrow> bool \<times> file_handle \<times> fat32" where
  "file_close h fs =
     (if closed h then (True, h, fs)
      else case file_flush h fs of (ok, h, fs) \<Rightarrow> (ok, h\<lparr>closed := True\<rparr>, fs))"

definition file_truncate :: "u64 \<Rightarrow> file_handle \<Rightarrow> fat32 \<Rightarrow> (bool \<times> file_handle \<times> fat32) option" where
  "file_truncate newSize h fs =
     (if closed h \<or> \<not> hasMode (openMode h) ModeWrite then Some (False, h, fs)
      else
        let oldFirstCluster = nodeFirstCluster (fatNode h) in
        if newSize = 0 then
          do {
            (ok, fs) \<leftarrow> (if 2 \<le> oldFirstCluster then fat_freeClusterChain oldFirstCluster fs else Some (True, fs));
            if \<not> ok then Some (False, h, fs)
            else Some (file_flush (fat_setSize 0 (fat_setFirstCluster 0 h)\<lparr>offset := 0, dirty := True\<rparr>) fs)
          }
        else
          case (if oldFirstCluster < 2
                then (case fat_allocateCluster fs of
                        (None, fs) \<Rightarrow> (False, h, fs)
                      | (Some firstCluster, fs) \<Rightarrow> (True, fat_setFirstCluster firstCluster h, fs))
                else (True, h, fs)) of
            (ok, h, fs) \<Rightarrow>
              if \<not> ok then Some (False, h, fs)
              else do {
                r \<leftarrow> fat_getClusterForOffset (nodeFirstCluster (fatNode h)) (newSize - 1) True fs;
                case r of
                  (None, fs) \<Rightarrow> Some (False, h, fs)
                | (Some lastCluster, fs) \<Rightarrow>
                    (case fat_readFATEntry lastCluster fs of
                       None \<Rightarrow> Some (False, h, fs)
                     | Some next \<Rightarrow>
                         do {
                           (ok, fs) \<leftarrow> (if \<not> isEndOfChain next \<and> 2 \<le> next then fat_freeClusterChain next fs
                                        else Some (True, fs));
                           if \<not> ok then Some (False, h, fs)
                           else case fat_writeFATEntry lastCluster 0x0FFFFFFF fs of
                               (ok, fs) \<Rightarrow>
                                 if \<not> ok then Some (False, h, fs)
                                 else
                                   let h = fat_setSize newSize h;
                                       h = (if newSize < offset h then h\<lparr>offset := newSize\<rparr> else h)
                                   in Some (file_flush (h\<lparr>dirty := True\<rparr>) fs)
                         })
              })"

declare read_loop.simps [simp del] write_loop.simps [simp del]

definition file_tell :: "file_handle \<Rightarrow> u64" where "file_tell h = offset h"
definition file_size :: "file_handle \<Rightarrow> u64" where "file_size h = nodeSize (fatNode h)"

definition vnode_stat :: "vnode \<Rightarrow> vfs_stat" where
  "vnode_stat n = \<lparr>st_name = nodeName n, st_type = FileNode, st_size = nodeSize n, st_blockSize = 512\<rparr>"

section \<open>Opening and inspecting\<close>

definition open_node :: "dir_info \<Rightarrow> u32 \<Rightarrow> file_handle" where
  "open_node e mode =
     (let h = \<lparr>fatNode = \<lparr>nodeName = di_name e, nodeFirstCluster = di_firstCluster e,
                 nodeSize = ucast (di_size e), entryInfo = Some e\<rparr>,
               openMode = mode, offset = 0, closed = False, dirty = False\<rparr>
      in if hasMode mode ModeAppend then snd (file_seek (nodeSize (fatNode h)) h) else h)"

definition fat_open :: "u8 list \<Rightarrow> u32 \<Rightarrow> fat32 \<Rightarrow> ((vfs_error + file_handle) \<times> fat32) option" where
  "fat_open path mode fs =
     do {
       found \<leftarrow> fat_findEntry path fs;
       r \<leftarrow> (case found of
               Some e \<Rightarrow> Some (Inr e, fs)
             | None \<Rightarrow>
                 if \<not> hasMode mode ModeCreate then Some (Inl NotFound, fs)
                 else do {
                   (err, fs) \<leftarrow> fat_createFile path fs;
                   if err \<noteq> NoError then Some (Inl err, fs)
                   else do {
                     again \<leftarrow> fat_findEntry path fs;
                     Some (case again of None \<Rightarrow> Inl IOError | Some e \<Rightarrow> Inr e, fs)
                   }
                 });
       case r of
         (Inl err, fs) \<Rightarrow> Some (Inl err, fs)
       | (Inr e, fs) \<Rightarrow>
           if isDirectory e then Some (Inl IsDirectory, fs)
           else if \<not> hasMode mode ModeTruncate then Some (Inr (open_node e mode), fs)
           else do {
             (ok, fs) \<leftarrow> (if 2 \<le> di_firstCluster e then fat_freeClusterChain (di_firstCluster e) fs
                          else Some (True, fs));
             if \<not> ok then Some (Inl IOError, fs)
             else let e = e\<lparr>di_firstCluster := 0, di_size := 0\<rparr> in
               case fat_updateDirectoryEntry e fs of
                 (ok, fs) \<Rightarrow> Some (if ok then Inr (open_node e mode) else Inl IOError, fs)
           }
     }"

record dir_handle =
  dh_entries :: "dir_info list"
  dh_index :: nat
  dh_closed :: bool

definition fat_openDirectory :: "u8 list \<Rightarrow> fat32 \<Rightarrow> (vfs_error + dir_handle) option" where
  "fat_openDirectory path fs =
     do {
       found \<leftarrow> fat_findEntry path fs;
       case found of
         None \<Rightarrow> Some (Inl NotFound)
       | Some e \<Rightarrow>
           if \<not> isDirectory e then Some (Inl NotDirectory)
           else do {
             r \<leftarrow> fat_readDirectory (di_firstCluster e) fs;
             Some (case r of
                 None \<Rightarrow> Inl IOError
               | Some entries \<Rightarrow> Inr \<lparr>dh_entries = entries, dh_index = 0, dh_closed = False\<rparr>)
           }
     }"

definition fat_stat :: "u8 list \<Rightarrow> fat32 \<Rightarrow> (vfs_error + vfs_stat) option" where
  "fat_stat path fs =
     do {
       found \<leftarrow> fat_findEntry path fs;
       Some (case found of
           None \<Rightarrow> Inl NotFound
         | Some e \<Rightarrow> Inr \<lparr>st_name = di_name e, st_type = (if isDirectory e then DirectoryNode else FileNode),
             st_size = ucast (di_size e), st_blockSize = ucast (bytesPerSector (f_bpb fs))\<rparr>)
     }"

definition dir_readNext :: "dir_handle \<Rightarrow> (u8 list \<times> node_type \<times> u64) option \<times> dir_handle" where
  "dir_readNext d =
     (if dh_closed d then (None, d)
      else if dh_index d < length (dh_entries d) then
        let e = dh_entries d ! dh_index d in
        (Some (di_name e, if isDirectory e then DirectoryNode else FileNode, ucast (di_size e)),
         d\<lparr>dh_index := dh_index d + 1\<rparr>)
      else (None, d))"

definition dir_rewind :: "dir_handle \<Rightarrow> bool \<times> dir_handle" where
  "dir_rewind d = (if dh_closed d then (False, d) else (True, d\<lparr>dh_index := 0\<rparr>))"

definition dir_close :: "dir_handle \<Rightarrow> bool \<times> dir_handle" where
  "dir_close d = (True, d\<lparr>dh_closed := True\<rparr>)"

end
