(* ===== verification/Fat_File.thy ===== *)
theory Fat_File
  imports Fat_Fs
begin

text \<open>
  Reading and writing through a file handle: the content of a file is the concatenation of the clusters
  of its chain, and the handle's operations are reads and updates of that list of bytes.
\<close>

section \<open>Content\<close>

definition content :: "fat32 \<Rightarrow> u32 list \<Rightarrow> u8 list" where
  "content fs cs = concat (map (cluster_data fs) cs)"

abbreviation csize :: "fat32 \<Rightarrow> nat" where "csize fs \<equiv> unat (fat_clusterSize fs)"

lemma content_append [simp]: "content fs (cs @ ds) = content fs cs @ content fs ds"
  by (simp add: content_def)

lemma content_simps [simp]: "content fs [] = []" "content fs (c # cs) = cluster_data fs c @ content fs cs"
  by (simp_all add: content_def)

lemma length_content: "fat_geom fs \<Longrightarrow> length (content fs cs) = length cs * csize fs"
  by (induction cs) (simp_all add: length_cluster_data)

lemma csize_pos: "fat_geom fs \<Longrightarrow> 0 < csize fs"
  by (simp add: unat_cluster_bytes fat_geom_def unat_gt_0)

lemma content_cong: "(\<And>c. c \<in> set cs \<Longrightarrow> cluster_data fs' c = cluster_data fs c) \<Longrightarrow> content fs' cs = content fs cs"
  unfolding content_def by (rule arg_cong [of _ _ concat]) simp

lemma content_zero:
  "(\<And>c. c \<in> set cs \<Longrightarrow> cluster_data fs c = replicate n 0) \<Longrightarrow> content fs cs = replicate (length cs * n) 0"
  by (induction cs) (simp_all add: replicate_add)

text \<open>A cluster within the content.\<close>

lemma content_split:
  assumes "i < length cs"
  shows "content fs cs = content fs (take i cs) @ cluster_data fs (cs ! i) @ content fs (drop (Suc i) cs)"
  using assms by (subst id_take_nth_drop [OF assms]) simp

lemma content_window:
  assumes "fat_geom fs" "i < length cs" "b \<le> csize fs - a"
  shows "take b (drop (i * csize fs + a) (content fs cs)) = take b (drop a (cluster_data fs (cs ! i)))"
proof -
  have "length (content fs (take i cs)) = i * csize fs"
    using assms(1,2) by (simp add: length_content)
  then show ?thesis
    using assms(3) length_cluster_data [OF assms(1)] by (subst content_split [OF assms(2)]) simp
qed

lemma put_bytes_append1: "i + length p \<le> length b \<Longrightarrow> put_bytes i p (b @ z) = put_bytes i p b @ z"
  by (simp add: put_bytes_def)

lemma put_bytes_append2: "put_bytes (length a + i) p (a @ b) = a @ put_bytes i p b"
  by (simp add: put_bytes_def)

lemma put_bytes_put_bytes:
  assumes "i + length p \<le> length b"
  shows "put_bytes (i + length p) q (put_bytes i p b) = put_bytes i (p @ q) b"
  using assms by (simp add: put_bytes_def ac_simps)

lemma put_bytes_Nil [simp]: "put_bytes i [] b = b"
  by (simp add: put_bytes_def)

lemma put_bytes_full: "length p = length b \<Longrightarrow> put_bytes 0 p b = p"
  by (simp add: put_bytes_def)

lemma content_update:
  assumes "fat_geom fs" "is_chain fs cs" "i < length cs" "cluster_data fs' (cs ! i) = put_bytes a p (cluster_data fs (cs ! i))"
    "a + length p \<le> csize fs" "\<And>c. c \<in> set cs \<Longrightarrow> c \<noteq> cs ! i \<Longrightarrow> cluster_data fs' c = cluster_data fs c"
  shows "content fs' cs = put_bytes (i * csize fs + a) p (content fs cs)"
proof -
  have d: "distinct (take i cs @ cs ! i # drop (Suc i) cs)"
    using chain_distinct [OF assms(1,2)] id_take_nth_drop [OF assms(3)] by simp
  have "content fs' (take i cs) = content fs (take i cs)"
  proof (rule content_cong)
    fix c assume "c \<in> set (take i cs)"
    then show "cluster_data fs' c = cluster_data fs c"
      using d by (intro assms(6)) (auto dest: in_set_takeD)
  qed
  moreover have "content fs' (drop (Suc i) cs) = content fs (drop (Suc i) cs)"
  proof (rule content_cong)
    fix c assume "c \<in> set (drop (Suc i) cs)"
    then show "cluster_data fs' c = cluster_data fs c"
      using d by (intro assms(6)) (auto dest: in_set_dropD)
  qed
  moreover have "length (content fs (take i cs)) = i * csize fs"
    using assms(1,3) by (simp add: length_content)
  ultimately show ?thesis
    using content_split [OF assms(3), of fs] content_split [OF assms(3), of fs'] assms(4,5)
      put_bytes_append2 [of "content fs (take i cs)" a p] put_bytes_append1 [of a p "cluster_data fs (cs ! i)"]
      length_cluster_data [OF assms(1)] by simp
qed

section \<open>Reading\<close>

lemma read_loop_correct:
  assumes "fat_healthy fs" "is_chain fs cs"
  shows "hd cs = nodeFirstCluster (fatNode h) \<Longrightarrow> unat (offset h) + r < 2 ^ 64 \<Longrightarrow>
    \<exists>h'. read_loop r bytes h fs = Some (bytes @ take r (drop (unat (offset h)) (content fs cs)), h', fs) \<and>
      h' = h\<lparr>offset := offset h + of_nat (min r (length (content fs cs) - unat (offset h)))\<rparr>"
proof (induction r arbitrary: bytes h rule: less_induct)
  case (less r)
  have g: "fat_geom fs" using assms(1) by (simp add: fat_healthy_def)
  let ?S = "csize fs" and ?o = "unat (offset h)" and ?C = "content fs cs"
  define i a where "i = ?o div ?S" and "a = ?o mod ?S"
  have S: "0 < ?S" by (rule csize_pos [OF g])
  have o: "?o = i * ?S + a" "a < ?S" using S by (simp_all add: i_def a_def)
  have len: "length ?C = length cs * ?S" by (rule length_content [OF g])
  note eff = offset_effect [OF assms, of "offset h", folded i_def, unfolded Let_def, unfolded less.prems(1)]
  show ?case
  proof (cases "r = 0")
    case True
    then show ?thesis by (simp add: read_loop.simps)
  next
    case r: False
    show ?thesis
    proof (cases "i < length cs")
      case False
      then have "length cs * ?S \<le> i * ?S" by (intro mult_le_mono1) simp
      then have "length ?C \<le> ?o" using o(1) len by linarith
      moreover have "fat_getClusterForOffset (nodeFirstCluster (fatNode h)) (offset h) False fs = Some (None, fs)"
        using eff False by simp
      ultimately show ?thesis using r by (subst read_loop.simps) simp
    next
      case True
      define chunk where "chunk = min (?S - a) r"
      have c: "0 < chunk" "chunk \<le> r" "chunk \<le> ?S - a" using o(2) r by (simp_all add: chunk_def)
      have get: "fat_getClusterForOffset (nodeFirstCluster (fatNode h)) (offset h) False fs = Some (Some (cs ! i), fs)"
        using eff True by simp
      have rd: "fat_readCluster (cs ! i) fs = Some (cluster_data fs (cs ! i))"
        using healthy_readCluster [OF assms(1)] chain_valid [OF assms(2)] True by simp
      let ?h = "h\<lparr>offset := offset h + of_nat chunk\<rparr>"
      have uo: "unat (offset h + of_nat chunk) = ?o + chunk"
      proof -
        have "unat (of_nat chunk :: u64) = chunk" using c(2) less.prems(2) by (intro unat_of_nat_fits) simp
        then show ?thesis using c(2) less.prems(2) by (subst unat_add_fits) simp_all
      qed
      have "read_loop r bytes h fs = read_loop (r - chunk) (bytes @ take chunk (drop a (cluster_data fs (cs ! i)))) ?h fs"
        using r get rd c(1) by (subst read_loop.simps) (simp add: Let_def a_def [symmetric] chunk_def [symmetric])
      also have "take chunk (drop a (cluster_data fs (cs ! i))) = take chunk (drop ?o ?C)"
        using content_window [OF g True c(3)] o(1) by simp
      finally have step: "read_loop r bytes h fs = read_loop (r - chunk) (bytes @ take chunk (drop ?o ?C)) ?h fs" .
      have "\<exists>h'. read_loop (r - chunk) (bytes @ take chunk (drop ?o ?C)) ?h fs =
          Some ((bytes @ take chunk (drop ?o ?C)) @ take (r - chunk) (drop (unat (offset ?h)) ?C), h', fs) \<and>
          h' = ?h\<lparr>offset := offset ?h + of_nat (min (r - chunk) (length ?C - unat (offset ?h)))\<rparr>"
        using c less.prems uo by (intro less.IH) simp_all
      moreover have "take chunk (drop ?o ?C) @ take (r - chunk) (drop (?o + chunk) ?C) = take r (drop ?o ?C)"
        using c(2) by (metis add.commute drop_drop le_add_diff_inverse take_add)
      moreover have "chunk + min (r - chunk) (length ?C - (?o + chunk)) = min r (length ?C - ?o)"
      proof -
        have "Suc i * ?S \<le> length cs * ?S" using True by (intro mult_le_mono1) simp
        then have "?o + chunk \<le> length ?C" using o c(3) len by simp
        then show ?thesis using c(2) by auto
      qed
      ultimately show ?thesis
        unfolding step using uo by (auto simp: add.assoc simp flip: of_nat_add)
    qed
  qed
qed

section \<open>Writing\<close>

lemma set_fields [simp]:
  "nodeFirstCluster (fatNode (fat_setSize s h)) = nodeFirstCluster (fatNode h)" "nodeSize (fatNode (fat_setSize s h)) = s"
  "offset (fat_setSize s h) = offset h" "openMode (fat_setSize s h) = openMode h" "closed (fat_setSize s h) = closed h"
  "dirty (fat_setSize s h) = dirty h"
  "nodeFirstCluster (fatNode (fat_setFirstCluster c h)) = c" "nodeSize (fatNode (fat_setFirstCluster c h)) = nodeSize (fatNode h)"
  "offset (fat_setFirstCluster c h) = offset h" "openMode (fat_setFirstCluster c h) = openMode h"
  "closed (fat_setFirstCluster c h) = closed h" "dirty (fat_setFirstCluster c h) = dirty h"
  by (simp_all add: fat_setSize_def fat_setFirstCluster_def)

text \<open>Finding the cluster of an offset, appending what is missing.\<close>

lemma get_cluster_grow:
  assumes h: "fat_healthy fs" and ch: "is_chain fs cs"
  shows "\<exists>r fs' new. fat_getClusterForOffset (hd cs) off True fs = Some (r, fs') \<and> is_chain fs' (cs @ new) \<and>
    set new \<subseteq> free_clusters fs \<and> changes_only (insert (last cs) (set new)) (set new) fs fs' \<and>
    content fs' (cs @ new) = content fs cs @ replicate (length new * csize fs) 0 \<and>
    (case r of
       Some c \<Rightarrow> unat off div csize fs < length (cs @ new) \<and> c = (cs @ new) ! (unat off div csize fs)
     | None \<Rightarrow> free_clusters fs' = {})"
proof -
  have g: "fat_geom fs" using h by (simp add: fat_healthy_def)
  have ne: "cs \<noteq> []" "0 < length cs" using ch by auto
  then have hd0: "cs ! 0 = hd cs" by (simp add: hd_conv_nth)
  have "\<not> hd cs < 2" using chain_valid [OF ch, of "hd cs"] ne valid_ge2 by simp
  then have u: "fat_getClusterForOffset (hd cs) off True fs = offset_walk (unat off div csize fs) (hd cs) (cs ! 0) True fs"
    using hd0 by (simp add: fat_getClusterForOffset_def unat_div)
  obtain r fs' new where o: "offset_walk (unat off div csize fs) (hd cs) (cs ! 0) True fs = Some (r, fs')"
     "is_chain fs' (cs @ new)" "set new \<subseteq> free_clusters fs"
     "changes_only (insert (last cs) (set new)) (set new) fs fs'"
     "\<forall>n \<in> set new. cluster_data fs' n = replicate (csize fs) 0"
     "if 0 + unat off div csize fs < length cs + length new
      then length new = Suc (0 + unat off div csize fs) - length cs \<and> r = Some ((cs @ new) ! (0 + unat off div csize fs))
      else r = None \<and> free_clusters fs' = {}"
    using offset_walk_grow [OF h ch ne(2)] by blast
  have "content fs' cs = content fs cs"
  proof (rule content_cong)
    fix c assume c: "c \<in> set cs"
    show "cluster_data fs' c = cluster_data fs c"
      by (rule changes_only_data [OF o(4) chain_valid [OF ch c]]) (use c chain_not_free [OF g ch] o(3) in blast)
  qed
  moreover have "content fs' new = replicate (length new * csize fs) 0"
    by (rule content_zero) (use o(5) in blast)
  ultimately show ?thesis
    using o unfolding u by (intro exI [of _ r] exI [of _ fs'] exI [of _ new]) (auto split: if_splits)
qed

lemma unat_advance: "unat o1 + n < 2 ^ 64 \<Longrightarrow> unat ((o1 :: u64) + of_nat n) = unat o1 + n"
proof -
  assume a: "unat o1 + n < 2 ^ 64"
  then have "unat (of_nat n :: u64) = n" by (intro unat_of_nat_fits) simp
  then show ?thesis using a by (subst unat_add_fits) simp_all
qed

definition advanced :: "nat \<Rightarrow> file_handle \<Rightarrow> file_handle \<Rightarrow> bool" where
  "advanced w h h' \<longleftrightarrow> offset h' = offset h + of_nat w \<and>
     nodeSize (fatNode h') = (if w = 0 then nodeSize (fatNode h) else max (nodeSize (fatNode h)) (offset h + of_nat w)) \<and>
     nodeFirstCluster (fatNode h') = nodeFirstCluster (fatNode h) \<and> openMode h' = openMode h \<and> closed h' = closed h \<and>
     dirty h' = (dirty h \<or> 0 < w)"

lemma chunk_write:
  assumes h: "fat_healthy fs" and ch: "is_chain fs cs" and i: "unat off div csize fs < length cs"
    and c: "c = min (csize fs - unat off mod csize fs) (length buf)"
  shows "\<exists>data fs'. (if c \<noteq> csize fs then fat_readCluster (cs ! (unat off div csize fs)) fs else Some (replicate (csize fs) 0)) = Some data \<and>
    fat_writeCluster (cs ! (unat off div csize fs)) (put_bytes (unat off mod csize fs) (take c buf) data) fs = (True, fs') \<and>
    changes_only {} {cs ! (unat off div csize fs)} fs fs' \<and>
    content fs' cs = put_bytes (unat off) (take c buf) (content fs cs) \<and> is_chain fs' cs"
proof -
  define k a where "k = unat off div csize fs" and "a = unat off mod csize fs"
  have g: "fat_geom fs" using h by (simp add: fat_healthy_def)
  have S: "a < csize fs" using csize_pos [OF g] by (simp add: a_def)
  have off: "unat off = k * csize fs + a" by (simp add: k_def a_def)
  have v: "valid_cluster fs (cs ! k)" using chain_valid [OF ch] i by (simp add: k_def)
  note ld = length_cluster_data [OF g]
  have "c \<le> csize fs - a" using c by (simp add: a_def)
  then have lp: "a + length (take c buf) \<le> csize fs" using S by simp
  define data where "data = (if c \<noteq> csize fs then cluster_data fs (cs ! k) else replicate (csize fs) 0)"
  have rd: "(if c \<noteq> csize fs then fat_readCluster (cs ! k) fs else Some (replicate (csize fs) 0)) = Some data"
    using healthy_readCluster [OF h v] by (simp add: data_def)
  have pd: "put_bytes a (take c buf) data = put_bytes a (take c buf) (cluster_data fs (cs ! k))"
  proof (cases "c = csize fs")
    case True
    then have "a = 0" "length (take c buf) = csize fs" using c S lp by (auto simp: a_def min_def split: if_splits)
    then show ?thesis using ld by (simp add: put_bytes_full data_def)
  qed (simp add: data_def)
  obtain fs' where w: "fat_writeCluster (cs ! k) (put_bytes a (take c buf) data) fs = (True, fs')"
    using healthy_writeCluster [OF h v] by (metis prod.collapse)
  have "length (put_bytes a (take c buf) data) = csize fs" unfolding pd using lp ld by (simp add: length_put_bytes)
  note e = writeCluster_effect [OF w g v this]
  have "content fs' cs = put_bytes (k * csize fs + a) (take c buf) (content fs cs)"
  proof (rule content_update [OF g ch])
    show "k < length cs" using i by (simp add: k_def)
    show "cluster_data fs' (cs ! k) = put_bytes a (take c buf) (cluster_data fs (cs ! k))"
      using e(3) pd by simp
    show "cluster_data fs' x = cluster_data fs x" if "x \<in> set cs" "x \<noteq> cs ! k" for x
      using changes_only_data [OF e(1) chain_valid [OF ch that(1)]] that(2) by simp
  qed (rule lp)
  moreover have "is_chain fs' cs" by (rule chain_frame [OF e(1) g _ ch]) simp
  ultimately show ?thesis
    using rd w e(1) off unfolding k_def [symmetric] a_def [symmetric] by (intro exI [of _ data] exI [of _ fs']) simp
qed

lemma write_loop_correct:
  assumes "fat_healthy fs" "is_chain fs cs" "hd cs = nodeFirstCluster (fatNode h)" "unat (offset h) + length buf < 2 ^ 64"
  shows "\<exists>w h' fs' new. write_loop buf k h fs = Some (k + w, h', fs') \<and> w \<le> length buf \<and>
    is_chain fs' (cs @ new) \<and> set new \<subseteq> free_clusters fs \<and>
    changes_only (insert (last cs) (set new)) (set cs \<union> set new) fs fs' \<and>
    content fs' (cs @ new) = put_bytes (unat (offset h)) (take w buf) (content fs cs @ replicate (length new * csize fs) 0) \<and>
    advanced w h h' \<and> (w = length buf \<or> free_clusters fs' = {})"
  using assms
proof (induction "length buf" arbitrary: buf k h fs cs rule: less_induct)
  case less
  have g: "fat_geom fs" using less.prems(1) by (simp add: fat_healthy_def)
  show ?case
  proof (cases "buf = []")
    case True
    then show ?thesis
      using less.prems(2) g by (intro exI [of _ 0] exI [of _ h] exI [of _ fs] exI [of _ "[]"])
        (auto simp: write_loop.simps advanced_def fat_geom_def intro: changes_only_refl)
  next
    case buf: False
    obtain r fs1 new1 where gc: "fat_getClusterForOffset (hd cs) (offset h) True fs = Some (r, fs1)"
      and ch1: "is_chain fs1 (cs @ new1)" and nw1: "set new1 \<subseteq> free_clusters fs"
      and co1: "changes_only (insert (last cs) (set new1)) (set new1) fs fs1"
      and ct1: "content fs1 (cs @ new1) = content fs cs @ replicate (length new1 * csize fs) 0"
      and r: "case r of Some c \<Rightarrow> unat (offset h) div csize fs < length (cs @ new1) \<and> c = (cs @ new1) ! (unat (offset h) div csize fs)
        | None \<Rightarrow> free_clusters fs1 = {}"
      using get_cluster_grow [OF less.prems(1,2)] by blast
    show ?thesis
    proof (cases r)
      case None
      then have "write_loop buf k h fs = Some (k + 0, h, fs1)"
        using gc less.prems(3) buf by (subst write_loop.simps) simp
      then show ?thesis
        using None r ch1 nw1 ct1 changes_only_mono [OF co1 subset_refl Un_upper2]
        by (intro exI [of _ 0] exI [of _ h] exI [of _ fs1] exI [of _ new1]) (auto simp: advanced_def)
    next
      case (Some cl)
      have h1: "fat_healthy fs1" by (rule changes_only_healthy [OF co1 less.prems(1)])
      have g1: "fat_geom fs1" using h1 by (simp add: fat_healthy_def)
      have cs1: "csize fs1 = csize fs" using same_volume_addr(5) [OF changes_only_same [OF co1]] by simp
      have S: "0 < csize fs" by (rule csize_pos [OF g])
      define a c where "a = unat (offset h) mod csize fs" and "c = min (csize fs - a) (length buf)"
      have a: "a < csize fs" using S by (simp add: a_def)
      have c: "0 < c" "c \<le> length buf" using a buf by (simp_all add: c_def)
      have idx: "unat (offset h) div csize fs1 < length (cs @ new1)" and cl: "cl = (cs @ new1) ! (unat (offset h) div csize fs)"
        using r Some cs1 by simp_all
      have e: "c = min (csize fs1 - unat (offset h) mod csize fs1) (length buf)" by (simp add: c_def a_def cs1)
      obtain data fs2 where dt: "(if c \<noteq> csize fs then fat_readCluster cl fs1 else Some (replicate (csize fs) 0)) = Some data"
        and wr: "fat_writeCluster cl (put_bytes a (take c buf) data) fs1 = (True, fs2)"
        and co2: "changes_only {} {cl} fs1 fs2"
        and ct2: "content fs2 (cs @ new1) = put_bytes (unat (offset h)) (take c buf) (content fs1 (cs @ new1))"
        and ch2: "is_chain fs2 (cs @ new1)"
        using chunk_write [OF h1 ch1 idx e] unfolding cs1 cl [symmetric] a_def [symmetric] by blast
      define ha where "ha = h\<lparr>offset := offset h + of_nat c\<rparr>"
      define hb where "hb = (if nodeSize (fatNode ha) < offset ha then fat_setSize (offset ha) ha else ha)\<lparr>dirty := True\<rparr>"
      have step: "write_loop buf k h fs = write_loop (drop c buf) (k + c) hb fs2"
        using c(1)
        by (subst write_loop.simps)
          (simp only: buf if_False Let_def gc [unfolded less.prems(3)] Option.bind.simps Some option.case prod.case cs1
            a_def [symmetric] c_def [symmetric] dt wr not_True_eq_False ha_def [symmetric] hb_def [symmetric] less_not_refl
            if_True neq0_conv simp_thms, simp)
      have h2: "fat_healthy fs2" by (rule changes_only_healthy [OF co2 h1])
      have hb: "nodeFirstCluster (fatNode hb) = nodeFirstCluster (fatNode h)" "offset hb = offset h + of_nat c"
        "openMode hb = openMode h" "closed hb = closed h" "dirty hb"
        "nodeSize (fatNode hb) = max (nodeSize (fatNode h)) (offset h + of_nat c)"
        by (auto simp: hb_def ha_def max_def not_less less_imp_le)
      have uo: "unat (offset hb) = unat (offset h) + c"
        unfolding hb(2) by (rule unat_advance) (use c less.prems(4) in simp)
      have ne: "cs \<noteq> []" using less.prems(2) by auto
      have hd1: "hd (cs @ new1) = nodeFirstCluster (fatNode hb)" using ne less.prems(3) hb(1) by simp
      have l1: "length (drop c buf) < length buf" using c by simp
      have l2: "unat (offset hb) + length (drop c buf) < 2 ^ 64" using uo c less.prems(4) by simp
      obtain w h' fs' new2 where IH: "write_loop (drop c buf) (k + c) hb fs2 = Some (k + c + w, h', fs')" "w \<le> length (drop c buf)"
        "is_chain fs' ((cs @ new1) @ new2)" "set new2 \<subseteq> free_clusters fs2"
        "changes_only (insert (last (cs @ new1)) (set new2)) (set (cs @ new1) \<union> set new2) fs2 fs'"
        "content fs' ((cs @ new1) @ new2) = put_bytes (unat (offset hb)) (take w (drop c buf))
           (content fs2 (cs @ new1) @ replicate (length new2 * csize fs2) 0)"
        "advanced w hb h'" "w = length (drop c buf) \<or> free_clusters fs' = {}"
        using less.hyps [OF l1 h2 ch2 hd1 l2, of "k + c"] by blast
      have cs2: "csize fs2 = csize fs" using same_volume_addr(5) [OF changes_only_same [OF co2]] cs1 by simp
      have clin: "cl \<in> set (cs @ new1)" using idx cl cs1 by (metis nth_mem)
      have nw2: "set new2 \<subseteq> free_clusters fs"
      proof
        fix n assume n: "n \<in> set new2"
        then have nf2: "n \<in> free_clusters fs2" using IH(4) by blast
        then have nv: "valid_cluster fs n" "valid_cluster fs1 n"
          using same_volume_addr(6) [OF changes_only_same [OF co2]] same_volume_addr(6) [OF changes_only_same [OF co1]]
          by (auto simp: free_clusters_def)
        have g2: "fat_geom fs2" using h2 by (simp add: fat_healthy_def)
        have "n \<notin> set (cs @ new1)" using chain_not_free [OF g2 ch2] nf2 by blast
        then have "n \<notin> insert (last cs) (set new1)" using ne by auto
        then have "fat_entry fs2 n = fat_entry fs n"
          using changes_only_entry [OF co2 g1 nv(2)] changes_only_entry [OF co1 g nv(1)] by simp
        then show "n \<in> free_clusters fs" using nf2 nv by (simp add: free_clusters_def)
      qed
      have cof: "changes_only (insert (last cs) (set (new1 @ new2))) (set cs \<union> set (new1 @ new2)) fs fs'"
      proof -
        have "changes_only (insert (last cs) (set new1)) (set (cs @ new1)) fs fs2"
          by (rule changes_only_trans [OF co1 co2]) (use clin in auto)
        then show ?thesis
          by (rule changes_only_trans [OF _ IH(5)]) (use ne last_in_set [of new1] in \<open>auto simp: last_append\<close>)
      qed
      let ?Z = "content fs cs @ replicate (length (new1 @ new2) * csize fs) 0"
      have ctf: "content fs' (cs @ new1 @ new2) = put_bytes (unat (offset h)) (take (c + w) buf) ?Z"
      proof -
        have len1: "length (content fs1 (cs @ new1)) = length (cs @ new1) * csize fs" using length_content [OF g1] cs1 by (simp del: content_append)
        have fit: "unat (offset h) + length (take c buf) \<le> length (content fs1 (cs @ new1))"
        proof -
          have o: "unat (offset h) = (unat (offset h) div csize fs) * csize fs + a" by (simp add: a_def)
          have "Suc (unat (offset h) div csize fs) * csize fs \<le> length (cs @ new1) * csize fs"
            using idx cs1 by (intro mult_le_mono1) simp
          then show ?thesis using o a len1 by (simp add: c_def)
        qed
        have "content fs' (cs @ new1 @ new2) = put_bytes (unat (offset h) + length (take c buf)) (take w (drop c buf))
           (put_bytes (unat (offset h)) (take c buf) (content fs1 (cs @ new1) @ replicate (length new2 * csize fs) 0))"
          using IH(6) unfolding uo ct2 cs2 using put_bytes_append1 [OF fit] c(2) by simp
        also have "\<dots> = put_bytes (unat (offset h)) (take c buf @ take w (drop c buf))
           (content fs1 (cs @ new1) @ replicate (length new2 * csize fs) 0)"
          by (rule put_bytes_put_bytes) (use fit in simp)
        also have "take c buf @ take w (drop c buf) = take (c + w) buf" by (simp add: take_add)
        also have "content fs1 (cs @ new1) @ replicate (length new2 * csize fs) 0 = ?Z"
          unfolding ct1 by (simp add: replicate_add add_mult_distrib)
        finally show ?thesis .
      qed
      have adv: "advanced (c + w) h h'"
      proof -
        have "unat (offset h + of_nat (c + w)) = unat (offset h) + (c + w)"
          using IH(2) c less.prems(4) by (intro unat_advance) simp
        then have "offset h + of_nat c \<le> offset h + of_nat (c + w)"
          using uo hb(2) by (simp add: word_le_unat)
        then show ?thesis
          using IH(7) hb c(1) by (auto simp: advanced_def add.assoc max_def)
      qed
      show ?thesis
        using IH(1,2,3,8) step c(2) nw1 nw2 cof ctf adv
        by (intro exI [of _ "c + w"] exI [of _ h'] exI [of _ fs'] exI [of _ "new1 @ new2"]) auto
    qed
  qed
qed

lemma file_read_value:
  assumes "fat_healthy fs" "is_chain fs cs" "hd cs = nodeFirstCluster (fatNode h)"
    "\<not> closed h" "hasMode (openMode h) ModeRead"
  shows "\<exists>h'. file_read n h fs =
      Some (take (unat n) (drop (unat (offset h)) (take (unat (nodeSize (fatNode h))) (content fs cs))), h', fs) \<and>
    h' = h\<lparr>offset := offset h + of_nat (min (unat n)
      (min (unat (nodeSize (fatNode h))) (length (content fs cs)) - unat (offset h)))\<rparr>"
proof (cases "nodeSize (fatNode h) \<le> offset h")
  case True
  then have "unat (nodeSize (fatNode h)) \<le> unat (offset h)" by (simp add: word_le_unat)
  then show ?thesis using True assms(4,5) by (auto simp: file_read_def min_def)
next
  case False
  let ?o = "unat (offset h)" and ?s = "unat (nodeSize (fatNode h))"
  have lt: "?o < ?s" using False by (simp add: word_le_unat)
  define r where "r = unat (if nodeSize (fatNode h) - offset h < n then nodeSize (fatNode h) - offset h else n)"
  have av: "unat (nodeSize (fatNode h) - offset h) = ?s - ?o" using lt by (simp add: unat_sub_fits)
  then have r: "r = min (unat n) (?s - ?o)" by (auto simp: r_def word_less_unat)
  have "?o + r < 2 ^ 64"
    using r lt unsigned_less [of "nodeSize (fatNode h)", where ?'a = nat] by simp
  from read_loop_correct [OF assms(1-3) this, of "[]"] obtain h' where
    h': "read_loop r [] h fs = Some (take r (drop ?o (content fs cs)), h', fs)"
      "h' = h\<lparr>offset := offset h + of_nat (min r (length (content fs cs) - ?o))\<rparr>"
    by auto
  have "file_read n h fs = read_loop r [] h fs"
    using False assms(4,5) by (simp add: file_read_def Let_def r_def)
  moreover have "take r (drop ?o (content fs cs)) = take (unat n) (drop ?o (take ?s (content fs cs)))"
    using lt r by (simp add: drop_take)
  moreover have "min r (length (content fs cs) - ?o) = min (unat n) (min ?s (length (content fs cs)) - ?o)"
    using r by auto
  ultimately show ?thesis using h' by simp
qed

lemma nth_put_window:
  assumes "i + length p \<le> length b" "i + length p \<le> s"
  shows "take (length p) (drop i (take s (put_bytes i p b))) = p"
  using assms by (simp add: put_bytes_def drop_take)

section \<open>Properties\<close>

text \<open>
  C16. \<^verbatim>\<open>read\<close> returns the bytes of the file's content from the current offset, at most as
  many as asked for and none past the size of the file or the end of its chain, advances the offset by their
  number, and changes nothing on the volume.
\<close>

theorem file_read_correct:
  assumes "fat_healthy fs" "is_chain fs cs" "hd cs = nodeFirstCluster (fatNode h)"
    "\<not> closed h" "hasMode (openMode h) ModeRead"
  shows "\<exists>h'. file_read n h fs =
      Some (take (unat n) (drop (unat (offset h)) (take (unat (nodeSize (fatNode h))) (content fs cs))), h', fs) \<and>
    h' = h\<lparr>offset := offset h + of_nat (min (unat n)
      (min (unat (nodeSize (fatNode h))) (length (content fs cs)) - unat (offset h)))\<rparr>"
  by (rule file_read_value [OF assms])

text \<open>
  C17. \<^verbatim>\<open>write\<close> overwrites the content from the current offset with a prefix of the
  buffer, after extending the chain by free clusters of zeroes where the offset or the data need them. It
  writes less than the whole buffer only when the disk is full; the offset, the size and the dirty flag follow;
  no other cluster's content changes.
\<close>

theorem file_write_correct:
  assumes "fat_healthy fs" "is_chain fs cs" "hd cs = nodeFirstCluster (fatNode h)"
    "\<not> closed h" "hasMode (openMode h) ModeWrite" "unat (offset h) + length buf < 2 ^ 64"
  shows "\<exists>w h' fs' new. file_write buf h fs = Some (w, h', fs') \<and> w \<le> length buf \<and>
    is_chain fs' (cs @ new) \<and> set new \<subseteq> free_clusters fs \<and>
    changes_only (insert (last cs) (set new)) (set cs \<union> set new) fs fs' \<and>
    content fs' (cs @ new) = put_bytes (unat (offset h)) (take w buf) (content fs cs @ replicate (length new * csize fs) 0) \<and>
    advanced w h h' \<and> (w = length buf \<or> free_clusters fs' = {})"
proof -
  have "\<not> nodeFirstCluster (fatNode h) < 2"
    using chain_valid [OF assms(2), of "hd cs"] assms(2,3) valid_ge2 by (cases cs) auto
  then have "file_write buf h fs = write_loop buf 0 h fs" using assms(4,5) by (simp add: file_write_def)
  then show ?thesis using write_loop_correct [OF assms(1-3,6), of 0] by simp
qed


end
