(* ===== verification/Vfs.thy ===== *)
theory Vfs
  imports Fat_File
begin

text \<open>
  The virtual file system (\<^verbatim>\<open>kernel/fs/vfs.cpp\<close>, \<^verbatim>\<open>include/fs/vfs.h\<close>):
  the mount table, the choice of a mount point for a path, and the operations that forward to the file system
  mounted there. File system objects are numbered, a mount point holds the number of its object. The virtual
  functions of \<^verbatim>\<open>FileSystem\<close> are a record of operations, with
  \<^verbatim>\<open>FAT32FileSystem\<close> as its instance. A failed \<^verbatim>\<open>ASSERT\<close> is
  \<open>AssertFailed\<close>, an operation of a file system that never returns is \<open>Diverges\<close>.
\<close>

section \<open>The interface of a file system\<close>

record ('s, 'h, 'd) fs_ops =
  op_mount :: "medium option \<Rightarrow> 's \<Rightarrow> bool \<times> 's"
  op_unmount :: "'s \<Rightarrow> bool \<times> 's"
  op_open :: "u8 list \<Rightarrow> u32 \<Rightarrow> 's \<Rightarrow> ((vfs_error + 'h) \<times> 's) option"
  op_openDirectory :: "u8 list \<Rightarrow> 's \<Rightarrow> (vfs_error + 'd) option"
  op_stat :: "u8 list \<Rightarrow> 's \<Rightarrow> (vfs_error + vfs_stat) option"
  op_createFile :: "u8 list \<Rightarrow> 's \<Rightarrow> (vfs_error \<times> 's) option"
  op_createDirectory :: "u8 list \<Rightarrow> 's \<Rightarrow> (vfs_error \<times> 's) option"
  op_remove :: "u8 list \<Rightarrow> 's \<Rightarrow> (vfs_error \<times> 's) option"
  op_rename :: "u8 list \<Rightarrow> u8 list \<Rightarrow> 's \<Rightarrow> (vfs_error \<times> 's) option"

definition fat_ops :: "(fat32, file_handle, dir_handle) fs_ops" where
  "fat_ops = \<lparr>op_mount = fat_mount, op_unmount = fat_unmount, op_open = fat_open,
     op_openDirectory = fat_openDirectory, op_stat = fat_stat, op_createFile = fat_createFile,
     op_createDirectory = fat_createDirectory, op_remove = fat_remove, op_rename = fat_rename\<rparr>"

type_synonym mount_point = "u8 list \<times> nat"

record 's vfs =
  mountPoints :: "mount_point list"
  objects :: "nat \<Rightarrow> 's"

section \<open>Paths and mount points\<close>

definition startsWith :: "u8 list \<Rightarrow> u8 list \<Rightarrow> bool" where
  "startsWith s p \<longleftrightarrow> \<not> length s < length p \<and> (\<forall>i \<in> {..<length p}. s ! i = p ! i)"

definition isValidMountPath :: "u8 list \<Rightarrow> bool" where
  "isValidMountPath path \<longleftrightarrow> (if path = [] then False else path ! 0 = 47)"

definition pathStartsWithMount :: "u8 list \<Rightarrow> u8 list \<Rightarrow> bool" where
  "pathStartsWithMount path mountPath \<longleftrightarrow>
     (if mountPath = [47] then startsWith path [47]
      else if \<not> startsWith path mountPath then False
      else if length path = length mountPath then True
      else path ! length mountPath = 47)"

definition mountMatchLength :: "u8 list \<Rightarrow> u8 list \<Rightarrow> nat" where
  "mountMatchLength path mountPath =
     (if \<not> pathStartsWithMount path mountPath then 0 else length mountPath)"

definition relativePathForMount :: "u8 list \<Rightarrow> u8 list \<Rightarrow> u8 list" where
  "relativePathForMount path mountPath =
     (if mountPath = [47] then path
      else if \<not> pathStartsWithMount path mountPath then path
      else if length path = length mountPath then [47]
      else let relative = drop (length mountPath) path in
           if length relative = 0 then [47] else relative)"

fun best_fs :: "mount_point list \<Rightarrow> u8 list \<Rightarrow> nat option \<Rightarrow> nat \<Rightarrow> nat option" where
  "best_fs [] path best bestLength = best"
| "best_fs ((mp, fs) # ms) path best bestLength =
     (let len = mountMatchLength path mp in
      if bestLength < len then best_fs ms path (Some fs) len else best_fs ms path best bestLength)"

definition fileSystemForPath :: "u8 list \<Rightarrow> 's vfs \<Rightarrow> nat option" where
  "fileSystemForPath path v = best_fs (mountPoints v) path None 0"

text \<open>The loop that every operation repeats to find the path of the mount point.\<close>

fun best_path :: "mount_point list \<Rightarrow> u8 list \<Rightarrow> u8 list \<Rightarrow> nat \<Rightarrow> u8 list" where
  "best_path [] path best bestLength = best"
| "best_path ((mp, fs) # ms) path best bestLength =
     (let len = mountMatchLength path mp in
      if bestLength < len then best_path ms path mp len else best_path ms path best bestLength)"

definition relative_path :: "u8 list \<Rightarrow> 's vfs \<Rightarrow> u8 list" where
  "relative_path path v = relativePathForMount path (best_path (mountPoints v) path [47] 0)"

section \<open>Mounting\<close>

definition vfs_init :: "'s vfs \<Rightarrow> 's vfs" where
  "vfs_init v = v\<lparr>mountPoints := []\<rparr>"

definition vfs_mount ::
  "('s, 'h, 'd) fs_ops \<Rightarrow> u8 list \<Rightarrow> nat option \<Rightarrow> medium option \<Rightarrow> 's vfs \<Rightarrow> (bool \<times> 's vfs) result" where
  "vfs_mount ops path fs device v =
     (case fs of
        None \<Rightarrow> Inl AssertFailed
      | Some f \<Rightarrow>
          if device = None then Inl AssertFailed
          else if \<not> isValidMountPath path then Inl AssertFailed
          else if list_ex (\<lambda>mp. fst mp = path) (mountPoints v) then Inr (False, v)
          else case op_mount ops device (objects v f) of
              (ok, s) \<Rightarrow>
                let v = v\<lparr>objects := (objects v)(f := s)\<rparr> in
                if \<not> ok then Inr (False, v)
                else Inr (True, v\<lparr>mountPoints := mountPoints v @ [(path, f)]\<rparr>))"

fun find_mount :: "nat \<Rightarrow> mount_point list \<Rightarrow> u8 list \<Rightarrow> (nat \<times> nat) option" where
  "find_mount i [] path = None"
| "find_mount i ((mp, fs) # ms) path = (if mp \<noteq> path then find_mount (i + 1) ms path else Some (i, fs))"

definition vector_remove :: "nat \<Rightarrow> 'a list \<Rightarrow> 'a list" where
  "vector_remove index xs = (if length xs \<le> index then xs else take index xs @ drop (index + 1) xs)"

definition vfs_unmount :: "('s, 'h, 'd) fs_ops \<Rightarrow> u8 list \<Rightarrow> 's vfs \<Rightarrow> bool \<times> 's vfs" where
  "vfs_unmount ops path v =
     (case find_mount 0 (mountPoints v) path of
        None \<Rightarrow> (False, v)
      | Some (i, f) \<Rightarrow>
          (case op_unmount ops (objects v f) of
             (ok, s) \<Rightarrow>
               let v = v\<lparr>objects := (objects v)(f := s)\<rparr> in
               if \<not> ok then (False, v)
               else (True, v\<lparr>mountPoints := vector_remove i (mountPoints v)\<rparr>)))"

text \<open>\<^verbatim>\<open>mountRoot\<close>: the new object has the number \<open>f\<close> and the state \<open>fresh\<close>.\<close>

definition vfs_mountRoot ::
  "('s, 'h, 'd) fs_ops \<Rightarrow> medium option \<Rightarrow> nat \<Rightarrow> 's \<Rightarrow> 's vfs \<Rightarrow> 's vfs result" where
  "vfs_mountRoot ops device f fresh v =
     (let v = vfs_init v in
      if device = None then Inr v
      else case vfs_mount ops [47] (Some f) device (v\<lparr>objects := (objects v)(f := fresh)\<rparr>) of
          Inl e \<Rightarrow> Inl e
        | Inr (ok, v) \<Rightarrow> Inr v)"

section \<open>Forwarding\<close>

definition vfs_open :: "('s, 'h, 'd) fs_ops \<Rightarrow> u8 list \<Rightarrow> u32 \<Rightarrow> 's vfs \<Rightarrow> ('h option \<times> 's vfs) result" where
  "vfs_open ops path mode v =
     (case fileSystemForPath path v of
        None \<Rightarrow> Inl AssertFailed
      | Some f \<Rightarrow>
          (case op_open ops (relative_path path v) mode (objects v f) of
             None \<Rightarrow> Inl Diverges
           | Some (r, s) \<Rightarrow>
               let v = v\<lparr>objects := (objects v)(f := s)\<rparr> in
               (case r of Inl e \<Rightarrow> Inr (None, v) | Inr h \<Rightarrow> Inr (Some h, v))))"

definition vfs_openDirectory :: "('s, 'h, 'd) fs_ops \<Rightarrow> u8 list \<Rightarrow> 's vfs \<Rightarrow> 'd option result" where
  "vfs_openDirectory ops path v =
     (case fileSystemForPath path v of
        None \<Rightarrow> Inl AssertFailed
      | Some f \<Rightarrow>
          (case op_openDirectory ops (relative_path path v) (objects v f) of
             None \<Rightarrow> Inl Diverges
           | Some (Inl e) \<Rightarrow> Inr None
           | Some (Inr d) \<Rightarrow> Inr (Some d)))"

definition vfs_stat_at :: "('s, 'h, 'd) fs_ops \<Rightarrow> u8 list \<Rightarrow> 's vfs \<Rightarrow> vfs_stat option result" where
  "vfs_stat_at ops path v =
     (case fileSystemForPath path v of
        None \<Rightarrow> Inl AssertFailed
      | Some f \<Rightarrow>
          (case op_stat ops (relative_path path v) (objects v f) of
             None \<Rightarrow> Inl Diverges
           | Some (Inl e) \<Rightarrow> Inr None
           | Some (Inr st) \<Rightarrow> Inr (Some st)))"

definition vfs_exists :: "('s, 'h, 'd) fs_ops \<Rightarrow> u8 list \<Rightarrow> 's vfs \<Rightarrow> bool result" where
  "vfs_exists ops path v = map_sum id (\<lambda>st. st \<noteq> None) (vfs_stat_at ops path v)"

definition vfs_isFile :: "('s, 'h, 'd) fs_ops \<Rightarrow> u8 list \<Rightarrow> 's vfs \<Rightarrow> bool result" where
  "vfs_isFile ops path v =
     map_sum id (\<lambda>st. case st of None \<Rightarrow> False | Some st \<Rightarrow> st_type st = FileNode) (vfs_stat_at ops path v)"

definition vfs_isDirectory :: "('s, 'h, 'd) fs_ops \<Rightarrow> u8 list \<Rightarrow> 's vfs \<Rightarrow> bool result" where
  "vfs_isDirectory ops path v =
     map_sum id (\<lambda>st. case st of None \<Rightarrow> False | Some st \<Rightarrow> st_type st = DirectoryNode) (vfs_stat_at ops path v)"

text \<open>The body that \<^verbatim>\<open>createFile\<close>, \<^verbatim>\<open>createDirectory\<close> and \<^verbatim>\<open>remove\<close> share.\<close>

definition vfs_change ::
  "(u8 list \<Rightarrow> 's \<Rightarrow> (vfs_error \<times> 's) option) \<Rightarrow> u8 list \<Rightarrow> 's vfs \<Rightarrow> (bool \<times> 's vfs) result" where
  "vfs_change change path v =
     (case fileSystemForPath path v of
        None \<Rightarrow> Inr (False, v)
      | Some f \<Rightarrow>
          (case change (relative_path path v) (objects v f) of
             None \<Rightarrow> Inl Diverges
           | Some (e, s) \<Rightarrow> Inr (e = NoError, v\<lparr>objects := (objects v)(f := s)\<rparr>)))"

definition vfs_createFile :: "('s, 'h, 'd) fs_ops \<Rightarrow> u8 list \<Rightarrow> 's vfs \<Rightarrow> (bool \<times> 's vfs) result" where
  "vfs_createFile ops path v = vfs_change (op_createFile ops) path v"

definition vfs_createDirectory :: "('s, 'h, 'd) fs_ops \<Rightarrow> u8 list \<Rightarrow> 's vfs \<Rightarrow> (bool \<times> 's vfs) result" where
  "vfs_createDirectory ops path v = vfs_change (op_createDirectory ops) path v"

definition vfs_remove :: "('s, 'h, 'd) fs_ops \<Rightarrow> u8 list \<Rightarrow> 's vfs \<Rightarrow> (bool \<times> 's vfs) result" where
  "vfs_remove ops path v = vfs_change (op_remove ops) path v"

definition vfs_rename :: "('s, 'h, 'd) fs_ops \<Rightarrow> u8 list \<Rightarrow> u8 list \<Rightarrow> 's vfs \<Rightarrow> (bool \<times> 's vfs) result" where
  "vfs_rename ops oldPath newPath v =
     (case (fileSystemForPath oldPath v, fileSystemForPath newPath v) of
        (Some f, Some g) \<Rightarrow>
          if f \<noteq> g then Inr (False, v)
          else (case op_rename ops (relative_path oldPath v) (relative_path newPath v) (objects v f) of
              None \<Rightarrow> Inl Diverges
            | Some (e, s) \<Rightarrow> Inr (e = NoError, v\<lparr>objects := (objects v)(f := s)\<rparr>))
      | _ \<Rightarrow> Inr (False, v))"

definition vfs_mounts :: "'s vfs \<Rightarrow> mount_point list" where
  "vfs_mounts v = mountPoints v"

section \<open>Which mount point a path belongs to\<close>

text \<open>\<open>under mp path\<close>: the path names the mount point or something below it.\<close>

definition under :: "u8 list \<Rightarrow> u8 list \<Rightarrow> bool" where
  "under mp path \<longleftrightarrow> (if mp = [47] then path \<noteq> [] \<and> hd path = 47
     else \<exists>rest. path = mp @ rest \<and> (rest = [] \<or> hd rest = 47))"

lemma startsWith_prefix: "startsWith s p \<longleftrightarrow> (\<exists>rest. s = p @ rest)"
proof
  assume "startsWith s p"
  then have "s = p @ drop (length p) s"
    by (intro nth_equalityI) (auto simp: startsWith_def nth_append)
  then show "\<exists>rest. s = p @ rest" by blast
qed (auto simp: startsWith_def nth_append)

lemma pathStartsWithMount_under: "pathStartsWithMount path mp \<longleftrightarrow> under mp path"
proof (cases "mp = [47]")
  case True
  then show ?thesis
    by (cases path) (auto simp: pathStartsWithMount_def under_def startsWith_def)
next
  case False
  then show ?thesis
    by (auto simp: pathStartsWithMount_def under_def startsWith_prefix nth_append hd_conv_nth)
qed

lemma mountMatchLength_pos: "mp \<noteq> [] \<Longrightarrow> 0 < mountMatchLength path mp \<longleftrightarrow> under mp path"
  by (simp add: mountMatchLength_def pathStartsWithMount_under)

text \<open>Both loops pick the same mount point, the first of the longest that match.\<close>

definition chosen :: "mount_point list \<Rightarrow> u8 list \<Rightarrow> mount_point \<Rightarrow> bool" where
  "chosen ms path m \<longleftrightarrow> m \<in> set ms \<and> under (fst m) path \<and>
     (\<forall>m' \<in> set ms. under (fst m') path \<longrightarrow> length (fst m') \<le> length (fst m))"

lemma best_loops:
  assumes "\<forall>m \<in> set ms. fst m \<noteq> []"
  shows "(\<forall>m \<in> set ms. mountMatchLength path (fst m) \<le> n) \<and> best_fs ms path b n = b \<and> best_path ms path p n = p \<or>
    (\<exists>m. chosen ms path m \<and> n < length (fst m) \<and> best_fs ms path b n = Some (snd m) \<and> best_path ms path p n = fst m)"
  using assms
proof (induction ms arbitrary: b p n)
  case (Cons m0 ms)
  obtain mp fs where m0: "m0 = (mp, fs)" by fastforce
  have ne: "mp \<noteq> []" using Cons.prems m0 by simp
  let ?l = "mountMatchLength path mp"
  have len: "mountMatchLength path x = (if under x path then length x else 0)" for x
    by (simp add: mountMatchLength_def pathStartsWithMount_under)
  show ?case
  proof (cases "n < ?l")
    case False
    have "(\<forall>m \<in> set ms. mountMatchLength path (fst m) \<le> n) \<and> best_fs ms path b n = b \<and> best_path ms path p n = p \<or>
      (\<exists>m. chosen ms path m \<and> n < length (fst m) \<and> best_fs ms path b n = Some (snd m) \<and> best_path ms path p n = fst m)"
      by (rule Cons.IH) (use Cons.prems in simp)
    then show ?thesis
      using False by (auto simp: m0 Let_def chosen_def len split: if_splits)
  next
    case True
    then have u: "under mp path" "?l = length mp" by (auto simp: len split: if_splits)
    have "(\<forall>m \<in> set ms. mountMatchLength path (fst m) \<le> ?l) \<and> best_fs ms path (Some fs) ?l = Some fs \<and> best_path ms path mp ?l = mp \<or>
      (\<exists>m. chosen ms path m \<and> ?l < length (fst m) \<and> best_fs ms path (Some fs) ?l = Some (snd m) \<and> best_path ms path mp ?l = fst m)"
      by (rule Cons.IH) (use Cons.prems in simp)
    then show ?thesis
    proof
      assume a: "(\<forall>m \<in> set ms. mountMatchLength path (fst m) \<le> ?l) \<and> best_fs ms path (Some fs) ?l = Some fs \<and> best_path ms path mp ?l = mp"
      then have "length (fst m') \<le> length mp" if "m' \<in> set ms" "under (fst m') path" for m'
        using that u by (auto simp: len)
      then have "chosen (m0 # ms) path m0" using u(1) by (auto simp: chosen_def m0)
      then show ?thesis using a True u(2) by (intro disjI2 exI [of _ m0]) (simp add: m0 Let_def)
    next
      assume "\<exists>m. chosen ms path m \<and> ?l < length (fst m) \<and> best_fs ms path (Some fs) ?l = Some (snd m) \<and> best_path ms path mp ?l = fst m"
      then obtain m where m: "chosen ms path m" "?l < length (fst m)" "best_fs ms path (Some fs) ?l = Some (snd m)"
        "best_path ms path mp ?l = fst m" by blast
      then have "chosen (m0 # ms) path m" using u by (auto simp: chosen_def m0)
      then show ?thesis using m True by (intro disjI2 exI [of _ m]) (simp add: m0 Let_def)
    qed
  qed
qed simp

section \<open>Mounting and unmounting\<close>

text \<open>What the mount table relies on in a file system.\<close>

locale mountable =
  fixes mnt :: "medium option \<Rightarrow> 's \<Rightarrow> bool \<times> 's"
    and unm :: "'s \<Rightarrow> bool \<times> 's"
    and mounted :: "'s \<Rightarrow> bool"
  assumes mount_ok: "mnt d s = (True, s') \<Longrightarrow> \<not> mounted s \<and> mounted s'"
    and mount_fail: "mnt d s = (False, s') \<Longrightarrow> mounted s' = mounted s"
    and unmount_ok: "mounted s \<Longrightarrow> \<exists>s'. unm s = (True, s') \<and> \<not> mounted s'"
    and unmount_none: "\<not> mounted s \<Longrightarrow> unm s = (False, s)"
begin

lemma unmount_after_mount: "mnt d s = (True, s') \<Longrightarrow> \<exists>s''. unm s' = (True, s'') \<and> \<not> mounted s''"
  using mount_ok unmount_ok by blast

lemma mount_twice: "mnt d s = (True, s') \<Longrightarrow> \<not> fst (mnt e s')"
  using mount_ok by (metis prod.collapse)

lemma unmount_twice: "unm s = (True, s') \<Longrightarrow> unm s' = (False, s')"
  using unmount_ok [of s] unmount_none by (cases "mounted s") force+

end

interpretation fat_fs: mountable fat_mount fat_unmount f_mounted
proof unfold_locales
  fix d :: "medium option" and s s' :: fat32
  show "fat_mount d s = (True, s') \<Longrightarrow> \<not> f_mounted s \<and> f_mounted s'"
    by (auto simp: fat_mount_def Let_def split: option.splits prod.splits if_splits)
  show "fat_mount d s = (False, s') \<Longrightarrow> f_mounted s' = f_mounted s"
    by (auto simp: fat_mount_def fat_readBootSector_def Let_def split: option.splits prod.splits if_splits)
  show "f_mounted s \<Longrightarrow> \<exists>s'. fat_unmount s = (True, s') \<and> \<not> f_mounted s'"
    by (simp add: fat_unmount_def)
  show "\<not> f_mounted s \<Longrightarrow> fat_unmount s = (False, s)"
    by (simp add: fat_unmount_def)
qed

definition vfs_ok :: "'s vfs \<Rightarrow> bool" where
  "vfs_ok v \<longleftrightarrow> distinct (map fst (mountPoints v)) \<and> (\<forall>m \<in> set (mountPoints v). isValidMountPath (fst m))"

lemma find_mount_value:
  "find_mount i ms path = Some (j, f) \<Longrightarrow> i \<le> j \<and> j < i + length ms \<and> ms ! (j - i) = (path, f)"
proof (induction i ms path rule: find_mount.induct)
  case (2 i mp fs ms path)
  then show ?case by (cases "mp = path") (auto simp: nth_Cons' split: if_splits)
qed simp

lemma find_mount_new: "path \<notin> fst ` set ms \<Longrightarrow> find_mount i (ms @ [(path, f)]) path = Some (i + length ms, f)"
  by (induction ms arbitrary: i) auto

lemma vfs_mount_cases:
  assumes "vfs_mount ops path fs device v = Inr (ok, v')"
  obtains f where "fs = Some f" "device \<noteq> None" "isValidMountPath path"
    "\<not> ok" "mountPoints v' = mountPoints v"
  | f s where "fs = Some f" "isValidMountPath path" "path \<notin> fst ` set (mountPoints v)"
    "op_mount ops device (objects v f) = (True, s)" "ok"
    "v' = v\<lparr>objects := (objects v)(f := s), mountPoints := mountPoints v @ [(path, f)]\<rparr>"
proof -
  have f: "\<exists>f. fs = Some f \<and> device \<noteq> None \<and> isValidMountPath path"
    using assms by (auto simp: vfs_mount_def split: option.splits if_splits)
  then obtain f where f: "fs = Some f" "device \<noteq> None" "isValidMountPath path" by blast
  obtain b s where m: "op_mount ops device (objects v f) = (b, s)" by fastforce
  consider "path \<in> fst ` set (mountPoints v)" | "path \<notin> fst ` set (mountPoints v)" "\<not> b" | "path \<notin> fst ` set (mountPoints v)" b
    by blast
  then show thesis
  proof cases
    case 1
    then have "list_ex (\<lambda>mp. fst mp = path) (mountPoints v)" by (auto simp: list_ex_iff)
    then show thesis using assms f by (intro that(1) [OF f]) (simp_all add: vfs_mount_def)
  next
    case 2
    then have "\<not> list_ex (\<lambda>mp. fst mp = path) (mountPoints v)" by (auto simp: list_ex_iff)
    then show thesis using assms f m 2 by (intro that(1) [OF f]) (auto simp: vfs_mount_def Let_def)
  next
    case 3
    then have "\<not> list_ex (\<lambda>mp. fst mp = path) (mountPoints v)" by (auto simp: list_ex_iff)
    then show thesis using assms f m 3 by (intro that(2) [OF f(1,3)]) (auto simp: vfs_mount_def Let_def)
  qed
qed

lemma vfs_unmount_ok: "vfs_ok v \<Longrightarrow> vfs_ok (snd (vfs_unmount ops path v))"
proof -
  assume ok: "vfs_ok v"
  have sub: "set (vector_remove i ms) \<subseteq> set ms" for i and ms :: "mount_point list"
    by (auto simp: vector_remove_def dest: in_set_takeD in_set_dropD)
  moreover have "distinct (map fst (vector_remove i (mountPoints v)))" for i
  proof -
    have "map fst (vector_remove i ms) = vector_remove i (map fst ms)" for ms :: "mount_point list"
      by (simp add: vector_remove_def take_map drop_map)
    moreover have "distinct xs \<Longrightarrow> distinct (vector_remove i xs)" for xs :: "u8 list list"
      using set_take_disj_set_drop_if_distinct [of xs i "i + 1"] by (simp add: vector_remove_def)
    ultimately show ?thesis using ok by (simp add: vfs_ok_def)
  qed
  ultimately have "vfs_ok (v\<lparr>objects := s, mountPoints := vector_remove i (mountPoints v)\<rparr>)" for i s
    using ok subsetD [OF sub] unfolding vfs_ok_def by auto
  then show ?thesis
    using ok by (auto simp: vfs_unmount_def vfs_ok_def Let_def split: option.splits prod.splits)
qed

section \<open>Properties\<close>

lemma splitPath_concat:
  "rest = [] \<or> hd rest = 47 \<Longrightarrow> splitPath (mp @ rest) = splitPath mp @ splitPath rest"
proof -
  have "split_acc acc (xs @ 47 # ys) = split_acc acc xs @ split_acc [] ys" for acc xs ys
    by (induction acc xs rule: split_acc.induct) auto
  moreover assume "rest = [] \<or> hd rest = 47"
  ultimately show ?thesis
    by (cases rest) (auto simp: splitPath_acc splitPath.simps [of "[]"])
qed

text \<open>
  C19. A path is served by the mount point with the longest matching path: the file system that
  \<^verbatim>\<open>fileSystemForPath\<close> returns and the mount path that the operations compute on their own
  belong to the same entry of the table, no other matching entry is longer, and there is none exactly when no
  mount point is above the path. The relative path handed on has the path's components less those of the
  mount point.
\<close>

theorem vfs_longest_mount:
  assumes "vfs_ok v"
  shows "case fileSystemForPath path v of
      None \<Rightarrow> \<forall>m \<in> set (mountPoints v). \<not> under (fst m) path
    | Some f \<Rightarrow> \<exists>mp. chosen (mountPoints v) path (mp, f) \<and> relative_path path v = relativePathForMount path mp \<and>
        splitPath path = splitPath mp @ splitPath (relative_path path v)"
proof -
  have ne: "\<forall>m \<in> set (mountPoints v). fst m \<noteq> []"
    using assms by (auto simp: vfs_ok_def isValidMountPath_def split: if_splits)
  have split: "splitPath path = splitPath mp @ splitPath (relativePathForMount path mp)" if u: "under mp path" for mp
  proof (cases "mp = [47]")
    case True
    then show ?thesis by (simp add: relativePathForMount_def splitPath_acc)
  next
    case False
    then obtain rest where r: "path = mp @ rest" "rest = [] \<or> hd rest = 47" using u by (auto simp: under_def)
    have "splitPath [47] = []" "splitPath [] = []" by (simp_all add: splitPath_acc)
    then show ?thesis
      using splitPath_concat [OF r(2), of mp] u r False
      by (auto simp: relativePathForMount_def pathStartsWithMount_under Let_def)
  qed
  consider "\<forall>m \<in> set (mountPoints v). mountMatchLength path (fst m) \<le> 0" "fileSystemForPath path v = None"
    | m where "chosen (mountPoints v) path m" "fileSystemForPath path v = Some (snd m)"
      "best_path (mountPoints v) path [47] 0 = fst m"
    using best_loops [where ms = "mountPoints v" and path = path and n = 0 and b = None and p = "[47]", OF ne] unfolding fileSystemForPath_def by metis
  then show ?thesis
  proof cases
    case 1
    have "\<not> under (fst m) path" if m: "m \<in> set (mountPoints v)" for m
    proof -
      have "mountMatchLength path (fst m) = 0" using 1(1) m by simp
      then show ?thesis using mountMatchLength_pos [of "fst m" path] ne m by simp
    qed
    then show ?thesis using 1(2) by simp
  next
    case 2
    then have "under (fst m) path" by (simp add: chosen_def)
    then show ?thesis
      using 2 split [of "fst m"] by (auto simp: relative_path_def intro!: exI [of _ "fst m"])
  qed
qed

text \<open>
  Mount points have distinct, absolute paths at all times, and unmounting undoes a mount: after a
  successful mount of a FAT32 volume the unmount of the same path succeeds, leaves the volume unmounted and
  the table as it was.
\<close>

theorem vfs_mount_unmount:
  assumes "vfs_ok v" "vfs_mount fat_ops path fs device v = Inr (ok, v')"
  shows "vfs_ok v' \<and> vfs_ok (snd (vfs_unmount fat_ops path v')) \<and>
    (ok \<longrightarrow> (\<exists>f v''. fs = Some f \<and> vfs_unmount fat_ops path v' = (True, v'') \<and>
       mountPoints v'' = mountPoints v \<and> \<not> f_mounted (objects v'' f)))"
proof -
  have "vfs_ok v' \<and> (ok \<longrightarrow> (\<exists>f v''. fs = Some f \<and> vfs_unmount fat_ops path v' = (True, v'') \<and>
       mountPoints v'' = mountPoints v \<and> \<not> f_mounted (objects v'' f)))"
    using assms(2)
  proof (cases rule: vfs_mount_cases)
    case 1
    then show ?thesis using assms(1) by (simp add: vfs_ok_def)
  next
    case (2 f s)
    then have "fat_mount device (objects v f) = (True, s)" by (simp add: fat_ops_def)
    from fat_fs.unmount_after_mount [OF this] obtain s'' where u: "fat_unmount s = (True, s'')" "\<not> f_mounted s''"
      by blast
    have "vfs_unmount fat_ops path v' =
        (True, v'\<lparr>objects := (objects v')(f := s''), mountPoints := mountPoints v\<rparr>)"
      using 2 u by (simp add: vfs_unmount_def find_mount_new vector_remove_def fat_ops_def)
    moreover have "vfs_ok v'" using 2 assms(1) by (auto simp: vfs_ok_def)
    ultimately show ?thesis using 2(1) u(2) by simp
  qed
  then show ?thesis using vfs_unmount_ok by blast
qed

text \<open>
  A file system mounted at a path that ends in a slash, other than the root, cannot be reached:
  the path is accepted, but no path below it belongs to it.
\<close>

theorem vfs_trailing_slash:
  assumes "mp \<noteq> []" "name \<noteq> []" "hd name \<noteq> 47"
  shows "isValidMountPath (mp @ [47]) = isValidMountPath mp \<and>
    \<not> pathStartsWithMount (mp @ [47] @ name) (mp @ [47])"
  using assms by (auto simp: isValidMountPath_def nth_append pathStartsWithMount_under under_def)

lemma outside_mounts:
  assumes "vfs_ok v" "\<And>m. m \<in> set (mountPoints v) \<Longrightarrow> \<not> under (fst m) path"
  shows "fileSystemForPath path v = None"
proof -
  have ne: "\<forall>m \<in> set (mountPoints v). fst m \<noteq> []"
    using assms(1) by (auto simp: vfs_ok_def isValidMountPath_def split: if_splits)
  have "\<not> chosen (mountPoints v) path m" for m using assms(2) by (auto simp: chosen_def)
  then show ?thesis
    using best_loops [where ms = "mountPoints v" and path = path and n = 0 and b = None and p = "[47]", OF ne] unfolding fileSystemForPath_def by blast
qed

text \<open>Every mount path starts with a slash, so a relative path is below none.\<close>

lemma relative_unmounted:
  assumes "vfs_ok v" "path = [] \<or> hd path \<noteq> 47"
  shows "fileSystemForPath path v = None"
proof (rule outside_mounts [OF assms(1)])
  fix m assume "m \<in> set (mountPoints v)"
  then have "fst m \<noteq> []" "hd (fst m) = 47"
    using assms(1) by (auto simp: vfs_ok_def isValidMountPath_def hd_conv_nth split: if_splits)
  then show "\<not> under (fst m) path" using assms(2) by (auto simp: under_def)
qed

text \<open>
  Asking for a path outside every mount point halts the kernel: \<^verbatim>\<open>exists\<close>,
  \<^verbatim>\<open>isFile\<close>, \<^verbatim>\<open>stat\<close> and \<^verbatim>\<open>open\<close> run into the
  assertion, while \<^verbatim>\<open>createFile\<close> and \<^verbatim>\<open>remove\<close> report failure.
\<close>

theorem vfs_unmounted_path:
  assumes "vfs_ok v" "\<And>m. m \<in> set (mountPoints v) \<Longrightarrow> \<not> under (fst m) path"
  shows "vfs_exists ops path v = Inl AssertFailed \<and> vfs_isFile ops path v = Inl AssertFailed \<and>
    vfs_open ops path mode v = Inl AssertFailed \<and> vfs_createFile ops path v = Inr (False, v) \<and>
    vfs_remove ops path v = Inr (False, v)"
  using outside_mounts [OF assms]
  by (simp add: vfs_exists_def vfs_isFile_def vfs_stat_at_def vfs_open_def vfs_createFile_def vfs_remove_def vfs_change_def)

end
