(* ===== verification/Fat_Witnesses.thy ===== *)
theory Fat_Witnesses
  imports Fat_Chain
begin

text \<open>
  A concrete volume of eight one-sector clusters with two copies of the table, on which the properties of
  the file allocation table are applied: cluster 2 is a chain of one, 3 and 4 form a chain, 5 and 6 a cycle,
  7, 8 and 9 are free.
\<close>

definition table8 :: "u8 list" where
  "table8 = concat (map bytes32 [0x0FFFFFF8, 0x0FFFFFFF, 0x0FFFFFFF, 4, 0x0FFFFFFF, 6, 5, 0, 0, 0]) @ replicate 472 0"

definition disk8 :: medium where
  "disk8 = \<lparr>m_blocks = 12, m_sector = (\<lambda>s. if s = 2 \<or> s = 3 then table8 else replicate 512 0),
     m_unreadable = (\<lambda>_. False), m_unwritable = (\<lambda>_. False)\<rparr>"

definition info8 :: fsinfo where
  "info8 = \<lparr>leadSignature = 0x41615252, reserved0 = replicate 480 0, structureSignature = 0x61417272,
     freeClusterCount = 3, nextFreeCluster = 7, reserved1 = replicate 12 0, trailSignature = 0xAA550000\<rparr>"

definition vol8 :: fat32 where
  "vol8 = \<lparr>f_disk = disk8, f_attached = True, f_mounted = True, f_readOnly = False,
     f_bpb = \<lparr>bytesPerSector = 512, sectorsPerCluster = 1, reservedSectorCount = 2, tableCount = 2,
       totalSectors16 = 12, totalSectors32 = 0, tableSize32 = 1, rootCluster = 2, fsInfoSector = 1\<rparr>,
     f_info = info8, f_firstSector = 2, f_firstDataSector = 4, f_totalSectors = 12, f_totalClusters = 8,
     f_signature = 0xAA55\<rparr>"

lemma vol8_healthy: "fat_healthy vol8" "fat_geom vol8"
proof -
  have "length table8 = 512" by (simp add: table8_def)
  then show "fat_healthy vol8" "fat_geom vol8"
    by (simp_all add: fat_healthy_def fat_geom_def vol8_def disk8_def disk_ok_def disk_healthy_def info8_def)
qed

lemma vol8_valid: "valid_cluster vol8 c \<longleftrightarrow> 2 \<le> unat c \<and> unat c < 10"
  by (simp add: valid_cluster_def vol8_def)

lemma vol8_entries:
  "fat_entry vol8 2 = 0x0FFFFFFF" "fat_entry vol8 3 = 4" "fat_entry vol8 4 = 0x0FFFFFFF"
  "fat_entry vol8 5 = 6" "fat_entry vol8 6 = 5" "fat_entry vol8 7 = 0" "fat_entry vol8 8 = 0" "fat_entry vol8 9 = 0"
  by (simp_all add: fat_entry_def table_sector_def entry_sector_def entry_offset_def vol8_def disk8_def
      table8_def bytes32_def get32_def)

lemma vol8_chains: "is_chain vol8 [3, 4]" "is_chain vol8 [2]"
  by (simp_all add: vol8_valid vol8_entries isEndOfChain_def)

lemma fat_entry_write_witness:
  "\<exists>fs'. fat_writeFATEntry 7 9 vol8 = (True, fs') \<and> fat_copy 1 fs' 7 = 9 \<and> fat_copy 1 fs' 3 = fat_copy 1 vol8 3"
proof -
  have v: "valid_cluster vol8 7" "valid_cluster vol8 3" by (simp_all add: vol8_valid)
  obtain fs' where w: "fat_writeFATEntry 7 9 vol8 = (True, fs')"
    using healthy_writeFATEntry [OF vol8_healthy(1) v(1)] by (metis prod.collapse)
  have "unat (1 :: u8) < unat (tableCount (f_bpb vol8))" by (simp add: vol8_def)
  then show ?thesis
    using fat_entry_write [OF vol8_healthy(2) v(1) w] v w by (simp add: exI [of _ fs'])
qed

lemma vol8_free: "7 \<in> free_clusters vol8" "free_clusters vol8 \<noteq> {}"
proof -
  show "7 \<in> free_clusters vol8" by (simp add: free_clusters_def vol8_valid vol8_entries FreeCluster_def)
  then show "free_clusters vol8 \<noteq> {}" by blast
qed

lemma fat_allocate_correct_witness:
  "\<exists>c fs'. fat_allocateCluster vol8 = (Some c, fs') \<and> fat_entry vol8 c = 0 \<and> fat_entry fs' c = 0x0FFFFFFF"
proof -
  obtain r fs' where a: "fat_allocateCluster vol8 = (r, fs')" by fastforce
  from fat_allocate_correct [OF vol8_healthy(2) a] show ?thesis
    using a vol8_free(2) vol8_healthy(1)
    by (cases r) (auto simp: free_clusters_def FreeCluster_def)
qed

lemma fat_free_chain_correct_witness:
  "\<exists>fs'. fat_freeClusterChain 3 vol8 = Some (True, fs') \<and> 4 \<in> free_clusters fs' \<and> is_chain fs' [2]"
  using fat_free_chain_correct [OF vol8_healthy(1) vol8_chains(1)] vol8_chains(2) by fastforce

lemma fat_free_terminates_witness: "fat_freeClusterChain 5 vol8 \<noteq> None"
proof -
  have "disk_ok (f_disk vol8)" "bytesPerSector (f_bpb vol8) = 512" "tableCount (f_bpb vol8) \<noteq> 0"
    using vol8_healthy(2) by (simp_all add: fat_geom_def)
  from fat_free_terminates [OF this, of 5] show ?thesis by auto
qed

lemma fat_extend_correct_witness:
  "\<exists>n fs'. fat_extendClusterChain 3 vol8 = Some (Some n, fs') \<and> is_chain fs' [3, 4, n]"
  using fat_extend_correct [OF vol8_healthy(1) vol8_chains(1)] vol8_free(2)
  by (auto split: option.splits)

lemma fat_extend_diverges_witness: "fat_extendClusterChain 5 vol8 = None"
proof -
  have r: "fat_readFATEntry 5 vol8 = Some 6" "fat_readFATEntry 6 vol8 = Some 5"
    using healthy_readFATEntry [OF vol8_healthy(1)] by (simp_all add: vol8_valid vol8_entries)
  have "\<exists>y \<in> {5, 6}. fat_readFATEntry x vol8 = Some y \<and> 2 \<le> x \<and> x < 0x0FFFFFF7" if "x \<in> {5, 6}" for x
    using that r by (auto simp: word_le_unat word_less_unat)
  then show ?thesis using fat_extend_diverges [of 5 "{5, 6}" vol8] by simp
qed

lemma fat_offset_correct_witness:
  "fat_getClusterForOffset 3 600 False vol8 = Some (Some 4, vol8) \<and>
   fat_getClusterForOffset 3 1024 False vol8 = Some (None, vol8)"
proof -
  have "unat (fat_clusterSize vol8) = 512" by (simp add: fat_clusterSize_def vol8_def)
  then show ?thesis
    using fat_offset_correct [OF vol8_healthy(1) vol8_chains(1), of 600 False]
      fat_offset_correct [OF vol8_healthy(1) vol8_chains(1), of 1024 False] by (simp add: Let_def)
qed

end
