(* ===== verification/Vfs_Witnesses.thy ===== *)
theory Vfs_Witnesses
  imports Vfs Fat_Witnesses
begin

text \<open>
  The properties of open files and of the mount table at concrete inputs: a file of 700 bytes on the
  chain 3, 4 of the volume \<open>vol8\<close>, a mount table with two entries, and a disk with a boot sector
  that can be mounted.
\<close>

section \<open>A file\<close>

definition file8 :: file_handle where
  "file8 = \<lparr>fatNode = \<lparr>nodeName = [97], nodeFirstCluster = 3, nodeSize = 700, entryInfo = None\<rparr>,
     openMode = 3, offset = 600, closed = False, dirty = False\<rparr>"

lemma file8_ok: "hd [3, 4] = nodeFirstCluster (fatNode file8)" "\<not> closed file8"
    "hasMode (openMode file8) ModeRead" "hasMode (openMode file8) ModeWrite"
  by (simp_all add: file8_def hasMode_def ModeRead_def ModeWrite_def)

lemma vol8_content: "content vol8 [3, 4] = replicate 1024 0"
proof -
  have d: "cluster_data vol8 c = replicate 512 0" if "c = 3 \<or> c = 4" for c
    using that by (auto simp: cluster_data_def vol8_def disk8_def fat_clusterToSector_def)
  have "content vol8 [3, 4] = replicate (length [3, 4 :: u32] * 512) 0"
    by (rule content_zero) (use d in auto)
  then show ?thesis by simp
qed

lemma file_read_correct_witness:
  "\<exists>h. file_read 200 file8 vol8 = Some (replicate 100 0, h, vol8) \<and> offset h = 700"
  using file_read_correct [OF vol8_healthy(1) vol8_chains(1) file8_ok(1-3), of 200]
  unfolding vol8_content by (simp add: file8_def)

lemma file_write_correct_witness:
  "\<exists>w h fs. file_write [1, 2, 3] file8 vol8 = Some (w, h, fs) \<and> w \<le> 3"
proof -
  have "unat (offset file8) + length [1, 2, 3 :: u8] < 2 ^ 64" by (simp add: file8_def)
  from file_write_correct [OF vol8_healthy(1) vol8_chains(1) file8_ok(1,2,4) this] show ?thesis by auto
qed


section \<open>A mount table\<close>

text \<open>\<^verbatim>\<open>/\<close> and \<^verbatim>\<open>/m\<close>\<close>

definition vfs2 :: "fat32 vfs" where
  "vfs2 = \<lparr>mountPoints = [([47], 0), ([47, 109], 1)], objects = (\<lambda>_. vol8)\<rparr>"

lemma vfs2_ok: "vfs_ok vfs2"
  by (simp add: vfs_ok_def vfs2_def isValidMountPath_def)

lemma vfs2_fs: "fileSystemForPath [47, 109, 47, 97] vfs2 = Some 1"
  by (simp add: fileSystemForPath_def vfs2_def mountMatchLength_def pathStartsWithMount_under under_def Let_def)

lemma vfs_longest_mount_witness: "\<exists>mp. chosen (mountPoints vfs2) [47, 109, 47, 97] (mp, 1)"
  using vfs_longest_mount [OF vfs2_ok, of "[47, 109, 47, 97]"] unfolding vfs2_fs by auto

lemma vfs_trailing_slash_witness: "\<not> pathStartsWithMount [47, 109, 47, 97] [47, 109, 47]"
  using vfs_trailing_slash [of "[47, 109]" "[97]"] by simp

lemma vfs_unmounted_path_witness: "vfs_exists fat_ops [97] vfs2 = Inl AssertFailed"
proof -
  have "\<And>m. m \<in> set (mountPoints vfs2) \<Longrightarrow> \<not> under (fst m) [97]" by (auto simp: vfs2_def under_def)
  from vfs_unmounted_path [OF vfs2_ok this, of fat_ops] show ?thesis by simp
qed

section \<open>A disk that mounts\<close>

definition boot8 :: "u8 list" where
  "boot8 = replicate 11 0 @ bytes16 512 @ [1] @ bytes16 2 @ [2] @ replicate 2 0 @ bytes16 12 @ replicate 11 0 @
     bytes32 0 @ bytes32 1 @ replicate 4 0 @ bytes32 2 @ bytes16 1 @ replicate 460 0 @ [0x55, 0xAA]"

definition bootdisk8 :: medium where
  "bootdisk8 = disk8\<lparr>m_sector := (m_sector disk8)(0 := boot8)\<rparr>"

definition fresh8 :: fat32 where
  "fresh8 = vol8\<lparr>f_attached := False, f_mounted := False\<rparr>"

lemma boot8_mounts: "fst (fat_mount (Some bootdisk8) fresh8)"
proof -
  have r: "disk_readBlocks 0 1 bootdisk8 = Some boot8"
    by (simp add: disk_readBlocks_def bootdisk8_def disk8_def)
  have p: "parse_bpb boot8 = \<lparr>bytesPerSector = 512, sectorsPerCluster = 1, reservedSectorCount = 2,
      tableCount = 2, totalSectors16 = 12, totalSectors32 = 0, tableSize32 = 1, rootCluster = 2, fsInfoSector = 1\<rparr>"
    by (simp add: parse_bpb_def boot8_def bytes16_def bytes32_def get16_def get32_def nth_append)
  have s: "get16 boot8 510 = 0xAA55"
    by (simp add: boot8_def bytes16_def bytes32_def get16_def nth_append)
  show ?thesis
    by (simp add: fat_mount_def fresh8_def vol8_def fat_readBootSector_def fat_readSectors_def r p s
        fat_validateBootSector_def Let_def)
qed

definition vfs0 :: "fat32 vfs" where
  "vfs0 = \<lparr>mountPoints = [], objects = (\<lambda>_. fresh8)\<rparr>"

lemma vfs_mount_unmount_witness:
  "\<exists>v' v''. vfs_mount fat_ops [47] (Some 3) (Some bootdisk8) vfs0 = Inr (True, v') \<and>
     vfs_unmount fat_ops [47] v' = (True, v'') \<and> mountPoints v'' = []"
proof -
  obtain s where "fat_mount (Some bootdisk8) fresh8 = (True, s)"
    using boot8_mounts by (metis prod.collapse)
  then obtain v' where m: "vfs_mount fat_ops [47] (Some 3) (Some bootdisk8) vfs0 = Inr (True, v')"
    by (simp add: vfs_mount_def vfs0_def isValidMountPath_def fat_ops_def Let_def)
  have "vfs_ok vfs0" by (simp add: vfs_ok_def vfs0_def)
  from vfs_mount_unmount [OF this m] m show ?thesis by (auto simp: vfs0_def)
qed

end
