(* ===== verification/Fat_Listing.thy ===== *)
theory Fat_Listing
  imports Fat_File
begin

text \<open>
  Directories as lists: the slots of a directory are the 32-byte entries of its chain in order, the
  listing is what a reader makes of them. Reading a directory computes the listing; creating and deleting an
  entry insert and remove one element of it.
\<close>

section \<open>Slots and the listing\<close>

type_synonym slot = "u32 \<times> nat \<times> u8 list"

definition cluster_slots :: "fat32 \<Rightarrow> u32 \<Rightarrow> slot list" where
  "cluster_slots fs c = map (\<lambda>i. (c, i, raw_at (cluster_data fs c) i)) [0..<csize fs div 32]"

definition slots :: "fat32 \<Rightarrow> u32 list \<Rightarrow> slot list" where
  "slots fs cs = concat (map (cluster_slots fs) cs)"

definition entry_of :: "u32 \<Rightarrow> slot \<Rightarrow> u8 list \<Rightarrow> u32 \<Rightarrow> dir_info" where
  "entry_of first s lfn globalIndex =
     (case s of (c, i, raw) \<Rightarrow>
        \<lparr>di_name = (if lfn = [] then shortNameToString raw else lfn), di_attributes = raw_attributes raw,
         di_firstCluster = raw_firstCluster raw, di_size = raw_fileSize raw, di_parentCluster = first,
         di_entryCluster = c, di_entryOffset = of_nat (i * 32), di_entryIndex = globalIndex\<rparr>)"

datatype slot_kind = EndMark | Deleted | LongName | Volume | Entry

definition kind :: "slot \<Rightarrow> slot_kind" where
  "kind s = (case s of (c, i, raw) \<Rightarrow>
     if raw ! 0 = 0 then EndMark
     else if raw ! 0 = EntryDeleted then Deleted
     else if raw_attributes raw = AttributeLongName then LongName
     else if raw_attributes raw AND AttributeVolumeID \<noteq> 0 then Volume
     else Entry)"

text \<open>The long name pending after a slot.\<close>

definition pend :: "slot \<Rightarrow> u8 list \<Rightarrow> u8 list" where
  "pend s lfn = (if kind s = LongName then of_cstr (lfn_part (snd (snd s))) @ lfn else [])"

fun listing :: "u32 \<Rightarrow> slot list \<Rightarrow> u8 list \<Rightarrow> u32 \<Rightarrow> dir_info list" where
  "listing first [] lfn g = []"
| "listing first (s # ss) lfn g =
     (if kind s = EndMark then []
      else (if kind s = Entry then [entry_of first s lfn g] else []) @ listing first ss (pend s lfn) (g + 1))"

definition pending :: "slot list \<Rightarrow> u8 list \<Rightarrow> u8 list" where
  "pending ss lfn = fold pend ss lfn"

lemma listing_append:
  assumes "\<And>s. s \<in> set xs \<Longrightarrow> kind s \<noteq> EndMark"
  shows "listing first (xs @ ys) lfn g = listing first xs lfn g @ listing first ys (pending xs lfn) (g + of_nat (length xs))"
  using assms by (induction xs arbitrary: lfn g) (auto simp: pending_def ac_simps)

lemma scan_entries_listing:
  assumes "scan_entries n i data first c lfn g es = (stop, lfn', g', es')"
  shows "\<exists>new. es' = es @ new \<and> (\<forall>rest. listing first (map (\<lambda>k. (c, k, raw_at data k)) [i..<i + n] @ rest) lfn g =
     new @ (if stop then [] else listing first rest lfn' g'))"
  using assms
proof (induction n arbitrary: i lfn g es)
  case (Suc n)
  let ?raw = "raw_at data i"
  have up: "[i..<i + Suc n] = i # [Suc i..<Suc i + n]" by (simp add: upt_conv_Cons del: upt_Suc)
  consider (e) "kind (c, i, ?raw) = EndMark" | (d) "kind (c, i, ?raw) = Deleted" | (l) "kind (c, i, ?raw) = LongName"
    | (v) "kind (c, i, ?raw) = Volume" | (f) "kind (c, i, ?raw) = Entry"
    by (cases "kind (c, i, ?raw)") auto
  then show ?case
  proof cases
    case e
    then have "?raw ! 0 = 0" by (simp add: kind_def split: if_splits)
    then show ?thesis using Suc.prems e unfolding up by (simp add: Let_def del: upt_Suc)
  next
    case d
    then have r: "?raw ! 0 \<noteq> 0" "?raw ! 0 = EntryDeleted" by (simp_all add: kind_def split: if_splits)
    from Suc.IH [of "Suc i" "[]" "g + 1" es] show ?thesis
      using Suc.prems d r unfolding up by (simp add: Let_def pend_def del: upt_Suc)
  next
    case l
    then have r: "?raw ! 0 \<noteq> 0" "?raw ! 0 \<noteq> EntryDeleted" "raw_attributes ?raw = AttributeLongName"
      by (simp_all add: kind_def split: if_splits)
    from Suc.IH [of "Suc i" "of_cstr (lfn_part ?raw) @ lfn" "g + 1" es] show ?thesis
      using Suc.prems l r unfolding up by (simp add: Let_def pend_def del: upt_Suc)
  next
    case v
    then have r: "?raw ! 0 \<noteq> 0" "?raw ! 0 \<noteq> EntryDeleted" "raw_attributes ?raw \<noteq> AttributeLongName"
      "raw_attributes ?raw AND AttributeVolumeID \<noteq> 0"
      by (simp_all add: kind_def split: if_splits)
    from Suc.IH [of "Suc i" "[]" "g + 1" es] show ?thesis
      using Suc.prems v r unfolding up by (simp add: Let_def pend_def del: upt_Suc)
  next
    case f
    then have r: "?raw ! 0 \<noteq> 0" "?raw ! 0 \<noteq> EntryDeleted" "raw_attributes ?raw \<noteq> AttributeLongName"
      "raw_attributes ?raw AND AttributeVolumeID = 0"
      by (simp_all add: kind_def split: if_splits)
    from Suc.IH [of "Suc i" "[]" "g + 1" "es @ [entry_of first (c, i, ?raw) lfn g]"] show ?thesis
      using Suc.prems f r unfolding up by (auto simp: Let_def pend_def entry_of_def simp del: upt_Suc)
  qed
qed simp

lemma read_dir_walk_listing:
  assumes "fat_healthy fs"
  shows "is_chain fs (c # cs) \<Longrightarrow> length cs < n \<Longrightarrow>
    read_dir_walk n first c lfn g es fs = Some (Some (es @ listing first (slots fs (c # cs)) lfn g))"
proof (induction cs arbitrary: c n lfn g es)
  case Nil
  have v: "valid_cluster fs c" "isEndOfChain (fat_entry fs c)" using Nil by simp_all
  obtain stop lfn' g' es' where s: "scan_entries (csize fs div 32) 0 (cluster_data fs c) first c lfn g es = (stop, lfn', g', es')"
    by (metis prod_cases4)
  obtain new where new: "es' = es @ new"
    "\<And>rest. listing first (cluster_slots fs c @ rest) lfn g = new @ (if stop then [] else listing first rest lfn' g')"
    using scan_entries_listing [OF s] by (auto simp: cluster_slots_def)
  have "es' = es @ listing first (slots fs [c]) lfn g"
    using new(1) new(2) [of "[]"] by (simp add: slots_def)
  then show ?case
    using Nil(2) s v healthy_readCluster [OF assms v(1)] healthy_readFATEntry [OF assms v(1)] by (cases n) auto
next
  case (Cons d ds)
  have g: "fat_geom fs" using assms by (simp add: fat_healthy_def)
  have v: "valid_cluster fs c" "fat_entry fs c = d" "is_chain fs (d # ds)" "valid_cluster fs d"
    using Cons.prems(1) chain_valid [of fs "d # ds" d] by simp_all
  obtain m where n: "n = Suc m" "length ds < m" using Cons.prems(2) by (cases n) auto
  obtain stop lfn' g' es' where s: "scan_entries (csize fs div 32) 0 (cluster_data fs c) first c lfn g es = (stop, lfn', g', es')"
    by (metis prod_cases4)
  from scan_entries_listing [OF s] obtain new where new: "es' = es @ new"
    "\<And>rest. listing first (cluster_slots fs c @ rest) lfn g = new @ (if stop then [] else listing first rest lfn' g')"
    by (auto simp: cluster_slots_def)
  have sl: "slots fs (c # d # ds) = cluster_slots fs c @ slots fs (d # ds)" by (simp add: slots_def)
  have rd: "fat_readCluster c fs = Some (cluster_data fs c)" "fat_readFATEntry c fs = Some d"
    using healthy_readCluster [OF assms v(1)] healthy_readFATEntry [OF assms v(1)] v(2) by simp_all
  note dv = valid_cluster_value [OF g v(4)]
  note IH = Cons.IH [OF v(3) n(2), of lfn' g' es']
  show ?case
    unfolding n(1) sl new(2) read_dir_walk.simps rd option.case s prod.case
    by (cases stop) (simp_all add: new(1) dv IH [unfolded new(1)] del: read_dir_walk.simps)
qed

lemma readDirectory_value:
  assumes "fat_healthy fs" "is_chain fs cs"
  shows "fat_readDirectory (hd cs) fs = Some (Some (listing (hd cs) (slots fs cs) [] 0))"
proof -
  obtain c ds where cs: "cs = c # ds" using assms(2) by (cases cs) auto
  have g: "fat_geom fs" using assms(1) by (simp add: fat_healthy_def)
  have "length ds < chain_fuel + 1"
    using chain_length [OF g assms(2)] g cs by (simp add: chain_fuel_def fat_geom_def)
  from read_dir_walk_listing [OF assms(1) assms(2) [unfolded cs] this] show ?thesis
    by (simp add: fat_readDirectory_def cs del: read_dir_walk.simps)
qed

section \<open>The first free slot\<close>

definition free_slot :: "slot \<Rightarrow> bool" where
  "free_slot s \<longleftrightarrow> kind s = EndMark \<or> kind s = Deleted"

lemma free_slot_raw: "free_slot (c, i, raw) \<longleftrightarrow> raw ! 0 = 0 \<or> raw ! 0 = EntryDeleted"
  by (auto simp: free_slot_def kind_def)

lemma first_free_slot_spec:
  "case first_free_slot n i data of
     Some k \<Rightarrow> i \<le> k \<and> k < i + n \<and> free_slot (c, k, raw_at data k) \<and>
       (\<forall>j. i \<le> j \<longrightarrow> j < k \<longrightarrow> \<not> free_slot (c, j, raw_at data j))
   | None \<Rightarrow> \<forall>j. i \<le> j \<longrightarrow> j < i + n \<longrightarrow> \<not> free_slot (c, j, raw_at data j)"
proof (induction n i data rule: first_free_slot.induct)
  case (2 n i data)
  show ?case
  proof (cases "free_slot (c, i, raw_at data i)")
    case True
    then show ?thesis by (auto simp: free_slot_raw)
  next
    case False
    then have e: "first_free_slot (Suc n) i data = first_free_slot n (i + 1) data" by (simp add: free_slot_raw)
    have IH: "case first_free_slot n (i + 1) data of
     Some k \<Rightarrow> i + 1 \<le> k \<and> k < i + 1 + n \<and> free_slot (c, k, raw_at data k) \<and>
       (\<forall>j. i + 1 \<le> j \<longrightarrow> j < k \<longrightarrow> \<not> free_slot (c, j, raw_at data j))
   | None \<Rightarrow> \<forall>j. i + 1 \<le> j \<longrightarrow> j < i + 1 + n \<longrightarrow> \<not> free_slot (c, j, raw_at data j)"
      using 2 False by (simp add: free_slot_raw)
    have le: "i \<le> j \<longleftrightarrow> j = i \<or> i + 1 \<le> j" for j :: nat by auto
    show ?thesis
      using IH False unfolding e le by (cases "first_free_slot n (i + 1) data") auto
  qed
qed simp

lemma slots_append [simp]: "slots fs (cs @ ds) = slots fs cs @ slots fs ds"
  by (simp add: slots_def)

lemma slots_simps [simp]: "slots fs [] = []" "slots fs (c # cs) = cluster_slots fs c @ slots fs cs"
  by (simp_all add: slots_def)

lemma cluster_slots_split:
  assumes "k < csize fs div 32"
  shows "cluster_slots fs c = map (\<lambda>i. (c, i, raw_at (cluster_data fs c) i)) [0..<k] @ (c, k, raw_at (cluster_data fs c) k) #
    map (\<lambda>i. (c, i, raw_at (cluster_data fs c) i)) [Suc k..<csize fs div 32]"
proof -
  have "[0..<csize fs div 32] = [0..<k] @ [k..<csize fs div 32]"
    using assms by (metis le_add1 less_imp_le_nat upt_add_eq_append plus_nat.add_0 le_add_diff_inverse)
  also have "[k..<csize fs div 32] = k # [Suc k..<csize fs div 32]" using assms by (rule upt_conv_Cons)
  finally show ?thesis by (simp add: cluster_slots_def)
qed

text \<open>Where \<^verbatim>\<open>findFreeDirectoryEntry\<close> points, in terms of slots.\<close>

definition first_free_at :: "slot list \<Rightarrow> u32 \<Rightarrow> nat \<Rightarrow> bool" where
  "first_free_at ss c k \<longleftrightarrow> (\<exists>A raw B. ss = A @ (c, k, raw) # B \<and> free_slot (c, k, raw) \<and> (\<forall>s \<in> set A. \<not> free_slot s))"

lemma free_entry_walk_spec:
  assumes "fat_healthy fs"
  shows "is_chain fs (c # cs) \<Longrightarrow> length cs < n \<Longrightarrow>
    (\<exists>d k. free_entry_walk n dir c fs = Some (Some (d, of_nat (k * 32)), fs) \<and> d \<in> set (c # cs) \<and> k < csize fs div 32 \<and>
       first_free_at (slots fs (c # cs)) d k) \<or>
    (\<forall>s \<in> set (slots fs (c # cs)). \<not> free_slot s) \<and>
    free_entry_walk n dir c fs =
      (do { r \<leftarrow> fat_extendClusterChain dir fs;
            case r of (None, fs) \<Rightarrow> Some (None, fs) | (Some newCluster, fs) \<Rightarrow> Some (Some (newCluster, 0), fs) })"
proof (induction cs arbitrary: c n)
  case Nil
  obtain m where n: "n = Suc m" using Nil(2) by (cases n) auto
  have v: "valid_cluster fs c" "isEndOfChain (fat_entry fs c)" using Nil by simp_all
  have rd: "fat_readCluster c fs = Some (cluster_data fs c)" "fat_readFATEntry c fs = Some (fat_entry fs c)"
    using healthy_readCluster [OF assms v(1)] healthy_readFATEntry [OF assms v(1)] by simp_all
  note ff = first_free_slot_spec [where n = "csize fs div 32" and i = 0 and data = "cluster_data fs c" and c = c]
  show ?case
  proof (cases "first_free_slot (csize fs div 32) 0 (cluster_data fs c)")
    case (Some k)
    then have k: "k < csize fs div 32" "free_slot (c, k, raw_at (cluster_data fs c) k)"
      "\<And>j. j < k \<Longrightarrow> \<not> free_slot (c, j, raw_at (cluster_data fs c) j)" using ff by simp_all
    have "first_free_at (slots fs [c]) c k"
      unfolding first_free_at_def using cluster_slots_split [OF k(1), of c] k(2,3) by (auto intro!: exI)
    then show ?thesis using Some rd k(1) unfolding n by (intro disjI1 exI [of _ c] exI [of _ k]) simp
  next
    case None
    then have "\<forall>s \<in> set (slots fs [c]). \<not> free_slot s" using ff by (auto simp: cluster_slots_def)
    then show ?thesis using None rd v(2) unfolding n by (intro disjI2) simp
  qed
next
  case (Cons d ds)
  have g: "fat_geom fs" using assms by (simp add: fat_healthy_def)
  obtain m where n: "n = Suc m" "length ds < m" using Cons.prems(2) by (cases n) auto
  have v: "valid_cluster fs c" "fat_entry fs c = d" "is_chain fs (d # ds)" "valid_cluster fs d"
    using Cons.prems(1) chain_valid [of fs "d # ds" d] by simp_all
  have rd: "fat_readCluster c fs = Some (cluster_data fs c)" "fat_readFATEntry c fs = Some d"
    using healthy_readCluster [OF assms v(1)] healthy_readFATEntry [OF assms v(1)] v(2) by simp_all
  note ff = first_free_slot_spec [where n = "csize fs div 32" and i = 0 and data = "cluster_data fs c" and c = c]
  show ?case
  proof (cases "first_free_slot (csize fs div 32) 0 (cluster_data fs c)")
    case (Some k)
    then have k: "k < csize fs div 32" "free_slot (c, k, raw_at (cluster_data fs c) k)"
      "\<And>j. j < k \<Longrightarrow> \<not> free_slot (c, j, raw_at (cluster_data fs c) j)" using ff by simp_all
    let ?A = "map (\<lambda>i. (c, i, raw_at (cluster_data fs c) i)) [0..<k]"
      and ?B = "map (\<lambda>i. (c, i, raw_at (cluster_data fs c) i)) [Suc k..<csize fs div 32] @ slots fs (d # ds)"
    have "slots fs (c # d # ds) = ?A @ (c, k, raw_at (cluster_data fs c) k) # ?B"
      using cluster_slots_split [OF k(1), of c] by simp
    moreover have "\<forall>s \<in> set ?A. \<not> free_slot s" using k(3) by auto
    ultimately have "first_free_at (slots fs (c # d # ds)) c k" unfolding first_free_at_def using k(2) by blast
    then show ?thesis using Some rd k(1) unfolding n by (intro disjI1 exI [of _ c] exI [of _ k]) (simp del: slots_simps)
  next
    case None
    then have nf: "\<forall>s \<in> set (cluster_slots fs c). \<not> free_slot s" using ff by (auto simp: cluster_slots_def)
    have step: "free_entry_walk n dir c fs = free_entry_walk m dir d fs"
      using None rd valid_cluster_value(1) [OF g v(4)] unfolding n(1) by simp
    have ext: "first_free_at (slots fs (c # d # ds)) e k" if at: "first_free_at (slots fs (d # ds)) e k" for e k
    proof -
      obtain A raw B where s: "slots fs (d # ds) = A @ (e, k, raw) # B" "free_slot (e, k, raw)" "\<forall>s \<in> set A. \<not> free_slot s"
        using at unfolding first_free_at_def by blast
      have "slots fs (c # d # ds) = (cluster_slots fs c @ A) @ (e, k, raw) # B" using s(1) by simp
      moreover have "\<forall>s \<in> set (cluster_slots fs c @ A). \<not> free_slot s" using nf s(3) by auto
      ultimately show ?thesis unfolding first_free_at_def using s(2) by blast
    qed
    from Cons.IH [OF v(3) n(2)] show ?thesis
    proof
      assume "\<exists>e k. free_entry_walk m dir d fs = Some (Some (e, of_nat (k * 32)), fs) \<and> e \<in> set (d # ds) \<and>
        k < csize fs div 32 \<and> first_free_at (slots fs (d # ds)) e k"
      then obtain e k where e: "free_entry_walk m dir d fs = Some (Some (e, of_nat (k * 32)), fs)" "e \<in> set (d # ds)"
        "k < csize fs div 32" "first_free_at (slots fs (d # ds)) e k" by blast
      then show ?thesis using ext [OF e(4)] unfolding step by (intro disjI1 exI [of _ e] exI [of _ k]) auto
    next
      assume a: "(\<forall>s \<in> set (slots fs (d # ds)). \<not> free_slot s) \<and>
        free_entry_walk m dir d fs = (do { r \<leftarrow> fat_extendClusterChain dir fs;
            case r of (None, fs) \<Rightarrow> Some (None, fs) | (Some newCluster, fs) \<Rightarrow> Some (Some (newCluster, 0), fs) })"
      have "\<forall>s \<in> set (slots fs (c # d # ds)). \<not> free_slot s" using a nf by auto
      then show ?thesis using a unfolding step by blast
    qed
  qed
qed

section \<open>Writing a slot\<close>

lemma csize_slots: "fat_geom fs \<Longrightarrow> csize fs = 32 * (csize fs div 32)"
  by (simp add: unat_cluster_bytes fat_geom_def)

lemma raw_at_put:
  assumes "length raw = 32" "32 * k + 32 \<le> length data"
  shows "raw_at (put_bytes (32 * k) raw data) k = raw"
    "j \<noteq> k \<Longrightarrow> 32 * j + 32 \<le> length data \<Longrightarrow> raw_at (put_bytes (32 * k) raw data) j = raw_at data j"
proof -
  show "raw_at (put_bytes (32 * k) raw data) k = raw"
    using assms by (simp add: raw_at_def put_bytes_def)
  assume j: "j \<noteq> k" "32 * j + 32 \<le> length data"
  have l: "length (put_bytes (32 * k) raw data) = length data" using assms by (simp add: length_put_bytes)
  show "raw_at (put_bytes (32 * k) raw data) j = raw_at data j"
    unfolding raw_at_def
  proof (rule nth_equalityI)
    show "length (take 32 (drop (32 * j) (put_bytes (32 * k) raw data))) = length (take 32 (drop (32 * j) data))"
      using l by simp
    fix i assume "i < length (take 32 (drop (32 * j) (put_bytes (32 * k) raw data)))"
    then have i: "i < 32" "32 * j + i < length data" using j l by simp_all
    have "\<not> (32 * k \<le> 32 * j + i \<and> 32 * j + i < 32 * k + length raw)" using j(1) i(1) assms(1) by presburger
    then have "put_bytes (32 * k) raw data ! (32 * j + i) = data ! (32 * j + i)"
      using assms i(2) by (subst nth_put_bytes) auto
    then show "take 32 (drop (32 * j) (put_bytes (32 * k) raw data)) ! i = take 32 (drop (32 * j) data) ! i"
      using i j l by simp
  qed
qed

lemma slots_cong: "(\<And>c. c \<in> set cs \<Longrightarrow> cluster_data fs' c = cluster_data fs c) \<Longrightarrow> csize fs' = csize fs \<Longrightarrow>
    slots fs' cs = slots fs cs"
  by (induction cs) (simp_all add: cluster_slots_def)

lemma split_unique:
  "A @ x # B = A' @ y # B' \<Longrightarrow> f x = f y \<Longrightarrow> distinct (map f (A @ x # B)) \<Longrightarrow> A = A' \<and> B = B'"
proof (induction A arbitrary: A')
  case Nil
  show ?case
  proof (cases A')
    case (Cons a C)
    then have "y \<in> set B" using Nil.prems(1) by simp
    then show ?thesis using Nil.prems(2,3) by auto
  qed (use Nil.prems in simp)
next
  case (Cons a A)
  show ?case
  proof (cases A')
    case Nil
    then have "a = y" using Cons.prems(1) by simp
    then show ?thesis using Cons.prems(2,3) by simp
  next
    case (Cons b C)
    then show ?thesis using Cons.IH [of C] Cons.prems by simp
  qed
qed

lemma slots_keys: "distinct cs \<Longrightarrow> distinct (map (\<lambda>s. (fst s, fst (snd s))) (slots fs cs))"
proof (induction cs)
  case (Cons c cs)
  have "(\<lambda>s. (fst s, fst (snd s))) ` set (slots fs ds) \<subseteq> set ds \<times> UNIV" for ds
    by (auto simp: slots_def cluster_slots_def)
  then show ?case using Cons by (fastforce simp: cluster_slots_def o_def distinct_map inj_on_def)
qed simp

text \<open>Writing a raw entry into a slot replaces that slot of the directory.\<close>

lemma write_slot:
  assumes h: "fat_healthy fs" and ch: "is_chain fs cs" and d: "d \<in> set cs" and k: "k < csize fs div 32"
    and ss: "slots fs cs = A @ (d, k, old) # B" and raw: "length raw = 32"
  shows "\<exists>fs'. fat_writeDirectoryEntry d (of_nat (k * 32)) raw fs = (True, fs') \<and> changes_only {} {d} fs fs' \<and>
    is_chain fs' cs \<and> slots fs' cs = A @ (d, k, raw) # B"
proof -
  have g: "fat_geom fs" using h by (simp add: fat_healthy_def)
  have v: "valid_cluster fs d" by (rule chain_valid [OF ch d])
  have ld: "length (cluster_data fs d) = csize fs" by (rule length_cluster_data [OF g])
  have kb: "32 * k + 32 \<le> csize fs" using k csize_slots [OF g] by simp
  have "unat (fat_clusterSize fs) < 2 ^ 32" using unsigned_less [of "fat_clusterSize fs", where ?'a = nat] by simp
  then have off: "unat (of_nat (k * 32) :: u32) = 32 * k"
    using kb by (subst unat_of_nat_fits) simp_all
  let ?data = "put_bytes (32 * k) raw (cluster_data fs d)"
  obtain fs' where w: "fat_writeCluster d ?data fs = (True, fs')"
    using healthy_writeCluster [OF h v] by (metis prod.collapse)
  have "length ?data = csize fs" using kb ld raw by (simp add: length_put_bytes)
  note e = writeCluster_effect [OF w g v this]
  have wr: "fat_writeDirectoryEntry d (of_nat (k * 32)) raw fs = (True, fs')"
    using healthy_readCluster [OF h v] w by (simp only: fat_writeDirectoryEntry_def option.case off)
  have cz: "csize fs' = csize fs" using same_volume_addr(5) [OF changes_only_same [OF e(1)]] by simp
  have same: "cluster_data fs' c = cluster_data fs c" if "c \<in> set cs" "c \<noteq> d" for c
    using changes_only_data [OF e(1) chain_valid [OF ch that(1)]] that(2) by simp
  obtain xs ys where cs: "cs = xs @ d # ys" "d \<notin> set xs" "d \<notin> set ys"
    using split_list [OF d] chain_distinct [OF g ch] by auto
  have out: "slots fs' xs = slots fs xs" "slots fs' ys = slots fs ys"
    using same cs by (auto intro!: slots_cong cz)
  let ?a = "map (\<lambda>i. (d, i, raw_at (cluster_data fs d) i)) [0..<k]"
    and ?b = "map (\<lambda>i. (d, i, raw_at (cluster_data fs d) i)) [Suc k..<csize fs div 32]"
  have old: "slots fs cs = (slots fs xs @ ?a) @ (d, k, raw_at (cluster_data fs d) k) # (?b @ slots fs ys)"
    using cluster_slots_split [OF k, of d] cs(1) by simp
  have new: "slots fs' cs = (slots fs xs @ ?a) @ (d, k, raw) # (?b @ slots fs ys)"
  proof -
    have "raw_at ?data i = raw_at (cluster_data fs d) i" if "i \<noteq> k" "i < csize fs div 32" for i
      using that raw kb ld csize_slots [OF g] by (intro raw_at_put(2)) auto
    moreover have "raw_at ?data k = raw" using raw kb ld by (intro raw_at_put(1)) simp_all
    ultimately have "cluster_slots fs' d = ?a @ (d, k, raw) # ?b"
      using cluster_slots_split [of k fs' d] k cz e(3) by simp
    then show ?thesis using out cs(1) by simp
  qed
  have "A = slots fs xs @ ?a \<and> B = ?b @ slots fs ys"
  proof (rule split_unique [of _ "(d, k, old)" _ _ "(d, k, raw_at (cluster_data fs d) k)"])
    show "A @ (d, k, old) # B = (slots fs xs @ ?a) @ (d, k, raw_at (cluster_data fs d) k) # ?b @ slots fs ys"
      using old ss by simp
    show "distinct (map (\<lambda>s. (fst s, fst (snd s))) (A @ (d, k, old) # B))"
      using slots_keys [OF chain_distinct [OF g ch], of fs] ss by simp
  qed simp
  then show ?thesis
    using wr e(1) new chain_frame [OF e(1) g _ ch] by (intro exI [of _ fs']) simp
qed

section \<open>Creating an entry\<close>

lemma length_make_raw: "length name = 11 \<Longrightarrow> length (make_raw name attributes c n) = 32"
  by (simp add: make_raw_def)

lemma findFree_spec:
  assumes h: "fat_healthy fs" and ch: "is_chain fs cs"
  shows "\<exists>r fs' new. fat_findFreeDirectoryEntry (hd cs) fs = Some (r, fs') \<and> is_chain fs' (cs @ new) \<and>
    set new \<subseteq> free_clusters fs \<and> changes_only (insert (last cs) (set new)) (set new) fs fs' \<and>
    (\<forall>n \<in> set new. cluster_data fs' n = replicate (csize fs) 0) \<and>
    (new = [] \<and> fs' = fs \<or> new \<noteq> [] \<and> (\<forall>s \<in> set (slots fs cs). \<not> free_slot s)) \<and>
    (case r of
       None \<Rightarrow> new = [] \<and> free_clusters fs = {} \<and> (\<forall>s \<in> set (slots fs cs). \<not> free_slot s)
     | Some (d, off) \<Rightarrow> \<exists>k. off = of_nat (k * 32) \<and> d \<in> set (cs @ new) \<and> k < csize fs' div 32 \<and>
         first_free_at (slots fs' (cs @ new)) d k)"
proof -
  obtain c ds where cs: "cs = c # ds" using ch by (cases cs) auto
  have g: "fat_geom fs" using h by (simp add: fat_healthy_def)
  have dk: "disk_ok (f_disk fs)" using g by (simp add: fat_geom_def)
  have "length ds < chain_fuel + 1"
    using chain_length [OF g ch] g cs by (simp add: chain_fuel_def fat_geom_def)
  from free_entry_walk_spec [OF h ch [unfolded cs] this, of "hd cs"]
  consider (found) d k where "fat_findFreeDirectoryEntry (hd cs) fs = Some (Some (d, of_nat (k * 32)), fs)" "d \<in> set cs"
      "k < csize fs div 32" "first_free_at (slots fs cs) d k"
    | (full) "\<forall>s \<in> set (slots fs cs). \<not> free_slot s" "fat_findFreeDirectoryEntry (hd cs) fs =
        (do { r \<leftarrow> fat_extendClusterChain (hd cs) fs;
              case r of (None, fs) \<Rightarrow> Some (None, fs) | (Some newCluster, fs) \<Rightarrow> Some (Some (newCluster, 0), fs) })"
    unfolding fat_findFreeDirectoryEntry_def cs list.sel by blast
  then show ?thesis
  proof cases
    case found
    then show ?thesis
      using ch dk by (intro exI [of _ "Some (d, of_nat (k * 32))"] exI [of _ fs] exI [of _ "[]"])
        (auto intro: changes_only_refl)
  next
    case full
    obtain r fs1 where x: "fat_extendClusterChain (hd cs) fs = Some (r, fs1)"
      and e: "case r of None \<Rightarrow> fs1 = fs \<and> free_clusters fs = {}
         | Some n \<Rightarrow> n \<in> free_clusters fs \<and> is_chain fs1 (cs @ [n]) \<and>
           changes_only {last cs, n} {n} fs fs1 \<and> cluster_data fs1 n = replicate (csize fs) 0"
      using extend_effect [OF h ch] by blast
    show ?thesis
    proof (cases r)
      case None
      then show ?thesis
        using full x e ch dk by (intro exI [of _ None] exI [of _ fs] exI [of _ "[]"]) (auto intro: changes_only_refl)
    next
      case (Some n)
      then have n: "n \<in> free_clusters fs" "is_chain fs1 (cs @ [n])" "changes_only {last cs, n} {n} fs fs1"
        "cluster_data fs1 n = replicate (csize fs) 0" using e by simp_all
      have cz: "csize fs1 = csize fs" using same_volume_addr(5) [OF changes_only_same [OF n(3)]] by simp
      have k0: "0 < csize fs1 div 32" using csize_slots [OF g] csize_pos [OF g] cz by (metis gr0I mult_0_right less_irrefl)
      have "slots fs1 cs = slots fs cs"
        using changes_only_data [OF n(3)] chain_valid [OF ch] chain_not_free [OF g ch] n(1) cz
        by (intro slots_cong) blast+
      moreover have "raw_at (cluster_data fs1 n) 0 ! 0 = 0"
        using n(4) k0 cz by (simp add: raw_at_def)
      ultimately have "first_free_at (slots fs1 (cs @ [n])) n 0"
        unfolding first_free_at_def
        using full(1) cluster_slots_split [OF k0, of n] by (auto simp: free_slot_raw intro!: exI [of _ "slots fs cs"])
      then show ?thesis
        using full(2) x Some n k0 full(1)
        by (intro exI [of _ "Some (n, 0)"] exI [of _ fs1] exI [of _ "[n]"] conjI)
          (simp_all add: exI [of _ 0])
    qed
  qed
qed

text \<open>A directory is terminated when nothing but end marks follow its first end mark.\<close>

definition terminated :: "slot list \<Rightarrow> bool" where
  "terminated ss \<longleftrightarrow> (\<forall>A s B. ss = A @ s # B \<longrightarrow> kind s = EndMark \<longrightarrow> (\<forall>x \<in> set B. kind x = EndMark))"

lemma listing_end: "\<forall>x \<in> set B. kind x = EndMark \<Longrightarrow> listing first B lfn g = []"
  by (cases B) auto

lemma listing_insert:
  assumes "\<forall>s \<in> set A. \<not> free_slot s" "free_slot (c, k, old)" "kind (c, k, new) = Entry"
    "kind (c, k, old) = EndMark \<Longrightarrow> \<forall>x \<in> set B. kind x = EndMark"
  shows "listing first (A @ (c, k, old) # B) [] 0 = listing first A [] 0 @ (if kind (c, k, old) = EndMark then []
      else listing first B [] (of_nat (length A) + 1)) \<and>
    listing first (A @ (c, k, new) # B) [] 0 =
      listing first A [] 0 @ entry_of first (c, k, new) (pending A []) (of_nat (length A)) #
      (if kind (c, k, old) = EndMark then [] else listing first B [] (of_nat (length A) + 1))"
proof -
  have ne: "kind s \<noteq> EndMark" if "s \<in> set A" for s using assms(1) that by (auto simp: free_slot_def)
  have o: "kind (c, k, old) = EndMark \<or> kind (c, k, old) = Deleted" using assms(2) by (simp add: free_slot_def)
  have e: "listing first B x y = []" if "kind (c, k, old) = EndMark" for x y
    by (rule listing_end) (use assms(4) that in blast)
  show ?thesis
    using o e by (auto simp: listing_append [OF ne] assms(3) pend_def)
qed

end
