(* ===== verification/Fat_Entries.thy ===== *)
theory Fat_Entries
  imports Fat_Listing
begin

text \<open>
  Creating and removing directory entries, in terms of the listing: creating a file inserts one element, removing
  an entry deletes one and gives its clusters back.
\<close>

section \<open>The fields of a new entry\<close>

lemma get16_bytes16: "get16 (bytes16 v) 0 = v"
proof (rule bit_word_eqI)
  fix n assume "n < LENGTH(16)"
  then consider "n < 8" | "8 \<le> n" "n - 8 < 8" by fastforce
  then show "bit (get16 (bytes16 v) 0) n = bit v n"
    by cases (use \<open>n < _\<close> in \<open>auto simp: get16_def bytes16_def bit_simps\<close>)
qed

lemma raw_fields:
  assumes "length name = 11"
  shows "make_raw name attributes c n ! 0 = name ! 0" "raw_attributes (make_raw name attributes c n) = attributes"
    "raw_firstCluster (make_raw name attributes c n) = c" "raw_fileSize (make_raw name attributes c n) = n"
    "take 11 (make_raw name attributes c n) = name"
proof -
  let ?r = "make_raw name attributes c n"
  show "?r ! 0 = name ! 0" "raw_attributes ?r = attributes" "take 11 ?r = name"
    using assms by (simp_all add: make_raw_def nth_append raw_attributes_def)
  have "get16 ?r 20 = get16 (bytes16 (ucast (drop_bit 16 c AND 0xFFFF))) 0"
    "get16 ?r 26 = get16 (bytes16 (ucast (c AND 0xFFFF))) 0"
    using assms by (simp_all add: make_raw_def nth_append get16_def bytes16_def)
  then have p: "get16 ?r 20 = ucast (drop_bit 16 c AND 0xFFFF)" "get16 ?r 26 = ucast (c AND 0xFFFF)"
    by (simp_all add: get16_bytes16)
  show "raw_firstCluster ?r = c"
  proof (rule bit_word_eqI)
    fix i assume i: "i < LENGTH(32)"
    have k: "(0xFFFF :: int) = mask 16" by (simp add: mask_eq_exp_minus_1)
    have m: "bit (0xFFFF :: int) j \<longleftrightarrow> j < 16" for j unfolding k by (simp only: bit_mask_iff) simp
    show "bit (raw_firstCluster ?r) i = bit c i"
      using i by (cases "i < 16") (auto simp: raw_firstCluster_def p bit_simps m)
  qed
  have "raw_fileSize ?r = get32 (bytes32 n) 0"
    using assms by (simp add: raw_fileSize_def make_raw_def nth_append get32_def bytes32_def bytes16_def)
  then show "raw_fileSize ?r = n" by (simp add: get32_bytes32)
qed

section \<open>Creating an entry\<close>

lemma short_name_raw:
  "length short = 11 \<Longrightarrow> shortNameToString (make_raw short a c n) = shortNameToString short"
proof -
  assume l: "length short = 11"
  have t: "trim_end low (short @ x) k = trim_end low short k" if "k \<le> 11" for low x k
    using that by (induction k) (simp_all add: nth_append l)
  have "trim_end low short k \<le> k" for low k by (induction k) (auto intro: le_SucI)
  from this [of 0 8] this [of 8 11] show ?thesis
    using l unfolding shortNameToString_def make_raw_def by (simp add: t Let_def)
qed

lemma terminated_split:
  assumes "terminated (A @ (c, k, old) # B)" "kind (c, k, old) = EndMark"
  shows "\<forall>x \<in> set B. kind x = EndMark"
  using assms unfolding terminated_def by blast

lemma zero_cluster_slots:
  assumes "fat_geom fs" "cluster_data fs n = replicate (csize fs) 0"
  shows "\<forall>s \<in> set (cluster_slots fs n). kind s = EndMark"
  using assms csize_slots [OF assms(1)] by (auto simp: cluster_slots_def kind_def raw_at_def)

text \<open>The long name a directory leaves pending where its first free slot is: not empty when long-name entries stand there
  without the entry they belong to.\<close>

definition orphan_name :: "slot list \<Rightarrow> u8 list" where
  "orphan_name ss = pending (takeWhile (\<lambda>s. \<not> free_slot s) ss) []"

lemma terminated_grown:
  assumes "\<forall>s \<in> set A. \<not> free_slot s" "\<forall>s \<in> set Z. kind s = EndMark"
  shows "terminated (A @ Z)"
  unfolding terminated_def
proof (intro allI impI ballI)
  fix As s Bs x assume e: "A @ Z = As @ s # Bs" "kind s = EndMark" "x \<in> set Bs"
  have "s \<notin> set A" using assms(1) e(2) by (auto simp: free_slot_def)
  then obtain Z' where "Z = Z' @ s # Bs"
    using e(1) by (fastforce simp: append_eq_append_conv2 Cons_eq_append_conv append_eq_Cons_conv)
  then show "kind x = EndMark" using assms(2) e(3) by simp
qed

lemma listing_cong_end:
  assumes "\<forall>s \<in> set Z. kind s = EndMark"
  shows "listing first (A @ Z) lfn g = listing first A lfn g"
  using assms by (induction A arbitrary: lfn g) (simp_all add: listing_end)

lemma takeWhile_free:
  "\<forall>s \<in> set A. \<not> free_slot s \<Longrightarrow> free_slot x \<Longrightarrow> takeWhile (\<lambda>s. \<not> free_slot s) (A @ x # B) = A"
  by (induction A) auto

lemma findFree_slots:
  assumes h: "fat_healthy fs" and ch: "is_chain fs cs"
  shows "(\<exists>fs' new d k A old B. fat_findFreeDirectoryEntry (hd cs) fs = Some (Some (d, of_nat (k * 32)), fs') \<and>
      is_chain fs' (cs @ new) \<and> set new \<subseteq> free_clusters fs \<and>
      changes_only (insert (last cs) (set new)) (set new) fs fs' \<and> d \<in> set (cs @ new) \<and> k < csize fs' div 32 \<and>
      slots fs' (cs @ new) = A @ (d, k, old) # B \<and> (\<forall>s \<in> set A. \<not> free_slot s) \<and> free_slot (d, k, old) \<and>
      (new = [] \<and> fs' = fs \<or>
       new \<noteq> [] \<and> slots fs cs = A \<and> kind (d, k, old) = EndMark \<and> (\<forall>s \<in> set B. kind s = EndMark))) \<or>
    fat_findFreeDirectoryEntry (hd cs) fs = Some (None, fs) \<and> free_clusters fs = {} \<and>
      (\<forall>s \<in> set (slots fs cs). \<not> free_slot s)"
proof -
  have g: "fat_geom fs" using h by (simp add: fat_healthy_def)
  obtain r fs' new where f: "fat_findFreeDirectoryEntry (hd cs) fs = Some (r, fs')" "is_chain fs' (cs @ new)"
    "set new \<subseteq> free_clusters fs" "changes_only (insert (last cs) (set new)) (set new) fs fs'"
    "\<forall>n \<in> set new. cluster_data fs' n = replicate (csize fs) 0"
    "new = [] \<and> fs' = fs \<or> new \<noteq> [] \<and> (\<forall>s \<in> set (slots fs cs). \<not> free_slot s)"
    "case r of None \<Rightarrow> new = [] \<and> free_clusters fs = {} \<and> (\<forall>s \<in> set (slots fs cs). \<not> free_slot s)
     | Some (d, off) \<Rightarrow> \<exists>k. off = of_nat (k * 32) \<and> d \<in> set (cs @ new) \<and> k < csize fs' div 32 \<and>
         first_free_at (slots fs' (cs @ new)) d k"
    using findFree_spec [OF h ch] by blast
  show ?thesis
  proof (cases r)
    case None
    then show ?thesis using f by auto
  next
    case (Some p)
    then obtain d k where p: "p = (d, of_nat (k * 32))" "d \<in> set (cs @ new)" "k < csize fs' div 32"
      "first_free_at (slots fs' (cs @ new)) d k" using f(7) by (cases p) auto
    then obtain A old B where s: "slots fs' (cs @ new) = A @ (d, k, old) # B" "free_slot (d, k, old)"
      "\<forall>s \<in> set A. \<not> free_slot s" unfolding first_free_at_def by blast
    have "slots fs cs = A \<and> kind (d, k, old) = EndMark \<and> (\<forall>s \<in> set B. kind s = EndMark)" if n: "new \<noteq> []"
    proof -
      have nf: "\<forall>s \<in> set (slots fs cs). \<not> free_slot s" using f(6) n by simp
      have cz: "csize fs' = csize fs" using same_volume_addr(5) [OF changes_only_same [OF f(4)]] by simp
      have keep: "slots fs' cs = slots fs cs"
        using changes_only_data [OF f(4)] chain_valid [OF ch] chain_not_free [OF g ch] f(3) cz
        by (intro slots_cong) blast+
      have z: "\<forall>s \<in> set (slots fs' new). kind s = EndMark"
        using zero_cluster_slots [OF changes_only_geom [OF f(4) g]] f(5) cz
        by (auto simp: slots_def)
      then have fz: "\<forall>s \<in> set (slots fs' new). free_slot s" by (simp add: free_slot_def)
      have e: "slots fs cs @ slots fs' new = A @ (d, k, old) # B" using s(1) keep by simp
      have "takeWhile (\<lambda>s. \<not> free_slot s) (slots fs cs @ slots fs' new) = slots fs cs"
        using nf fz by (cases "slots fs' new") (simp_all add: takeWhile_append)
      then have "slots fs cs = A" unfolding e using takeWhile_free [OF s(3,2)] by simp
      then show ?thesis using e z by simp
    qed
    then show ?thesis using f(1-4,6) p(1-3) s Some by metis
  qed
qed

lemma create_file_effect:
  assumes h: "fat_healthy fs" and ch: "is_chain fs cs" and t: "terminated (slots fs cs)"
    and sn: "makeShortName name = Some short" "length short = 11" "short ! 0 \<noteq> 0" "short ! 0 \<noteq> EntryDeleted"
    and at: "attributes AND AttributeDirectory = 0" "attributes AND AttributeVolumeID = 0"
  shows "\<exists>r fs'. fat_createDirectoryEntry (hd cs) name attributes fs = Some (r, fs') \<and>
    (case r of
       None \<Rightarrow> fs' = fs \<and> free_clusters fs = {} \<and> (\<forall>s \<in> set (slots fs cs). \<not> free_slot s)
     | Some e \<Rightarrow> \<exists>new d k A old B. is_chain fs' (cs @ new) \<and> set new \<subseteq> free_clusters fs \<and>
        changes_only (insert (last cs) (set new)) (insert d (set new)) fs fs' \<and> d \<in> set (cs @ new) \<and>
        slots fs' (cs @ new) = A @ (d, k, make_raw short attributes 0 0) # B \<and> (\<forall>s \<in> set A. \<not> free_slot s) \<and>
        free_slot (d, k, old) \<and> terminated (A @ (d, k, old) # B) \<and>
        (new = [] \<and> slots fs cs = A @ (d, k, old) # B \<or>
         new \<noteq> [] \<and> slots fs cs = A \<and> kind (d, k, old) = EndMark \<and> (\<forall>s \<in> set B. kind s = EndMark)) \<and>
        e = \<lparr>di_name = name, di_attributes = attributes, di_firstCluster = 0, di_size = 0, di_parentCluster = hd cs,
             di_entryCluster = d, di_entryOffset = of_nat (k * 32), di_entryIndex = of_nat (k * 32) div 32\<rparr>)"
  using findFree_slots [OF h ch]
proof (elim disjE)
  assume "fat_findFreeDirectoryEntry (hd cs) fs = Some (None, fs) \<and> free_clusters fs = {} \<and>
      (\<forall>s \<in> set (slots fs cs). \<not> free_slot s)"
  then show ?thesis by (simp add: fat_createDirectoryEntry_def sn(1))
next
  assume "\<exists>fs' new d k A old B. fat_findFreeDirectoryEntry (hd cs) fs = Some (Some (d, of_nat (k * 32)), fs') \<and>
      is_chain fs' (cs @ new) \<and> set new \<subseteq> free_clusters fs \<and>
      changes_only (insert (last cs) (set new)) (set new) fs fs' \<and> d \<in> set (cs @ new) \<and> k < csize fs' div 32 \<and>
      slots fs' (cs @ new) = A @ (d, k, old) # B \<and> (\<forall>s \<in> set A. \<not> free_slot s) \<and> free_slot (d, k, old) \<and>
      (new = [] \<and> fs' = fs \<or>
       new \<noteq> [] \<and> slots fs cs = A \<and> kind (d, k, old) = EndMark \<and> (\<forall>s \<in> set B. kind s = EndMark))"
  then obtain fs1 new d k A old B where f: "fat_findFreeDirectoryEntry (hd cs) fs = Some (Some (d, of_nat (k * 32)), fs1)"
      "is_chain fs1 (cs @ new)" "set new \<subseteq> free_clusters fs"
      "changes_only (insert (last cs) (set new)) (set new) fs fs1" "d \<in> set (cs @ new)" "k < csize fs1 div 32"
      "slots fs1 (cs @ new) = A @ (d, k, old) # B" "\<forall>s \<in> set A. \<not> free_slot s" "free_slot (d, k, old)"
      "new = [] \<and> fs1 = fs \<or>
       new \<noteq> [] \<and> slots fs cs = A \<and> kind (d, k, old) = EndMark \<and> (\<forall>s \<in> set B. kind s = EndMark)"
    by blast
  let ?raw = "make_raw short attributes 0 0"
  have h1: "fat_healthy fs1" by (rule changes_only_healthy [OF f(4) h])
  obtain fs' where w: "fat_writeDirectoryEntry d (of_nat (k * 32)) ?raw fs1 = (True, fs')" "changes_only {} {d} fs1 fs'"
    "is_chain fs' (cs @ new)" "slots fs' (cs @ new) = A @ (d, k, ?raw) # B"
    using write_slot [OF h1 f(2,5,6,7) length_make_raw [OF sn(2)]] by blast
  have c: "changes_only (insert (last cs) (set new)) (insert d (set new)) fs fs'"
    by (rule changes_only_trans [OF f(4) w(2)]) auto
  have tt: "terminated (A @ (d, k, old) # B)"
    using f(10)
  proof
    assume "new = [] \<and> fs1 = fs" then show ?thesis using t f(7) by simp
  next
    assume n: "new \<noteq> [] \<and> slots fs cs = A \<and> kind (d, k, old) = EndMark \<and> (\<forall>s \<in> set B. kind s = EndMark)"
    show ?thesis by (rule terminated_grown [OF f(8)]) (use n in auto)
  qed
  have "fat_createDirectoryEntry (hd cs) name attributes fs = Some (Some \<lparr>di_name = name, di_attributes = attributes,
      di_firstCluster = 0, di_size = 0, di_parentCluster = hd cs,
      di_entryCluster = d, di_entryOffset = of_nat (k * 32), di_entryIndex = of_nat (k * 32) div 32\<rparr>, fs')"
    unfolding fat_createDirectoryEntry_def sn(1) option.case f(1) Option.bind.simps prod.case Let_def w(1)
    by (simp add: at(1))
  moreover have "new = [] \<and> slots fs cs = A @ (d, k, old) # B \<or>
       new \<noteq> [] \<and> slots fs cs = A \<and> kind (d, k, old) = EndMark \<and> (\<forall>s \<in> set B. kind s = EndMark)"
    using f(7,10) by auto
  ultimately show ?thesis
    using f(3,5,8,9) w(3,4) c tt by (intro exI conjI) (assumption, simp, blast)
qed

lemma listing_of_create:
  assumes "\<forall>s \<in> set A. \<not> free_slot s" "free_slot (d, k, old)" "kind (d, k, new) = Entry"
    "terminated (A @ (d, k, old) # B)"
    "ss = A @ (d, k, old) # B \<or> ss = A \<and> kind (d, k, old) = EndMark \<and> (\<forall>s \<in> set B. kind s = EndMark)"
  shows "\<exists>Bs. listing first ss [] 0 = listing first A [] 0 @ Bs \<and>
    listing first (A @ (d, k, new) # B) [] 0 =
      listing first A [] 0 @ entry_of first (d, k, new) (orphan_name ss) (of_nat (length A)) # Bs"
proof -
  have on: "orphan_name ss = pending A []"
    using assms(5) takeWhile_free [OF assms(1,2)] assms(1)
    by (auto simp: orphan_name_def takeWhile_eq_all_conv [THEN iffD2])
  note li = listing_insert [OF assms(1-3) terminated_split [OF assms(4)], of first]
  show ?thesis
    using assms(5)
  proof
    assume "ss = A @ (d, k, old) # B"
    then show ?thesis using li on by auto
  next
    assume s: "ss = A \<and> kind (d, k, old) = EndMark \<and> (\<forall>s \<in> set B. kind s = EndMark)"
    then show ?thesis using li on by (intro exI [of _ "[]"]) simp
  qed
qed

lemma terminated_update:
  assumes "\<forall>s \<in> set A. \<not> free_slot s" "terminated (A @ x # B)" "kind y \<noteq> EndMark"
  shows "terminated (A @ y # B)"
  unfolding terminated_def
proof (intro allI impI)
  fix As s Bs assume e: "A @ y # B = As @ s # Bs" "kind s = EndMark"
  have "s \<notin> set A" "s \<noteq> y" using assms(1,3) e(2) by (auto simp: free_slot_def)
  then obtain B1 where b: "B = B1 @ s # Bs"
    using e(1) by (fastforce simp: append_eq_append_conv2 Cons_eq_append_conv append_eq_Cons_conv)
  have "A @ x # B = (A @ x # B1) @ s # Bs" using b by simp
  then show "\<forall>x \<in> set Bs. kind x = EndMark" using assms(2) e(2) unfolding terminated_def by blast
qed

lemma short_name_length: "makeShortName name = Some short \<Longrightarrow> length short = 11"
  by (elim makeShortName_cases) simp_all

lemma create_file_listed:
  assumes h: "fat_healthy fs" and ch: "is_chain fs cs" and t: "terminated (slots fs cs)"
    and sn: "makeShortName name = Some short" "short ! 0 \<noteq> 0" "short ! 0 \<noteq> EntryDeleted"
    and at: "attributes AND AttributeDirectory = 0" "attributes AND AttributeVolumeID = 0"
    and c: "fat_createDirectoryEntry (hd cs) name attributes fs = Some (Some e, fs')"
  shows "\<exists>new A Bs. is_chain fs' (cs @ new) \<and> set new \<subseteq> free_clusters fs \<and>
      changes_only (insert (last cs) (set new)) (insert (di_entryCluster e) (set new)) fs fs' \<and>
      di_entryCluster e \<in> set (cs @ new) \<and>
      fat_readDirectory (hd cs) fs = Some (Some (listing (hd cs) A [] 0 @ Bs)) \<and>
      fat_readDirectory (hd cs) fs' = Some (Some (listing (hd cs) A [] 0 @
        e\<lparr>di_name := (if orphan_name (slots fs cs) = [] then shortNameToString short else orphan_name (slots fs cs)),
          di_entryIndex := of_nat (length A)\<rparr> # Bs)) \<and>
      A = takeWhile (\<lambda>s. \<not> free_slot s) (slots fs cs) \<and> terminated (slots fs' (cs @ new)) \<and>
      di_name e = name \<and> di_attributes e = attributes \<and> di_firstCluster e = 0 \<and> di_size e = 0"
proof -
  note sl = short_name_length [OF sn(1)]
  obtain new d k A old B where f: "is_chain fs' (cs @ new)" "set new \<subseteq> free_clusters fs"
      "changes_only (insert (last cs) (set new)) (insert d (set new)) fs fs'" "d \<in> set (cs @ new)"
      "slots fs' (cs @ new) = A @ (d, k, make_raw short attributes 0 0) # B" "\<forall>s \<in> set A. \<not> free_slot s"
      "free_slot (d, k, old)" "terminated (A @ (d, k, old) # B)"
      "new = [] \<and> slots fs cs = A @ (d, k, old) # B \<or>
       new \<noteq> [] \<and> slots fs cs = A \<and> kind (d, k, old) = EndMark \<and> (\<forall>s \<in> set B. kind s = EndMark)"
      "e = \<lparr>di_name = name, di_attributes = attributes, di_firstCluster = 0, di_size = 0, di_parentCluster = hd cs,
           di_entryCluster = d, di_entryOffset = of_nat (k * 32), di_entryIndex = of_nat (k * 32) div 32\<rparr>"
    using create_file_effect [OF h ch t sn(1) sl sn(2,3) at] unfolding c by simp blast
  have "attributes \<noteq> AttributeLongName"
    using at(2) by (auto simp: AttributeLongName_def AttributeVolumeID_def)
  then have ke: "kind (d, k, make_raw short attributes 0 0) = Entry"
    using sn(2,3) at(2) by (simp add: kind_def raw_fields [OF sl])
  have nE: "cs \<noteq> []" using ch by auto
  have h': "fat_healthy fs'" by (rule changes_only_healthy [OF f(3) h])
  obtain Bs where l: "listing (hd cs) (slots fs cs) [] 0 = listing (hd cs) A [] 0 @ Bs"
      "listing (hd cs) (A @ (d, k, make_raw short attributes 0 0) # B) [] 0 = listing (hd cs) A [] 0 @
        entry_of (hd cs) (d, k, make_raw short attributes 0 0) (orphan_name (slots fs cs)) (of_nat (length A)) # Bs"
    using listing_of_create [OF f(6,7) ke f(8), of "slots fs cs" "hd cs"] f(9) by blast
  have tw: "A = takeWhile (\<lambda>s. \<not> free_slot s) (slots fs cs)"
    using f(9) takeWhile_free [OF f(6,7)] f(6) by (auto simp: takeWhile_eq_all_conv [THEN iffD2])
  have tt: "terminated (slots fs' (cs @ new))"
    unfolding f(5) by (rule terminated_update [OF f(6,8)]) (simp add: ke)
  show ?thesis
  proof (intro exI [of _ new] exI [of _ A] exI [of _ Bs] conjI)
    show "fat_readDirectory (hd cs) fs = Some (Some (listing (hd cs) A [] 0 @ Bs))"
      using readDirectory_value [OF h ch] l(1) by simp
    show "fat_readDirectory (hd cs) fs' = Some (Some (listing (hd cs) A [] 0 @
        e\<lparr>di_name := (if orphan_name (slots fs cs) = [] then shortNameToString short else orphan_name (slots fs cs)),
          di_entryIndex := of_nat (length A)\<rparr> # Bs))"
      using readDirectory_value [OF h' f(1), unfolded f(5)] l(2) nE
      by (simp add: f(10) entry_of_def raw_fields [OF sl] short_name_raw [OF sl])
  qed (use f(1-4,10) tw tt in simp_all)
qed

section \<open>Removing an entry\<close>

lemma raw_at_mark:
  assumes "32 * k + 32 \<le> length data"
  shows "raw_at (put_bytes (32 * k) [v] data) i = (if i = k then (raw_at data k)[0 := v] else raw_at data i)"
proof -
  have l: "length (put_bytes (32 * k) [v] data) = length data" using assms by (simp add: length_put_bytes)
  show ?thesis
  proof (rule nth_equalityI)
    show "length (raw_at (put_bytes (32 * k) [v] data) i) = length (if i = k then (raw_at data k)[0 := v] else raw_at data i)"
      using l by (simp add: raw_at_def)
    fix j assume "j < length (raw_at (put_bytes (32 * k) [v] data) i)"
    then have j: "j < 32" "32 * i + j < length data" using l by (auto simp: raw_at_def less_diff_conv)
    have "32 * i + j = 32 * k \<longleftrightarrow> i = k \<and> j = 0" using j(1) by presburger
    then show "raw_at (put_bytes (32 * k) [v] data) i ! j = (if i = k then (raw_at data k)[0 := v] else raw_at data i) ! j"
      using j l assms by (cases j) (auto simp: raw_at_def nth_put_bytes nth_list_update)
  qed
qed

text \<open>What the marking does: the entries from some index \<open>m\<close> to \<open>k\<close> are deleted, all but the last being long names.\<close>

lemma mark_long_names_spec:
  assumes "32 * k \<le> length data"
  shows "\<exists>m \<le> k. length (mark_long_names k data) = length data \<and> (\<forall>i. m \<le> i \<longrightarrow> i < k \<longrightarrow> raw_attributes (raw_at data i) = AttributeLongName) \<and>
    (\<forall>i. raw_at (mark_long_names k data) i = (if m \<le> i \<and> i < k then (raw_at data i)[0 := EntryDeleted] else raw_at data i))"
  using assms
proof (induction k data rule: mark_long_names.induct)
  case (2 k data)
  show ?case
  proof (cases "raw_attributes (raw_at data k) = AttributeLongName")
    case True
    let ?d = "put_bytes (32 * k) [EntryDeleted] data"
    have ra: "raw_at ?d i = (if i = k then (raw_at data k)[0 := EntryDeleted] else raw_at data i)" for i
      using 2(2) by (intro raw_at_mark) simp
    have ld: "length ?d = length data" using 2(2) by (simp add: length_put_bytes)
    obtain m where m: "m \<le> k" "length (mark_long_names k ?d) = length ?d"
      "\<forall>i. m \<le> i \<longrightarrow> i < k \<longrightarrow> raw_attributes (raw_at ?d i) = AttributeLongName"
      "\<forall>i. raw_at (mark_long_names k ?d) i = (if m \<le> i \<and> i < k then (raw_at ?d i)[0 := EntryDeleted] else raw_at ?d i)"
      using 2 True ld by auto
    show ?thesis
      using m True ld by (intro exI [of _ m]) (auto simp: ra less_Suc_eq)
  next
    case False
    then show ?thesis by (intro exI [of _ "Suc k"]) auto
  qed
qed simp

lemma mark_entry_spec:
  assumes k: "32 * k + 32 \<le> length data" "length data < 2 ^ 32"
  shows "\<exists>m \<le> k. length (markEntryAndLongNameDeleted data (of_nat (k * 32))) = length data \<and>
    (\<forall>i. m \<le> i \<longrightarrow> i < k \<longrightarrow> raw_attributes (raw_at data i) = AttributeLongName) \<and>
    (\<forall>i. raw_at (markEntryAndLongNameDeleted data (of_nat (k * 32))) i =
       (if m \<le> i \<and> i \<le> k then (raw_at data i)[0 := EntryDeleted] else raw_at data i))"
proof -
  have "unat (of_nat (k * 32) :: u32) = 32 * k"
    using k by (subst unat_of_nat_fits) simp_all
  then have e: "markEntryAndLongNameDeleted data (of_nat (k * 32)) = mark_long_names k (put_bytes (32 * k) [EntryDeleted] data)"
    by (simp add: markEntryAndLongNameDeleted_def)
  have ld: "length (put_bytes (32 * k) [EntryDeleted] data) = length data" using k by (simp add: length_put_bytes)
  obtain m where m: "m \<le> k" "length (mark_long_names k (put_bytes (32 * k) [EntryDeleted] data)) = length data"
    "\<forall>i. m \<le> i \<longrightarrow> i < k \<longrightarrow> raw_attributes (raw_at (put_bytes (32 * k) [EntryDeleted] data) i) = AttributeLongName"
    "\<forall>i. raw_at (mark_long_names k (put_bytes (32 * k) [EntryDeleted] data)) i =
      (if m \<le> i \<and> i < k then (raw_at (put_bytes (32 * k) [EntryDeleted] data) i)[0 := EntryDeleted]
       else raw_at (put_bytes (32 * k) [EntryDeleted] data) i)"
    using mark_long_names_spec [of k "put_bytes (32 * k) [EntryDeleted] data"] k(1) ld by auto
  show ?thesis
    unfolding e using m by (intro exI [of _ m]) (auto simp: raw_at_mark [OF k(1)])
qed

lemma listing_deleted:
  assumes "\<forall>s \<in> set M. kind s = Deleted"
  shows "listing first (M @ B) lfn g = listing first B (if M = [] then lfn else []) (g + of_nat (length M))"
  using assms by (induction M arbitrary: lfn g) (auto simp: pend_def ac_simps)

lemma pending_simps [simp]: "pending [] lfn = lfn" "pending (s # ss) lfn = pending ss (pend s lfn)"
    "pending (ss @ ts) lfn = pending ts (pending ss lfn)"
  by (simp_all add: pending_def)

lemma listing_names:
  assumes "\<forall>s \<in> set M. kind s = LongName \<or> kind s = Deleted"
  shows "listing first (M @ B) lfn g = listing first B (pending M lfn) (g + of_nat (length M))"
  using assms by (induction M arbitrary: lfn g) (auto simp: ac_simps)

lemma listing_remove:
  assumes "\<forall>s \<in> set A. kind s \<noteq> EndMark" "\<forall>s \<in> set M. kind s = LongName \<or> kind s = Deleted" "kind s = Entry"
    "\<forall>s \<in> set M'. kind s = Deleted" "kind s' = Deleted" "length M' = length M"
  shows "listing first (A @ M @ s # B) [] 0 = listing first A [] 0 @
      entry_of first s (pending (A @ M) []) (of_nat (length (A @ M))) #
      listing first B [] (of_nat (length (A @ M)) + 1)"
    "listing first (A @ M' @ s' # B) [] 0 = listing first A [] 0 @ listing first B [] (of_nat (length (A @ M)) + 1)"
proof -
  have a: "\<And>s. s \<in> set A \<Longrightarrow> kind s \<noteq> EndMark" using assms(1) by blast
  have d: "pend s' x = []" "pend s x = []" for x using assms(3,5) by (simp_all add: pend_def)
  show "listing first (A @ M @ s # B) [] 0 = listing first A [] 0 @
      entry_of first s (pending (A @ M) []) (of_nat (length (A @ M))) #
      listing first B [] (of_nat (length (A @ M)) + 1)"
    "listing first (A @ M' @ s' # B) [] 0 = listing first A [] 0 @ listing first B [] (of_nat (length (A @ M)) + 1)"
    using d by (simp_all add: listing_append [OF a] listing_names [OF assms(2)] listing_deleted [OF assms(4)] assms(3,5,6))
qed

text \<open>The entries of a listing and the slots they come from.\<close>

lemma listing_member:
  assumes "e \<in> set (listing first ss lfn g)"
  shows "\<exists>A s B. ss = A @ s # B \<and> (\<forall>x \<in> set A. kind x \<noteq> EndMark) \<and> kind s = Entry \<and>
    e = entry_of first s (pending A lfn) (g + of_nat (length A))"
  using assms
proof (induction ss arbitrary: lfn g)
  case (Cons s ss)
  have ne: "kind s \<noteq> EndMark" using Cons.prems by (auto split: if_splits)
  consider "kind s = Entry" "e = entry_of first s lfn g" | "e \<in> set (listing first ss (pend s lfn) (g + 1))"
    using Cons.prems by (auto split: if_splits)
  then show ?case
  proof cases
    case 1
    then show ?thesis by (intro exI [of _ "[]"]) auto
  next
    case 2
    then obtain A t B where "ss = A @ t # B" "\<forall>x \<in> set A. kind x \<noteq> EndMark" "kind t = Entry"
      "e = entry_of first t (pending A (pend s lfn)) (g + 1 + of_nat (length A))" using Cons.IH by blast
    then show ?thesis using ne by (intro exI [of _ "s # A"]) (auto simp: ac_simps)
  qed
qed simp

lemma slots_where:
  assumes "slots fs cs = A @ (d, k, raw) # B"
  shows "\<exists>xs ys. cs = xs @ d # ys \<and> k < csize fs div 32 \<and> raw = raw_at (cluster_data fs d) k"
proof -
  have "(d, k, raw) \<in> set (slots fs cs)" using assms by simp
  then obtain c where "c \<in> set cs" "(d, k, raw) \<in> set (cluster_slots fs c)" by (auto simp: slots_def)
  then show ?thesis by (auto simp: cluster_slots_def dest: split_list)
qed

lemma kind_deleted: "length raw \<noteq> 0 \<Longrightarrow> kind (c, i, raw[0 := EntryDeleted]) = Deleted"
  by (cases raw) (auto simp: kind_def EntryDeleted_def)

lemma upt_split: "i \<le> j \<Longrightarrow> j \<le> n \<Longrightarrow> [i..<n] = [i..<j] @ [j..<n]"
  using upt_add_eq_append [of i j "n - j"] by simp

lemma mark_slots:
  assumes h: "fat_healthy fs" and ch: "is_chain fs cs" and ss: "slots fs cs = A @ (d, k, raw) # B"
  shows "\<exists>fs' A1 M M' s'. fat_writeCluster d (markEntryAndLongNameDeleted (cluster_data fs d) (of_nat (k * 32))) fs = (True, fs') \<and>
    changes_only {} {d} fs fs' \<and> is_chain fs' cs \<and> A = A1 @ M \<and> length M' = length M \<and>
    (\<forall>s \<in> set M. raw_attributes (snd (snd s)) = AttributeLongName) \<and> (\<forall>s \<in> set M'. kind s = Deleted) \<and> kind s' = Deleted \<and>
    slots fs' cs = A1 @ M' @ s' # B"
proof -
  have g: "fat_geom fs" using h by (simp add: fat_healthy_def)
  obtain xs ys where cs: "cs = xs @ d # ys" and k: "k < csize fs div 32" and raw: "raw = raw_at (cluster_data fs d) k"
    using slots_where [OF ss] by blast
  have dist: "d \<notin> set xs" "d \<notin> set ys" using chain_distinct [OF g ch] cs by auto
  have v: "valid_cluster fs d" by (rule chain_valid [OF ch]) (simp add: cs)
  have ld: "length (cluster_data fs d) = csize fs" by (rule length_cluster_data [OF g])
  have kb: "32 * k + 32 \<le> csize fs" using k csize_slots [OF g] by simp
  have c32: "csize fs < 2 ^ 32" using unsigned_less [of "fat_clusterSize fs", where ?'a = nat] by simp
  let ?data = "markEntryAndLongNameDeleted (cluster_data fs d) (of_nat (k * 32))"
  obtain m where m: "m \<le> k" "length ?data = csize fs"
    "\<forall>i. m \<le> i \<longrightarrow> i < k \<longrightarrow> raw_attributes (raw_at (cluster_data fs d) i) = AttributeLongName"
    "\<And>i. raw_at ?data i = (if m \<le> i \<and> i \<le> k then (raw_at (cluster_data fs d) i)[0 := EntryDeleted] else raw_at (cluster_data fs d) i)"
    using mark_entry_spec [of k "cluster_data fs d"] kb ld c32 by auto
  obtain fs' where w: "fat_writeCluster d ?data fs = (True, fs')"
    using healthy_writeCluster [OF h v] by (metis prod.collapse)
  note e = writeCluster_effect [OF w g v m(2)]
  have cz: "csize fs' = csize fs" using same_volume_addr(5) [OF changes_only_same [OF e(1)]] by simp
  have same: "cluster_data fs' c = cluster_data fs c" if "c \<in> set cs" "c \<noteq> d" for c
    using changes_only_data [OF e(1) chain_valid [OF ch that(1)]] that(2) by simp
  have out: "slots fs' xs = slots fs xs" "slots fs' ys = slots fs ys"
    using same cs dist by (auto intro!: slots_cong cz)
  let ?s = "\<lambda>i. (d, i, raw_at (cluster_data fs d) i)" and ?t = "\<lambda>i. (d, i, raw_at ?data i)"
  have len: "length (raw_at (cluster_data fs d) i) \<noteq> 0" if "i \<le> k" for i
    using that kb ld by (simp add: raw_at_def)
  have up: "[0..<csize fs div 32] = [0..<m] @ [m..<k] @ k # [Suc k..<csize fs div 32]"
    using upt_split [of 0 k "csize fs div 32"] upt_split [of 0 m k] upt_conv_Cons [OF k] m(1) k by simp
  have old: "slots fs cs = (slots fs xs @ map ?s [0..<m] @ map ?s [m..<k]) @ ?s k # map ?s [Suc k..<csize fs div 32] @ slots fs ys"
    by (simp add: cs cluster_slots_def up)
  have new: "slots fs' cs = (slots fs xs @ map ?s [0..<m]) @ map ?t [m..<k] @ ?t k # map ?s [Suc k..<csize fs div 32] @ slots fs ys"
    using e(3) m(1) by (simp add: cs cluster_slots_def cz up out m(4) del: of_nat_mult)
  have "A = slots fs xs @ map ?s [0..<m] @ map ?s [m..<k] \<and> B = map ?s [Suc k..<csize fs div 32] @ slots fs ys"
  proof (rule split_unique [of _ "(d, k, raw)" _ _ "?s k"])
    show "A @ (d, k, raw) # B = (slots fs xs @ map ?s [0..<m] @ map ?s [m..<k]) @ ?s k # map ?s [Suc k..<csize fs div 32] @ slots fs ys"
      using old ss by simp
    show "distinct (map (\<lambda>s. (fst s, fst (snd s))) (A @ (d, k, raw) # B))"
      using slots_keys [OF chain_distinct [OF g ch], of fs] ss by simp
  qed simp
  moreover have "\<forall>s \<in> set (map ?t [m..<k]). kind s = Deleted" "kind (?t k) = Deleted"
    using len m(1) by (auto simp: m(4) kind_deleted simp del: of_nat_mult)
  moreover have "\<forall>s \<in> set (map ?s [m..<k]). raw_attributes (snd (snd s)) = AttributeLongName" using m(3) by auto
  ultimately show ?thesis
    using w e(1) new chain_frame [OF e(1) g _ ch]
    by (intro exI [of _ fs'] exI [of _ "slots fs xs @ map ?s [0..<m]"] exI [of _ "map ?s [m..<k]"]
        exI [of _ "map ?t [m..<k]"] exI [of _ "?t k"]) simp
qed

lemma changes_only_free:
  assumes "changes_only {} D fs fs'" "fat_geom fs"
  shows "free_clusters fs' = free_clusters fs"
  using changes_only_entry [OF assms] same_volume_addr(6) [OF changes_only_same [OF assms(1)]]
  by (auto simp: free_clusters_def)

lemma remove_effect:
  assumes h: "fat_healthy fs" and ch: "is_chain fs cs"
    and found: "fat_findEntry path fs = Some (Some e)" and mem: "e \<in> set (listing (hd cs) (slots fs cs) [] 0)"
    and nd: "\<not> isDotEntry (di_name e)"
    and ds: "ds = [] \<and> di_firstCluster e < 2 \<or> is_chain fs ds \<and> hd ds = di_firstCluster e" "set ds \<inter> set cs = {}"
    and dir: "isDirectory e \<Longrightarrow> \<exists>es. fat_readDirectory (di_firstCluster e) fs = Some (Some es) \<and> (\<forall>x \<in> set es. isDotEntry (di_name x))"
  shows "\<exists>fs' As Bs. fat_remove path fs = Some (NoError, fs') \<and>
    fat_readDirectory (hd cs) fs = Some (Some (As @ e # Bs)) \<and> fat_readDirectory (hd cs) fs' = Some (Some (As @ Bs)) \<and>
    is_chain fs' cs \<and> free_clusters fs' = free_clusters fs \<union> set ds \<and>
    changes_only (set ds) {di_entryCluster e} fs fs' \<and> di_entryCluster e \<in> set cs"
proof -
  have g: "fat_geom fs" using h by (simp add: fat_healthy_def)
  obtain A s B where s: "slots fs cs = A @ s # B" "\<forall>x \<in> set A. kind x \<noteq> EndMark" "kind s = Entry"
    "e = entry_of (hd cs) s (pending A []) (of_nat (length A))"
    using listing_member [OF mem] by auto
  obtain d k raw where sd: "s = (d, k, raw)" by (cases s)
  have e: "di_entryCluster e = d" "di_entryOffset e = of_nat (k * 32)" using s(4) sd by (simp_all add: entry_of_def)
  obtain fs1 A1 M M' s' where m: "fat_writeCluster d (markEntryAndLongNameDeleted (cluster_data fs d) (of_nat (k * 32))) fs = (True, fs1)"
    "changes_only {} {d} fs fs1" "is_chain fs1 cs" "A = A1 @ M" "length M' = length M"
    "\<forall>s \<in> set M. raw_attributes (snd (snd s)) = AttributeLongName" "\<forall>s \<in> set M'. kind s = Deleted" "kind s' = Deleted"
    "slots fs1 cs = A1 @ M' @ s' # B"
    using mark_slots [OF h ch s(1) [unfolded sd]] by blast
  have km: "\<forall>s \<in> set M. kind s = LongName \<or> kind s = Deleted"
  proof
    fix t assume t: "t \<in> set M"
    then have "kind t \<noteq> EndMark" "raw_attributes (snd (snd t)) = AttributeLongName" using s(2) m(4,6) by auto
    then show "kind t = LongName \<or> kind t = Deleted" by (auto simp: kind_def split: prod.splits if_splits)
  qed
  have a1: "\<forall>s \<in> set A1. kind s \<noteq> EndMark" using s(2) m(4) by auto
  note lr = listing_remove [OF a1 km s(3) m(7,8,5), of "hd cs" B]
  have h1: "fat_healthy fs1" by (rule changes_only_healthy [OF m(2) h])
  have dcs: "d \<in> set cs" using slots_where [OF s(1) [unfolded sd]] by auto
  have v: "valid_cluster fs d" by (rule chain_valid [OF ch dcs])
  have before: "fat_readDirectory (hd cs) fs = Some (Some (listing (hd cs) A1 [] 0 @ e # listing (hd cs) B [] (of_nat (length (A1 @ M)) + 1)))"
    using readDirectory_value [OF h ch] lr(1) s(1,4) m(4) by simp
  have listed: "fat_readDirectory (hd cs) fs' = Some (Some (listing (hd cs) A1 [] 0 @ listing (hd cs) B [] (of_nat (length (A1 @ M)) + 1)))"
    if c: "changes_only (set ds) {} fs1 fs'" and ch': "is_chain fs' cs" for fs'
  proof -
    have h': "fat_healthy fs'" by (rule changes_only_healthy [OF c h1])
    have "slots fs' cs = slots fs1 cs"
      using changes_only_data [OF c] chain_valid [OF m(3)] same_volume_addr(5) [OF changes_only_same [OF c]]
      by (intro slots_cong) auto
    then show ?thesis using readDirectory_value [OF h' ch'] lr(2) m(9) by simp
  qed
  have refused: "(if isDirectory e then do { entries \<leftarrow> fat_readDirectory (di_firstCluster e) fs;
          Some (case entries of None \<Rightarrow> IOError
            | Some entries \<Rightarrow> if list_all (\<lambda>x. isDotEntry (di_name x)) entries then NoError else PermissionDenied) }
        else Some NoError) = Some NoError"
    using dir by (auto simp: list_all_iff)
  have run: "fat_remove path fs = (if 2 \<le> di_firstCluster e then
      do { f \<leftarrow> fat_freeClusterChain (di_firstCluster e) fs1; Some (if fst f then NoError else IOError, snd f) }
      else Some (NoError, fs1))"
    using valid_ge2 [OF v] nd healthy_readCluster [OF h v] m(1)
    by (simp add: fat_remove_def found refused e del: of_nat_mult)
  show ?thesis
    using ds(1)
  proof
    assume z: "ds = [] \<and> di_firstCluster e < 2"
    then have "\<not> 2 \<le> di_firstCluster e" by (simp add: not_le)
    then show ?thesis
      using run before listed [of fs1] changes_only_refl [of fs1 "set ds" "{}"] m(2,3) h1 changes_only_free [OF m(2) g] z dcs e(1)
      by (auto simp: fat_healthy_def fat_geom_def)
  next
    assume z: "is_chain fs ds \<and> hd ds = di_firstCluster e"
    then obtain c cs' where c: "ds = c # cs'" "c = di_firstCluster e" by (cases ds) auto
    have ch1: "is_chain fs1 (c # cs')" using chain_frame [OF m(2) g, of ds] z c by simp
    obtain fs' where f: "fat_freeClusterChain c fs1 = Some (True, fs')" "free_clusters fs' = free_clusters fs1 \<union> set ds"
      "changes_only (set ds) {} fs1 fs'" "is_chain fs' cs"
      using free_chain_effect [OF h1 ch1] m(3) ds(2) c(1) by (metis Int_commute)
    have "2 \<le> di_firstCluster e" using valid_ge2 [of fs c] chain_valid [of fs ds c] z c by (simp add: not_less)
    moreover have "changes_only (set ds) {d} fs fs'" by (rule changes_only_trans [OF m(2) f(3)]) auto
    ultimately show ?thesis
      using run before listed [OF f(3,4)] f c changes_only_free [OF m(2) g] dcs e(1)
      by (intro exI [of _ fs'] exI conjI) simp_all
  qed
qed

section \<open>The properties\<close>

text \<open>
  C22. Reading a directory computes its listing: for every chain of a healthy volume \<^verbatim>\<open>readDirectory\<close>
  agrees with a reference reader that goes over the 32-byte slots of the whole chain once.
\<close>

theorem fat_listing_equivalent:
  assumes "fat_healthy fs" "is_chain fs cs"
  shows "fat_readDirectory (hd cs) fs = Some (Some (listing (hd cs) (slots fs cs) [] 0))"
  by (rule readDirectory_value [OF assms])

text \<open>
  C20. Creating a file adds one entry to the listing, in front of which and after which nothing changes, with the attributes
  asked for, no cluster and no bytes; files that share no cluster with the directory keep their bytes, and creation fails only
  when the directory has no free slot and the volume no free cluster. The name listed is the lower-case short name,
  unless long-name entries without an owner stand before the slot: then it is theirs.
\<close>

theorem fat_create_file_correct:
  assumes "fat_healthy fs" "is_chain fs cs" "terminated (slots fs cs)"
    "makeShortName name = Some short" "short ! 0 \<noteq> 0" "short ! 0 \<noteq> EntryDeleted"
  shows "\<exists>r fs'. fat_createDirectoryEntry (hd cs) name AttributeArchive fs = Some (r, fs') \<and>
    (case r of
       None \<Rightarrow> fs' = fs \<and> free_clusters fs = {} \<and> (\<forall>s \<in> set (slots fs cs). \<not> free_slot s)
     | Some e \<Rightarrow> \<exists>As Bs i. fat_readDirectory (hd cs) fs = Some (Some (As @ Bs)) \<and>
         fat_readDirectory (hd cs) fs' = Some (Some (As @ e\<lparr>di_name :=
           (if orphan_name (slots fs cs) = [] then shortNameToString short else orphan_name (slots fs cs)),
           di_entryIndex := i\<rparr> # Bs)) \<and>
         di_name e = name \<and> di_attributes e = AttributeArchive \<and> di_firstCluster e = 0 \<and> di_size e = 0 \<and>
         (\<forall>ds. is_chain fs ds \<longrightarrow> set ds \<inter> set cs = {} \<longrightarrow> is_chain fs' ds \<and> content fs' ds = content fs ds))"
proof -
  have at: "AttributeArchive AND AttributeDirectory = 0" "AttributeArchive AND AttributeVolumeID = 0"
    by (simp_all add: AttributeArchive_def AttributeDirectory_def AttributeVolumeID_def)
  have g: "fat_geom fs" using assms(1) by (simp add: fat_healthy_def)
  obtain r fs' where c: "fat_createDirectoryEntry (hd cs) name AttributeArchive fs = Some (r, fs')"
    "case r of None \<Rightarrow> fs' = fs \<and> free_clusters fs = {} \<and> (\<forall>s \<in> set (slots fs cs). \<not> free_slot s) | Some e \<Rightarrow> True"
    using create_file_effect [OF assms(1-4) short_name_length [OF assms(4)] assms(5,6) at]
    by (auto split: option.splits)
  show ?thesis
  proof (cases r)
    case (Some e)
    obtain new A Bs where f: "set new \<subseteq> free_clusters fs"
      "changes_only (insert (last cs) (set new)) (insert (di_entryCluster e) (set new)) fs fs'"
      "di_entryCluster e \<in> set (cs @ new)"
      "fat_readDirectory (hd cs) fs = Some (Some (listing (hd cs) A [] 0 @ Bs))"
      "fat_readDirectory (hd cs) fs' = Some (Some (listing (hd cs) A [] 0 @
        e\<lparr>di_name := (if orphan_name (slots fs cs) = [] then shortNameToString short else orphan_name (slots fs cs)),
          di_entryIndex := of_nat (length A)\<rparr> # Bs))"
      "di_name e = name \<and> di_attributes e = AttributeArchive \<and> di_firstCluster e = 0 \<and> di_size e = 0"
      using create_file_listed [OF assms at c(1) [unfolded Some]] by blast
    have "is_chain fs' ds \<and> content fs' ds = content fs ds" if d: "is_chain fs ds" "set ds \<inter> set cs = {}" for ds
    proof -
      have "cs \<noteq> []" using assms(2) by auto
      then have a: "set ds \<inter> insert (last cs) (set new) = {}" "set ds \<inter> insert (di_entryCluster e) (set new) = {}"
        using d chain_not_free [OF g d(1)] f(1,3) by auto
      show ?thesis
        using chain_frame [OF f(2) g a(1) d(1)] changes_only_data [OF f(2) chain_valid [OF d(1)]] a(2)
        by (blast intro: content_cong)
    qed
    then show ?thesis using c(1) Some f(4-6) by (intro exI [of _ r] exI [of _ fs']) auto
  qed (use c in auto)
qed


end
