(* ===== verification/Entry_Witnesses.thy ===== *)
theory Entry_Witnesses
  imports Fat_Entries Fat_Witnesses
begin

text \<open>
  The properties of directories at concrete inputs: creating a file in the empty root directory of
  \<open>vol8\<close>, and removing the file \<^verbatim>\<open>/a\<close> of 700 bytes from a root directory that holds it.
\<close>

section \<open>An empty directory\<close>

lemma vol8_csize: "csize vol8 = 512"
  by (simp add: fat_clusterSize_def vol8_def)

lemma vol8_empty_root: "cluster_data vol8 2 = replicate 512 0" "\<forall>s \<in> set (slots vol8 [2]). kind s = EndMark"
    "terminated (slots vol8 [2])" "orphan_name (slots vol8 [2]) = []"
proof -
  show d: "cluster_data vol8 2 = replicate 512 0"
    by (simp add: cluster_data_def vol8_def disk8_def fat_clusterToSector_def)
  show e: "\<forall>s \<in> set (slots vol8 [2]). kind s = EndMark"
    using zero_cluster_slots [OF vol8_healthy(2), of 2] d by (simp add: vol8_csize)
  show "terminated (slots vol8 [2])" using terminated_grown [of "[]"] e by simp
  show "orphan_name (slots vol8 [2]) = []"
    using e by (cases "slots vol8 [2]") (simp_all add: orphan_name_def free_slot_def)
qed

lemma fat_listing_equivalent_witness: "fat_readDirectory 2 vol8 = Some (Some [])"
  using fat_listing_equivalent [OF vol8_healthy(1) vol8_chains(2)] listing_end [OF vol8_empty_root(2)] by simp

lemma fat_create_file_correct_witness:
  "\<exists>e fs'. fat_createDirectoryEntry 2 [97] AttributeArchive vol8 = Some (Some e, fs') \<and>
     (\<exists>n. fat_readDirectory 2 fs' = Some (Some [n]) \<and> di_name n = [97])"
proof -
  let ?short = "65 # replicate 10 (32 :: u8)"
  have sn: "makeShortName [97] = Some ?short" "?short ! 0 \<noteq> 0" "?short ! 0 \<noteq> EntryDeleted"
    by (code_simp, simp, simp add: EntryDeleted_def)
  have st: "shortNameToString ?short = [97]"
    by code_simp
  have e: "fat_readDirectory 2 vol8 = Some (Some [])"
    using readDirectory_value [OF vol8_healthy(1) vol8_chains(2)] listing_end [OF vol8_empty_root(2)] by simp
  from fat_create_file_correct [OF vol8_healthy(1) vol8_chains(2) vol8_empty_root(3) sn]
  show ?thesis
    using vol8_free(2) e vol8_empty_root(4) st by (auto split: option.splits)
qed

section \<open>A directory with one file\<close>

definition entry8 :: "u8 list" where
  "entry8 = make_raw (65 # replicate 10 32) AttributeArchive 3 700"

definition dir8 :: fat32 where
  "dir8 = vol8\<lparr>f_disk := disk8\<lparr>m_sector := (m_sector disk8)(4 := entry8 @ replicate 480 0)\<rparr>\<rparr>"

lemma length_entry8: "length entry8 = 32"
  by (simp add: entry8_def length_make_raw)

lemma dir8_healthy: "fat_healthy dir8"
  using vol8_healthy(1) length_entry8
  by (auto simp: fat_healthy_def fat_geom_def dir8_def vol8_def disk8_def disk_ok_def disk_healthy_def)

lemma dir8_entry: "fat_entry dir8 2 = fat_entry vol8 2" "fat_entry dir8 3 = fat_entry vol8 3"
    "fat_entry dir8 4 = fat_entry vol8 4"
  by (simp_all add: fat_entry_def dir8_def table_sector_def entry_sector_def entry_offset_def vol8_def disk8_def)

lemma dir8_chains: "is_chain dir8 [2]" "is_chain dir8 [3, 4]"
proof -
  have v: "valid_cluster dir8 c = valid_cluster vol8 c" for c by (simp add: valid_cluster_def dir8_def)
  show "is_chain dir8 [2]" "is_chain dir8 [3, 4]"
    using vol8_chains by (simp_all add: v dir8_entry)
qed

lemma dir8_csize: "csize dir8 = 512"
  by (simp add: fat_clusterSize_def dir8_def vol8_def)

definition file_a :: dir_info where
  "file_a = \<lparr>di_name = [97], di_attributes = AttributeArchive, di_firstCluster = 3, di_size = 700, di_parentCluster = 2,
     di_entryCluster = 2, di_entryOffset = 0, di_entryIndex = 0\<rparr>"

lemma dir8_root: "fat_readDirectory 2 dir8 = Some (Some [file_a])"
proof -
  have cd: "cluster_data dir8 2 = entry8 @ replicate 480 0"
    by (simp add: cluster_data_def dir8_def vol8_def fat_clusterToSector_def)
  have first: "raw_at (entry8 @ replicate 480 0) 0 = entry8" by (simp add: raw_at_def length_entry8)
  have rest: "kind (2, i, raw_at (entry8 @ replicate 480 0) i) = EndMark" if "0 < i" "i < 16" for i
    using that by (simp add: kind_def raw_at_def length_entry8)
  let ?B = "map (\<lambda>i. (2, i, raw_at (entry8 @ replicate 480 0) i)) [Suc 0..<16]"
  have s: "slots dir8 [2] = (2, 0, entry8) # ?B"
    using cluster_slots_split [of 0 dir8 2] by (simp add: dir8_csize cd first)
  have f: "length (65 # replicate 10 (32 :: u8)) = 11" by simp
  have k: "kind (2, 0, entry8) = Entry"
    using raw_fields [OF f]
    by (simp add: kind_def entry8_def EntryDeleted_def AttributeArchive_def AttributeLongName_def AttributeVolumeID_def)
  have entry8_fields: "raw_attributes entry8 = AttributeArchive" "raw_firstCluster entry8 = 3" "raw_fileSize entry8 = 700"
    using raw_fields [OF f] by (simp_all add: entry8_def)
  have n: "shortNameToString entry8 = [97]"
    unfolding entry8_def short_name_raw [OF f]
    by code_simp
  have "listing 2 ?B lfn g = []" for lfn g by (rule listing_end) (use rest in auto)
  then have "listing 2 (slots dir8 [2]) [] 0 = [file_a]"
    unfolding s using k n by (simp add: entry_of_def file_a_def entry8_fields)
  then show ?thesis using readDirectory_value [OF dir8_healthy dir8_chains(1)] by simp
qed

lemma dir8_find: "fat_findEntry [47, 97] dir8 = Some (Some file_a)"
proof -
  have "splitPath [47, 97] = [[97]]" by (simp add: splitPath_acc)
  moreover have "rootCluster (f_bpb dir8) = 2" by (simp add: dir8_def vol8_def)
  ultimately show ?thesis
    by (simp add: fat_findEntry_def dir8_root namesEqual_def file_a_def)
qed


end
