(* ===== verification/Containers.thy ===== *)
theory Containers
  imports Avery_Prelude "HOL-Library.Multiset"
begin

text \<open>
  The container templates of \<^verbatim>\<open>include/types.h\<close>: \<^verbatim>\<open>Vector\<close>, an array with a
  count and a capacity, and \<^verbatim>\<open>LinkedList\<close> and \<^verbatim>\<open>Queue\<close>, doubly linked nodes in a store of
  their own. Every operation is shown to act on the list of elements as its name says; the queue is an instance of
  the interface \<open>fifo\<close>. Allocation succeeds; the elements of a fresh array are the argument \<open>fresh\<close>.
\<close>

section \<open>Vector\<close>

record 'a vec =
  v_data :: "'a list"
  v_count :: nat
  v_cap :: nat

definition vec_empty :: "'a vec" where
  "vec_empty = \<lparr>v_data = [], v_count = 0, v_cap = 0\<rparr>"

text \<open>\<^verbatim>\<open>for (i < count) newData[i] = data[i]\<close>\<close>

fun copy_elems :: "nat \<Rightarrow> nat \<Rightarrow> 'a list \<Rightarrow> 'a list \<Rightarrow> 'a list" where
  "copy_elems 0 i src dest = dest"
| "copy_elems (Suc n) i src dest = copy_elems n (i + 1) src (dest[i := src ! i])"

definition vec_reserve :: "(nat \<Rightarrow> 'a) \<Rightarrow> nat \<Rightarrow> 'a vec \<Rightarrow> 'a vec" where
  "vec_reserve fresh newCapacity v =
     (if newCapacity \<le> v_cap v then v
      else v\<lparr>v_data := copy_elems (v_count v) 0 (v_data v) (map fresh [0..<newCapacity]), v_cap := newCapacity\<rparr>)"

definition vec_grow :: "(nat \<Rightarrow> 'a) \<Rightarrow> 'a vec \<Rightarrow> 'a vec" where
  "vec_grow fresh v = (if v_cap v = 0 then vec_reserve fresh 4 v else vec_reserve fresh (v_cap v * 2) v)"

definition vec_push :: "(nat \<Rightarrow> 'a) \<Rightarrow> 'a \<Rightarrow> 'a vec \<Rightarrow> 'a vec" where
  "vec_push fresh a v =
     (let v = (if v_cap v \<le> v_count v then vec_grow fresh v else v)
      in v\<lparr>v_data := (v_data v)[v_count v := a], v_count := v_count v + 1\<rparr>)"

definition vec_pop :: "'a vec \<Rightarrow> 'a vec" where
  "vec_pop v = (if v_count v = 0 then v else v\<lparr>v_count := v_count v - 1\<rparr>)"

text \<open>\<^verbatim>\<open>for (i = index; i + 1 < count; i++) data[i] = data[i + 1]\<close>\<close>

fun close_gap :: "nat \<Rightarrow> nat \<Rightarrow> 'a list \<Rightarrow> 'a list" where
  "close_gap 0 i d = d"
| "close_gap (Suc n) i d = close_gap n (i + 1) (d[i := d ! (i + 1)])"

definition vec_remove :: "nat \<Rightarrow> 'a vec \<Rightarrow> 'a vec" where
  "vec_remove index v =
     (if v_count v \<le> index then v
      else v\<lparr>v_data := close_gap (v_count v - 1 - index) index (v_data v), v_count := v_count v - 1\<rparr>)"

definition vec_at :: "'a vec \<Rightarrow> nat \<Rightarrow> 'a option" where
  "vec_at v index = (if v_count v \<le> index then None else Some (v_data v ! index))"

definition vec_last :: "'a vec \<Rightarrow> 'a option" where
  "vec_last v = (if v_count v = 0 then None else Some (v_data v ! (v_count v - 1)))"

definition vec_first :: "'a vec \<Rightarrow> 'a option" where
  "vec_first v = (if v_count v = 0 then None else Some (v_data v ! 0))"

definition vec_size :: "'a vec \<Rightarrow> nat" where "vec_size v = v_count v"
definition vec_capacity :: "'a vec \<Rightarrow> nat" where "vec_capacity v = v_cap v"
definition vec_isEmpty :: "'a vec \<Rightarrow> bool" where "vec_isEmpty v \<longleftrightarrow> v_count v = 0"
definition vec_clear :: "'a vec \<Rightarrow> 'a vec" where "vec_clear v = v\<lparr>v_count := 0\<rparr>"

definition vec_resize :: "(nat \<Rightarrow> 'a) \<Rightarrow> nat \<Rightarrow> 'a vec \<Rightarrow> 'a vec" where
  "vec_resize fresh newSize v =
     (let v = (if v_cap v < newSize then vec_reserve fresh newSize v else v) in v\<lparr>v_count := newSize\<rparr>)"

text \<open>\<^verbatim>\<open>for (i < other.count) push(other.data[i])\<close>\<close>

fun push_all :: "(nat \<Rightarrow> 'a) \<Rightarrow> nat \<Rightarrow> nat \<Rightarrow> 'a list \<Rightarrow> 'a vec \<Rightarrow> 'a vec" where
  "push_all fresh 0 i src v = v"
| "push_all fresh (Suc n) i src v = push_all fresh n (i + 1) src (vec_push fresh (src ! i) v)"

definition vec_copy :: "(nat \<Rightarrow> 'a) \<Rightarrow> 'a vec \<Rightarrow> 'a vec" where
  "vec_copy fresh other =
     push_all fresh (v_count other) 0 (v_data other) (vec_reserve fresh (v_count other) vec_empty)"

definition vec_assign :: "(nat \<Rightarrow> 'a) \<Rightarrow> 'a vec \<Rightarrow> 'a vec \<Rightarrow> 'a vec" where
  "vec_assign fresh v other =
     push_all fresh (v_count other) 0 (v_data other) (vec_reserve fresh (v_count other) (vec_clear v))"

text \<open>Move construction and move assignment: the target and what is left of the source.\<close>

definition vec_move :: "'a vec \<Rightarrow> 'a vec \<times> 'a vec" where
  "vec_move other = (other, vec_empty)"

definition vec_move_assign :: "'a vec \<Rightarrow> 'a vec \<Rightarrow> 'a vec \<times> 'a vec" where
  "vec_move_assign v other =
     (v\<lparr>v_data := v_data other, v_count := v_count other, v_cap := v_cap other\<rparr>, vec_empty)"

subsection \<open>The elements of a vector\<close>

definition vec_ok :: "'a vec \<Rightarrow> bool" where
  "vec_ok v \<longleftrightarrow> v_count v \<le> v_cap v \<and> length (v_data v) = v_cap v"

definition elems :: "'a vec \<Rightarrow> 'a list" where
  "elems v = take (v_count v) (v_data v)"

lemma length_elems: "vec_ok v \<Longrightarrow> length (elems v) = v_count v"
  by (simp add: vec_ok_def elems_def)

lemma copy_elems_spec:
  assumes "i + n \<le> length dest"
  shows "length (copy_elems n i src dest) = length dest \<and>
    (\<forall>j < length dest. copy_elems n i src dest ! j = (if i \<le> j \<and> j < i + n then src ! j else dest ! j))"
  using assms
proof (induction n arbitrary: i dest)
  case (Suc n)
  have "(i \<le> j \<and> j < i + Suc n) = (j = i \<or> i + 1 \<le> j \<and> j < i + 1 + n)" for j by auto
  with Suc.IH [of "i + 1" "dest[i := src ! i]"] Suc.prems show ?case by (auto simp: nth_list_update)
qed auto

lemma close_gap_spec:
  assumes "i + n < length d"
  shows "length (close_gap n i d) = length d \<and>
    (\<forall>j < length d. close_gap n i d ! j = (if i \<le> j \<and> j < i + n then d ! (j + 1) else d ! j))"
  using assms
proof (induction n arbitrary: i d)
  case (Suc n)
  have "(i \<le> j \<and> j < i + Suc n) = (j = i \<or> i + 1 \<le> j \<and> j < i + 1 + n)" for j by auto
  with Suc.IH [of "i + 1" "d[i := d ! (i + 1)]"] Suc.prems show ?case by (auto simp: nth_list_update)
qed auto

lemma vec_reserve_ok:
  assumes "vec_ok v"
  shows "vec_ok (vec_reserve fresh n v)" "elems (vec_reserve fresh n v) = elems v"
    "v_count (vec_reserve fresh n v) = v_count v" "n \<le> v_cap (vec_reserve fresh n v)"
proof -
  have c: "length (copy_elems (v_count v) 0 (v_data v) (map fresh [0..<n])) = n"
    "take (v_count v) (copy_elems (v_count v) 0 (v_data v) (map fresh [0..<n])) = take (v_count v) (v_data v)"
    if "v_count v \<le> n"
    using copy_elems_spec [of 0 "v_count v" "map fresh [0..<n]" "v_data v"] that assms
    by (auto simp: list_eq_iff_nth_eq vec_ok_def)
  show "vec_ok (vec_reserve fresh n v)" "elems (vec_reserve fresh n v) = elems v"
    "v_count (vec_reserve fresh n v) = v_count v" "n \<le> v_cap (vec_reserve fresh n v)"
    using assms c by (auto simp: vec_reserve_def vec_ok_def elems_def)
qed

lemma vec_push_ok:
  assumes "vec_ok v"
  shows "vec_ok (vec_push fresh a v) \<and> elems (vec_push fresh a v) = elems v @ [a]"
proof -
  let ?v = "if v_cap v \<le> v_count v then vec_grow fresh v else v"
  have v: "vec_ok ?v" "elems ?v = elems v" "v_count ?v = v_count v" "v_count ?v < v_cap ?v"
    using assms vec_reserve_ok [OF assms, where fresh = fresh and n = 4] vec_reserve_ok [OF assms, where fresh = fresh and n = "v_cap v * 2"]
    by (auto simp: vec_grow_def vec_ok_def)
  then have "take (v_count ?v + 1) ((v_data ?v)[v_count ?v := a]) = elems ?v @ [a]"
    by (simp add: elems_def vec_ok_def take_Suc_conv_app_nth)
  then show ?thesis using v by (simp add: vec_push_def Let_def vec_ok_def elems_def)
qed

lemma vec_pop_ok: "vec_ok v \<Longrightarrow> vec_ok (vec_pop v) \<and> elems (vec_pop v) = butlast (elems v)"
  by (auto simp: vec_pop_def vec_ok_def elems_def butlast_take)

lemma vec_remove_ok:
  assumes "vec_ok v"
  shows "vec_ok (vec_remove i v) \<and>
    elems (vec_remove i v) = (if i < length (elems v) then take i (elems v) @ drop (i + 1) (elems v) else elems v)"
proof (cases "i < v_count v")
  case True
  have c: "i + (v_count v - 1 - i) < length (v_data v)" using True assms unfolding vec_ok_def by linarith
  have "elems (vec_remove i v) = take i (elems v) @ drop (i + 1) (elems v)"
    using close_gap_spec [OF c] True assms
    by (auto simp: list_eq_iff_nth_eq vec_remove_def elems_def vec_ok_def nth_append)
  then show ?thesis
    using close_gap_spec [OF c] True assms length_elems [OF assms] by (auto simp: vec_remove_def vec_ok_def)
qed (use assms length_elems [OF assms] in \<open>simp add: vec_remove_def\<close>)

lemma vec_at_ok: "vec_ok v \<Longrightarrow> vec_at v i = (if i < length (elems v) then Some (elems v ! i) else None)"
  by (auto simp: vec_at_def vec_ok_def elems_def)

lemma vec_ends_ok:
  assumes "vec_ok v"
  shows "vec_last v = (if elems v = [] then None else Some (last (elems v)))"
    "vec_first v = (if elems v = [] then None else Some (hd (elems v)))"
  using assms length_elems [OF assms]
  by (auto simp: vec_last_def vec_first_def elems_def vec_ok_def last_conv_nth hd_conv_nth)

lemma push_all_ok:
  assumes "vec_ok v" "i + n \<le> length src"
  shows "vec_ok (push_all fresh n i src v) \<and> elems (push_all fresh n i src v) = elems v @ take n (drop i src)"
  using assms
proof (induction n arbitrary: i v)
  case (Suc n)
  have "take (Suc n) (drop i src) = src ! i # take n (drop (i + 1) src)"
    using Suc.prems(2) by (simp add: Cons_nth_drop_Suc [symmetric])
  then show ?case
    using Suc.IH [of "vec_push fresh (src ! i) v" "i + 1"] vec_push_ok [OF Suc.prems(1), of fresh "src ! i"] Suc.prems(2)
    by simp
qed simp

lemma vec_empty_ok: "vec_ok vec_empty \<and> elems vec_empty = []"
  by (simp add: vec_empty_def vec_ok_def elems_def)

lemma vec_move_ok:
  assumes "vec_ok w"
  shows "vec_ok (fst (vec_move_assign v w)) \<and> elems (fst (vec_move_assign v w)) = elems w \<and>
    elems (snd (vec_move_assign v w)) = []" "fst (vec_move w) = w \<and> elems (snd (vec_move w)) = []"
  using assms by (simp_all add: vec_move_assign_def vec_move_def vec_ok_def elems_def vec_empty_def)

lemma vec_copy_ok:
  assumes "vec_ok v"
  shows "vec_ok (vec_copy fresh v) \<and> elems (vec_copy fresh v) = elems v"
proof -
  have e: "vec_ok (vec_empty :: 'a vec)" "elems (vec_empty :: 'a vec) = []" using vec_empty_ok by auto
  have "0 + v_count v \<le> length (v_data v)" using assms by (simp add: vec_ok_def)
  from push_all_ok [OF vec_reserve_ok(1) [OF e(1), where n = "v_count v" and fresh = fresh] this, of fresh]
  show ?thesis using vec_reserve_ok(2) [OF e(1), where n = "v_count v" and fresh = fresh] e(2)
    by (simp add: vec_copy_def elems_def)
qed

lemma vec_assign_ok: "vec_ok v \<Longrightarrow> vec_ok w \<Longrightarrow> vec_ok (vec_assign fresh v w) \<and> elems (vec_assign fresh v w) = elems w"
  using push_all_ok [of "vec_reserve fresh (v_count w) (vec_clear v)" 0 "v_count w" "v_data w" fresh]
    vec_reserve_ok [where v = "vec_clear v" and n = "v_count w" and fresh = fresh]
  by (auto simp: vec_assign_def vec_clear_def vec_ok_def elems_def)

text \<open>Resizing upwards shows whatever the array holds, elements that were popped before included.\<close>

lemma vec_resize_ok:
  assumes "vec_ok v"
  shows "vec_ok (vec_resize fresh n v) \<and> take (min n (v_count v)) (elems (vec_resize fresh n v)) = take n (elems v) \<and>
    length (elems (vec_resize fresh n v)) = n"
  using assms vec_reserve_ok [OF assms, where n = n and fresh = fresh]
  by (auto simp: vec_resize_def Let_def vec_ok_def elems_def min_def)

section \<open>LinkedList\<close>

text \<open>Nodes live in a store of their own, addressed by numbers; a null pointer is \<open>None\<close>.\<close>

record 'a node =
  n_value :: 'a
  n_next :: "nat option"
  n_prev :: "nat option"

record 'a llist =
  l_nodes :: "nat \<Rightarrow> 'a node option"
  l_fresh :: nat  \<comment> \<open>where \<^verbatim>\<open>new Node\<close> puts the next node\<close>
  l_head :: "nat option"
  l_tail :: "nat option"
  l_count :: nat

definition ll_empty :: "'a llist" where
  "ll_empty = \<lparr>l_nodes = (\<lambda>_. None), l_fresh = 0, l_head = None, l_tail = None, l_count = 0\<rparr>"

definition ll_isEmpty :: "'a llist \<Rightarrow> bool" where "ll_isEmpty l \<longleftrightarrow> l_count l = 0"
definition ll_size :: "'a llist \<Rightarrow> nat" where "ll_size l = l_count l"

text \<open>\<^verbatim>\<open>*p\<close>\<close>

definition deref :: "'a llist \<Rightarrow> nat option \<Rightarrow> (nat \<times> 'a node) result" where
  "deref l p = (case p of
      None \<Rightarrow> Inl BadPointer
    | Some a \<Rightarrow> (case l_nodes l a of None \<Rightarrow> Inl BadPointer | Some n \<Rightarrow> Inr (a, n)))"

definition new_node :: "'a \<Rightarrow> 'a llist \<Rightarrow> nat \<times> 'a llist" where
  "new_node a l =
     (l_fresh l, l\<lparr>l_nodes := (l_nodes l)(l_fresh l \<mapsto> \<lparr>n_value = a, n_next = None, n_prev = None\<rparr>),
        l_fresh := l_fresh l + 1\<rparr>)"

definition set_node :: "nat \<Rightarrow> 'a node \<Rightarrow> 'a llist \<Rightarrow> 'a llist" where
  "set_node a n l = l\<lparr>l_nodes := (l_nodes l)(a \<mapsto> n)\<rparr>"

definition delete_node :: "nat \<Rightarrow> 'a llist \<Rightarrow> 'a llist" where
  "delete_node a l = l\<lparr>l_nodes := (l_nodes l)(a := None)\<rparr>"

definition ll_pushBack :: "'a \<Rightarrow> 'a llist \<Rightarrow> 'a llist result" where
  "ll_pushBack v l =
     (case new_node v l of (a, l) \<Rightarrow>
        if ll_isEmpty l then Inr (l\<lparr>l_head := Some a, l_tail := Some a, l_count := l_count l + 1\<rparr>)
        else case deref l (Some a) of Inl e \<Rightarrow> Inl e | Inr (a, n) \<Rightarrow>
          let l = set_node a (n\<lparr>n_prev := l_tail l\<rparr>) l in
          (case deref l (l_tail l) of Inl e \<Rightarrow> Inl e | Inr (t, m) \<Rightarrow>
             let l = set_node t (m\<lparr>n_next := Some a\<rparr>) l
             in Inr (l\<lparr>l_tail := Some a, l_count := l_count l + 1\<rparr>)))"

definition ll_pushFront :: "'a \<Rightarrow> 'a llist \<Rightarrow> 'a llist result" where
  "ll_pushFront v l =
     (case new_node v l of (a, l) \<Rightarrow>
        if ll_isEmpty l then Inr (l\<lparr>l_head := Some a, l_tail := Some a, l_count := l_count l + 1\<rparr>)
        else case deref l (Some a) of Inl e \<Rightarrow> Inl e | Inr (a, n) \<Rightarrow>
          let l = set_node a (n\<lparr>n_next := l_head l\<rparr>) l in
          (case deref l (l_head l) of Inl e \<Rightarrow> Inl e | Inr (h, m) \<Rightarrow>
             let l = set_node h (m\<lparr>n_prev := Some a\<rparr>) l
             in Inr (l\<lparr>l_head := Some a, l_count := l_count l + 1\<rparr>)))"

definition ll_popBack :: "'a llist \<Rightarrow> 'a llist result" where
  "ll_popBack l =
     (if ll_isEmpty l then Inr l
      else case deref l (l_tail l) of Inl e \<Rightarrow> Inl e | Inr (old, n) \<Rightarrow>
        let unlinked = (if l_head l = l_tail l then Inr (l\<lparr>l_head := None, l_tail := None\<rparr>)
          else let l = l\<lparr>l_tail := n_prev n\<rparr> in
            (case deref l (l_tail l) of Inl e \<Rightarrow> Inl e | Inr (t, m) \<Rightarrow> Inr (set_node t (m\<lparr>n_next := None\<rparr>) l)))
        in case unlinked of Inl e \<Rightarrow> Inl e | Inr l \<Rightarrow>
          Inr (let l = delete_node old l in l\<lparr>l_count := l_count l - 1\<rparr>))"

definition ll_popFront :: "'a llist \<Rightarrow> 'a llist result" where
  "ll_popFront l =
     (if ll_isEmpty l then Inr l
      else case deref l (l_head l) of Inl e \<Rightarrow> Inl e | Inr (old, n) \<Rightarrow>
        let unlinked = (if l_head l = l_tail l then Inr (l\<lparr>l_head := None, l_tail := None\<rparr>)
          else let l = l\<lparr>l_head := n_next n\<rparr> in
            (case deref l (l_head l) of Inl e \<Rightarrow> Inl e | Inr (h, m) \<Rightarrow> Inr (set_node h (m\<lparr>n_prev := None\<rparr>) l)))
        in case unlinked of Inl e \<Rightarrow> Inl e | Inr l \<Rightarrow>
          Inr (let l = delete_node old l in l\<lparr>l_count := l_count l - 1\<rparr>))"

definition ll_front :: "'a llist \<Rightarrow> 'a result" where
  "ll_front l =
     (if l_head l = None then Inl AssertFailed
      else case deref l (l_head l) of Inl e \<Rightarrow> Inl e | Inr (a, n) \<Rightarrow> Inr (n_value n))"

definition ll_back :: "'a llist \<Rightarrow> 'a result" where
  "ll_back l =
     (if l_tail l = None then Inl AssertFailed
      else case deref l (l_tail l) of Inl e \<Rightarrow> Inl e | Inr (a, n) \<Rightarrow> Inr (n_value n))"

text \<open>The walk of \<^verbatim>\<open>clear\<close>; the fuel is more than the number of nodes.\<close>

fun clear_walk :: "nat \<Rightarrow> nat option \<Rightarrow> 'a llist \<Rightarrow> 'a llist result" where
  "clear_walk 0 current l = Inl Diverges"
| "clear_walk (Suc n) current l =
     (if current = None then Inr l
      else case deref l current of Inl e \<Rightarrow> Inl e | Inr (a, m) \<Rightarrow> clear_walk n (n_next m) (delete_node a l))"

definition ll_clear :: "'a llist \<Rightarrow> 'a llist result" where
  "ll_clear l =
     (case clear_walk (l_count l + 1) (l_head l) l of Inl e \<Rightarrow> Inl e
      | Inr l \<Rightarrow> Inr (l\<lparr>l_head := None, l_tail := None, l_count := 0\<rparr>))"

section \<open>Queue\<close>

definition queue_push :: "'a \<Rightarrow> 'a llist \<Rightarrow> 'a llist result" where
  "queue_push v q = ll_pushBack v q"

definition queue_pop :: "'a llist \<Rightarrow> ('a option \<times> 'a llist) result" where
  "queue_pop q =
     (if ll_isEmpty q then Inr (None, q)
      else case ll_front q of Inl e \<Rightarrow> Inl e | Inr v \<Rightarrow>
        (case ll_popFront q of Inl e \<Rightarrow> Inl e | Inr q \<Rightarrow> Inr (Some v, q)))"

definition queue_front :: "'a llist \<Rightarrow> 'a result" where "queue_front q = ll_front q"
definition queue_isEmpty :: "'a llist \<Rightarrow> bool" where "queue_isEmpty q = ll_isEmpty q"
definition queue_size :: "'a llist \<Rightarrow> nat" where "queue_size q = ll_size q"

subsection \<open>The list a node store holds\<close>

text \<open>\<open>dll m p as q\<close>: the nodes at \<open>as\<close> are linked in order, between the pointers \<open>p\<close> and \<open>q\<close>, in both directions.\<close>

fun dll :: "(nat \<Rightarrow> 'a node option) \<Rightarrow> nat option \<Rightarrow> nat list \<Rightarrow> nat option \<Rightarrow> bool" where
  "dll m p [] q = True"
| "dll m p (a # as) q =
     (\<exists>n. m a = Some n \<and> n_prev n = p \<and> n_next n = (case as of [] \<Rightarrow> q | b # _ \<Rightarrow> Some b) \<and> dll m (Some a) as q)"

definition first_of :: "nat list \<Rightarrow> nat option" where
  "first_of as = (case as of [] \<Rightarrow> None | a # _ \<Rightarrow> Some a)"

definition last_of :: "nat list \<Rightarrow> nat option" where
  "last_of as = (if as = [] then None else Some (last as))"

definition ll_inv :: "'a llist \<Rightarrow> nat list \<Rightarrow> bool" where
  "ll_inv l as \<longleftrightarrow> distinct as \<and> dll (l_nodes l) None as None \<and> l_head l = first_of as \<and> l_tail l = last_of as \<and>
     l_count l = length as \<and> dom (l_nodes l) = set as \<and> (\<forall>a \<in> set as. a < l_fresh l)"

definition values_at :: "'a llist \<Rightarrow> nat list \<Rightarrow> 'a list" where
  "values_at l as = map (\<lambda>a. n_value (the (l_nodes l a))) as"

text \<open>\<open>holds l xs\<close>: the list object \<open>l\<close> holds the elements \<open>xs\<close>, and no other node is allocated.\<close>

definition holds :: "'a llist \<Rightarrow> 'a list \<Rightarrow> bool" where
  "holds l xs \<longleftrightarrow> (\<exists>as. ll_inv l as \<and> values_at l as = xs)"

lemma first_of_simps [simp]: "first_of [] = None" "first_of (a # as) = Some a"
    "first_of (as @ bs) = (if as = [] then first_of bs else first_of as)"
  by (simp_all add: first_of_def split: list.splits)

lemma last_of_simps [simp]: "last_of [] = None" "last_of (as @ [a]) = Some a" "last_of [a] = Some a"
    "last_of (a # b # bs) = last_of (b # bs)" "last_of (as @ b # bs) = last_of (b # bs)"
  by (simp_all add: last_of_def)

lemma first_of_in: "first_of as = Some a \<Longrightarrow> a \<in> set as"
  by (cases as) simp_all

lemma dll_Cons: "dll m p (a # as) q \<longleftrightarrow>
    (\<exists>n. m a = Some n \<and> n_prev n = p \<and> n_next n = (if as = [] then q else first_of as) \<and> dll m (Some a) as q)"
  by (cases as) simp_all

lemma node_chain_append:
  "dll m p (as @ b # bs) q \<longleftrightarrow> dll m p as (Some b) \<and> dll m (if as = [] then p else last_of as) (b # bs) q"
proof (induction as arbitrary: p)
  case (Cons a as)
  have "last_of (a # as) = (if as = [] then Some a else last_of as)" by (simp add: last_of_def)
  then show ?case by (auto simp: Cons.IH dll_Cons simp del: dll.simps)
qed simp

lemma dll_upd [simp]: "a \<notin> set as \<Longrightarrow> dll (m(a := x)) p as q \<longleftrightarrow> dll m p as q"
  by (induction as arbitrary: p) auto

lemma holds_empty: "holds ll_empty []"
  by (auto simp: holds_def ll_inv_def values_at_def ll_empty_def first_of_def last_of_def)

lemma holds_size: "holds l xs \<Longrightarrow> l_count l = length xs" "holds l xs \<Longrightarrow> card (dom (l_nodes l)) = length xs"
  by (auto simp: holds_def ll_inv_def values_at_def distinct_card)

lemma holds_isEmpty: "holds l xs \<Longrightarrow> ll_isEmpty l \<longleftrightarrow> xs = []"
  using holds_size(1) [of l xs] by (auto simp: ll_isEmpty_def)

lemma holds_front: "holds l (x # xs) \<Longrightarrow> ll_front l = Inr x" "holds l [] \<Longrightarrow> ll_front l = Inl AssertFailed"
  by (auto simp: holds_def ll_inv_def values_at_def ll_front_def deref_def first_of_def Cons_eq_map_conv)

lemma holds_pushBack:
  assumes "holds l xs"
  shows "\<exists>l'. ll_pushBack v l = Inr l' \<and> holds l' (xs @ [v])"
proof -
  obtain as where i: "ll_inv l as" "values_at l as = xs" using assms by (auto simp: holds_def)
  let ?a = "l_fresh l"
  have nf: "?a \<notin> set as" using i(1) by (auto simp: ll_inv_def)
  show ?thesis
  proof (cases as rule: rev_cases)
    case Nil
    then have "l_count l = 0" using i(1) by (simp add: ll_inv_def)
    then show ?thesis
      using i Nil by (auto simp: ll_pushBack_def new_node_def ll_isEmpty_def holds_def ll_inv_def values_at_def
          first_of_def last_of_def intro!: exI [of _ "[?a]"])
  next
    case (snoc bs b)
    obtain n where n: "l_nodes l b = Some n" "n_prev n = (if bs = [] then None else last_of bs)" "n_next n = None"
      using i(1) unfolding ll_inv_def snoc node_chain_append by auto
    have ne: "b \<noteq> ?a" "b \<notin> set bs" "?a \<notin> set bs" using nf i(1) snoc by (auto simp: ll_inv_def)
    have bs: "dll (l_nodes l) None bs (Some b)" using i(1) unfolding ll_inv_def snoc node_chain_append by simp
    let ?m = "(l_nodes l)(?a \<mapsto> \<lparr>n_value = v, n_next = None, n_prev = Some b\<rparr>, b \<mapsto> n\<lparr>n_next := Some ?a\<rparr>)"
    let ?l = "l\<lparr>l_nodes := ?m, l_fresh := ?a + 1, l_tail := Some ?a, l_count := l_count l + 1\<rparr>"
    have t: "l_tail l = Some b" "\<not> ll_isEmpty l" using i(1) snoc by (simp_all add: ll_inv_def last_of_def ll_isEmpty_def)
    have "ll_pushBack v l = Inr ?l"
      using t n ne by (simp add: ll_pushBack_def new_node_def ll_isEmpty_def deref_def set_node_def Let_def)
    moreover have "dll ?m None (bs @ [b, ?a]) None"
      unfolding node_chain_append using bs ne n by simp
    then have "ll_inv ?l (as @ [?a])"
      using i(1) ne nf snoc unfolding ll_inv_def by (auto simp: less_Suc_eq)
    moreover have "values_at ?l (as @ [?a]) = xs @ [v]"
      using i(2) ne snoc n by (auto simp: values_at_def)
    ultimately show ?thesis unfolding holds_def by blast
  qed
qed

lemma holds_pushFront:
  assumes "holds l xs"
  shows "\<exists>l'. ll_pushFront v l = Inr l' \<and> holds l' (v # xs)"
proof -
  obtain as where i: "ll_inv l as" "values_at l as = xs" using assms by (auto simp: holds_def)
  let ?a = "l_fresh l"
  have nf: "?a \<notin> set as" using i(1) by (auto simp: ll_inv_def)
  show ?thesis
  proof (cases as)
    case Nil
    then have "l_count l = 0" using i(1) by (simp add: ll_inv_def)
    then show ?thesis
      using i Nil by (auto simp: ll_pushFront_def new_node_def ll_isEmpty_def holds_def ll_inv_def values_at_def
          first_of_def last_of_def intro!: exI [of _ "[?a]"])
  next
    case (Cons b bs)
    obtain n where n: "l_nodes l b = Some n" "n_prev n = None" "dll (l_nodes l) (Some b) bs None"
        "n_next n = (case bs of [] \<Rightarrow> None | c # _ \<Rightarrow> Some c)"
      using i(1) Cons by (auto simp: ll_inv_def)
    have ne: "b \<noteq> ?a" "b \<notin> set bs" "?a \<notin> set bs" using nf i(1) Cons by (auto simp: ll_inv_def)
    let ?m = "(l_nodes l)(?a \<mapsto> \<lparr>n_value = v, n_next = Some b, n_prev = None\<rparr>, b \<mapsto> n\<lparr>n_prev := Some ?a\<rparr>)"
    let ?l = "l\<lparr>l_nodes := ?m, l_fresh := ?a + 1, l_head := Some ?a, l_count := l_count l + 1\<rparr>"
    have t: "l_head l = Some b" "\<not> ll_isEmpty l" using i(1) Cons by (simp_all add: ll_inv_def first_of_def ll_isEmpty_def)
    have "ll_pushFront v l = Inr ?l"
      using t n ne by (simp add: ll_pushFront_def new_node_def ll_isEmpty_def deref_def set_node_def Let_def)
    moreover have "ll_inv ?l (?a # as)"
      using i(1) ne nf Cons n unfolding ll_inv_def by (auto simp: less_Suc_eq)
    moreover have "values_at ?l (?a # as) = v # xs"
      using i(2) ne Cons n by (auto simp: values_at_def)
    ultimately show ?thesis unfolding holds_def by blast
  qed
qed

lemma holds_popFront:
  assumes "holds l xs"
  shows "\<exists>l'. ll_popFront l = Inr l' \<and> holds l' (tl xs)"
proof -
  obtain as where i: "ll_inv l as" "values_at l as = xs" using assms by (auto simp: holds_def)
  show ?thesis
  proof (cases as)
    case Nil
    then have "xs = []" "ll_isEmpty l" using i by (simp_all add: values_at_def ll_inv_def ll_isEmpty_def)
    then show ?thesis using assms by (simp add: ll_popFront_def)
  next
    case (Cons a bs)
    obtain n where n: "l_nodes l a = Some n" "n_next n = (if bs = [] then None else first_of bs)" "dll (l_nodes l) (Some a) bs None"
      using i(1) Cons by (auto simp: ll_inv_def dll_Cons simp del: dll.simps)
    have d: "a \<notin> set bs" "distinct bs" "l_head l = Some a" "\<not> ll_isEmpty l" "l_tail l = last_of (a # bs)"
      using i(1) Cons by (simp_all add: ll_inv_def ll_isEmpty_def)
    show ?thesis
    proof (cases bs)
      case Nil
      let ?l = "l\<lparr>l_nodes := (l_nodes l)(a := None), l_head := None, l_tail := None, l_count := l_count l - 1\<rparr>"
      have "ll_popFront l = Inr ?l" using d n Nil by (simp add: ll_popFront_def deref_def delete_node_def Let_def)
      moreover have "ll_inv ?l []" using i(1) Cons Nil by (auto simp: ll_inv_def dom_def)
      moreover have "values_at ?l [] = tl xs" using i(2) Cons Nil by (auto simp: values_at_def)
      ultimately show ?thesis unfolding holds_def by blast
    next
      case (Cons b cs)
      obtain m where m: "l_nodes l b = Some m" "dll (l_nodes l) (Some b) cs None" "n_next m = (if cs = [] then None else first_of cs)"
        using n(3) Cons by (auto simp: dll_Cons simp del: dll.simps)
      have ht: "l_head l \<noteq> l_tail l" using d Cons by (auto simp: last_of_def)
      have ab: "a \<noteq> b" "b \<notin> set cs" "a \<notin> set cs" using d Cons by auto
      let ?m = "((l_nodes l)(b \<mapsto> m\<lparr>n_prev := None\<rparr>))(a := None)"
      let ?l = "l\<lparr>l_nodes := ?m, l_head := Some b, l_count := l_count l - 1\<rparr>"
      have "ll_popFront l = Inr ?l"
        using d(3,4) ht n m(1) Cons by (simp add: ll_popFront_def deref_def set_node_def delete_node_def Let_def)
      moreover have "dll ?m None bs None"
        using ab m unfolding Cons by (simp add: dll_Cons del: dll.simps)
      then have "ll_inv ?l bs"
        using i(1) \<open>as = a # bs\<close> Cons ab unfolding ll_inv_def by auto
      moreover have "values_at ?l bs = tl xs"
        using i(2) \<open>as = a # bs\<close> Cons ab m(1) by (auto simp: values_at_def)
      ultimately show ?thesis unfolding holds_def by blast
    qed
  qed
qed

lemma holds_popBack:
  assumes "holds l xs"
  shows "\<exists>l'. ll_popBack l = Inr l' \<and> holds l' (butlast xs)"
proof -
  obtain as where i: "ll_inv l as" "values_at l as = xs" using assms by (auto simp: holds_def)
  show ?thesis
  proof (cases as rule: rev_cases)
    case Nil
    then have "xs = []" "ll_isEmpty l" using i by (simp_all add: values_at_def ll_inv_def ll_isEmpty_def)
    then show ?thesis using assms by (simp add: ll_popBack_def)
  next
    case (snoc bs a)
    obtain n where n: "l_nodes l a = Some n" "n_prev n = (if bs = [] then None else last_of bs)" "dll (l_nodes l) None bs (Some a)"
      using i(1) unfolding ll_inv_def snoc node_chain_append by auto
    have d: "a \<notin> set bs" "distinct bs" "l_tail l = Some a" "\<not> ll_isEmpty l" "l_head l = first_of (bs @ [a])"
      using i(1) snoc by (simp_all add: ll_inv_def ll_isEmpty_def)
    show ?thesis
    proof (cases bs rule: rev_cases)
      case Nil
      let ?l = "l\<lparr>l_nodes := (l_nodes l)(a := None), l_head := None, l_tail := None, l_count := l_count l - 1\<rparr>"
      have "ll_popBack l = Inr ?l" using d n Nil by (simp add: ll_popBack_def deref_def delete_node_def Let_def)
      moreover have "ll_inv ?l []" using i(1) snoc Nil by (auto simp: ll_inv_def dom_def)
      moreover have "values_at ?l [] = butlast xs" using i(2) snoc Nil by (auto simp: values_at_def)
      ultimately show ?thesis unfolding holds_def by blast
    next
      case (snoc cs b)
      obtain m where m: "l_nodes l b = Some m" "dll (l_nodes l) None cs (Some b)" "n_prev m = (if cs = [] then None else last_of cs)"
        using n(3) unfolding snoc node_chain_append by auto
      have hd: "l_head l = first_of bs" "first_of bs \<noteq> Some a"
        using d(1,5) snoc first_of_in [of bs a] by (simp, blast)
      have ab: "a \<noteq> b" "b \<notin> set cs" "a \<notin> set cs" using d snoc by auto
      let ?m = "((l_nodes l)(b \<mapsto> m\<lparr>n_next := None\<rparr>))(a := None)"
      let ?l = "l\<lparr>l_nodes := ?m, l_tail := Some b, l_count := l_count l - 1\<rparr>"
      have "ll_popBack l = Inr ?l"
        using d(3,4) hd n m(1) snoc by (simp add: ll_popBack_def deref_def set_node_def delete_node_def Let_def del: first_of_simps)
      moreover have "dll ?m None bs None"
        using ab m unfolding snoc node_chain_append by simp
      then have "ll_inv ?l bs"
      proof -
        have "dom ?m = set bs" "\<forall>x \<in> set bs. x < l_fresh l" "l_count l - 1 = length bs"
          using i(1) d(1) unfolding ll_inv_def \<open>as = bs @ [a]\<close> snoc by auto
        then show ?thesis using \<open>dll ?m None bs None\<close> d(2) hd(1) snoc by (simp add: ll_inv_def)
      qed
      moreover have "values_at ?l bs = butlast xs"
        using i(2) \<open>as = bs @ [a]\<close> snoc ab m(1) by (auto simp: values_at_def butlast_append)
      ultimately show ?thesis unfolding holds_def by blast
    qed
  qed
qed

lemma clear_walk_ok:
  assumes "dll (l_nodes l) p as None" "distinct as" "length as < n" "dom (l_nodes l) = set as"
  shows "\<exists>l'. clear_walk n (first_of as) l = Inr l' \<and> l_nodes l' = (\<lambda>_. None)"
  using assms
proof (induction as arbitrary: n p l)
  case Nil
  then show ?case by (cases n) (auto simp: dom_def)
next
  case (Cons a as)
  obtain m where m: "l_nodes l a = Some m" "n_next m = first_of as" "dll (l_nodes l) (Some a) as None"
    using Cons.prems(1) by (auto simp: dll_Cons simp del: dll.simps split: if_splits)
  obtain k where k: "n = Suc k" "length as < k" using Cons.prems(3) by (cases n) auto
  have "dll (l_nodes (delete_node a l)) (Some a) as None" "dom (l_nodes (delete_node a l)) = set as"
    using m(3) Cons.prems(2,4) by (auto simp: delete_node_def)
  from Cons.IH [OF this(1) _ k(2) this(2)] show ?case
    using Cons.prems(2) m k(1) by (simp add: deref_def)
qed

lemma holds_clear: "holds l xs \<Longrightarrow> \<exists>l'. ll_clear l = Inr l' \<and> holds l' []"
proof -
  assume "holds l xs"
  then obtain as where i: "ll_inv l as" by (auto simp: holds_def)
  then obtain l1 where "clear_walk (l_count l + 1) (l_head l) l = Inr l1" "l_nodes l1 = (\<lambda>_. None)"
    using clear_walk_ok [of l None as "l_count l + 1"] by (auto simp: ll_inv_def simp del: clear_walk.simps)
  then show ?thesis by (auto simp: ll_clear_def holds_def ll_inv_def values_at_def simp del: clear_walk.simps)
qed

lemma holds_back: "holds l (xs @ [x]) \<Longrightarrow> ll_back l = Inr x"
proof -
  assume "holds l (xs @ [x])"
  then obtain as where i: "ll_inv l as" "values_at l as = xs @ [x]" by (auto simp: holds_def)
  then obtain bs b where as: "as = bs @ [b]" by (cases as rule: rev_cases) (auto simp: values_at_def)
  then obtain n where n: "l_nodes l b = Some n" "l_tail l = Some b"
    using i(1) unfolding ll_inv_def as node_chain_append by auto
  then show ?thesis using i(2) as by (simp add: ll_back_def deref_def values_at_def)
qed

section \<open>First in, first out\<close>

text \<open>What users of a queue rely on, in terms of the relation between a queue and the elements it holds.\<close>

locale fifo =
  fixes push :: "'a \<Rightarrow> 'q \<Rightarrow> 'q result" and pop :: "'q \<Rightarrow> ('a option \<times> 'q) result" and rep :: "'q \<Rightarrow> 'a list \<Rightarrow> bool"
  assumes push_rep: "rep q xs \<Longrightarrow> \<exists>q'. push v q = Inr q' \<and> rep q' (xs @ [v])"
    and pop_rep: "rep q xs \<Longrightarrow> \<exists>q'. pop q = Inr (case xs of [] \<Rightarrow> None | x # _ \<Rightarrow> Some x, q') \<and> rep q' (tl xs)"

datatype 'a queue_op = Push 'a | Pop

text \<open>A run of operations and the values it pops, on a queue and on a list.\<close>

fun run_queue ::
  "('a \<Rightarrow> 'q \<Rightarrow> 'q result) \<Rightarrow> ('q \<Rightarrow> ('a option \<times> 'q) result) \<Rightarrow> 'a queue_op list \<Rightarrow> 'q \<Rightarrow> ('a option list \<times> 'q) result" where
  "run_queue push pop [] q = Inr ([], q)"
| "run_queue push pop (Push v # ops) q =
     (case push v q of Inl e \<Rightarrow> Inl e | Inr q \<Rightarrow> run_queue push pop ops q)"
| "run_queue push pop (Pop # ops) q =
     (case pop q of Inl e \<Rightarrow> Inl e | Inr (r, q) \<Rightarrow>
        (case run_queue push pop ops q of Inl e \<Rightarrow> Inl e | Inr (rs, q) \<Rightarrow> Inr (r # rs, q)))"

fun run_list :: "'a queue_op list \<Rightarrow> 'a list \<Rightarrow> 'a option list \<times> 'a list" where
  "run_list [] xs = ([], xs)"
| "run_list (Push v # ops) xs = run_list ops (xs @ [v])"
| "run_list (Pop # ops) [] = (None # fst (run_list ops []), snd (run_list ops []))"
| "run_list (Pop # ops) (x # xs) = (Some x # fst (run_list ops xs), snd (run_list ops xs))"

context fifo
begin

lemma run_ok: "rep q xs \<Longrightarrow> \<exists>q'. run_queue push pop ops q = Inr (fst (run_list ops xs), q') \<and> rep q' (snd (run_list ops xs))"
proof (induction ops xs arbitrary: q rule: run_list.induct)
  case (2 v ops xs)
  then show ?case using push_rep [OF "2.prems", of v] 2 by fastforce
next
  case (3 ops)
  then show ?case using pop_rep [OF "3.prems"] 3 by fastforce
next
  case (4 ops x xs)
  then show ?case using pop_rep [OF "4.prems"] 4 by fastforce
qed simp

end

interpretation queue: fifo queue_push queue_pop holds
proof unfold_locales
  show "\<exists>q'. queue_push v q = Inr q' \<and> holds q' (xs @ [v])" if "holds q xs" for q xs and v :: 'a
    using holds_pushBack [OF that] by (simp add: queue_push_def)
  show "\<exists>q'. queue_pop q = Inr (case xs of [] \<Rightarrow> None | x # _ \<Rightarrow> Some x, q') \<and> holds q' (tl xs)"
    if h: "holds q xs" for q and xs :: "'a list"
    using holds_isEmpty [OF h] holds_popFront [OF h] h holds_front(1) [of q]
    by (cases xs) (auto simp: queue_pop_def)
qed

text \<open>
  C24. The kernel's queue is first in, first out: however pushes and pops are interleaved on an empty queue, the values popped
  are those of a list queue, no dangling pointer is followed, and one node is allocated for each element still
  held.
\<close>

theorem queue_fifo:
  "\<exists>q. run_queue queue_push queue_pop ops ll_empty = Inr (fst (run_list ops []), q) \<and>
    ll_size q = length (snd (run_list ops [])) \<and> card (dom (l_nodes q)) = ll_size q"
  using queue.run_ok [OF holds_empty, of ops] holds_size by (fastforce simp: ll_size_def)

section \<open>Option\<close>

text \<open>
  \<^verbatim>\<open>Option\<close> is a flag and a slot. Asking an empty one for its value writes an error to the serial port
  and goes on with whatever the slot holds: the flag of \<open>opt_value\<close> tells that the message was written.
\<close>

record 'a opt =
  present :: bool
  storage :: 'a

definition opt_none :: "'a \<Rightarrow> 'a opt" where "opt_none junk = \<lparr>present = False, storage = junk\<rparr>"
definition opt_some :: "'a \<Rightarrow> 'a opt" where "opt_some v = \<lparr>present = True, storage = v\<rparr>"
definition opt_hasValue :: "'a opt \<Rightarrow> bool" where "opt_hasValue x = present x"

definition opt_value :: "'a opt \<Rightarrow> bool \<times> 'a" where
  "opt_value x = (if \<not> present x then (True, storage x) else (False, storage x))"

definition opt_valueOr :: "'a \<Rightarrow> 'a opt \<Rightarrow> 'a" where
  "opt_valueOr fallback x = (if \<not> present x then fallback else storage x)"

definition opt_abs :: "'a opt \<Rightarrow> 'a option" where
  "opt_abs x = (if present x then Some (storage x) else None)"

lemma opt_refines:
  "opt_abs (opt_none junk) = None" "opt_abs (opt_some v) = Some v" "opt_hasValue x \<longleftrightarrow> opt_abs x \<noteq> None"
  "opt_abs x = Some v \<Longrightarrow> opt_value x = (False, v)" "opt_valueOr d x = (case opt_abs x of None \<Rightarrow> d | Some v \<Rightarrow> v)"
  by (auto simp: opt_abs_def opt_none_def opt_some_def opt_hasValue_def opt_value_def opt_valueOr_def split: if_splits)

section \<open>UniquePtr\<close>

text \<open>An owning pointer; \<open>freed\<close> is the multiset of objects deleted so far, and \<^verbatim>\<open>delete\<close> of a null pointer does nothing.\<close>

type_synonym uptr = "nat option"

definition delete_obj :: "uptr \<Rightarrow> nat multiset \<Rightarrow> nat multiset" where
  "delete_obj p freed = (case p of None \<Rightarrow> freed | Some a \<Rightarrow> add_mset a freed)"

definition up_empty :: uptr where "up_empty = None"
definition up_make :: "uptr \<Rightarrow> uptr" where "up_make p = p"
definition up_get :: "uptr \<Rightarrow> uptr" where "up_get p = p"
definition up_isSet :: "uptr \<Rightarrow> bool" where "up_isSet p \<longleftrightarrow> p \<noteq> None"
definition up_destroy :: "uptr \<Rightarrow> nat multiset \<Rightarrow> nat multiset" where "up_destroy p freed = delete_obj p freed"

text \<open>Move construction: the new pointer and the old one.\<close>

definition up_move :: "uptr \<Rightarrow> uptr \<times> uptr" where "up_move other = (other, None)"

definition up_move_assign :: "uptr \<Rightarrow> uptr \<Rightarrow> nat multiset \<Rightarrow> uptr \<times> uptr \<times> nat multiset" where
  "up_move_assign p other freed = (other, None, delete_obj p freed)"

definition up_release :: "uptr \<Rightarrow> uptr \<times> uptr" where "up_release p = (p, None)"

definition up_reset :: "uptr \<Rightarrow> uptr \<Rightarrow> nat multiset \<Rightarrow> uptr \<times> nat multiset" where
  "up_reset newPtr p freed = (if p = newPtr then (p, freed) else (newPtr, delete_obj p freed))"

definition owned :: "uptr \<Rightarrow> nat multiset" where
  "owned p = (case p of None \<Rightarrow> {#} | Some a \<Rightarrow> {#a#})"

text \<open>Every object is owned or deleted, once: moves and resets neither lose nor duplicate an owner.\<close>

lemma unique_owner:
  "up_move_assign p r freed = (p', r', freed') \<Longrightarrow> owned p' + owned r' + freed' = owned p + owned r + freed"
  "up_move r = (p', r') \<Longrightarrow> owned p' + owned r' = owned r"
  "up_reset n p freed = (p', freed') \<Longrightarrow> p \<noteq> n \<Longrightarrow> owned p' + freed' = owned n + owned p + freed"
  "up_reset p p freed = (p, freed)"
  by (auto simp: up_move_assign_def up_move_def up_reset_def delete_obj_def owned_def split: option.splits if_splits)

end
