(* ===== verification/Vga_Font.thy ===== *)
theory Vga_Font
  imports Avery_Prelude
begin

text \<open>
  The bitmap font of \<^verbatim>\<open>include/graphics/vgaFont.h\<close>: sixteen rows of eight pixels for each
  character from 32 to 126.
\<close>

definition FONT_WIDTH :: u64 where "FONT_WIDTH = 8"
definition FONT_HEIGHT :: u64 where "FONT_HEIGHT = 16"
definition FONT_FIRST :: u8 where "FONT_FIRST = 32"
definition FONT_LAST :: u8 where "FONT_LAST = 126"

definition font8x16 :: "u8 list list" where
  "font8x16 = [
    [0, 0, 0, 0, 0, 0, 0, 0, 0, 0, 0, 0, 0, 0, 0, 0],
    [0, 0, 0x60, 0xF0, 0xF0, 0xF0, 0x60, 0x60, 0x60, 0, 0x60, 0x60, 0, 0, 0, 0],
    [0, 0, 0xCC, 0xCC, 0xCC, 0x48, 0, 0, 0, 0, 0, 0, 0, 0, 0, 0],
    [0, 0, 0x6C, 0x6C, 0xFE, 0x6C, 0x6C, 0x6C, 0xFE, 0x6C, 0x6C, 0, 0, 0, 0, 0],
    [0, 0, 0x18, 0x18, 0x7C, 0xC6, 0xC2, 0xC0, 0x7C, 0x06, 0x06, 0x86, 0xC6, 0x7C, 0x18, 0x18],
    [0, 0, 0xC2, 0xC6, 0x0C, 0x18, 0x30, 0x60, 0xC6, 0x86, 0, 0, 0, 0, 0, 0],
    [0, 0, 0x38, 0x6C, 0x6C, 0x38, 0x76, 0xDC, 0xCC, 0xCC, 0xCC, 0x76, 0, 0, 0, 0],
    [0, 0, 0x60, 0x60, 0x60, 0xC0, 0, 0, 0, 0, 0, 0, 0, 0, 0, 0],
    [0, 0, 0x30, 0x60, 0xC0, 0xC0, 0xC0, 0xC0, 0xC0, 0xC0, 0x60, 0x30, 0, 0, 0, 0],
    [0, 0, 0xC0, 0x60, 0x30, 0x30, 0x30, 0x30, 0x30, 0x30, 0x60, 0xC0, 0, 0, 0, 0],
    [0, 0, 0x66, 0x3C, 0xFF, 0x3C, 0x66, 0, 0, 0, 0, 0, 0, 0, 0, 0],
    [0, 0, 0x30, 0x30, 0xFC, 0x30, 0x30, 0, 0, 0, 0, 0, 0, 0, 0, 0],
    [0, 0, 0, 0, 0, 0, 0, 0, 0, 0, 0x60, 0x60, 0x60, 0xC0, 0, 0],
    [0, 0, 0, 0, 0, 0, 0xFE, 0, 0, 0, 0, 0, 0, 0, 0, 0],
    [0, 0, 0, 0, 0, 0, 0, 0, 0, 0, 0xC0, 0xC0, 0, 0, 0, 0],
    [0, 0, 0x02, 0x06, 0x0C, 0x18, 0x30, 0x60, 0xC0, 0x80, 0, 0, 0, 0, 0, 0],
    [0, 0, 0x3C, 0x66, 0xC3, 0xC3, 0xDB, 0xDB, 0xC3, 0xC3, 0x66, 0x3C, 0, 0, 0, 0],
    [0, 0, 0x30, 0x70, 0xF0, 0x30, 0x30, 0x30, 0x30, 0x30, 0x30, 0xFC, 0, 0, 0, 0],
    [0, 0, 0x7C, 0xC6, 0x06, 0x0C, 0x18, 0x30, 0x60, 0xC0, 0xC6, 0xFE, 0, 0, 0, 0],
    [0, 0, 0x7C, 0xC6, 0x06, 0x06, 0x3C, 0x06, 0x06, 0x06, 0xC6, 0x7C, 0, 0, 0, 0],
    [0, 0, 0x0C, 0x1C, 0x3C, 0x6C, 0xCC, 0xFE, 0x0C, 0x0C, 0x0C, 0x1E, 0, 0, 0, 0],
    [0, 0, 0xFE, 0xC0, 0xC0, 0xC0, 0xFC, 0x06, 0x06, 0x06, 0xC6, 0x7C, 0, 0, 0, 0],
    [0, 0, 0x38, 0x60, 0xC0, 0xC0, 0xFC, 0xC6, 0xC6, 0xC6, 0xC6, 0x7C, 0, 0, 0, 0],
    [0, 0, 0xFE, 0xC6, 0x06, 0x06, 0x0C, 0x18, 0x30, 0x30, 0x30, 0x30, 0, 0, 0, 0],
    [0, 0, 0x7C, 0xC6, 0xC6, 0xC6, 0x7C, 0xC6, 0xC6, 0xC6, 0xC6, 0x7C, 0, 0, 0, 0],
    [0, 0, 0x7C, 0xC6, 0xC6, 0xC6, 0x7E, 0x06, 0x06, 0x06, 0x0C, 0x78, 0, 0, 0, 0],
    [0, 0, 0, 0, 0xC0, 0xC0, 0, 0, 0, 0xC0, 0xC0, 0, 0, 0, 0, 0],
    [0, 0, 0, 0, 0x60, 0x60, 0, 0, 0, 0x60, 0x60, 0xC0, 0, 0, 0, 0],
    [0, 0, 0x0C, 0x18, 0x30, 0x60, 0xC0, 0x60, 0x30, 0x18, 0x0C, 0, 0, 0, 0, 0],
    [0, 0, 0, 0, 0, 0xFC, 0, 0, 0xFC, 0, 0, 0, 0, 0, 0, 0],
    [0, 0, 0xC0, 0x60, 0x30, 0x18, 0x0C, 0x18, 0x30, 0x60, 0xC0, 0, 0, 0, 0, 0],
    [0, 0, 0x7C, 0xC6, 0xC6, 0x0C, 0x18, 0x18, 0x18, 0, 0x18, 0x18, 0, 0, 0, 0],
    [0, 0, 0x7C, 0xC6, 0xC6, 0xDE, 0xDE, 0xDE, 0xDC, 0xC0, 0x7C, 0, 0, 0, 0, 0],
    [0, 0, 0x10, 0x38, 0x6C, 0xC6, 0xC6, 0xFE, 0xC6, 0xC6, 0xC6, 0xC6, 0, 0, 0, 0],
    [0, 0, 0xFC, 0x66, 0x66, 0x66, 0x7C, 0x66, 0x66, 0x66, 0x66, 0xFC, 0, 0, 0, 0],
    [0, 0, 0x3C, 0x66, 0xC2, 0xC0, 0xC0, 0xC0, 0xC0, 0xC2, 0x66, 0x3C, 0, 0, 0, 0],
    [0, 0, 0xF8, 0x6C, 0x66, 0x66, 0x66, 0x66, 0x66, 0x66, 0x6C, 0xF8, 0, 0, 0, 0],
    [0, 0, 0xFE, 0x66, 0x62, 0x68, 0x78, 0x68, 0x60, 0x62, 0x66, 0xFE, 0, 0, 0, 0],
    [0, 0, 0xFE, 0x66, 0x62, 0x68, 0x78, 0x68, 0x60, 0x60, 0x60, 0xF0, 0, 0, 0, 0],
    [0, 0, 0x3C, 0x66, 0xC2, 0xC0, 0xC0, 0xDE, 0xC6, 0xC6, 0x66, 0x3A, 0, 0, 0, 0],
    [0, 0, 0xC6, 0xC6, 0xC6, 0xC6, 0xFE, 0xC6, 0xC6, 0xC6, 0xC6, 0xC6, 0, 0, 0, 0],
    [0, 0, 0xF0, 0x60, 0x60, 0x60, 0x60, 0x60, 0x60, 0x60, 0x60, 0xF0, 0, 0, 0, 0],
    [0, 0, 0x1E, 0x0C, 0x0C, 0x0C, 0x0C, 0x0C, 0xCC, 0xCC, 0xCC, 0x78, 0, 0, 0, 0],
    [0, 0, 0xE6, 0x66, 0x66, 0x6C, 0x78, 0x78, 0x6C, 0x66, 0x66, 0xE6, 0, 0, 0, 0],
    [0, 0, 0xF0, 0x60, 0x60, 0x60, 0x60, 0x60, 0x60, 0x62, 0x66, 0xFE, 0, 0, 0, 0],
    [0, 0, 0xC3, 0xE7, 0xFF, 0xFF, 0xDB, 0xC3, 0xC3, 0xC3, 0xC3, 0xC3, 0, 0, 0, 0],
    [0, 0, 0xC6, 0xE6, 0xF6, 0xFE, 0xDE, 0xCE, 0xC6, 0xC6, 0xC6, 0xC6, 0, 0, 0, 0],
    [0, 0, 0x7C, 0xC6, 0xC6, 0xC6, 0xC6, 0xC6, 0xC6, 0xC6, 0xC6, 0x7C, 0, 0, 0, 0],
    [0, 0, 0xFC, 0x66, 0x66, 0x66, 0x7C, 0x60, 0x60, 0x60, 0x60, 0xF0, 0, 0, 0, 0],
    [0, 0, 0x7C, 0xC6, 0xC6, 0xC6, 0xC6, 0xC6, 0xC6, 0xD6, 0xDE, 0x7C, 0x0C, 0x0E, 0, 0],
    [0, 0, 0xFC, 0x66, 0x66, 0x66, 0x7C, 0x6C, 0x66, 0x66, 0x66, 0xE6, 0, 0, 0, 0],
    [0, 0, 0x7C, 0xC6, 0xC6, 0x60, 0x38, 0x0C, 0x06, 0xC6, 0xC6, 0x7C, 0, 0, 0, 0],
    [0, 0, 0xFF, 0xDB, 0x99, 0x18, 0x18, 0x18, 0x18, 0x18, 0x18, 0x3C, 0, 0, 0, 0],
    [0, 0, 0xC6, 0xC6, 0xC6, 0xC6, 0xC6, 0xC6, 0xC6, 0xC6, 0xC6, 0x7C, 0, 0, 0, 0],
    [0, 0, 0xC3, 0xC3, 0xC3, 0xC3, 0xC3, 0xC3, 0xC3, 0x66, 0x3C, 0x18, 0, 0, 0, 0],
    [0, 0, 0xC3, 0xC3, 0xC3, 0xC3, 0xC3, 0xDB, 0xDB, 0xFF, 0x66, 0x66, 0, 0, 0, 0],
    [0, 0, 0xC3, 0xC3, 0x66, 0x3C, 0x18, 0x18, 0x3C, 0x66, 0xC3, 0xC3, 0, 0, 0, 0],
    [0, 0, 0xC3, 0xC3, 0xC3, 0x66, 0x3C, 0x18, 0x18, 0x18, 0x18, 0x3C, 0, 0, 0, 0],
    [0, 0, 0xFF, 0xC3, 0x86, 0x0C, 0x18, 0x30, 0x60, 0xC1, 0xC3, 0xFF, 0, 0, 0, 0],
    [0, 0, 0xF0, 0xC0, 0xC0, 0xC0, 0xC0, 0xC0, 0xC0, 0xC0, 0xC0, 0xF0, 0, 0, 0, 0],
    [0, 0, 0x80, 0xC0, 0xE0, 0x70, 0x38, 0x1C, 0x0E, 0x06, 0x02, 0, 0, 0, 0, 0],
    [0, 0, 0xF0, 0x30, 0x30, 0x30, 0x30, 0x30, 0x30, 0x30, 0x30, 0xF0, 0, 0, 0, 0],
    [0, 0, 0x10, 0x38, 0x6C, 0xC6, 0, 0, 0, 0, 0, 0, 0, 0, 0, 0],
    [0, 0, 0, 0, 0, 0, 0, 0, 0, 0, 0, 0, 0, 0, 0xFF, 0],
    [0, 0, 0xC0, 0xC0, 0x60, 0, 0, 0, 0, 0, 0, 0, 0, 0, 0, 0],
    [0, 0, 0, 0, 0, 0x78, 0x0C, 0x7C, 0xCC, 0xCC, 0xCC, 0x76, 0, 0, 0, 0],
    [0, 0, 0xE0, 0x60, 0x60, 0x78, 0x6C, 0x66, 0x66, 0x66, 0x66, 0x7C, 0, 0, 0, 0],
    [0, 0, 0, 0, 0, 0x7C, 0xC6, 0xC0, 0xC0, 0xC0, 0xC6, 0x7C, 0, 0, 0, 0],
    [0, 0, 0x1C, 0x0C, 0x0C, 0x3C, 0x6C, 0xCC, 0xCC, 0xCC, 0xCC, 0x76, 0, 0, 0, 0],
    [0, 0, 0, 0, 0, 0x7C, 0xC6, 0xFE, 0xC0, 0xC0, 0xC6, 0x7C, 0, 0, 0, 0],
    [0, 0, 0x38, 0x6C, 0x64, 0x60, 0xF0, 0x60, 0x60, 0x60, 0x60, 0xF0, 0, 0, 0, 0],
    [0, 0, 0, 0, 0, 0x76, 0xCC, 0xCC, 0xCC, 0xCC, 0xCC, 0x7C, 0x0C, 0xCC, 0x78, 0],
    [0, 0, 0xE0, 0x60, 0x60, 0x6C, 0x76, 0x66, 0x66, 0x66, 0x66, 0xE6, 0, 0, 0, 0],
    [0, 0, 0x60, 0x60, 0, 0xE0, 0x60, 0x60, 0x60, 0x60, 0x60, 0xF0, 0, 0, 0, 0],
    [0, 0, 0x0C, 0x0C, 0, 0x1C, 0x0C, 0x0C, 0x0C, 0x0C, 0x0C, 0x0C, 0xCC, 0xCC, 0x78, 0],
    [0, 0, 0xE0, 0x60, 0x60, 0x66, 0x6C, 0x78, 0x78, 0x6C, 0x66, 0xE6, 0, 0, 0, 0],
    [0, 0, 0xE0, 0x60, 0x60, 0x60, 0x60, 0x60, 0x60, 0x60, 0x60, 0xF0, 0, 0, 0, 0],
    [0, 0, 0, 0, 0, 0xE6, 0xFF, 0xDB, 0xDB, 0xDB, 0xDB, 0xDB, 0, 0, 0, 0],
    [0, 0, 0, 0, 0, 0xDC, 0x66, 0x66, 0x66, 0x66, 0x66, 0x66, 0, 0, 0, 0],
    [0, 0, 0, 0, 0, 0x7C, 0xC6, 0xC6, 0xC6, 0xC6, 0xC6, 0x7C, 0, 0, 0, 0],
    [0, 0, 0, 0, 0, 0xDC, 0x66, 0x66, 0x66, 0x66, 0x66, 0x7C, 0x60, 0x60, 0xF0, 0],
    [0, 0, 0, 0, 0, 0x76, 0xCC, 0xCC, 0xCC, 0xCC, 0xCC, 0x7C, 0x0C, 0x0C, 0x1E, 0],
    [0, 0, 0, 0, 0, 0xDC, 0x76, 0x66, 0x60, 0x60, 0x60, 0xF0, 0, 0, 0, 0],
    [0, 0, 0, 0, 0, 0x7C, 0xC6, 0x60, 0x38, 0x0C, 0xC6, 0x7C, 0, 0, 0, 0],
    [0, 0, 0x10, 0x30, 0x30, 0xFC, 0x30, 0x30, 0x30, 0x30, 0x36, 0x1C, 0, 0, 0, 0],
    [0, 0, 0, 0, 0, 0xCC, 0xCC, 0xCC, 0xCC, 0xCC, 0xCC, 0x76, 0, 0, 0, 0],
    [0, 0, 0, 0, 0, 0xC3, 0xC3, 0xC3, 0xC3, 0x66, 0x3C, 0x18, 0, 0, 0, 0],
    [0, 0, 0, 0, 0, 0xC3, 0xC3, 0xC3, 0xDB, 0xDB, 0xFF, 0x66, 0, 0, 0, 0],
    [0, 0, 0, 0, 0, 0xC3, 0x66, 0x3C, 0x18, 0x3C, 0x66, 0xC3, 0, 0, 0, 0],
    [0, 0, 0, 0, 0, 0xC6, 0xC6, 0xC6, 0xC6, 0xC6, 0xC6, 0x7E, 0x06, 0x0C, 0xF8, 0],
    [0, 0, 0, 0, 0, 0xFE, 0xCC, 0x18, 0x30, 0x60, 0xC6, 0xFE, 0, 0, 0, 0],
    [0, 0, 0x1C, 0x30, 0x30, 0x30, 0xE0, 0x30, 0x30, 0x30, 0x30, 0x1C, 0, 0, 0, 0],
    [0, 0, 0xC0, 0xC0, 0xC0, 0xC0, 0, 0xC0, 0xC0, 0xC0, 0xC0, 0xC0, 0, 0, 0, 0],
    [0, 0, 0xE0, 0x30, 0x30, 0x30, 0x1C, 0x30, 0x30, 0x30, 0x30, 0xE0, 0, 0, 0, 0],
    [0, 0, 0, 0, 0, 0x76, 0xDC, 0, 0, 0, 0, 0, 0, 0, 0, 0]
  ]"

lemma font_size: "length font8x16 = 95" "glyph \<in> set font8x16 \<Longrightarrow> length glyph = 16"
proof -
  show "length font8x16 = 95" by (simp add: font8x16_def)
  have "list_all (\<lambda>g. length g = 16) font8x16" by (simp add: font8x16_def)
  then show "glyph \<in> set font8x16 \<Longrightarrow> length glyph = 16" by (auto simp: list_all_iff)
qed

end
