(* ===== verification/Framebuffer.thy ===== *)
theory Framebuffer
  imports Vga_Font
begin

text \<open>
  Drawing (\<^verbatim>\<open>kernel/graphics/framebuffer.cpp\<close>, class \<^verbatim>\<open>Framebuffer\<close>): packing of
  colours, rectangles, glyphs and the copying of rectangles. The geometry the boot loader hands over is the record
  \<open>fb_info\<close>; the pixels are a function from indices. The scale of glyphs, a \<^verbatim>\<open>float\<close> in the
  code, enters truncated to an integer, which is the only way it is used.
\<close>

section \<open>Colours and geometry\<close>

record color =
  c_r :: "32 word"
  c_g :: "32 word"
  c_b :: "32 word"
  c_a :: "32 word"

definition rgb :: "32 word \<Rightarrow> 32 word \<Rightarrow> 32 word \<Rightarrow> color" where
  "rgb r g b = \<lparr>c_r = r, c_g = g, c_b = b, c_a = 255\<rparr>"

text \<open>The fields of \<^verbatim>\<open>limine_framebuffer\<close> that are read.\<close>

record fb_info =
  fb_width :: u64
  fb_height :: u64
  fb_pitch :: u64
  fb_bpp :: u16
  red_size :: u8
  red_shift :: u8
  green_size :: u8
  green_shift :: u8
  blue_size :: u8
  blue_shift :: u8

record framebuffer =
  fb :: fb_info
  fb_ptr :: "u64 \<Rightarrow> u32"

text \<open>The request of the boot loader's protocol: no response, or the framebuffers found with their memory.\<close>

definition createFromLimineRequest :: "(fb_info \<times> (u64 \<Rightarrow> u32)) list option \<Rightarrow> framebuffer result" where
  "createFromLimineRequest response =
     (case response of
        None \<Rightarrow> Inl AssertFailed
      | Some [] \<Rightarrow> Inl AssertFailed
      | Some ((info, memory) # _) \<Rightarrow> Inr \<lparr>fb = info, fb_ptr = memory\<rparr>)"

definition packed_color :: "fb_info \<Rightarrow> color \<Rightarrow> u32" where
  "packed_color i c =
     push_bit (unat (red_shift i)) (drop_bit (8 - unat (red_size i)) (c_r c)) OR
     push_bit (unat (green_shift i)) (drop_bit (8 - unat (green_size i)) (c_g c)) OR
     push_bit (unat (blue_shift i)) (drop_bit (8 - unat (blue_size i)) (c_b c))"

definition pixel_index :: "fb_info \<Rightarrow> u64 \<Rightarrow> u64 \<Rightarrow> u64" where
  "pixel_index i x y = y * (fb_pitch i div 4) + x"

definition fb_setColor :: "u64 \<times> u64 \<Rightarrow> color \<Rightarrow> framebuffer \<Rightarrow> framebuffer" where
  "fb_setColor position c f =
     (case position of (x, y) \<Rightarrow>
        if fb_width (fb f) \<le> x \<or> fb_height (fb f) \<le> y then f
        else if fb_bpp (fb f) \<noteq> 32 then f
        else f\<lparr>fb_ptr := (fb_ptr f)(pixel_index (fb f) x y := packed_color (fb f) c)\<rparr>)"

definition expandTo8Bit :: "u32 \<Rightarrow> u8 \<Rightarrow> 32 word" where
  "expandTo8Bit val maskSize =
     (if maskSize = 0 then 0
      else if 8 \<le> maskSize then ucast (ucast (val AND 0xFF) :: u8)
      else ucast (ucast (val * 255 div (push_bit (unat maskSize) 1 - 1)) :: u8))"

definition channel :: "u32 \<Rightarrow> u8 \<Rightarrow> u8 \<Rightarrow> u32" where
  "channel raw shift maskSize = drop_bit (unat shift) raw AND (push_bit (unat maskSize) 1 - 1)"

definition fb_getColor :: "u64 \<times> u64 \<Rightarrow> framebuffer \<Rightarrow> color" where
  "fb_getColor position f =
     (case position of (x, y) \<Rightarrow>
        if fb_width (fb f) \<le> x \<or> fb_height (fb f) \<le> y then rgb 0 0 0
        else if fb_bpp (fb f) \<noteq> 32 then rgb 0 0 0
        else let raw = fb_ptr f (pixel_index (fb f) x y); i = fb f in
          rgb (expandTo8Bit (channel raw (red_shift i) (red_size i)) (red_size i))
            (expandTo8Bit (channel raw (green_shift i) (green_size i)) (green_size i))
            (expandTo8Bit (channel raw (blue_shift i) (blue_size i)) (blue_size i)))"

section \<open>Rectangles\<close>

text \<open>The loops run over the indices from the start to the end; the body is the argument of a fold.\<close>

definition fb_paintRectangle :: "u64 \<times> u64 \<Rightarrow> u64 \<times> u64 \<Rightarrow> color \<Rightarrow> framebuffer \<Rightarrow> framebuffer" where
  "fb_paintRectangle start stop c f =
     (case start of (startX, startY) \<Rightarrow> case stop of (endX, endY) \<Rightarrow>
        if endX \<le> startX \<or> endY \<le> startY then f
        else if fb_width (fb f) \<le> startX \<or> fb_height (fb f) \<le> startY then f
        else
          let endX = (if fb_width (fb f) < endX then fb_width (fb f) else endX);
              endY = (if fb_height (fb f) < endY then fb_height (fb f) else endY)
          in fold (\<lambda>y f. fold (\<lambda>x f. fb_setColor (of_nat x, of_nat y) c f) [unat startX..<unat endX] f)
               [unat startY..<unat endY] f)"

definition copy_pixel :: "u64 \<times> u64 \<Rightarrow> u64 \<times> u64 \<Rightarrow> nat \<times> nat \<Rightarrow> framebuffer \<Rightarrow> framebuffer" where
  "copy_pixel src dst cell f =
     (case cell of (col, row) \<Rightarrow>
        fb_setColor (fst dst + of_nat col, snd dst + of_nat row)
          (fb_getColor (fst src + of_nat col, snd src + of_nat row) f) f)"

definition fb_copyRect :: "u64 \<times> u64 \<Rightarrow> u64 \<times> u64 \<Rightarrow> u64 \<times> u64 \<Rightarrow> framebuffer \<Rightarrow> framebuffer" where
  "fb_copyRect src dst sz f =
     (let w = fb_width (fb f); h = fb_height (fb f) in
      if fst sz = 0 \<or> snd sz = 0 then f
      else if w \<le> fst src \<or> w \<le> fst dst then f
      else if h \<le> snd src \<or> h \<le> snd dst then f
      else
        let a = fst sz; b = snd sz;
            a = (if w < fst src + a then w - fst src else a);
            a = (if w < fst dst + a then w - fst dst else a);
            b = (if h < snd src + b then h - snd src else b);
            b = (if h < snd dst + b then h - snd dst else b)
        in if a = 0 \<or> b = 0 then f
           else
             let copyBottomToTop = (snd src < snd dst); copyRightToLeft = (fst src < fst dst);
                 rows = (if copyBottomToTop then rev [0..<unat b] else [0..<unat b]);
                 cols = (if copyRightToLeft then rev [0..<unat a] else [0..<unat a])
             in fold (\<lambda>row f. fold (\<lambda>col f. copy_pixel src dst (col, row) f) cols f) rows f)"

section \<open>Glyphs\<close>

definition fontScale :: "u64 \<Rightarrow> u64" where
  "fontScale scale = (if scale < 1 then 1 else scale)"

text \<open>Characters are signed in the code: those above 127 are below \<^verbatim>\<open>FONT_FIRST\<close>.\<close>

definition glyph_char :: "u8 \<Rightarrow> u8" where
  "glyph_char c = (if sint c < sint FONT_FIRST \<or> sint FONT_LAST < sint c then 63 else c)"

definition glyph_of :: "u8 \<Rightarrow> u8 list" where
  "glyph_of c = font8x16 ! unat (c - FONT_FIRST)"

definition glyph_bit :: "u8 list \<Rightarrow> nat \<Rightarrow> nat \<Rightarrow> bool" where
  "glyph_bit glyph row col \<longleftrightarrow> glyph ! row AND drop_bit col 0x80 \<noteq> 0"

definition fb_drawCharacter :: "u64 \<times> u64 \<Rightarrow> color \<Rightarrow> color \<Rightarrow> u8 \<Rightarrow> u64 \<Rightarrow> framebuffer \<Rightarrow> framebuffer" where
  "fb_drawCharacter pos fg bg c scaleBy f =
     (let scale = fontScale scaleBy; glyph = glyph_of (glyph_char c) in
      fold (\<lambda>row f. fold (\<lambda>col f.
          let c = (if glyph_bit glyph row col then fg else bg);
              pixelX = fst pos + of_nat col * scale; pixelY = snd pos + of_nat row * scale in
          fold (\<lambda>sy f. fold (\<lambda>sx f. fb_setColor (pixelX + of_nat sx, pixelY + of_nat sy) c f) [0..<unat scale] f)
            [0..<unat scale] f)
        [0..<unat FONT_WIDTH] f) [0..<unat FONT_HEIGHT] f)"

text \<open>The rightmost column with a bit set, \<open>-1\<close> when there is none.\<close>

definition max_column :: "u8 list \<Rightarrow> int" where
  "max_column glyph =
     fold (\<lambda>row m. fold (\<lambda>col m. if glyph_bit glyph row col then (if m < int col then int col else m) else m)
       [0..<unat FONT_WIDTH] m) [0..<unat FONT_HEIGHT] (- 1)"

definition glyphAdvance :: "u8 \<Rightarrow> u64" where
  "glyphAdvance c =
     (let c = glyph_char c in
      if c = 32 then 5
      else let maxCol = max_column (glyph_of c) in
        if maxCol < 0 then 5
        else let advance = of_int maxCol + 3 in
          if FONT_WIDTH + 1 < advance then FONT_WIDTH + 1 else advance)"

definition fb_heightOf :: "framebuffer \<Rightarrow> u64" where "fb_heightOf f = fb_height (fb f)"
definition fb_widthOf :: "framebuffer \<Rightarrow> u64" where "fb_widthOf f = fb_width (fb f)"

section \<open>Pixels\<close>

definition fb_ok :: "fb_info \<Rightarrow> bool" where
  "fb_ok i \<longleftrightarrow> fb_bpp i = 32 \<and> unat (fb_width i) \<le> unat (fb_pitch i) div 4 \<and>
     unat (fb_height i) * (unat (fb_pitch i) div 4) < 2 ^ 64"

definition pix :: "framebuffer \<Rightarrow> nat \<Rightarrow> nat \<Rightarrow> u32" where
  "pix f x y = fb_ptr f (pixel_index (fb f) (of_nat x) (of_nat y))"

definition onscreen :: "fb_info \<Rightarrow> nat \<Rightarrow> nat \<Rightarrow> bool" where
  "onscreen i x y \<longleftrightarrow> x < unat (fb_width i) \<and> y < unat (fb_height i)"

lemma onscreen_fits: "onscreen i x y \<Longrightarrow> unat (of_nat x :: u64) = x \<and> unat (of_nat y :: u64) = y"
proof -
  assume a: "onscreen i x y"
  then have "x < 2 ^ 64" "y < 2 ^ 64"
    using unsigned_less [of "fb_width i", where ?'a = nat] unsigned_less [of "fb_height i", where ?'a = nat]
    unfolding onscreen_def by (simp_all add: less_trans)
  then show ?thesis by (simp add: unat_of_nat_fits)
qed

lemma pixel_index_value:
  assumes "fb_ok i" "onscreen i (unat x) (unat y)"
  shows "unat (pixel_index i x y) = unat y * (unat (fb_pitch i) div 4) + unat x"
proof -
  let ?p = "unat (fb_pitch i) div 4"
  have p: "unat (fb_pitch i div 4) = ?p" by (simp add: unat_div)
  have "(unat y + 1) * ?p \<le> unat (fb_height i) * ?p" using assms(2) by (intro mult_le_mono1) (simp add: onscreen_def)
  moreover have "unat x < ?p" using assms by (simp add: onscreen_def fb_ok_def)
  ultimately have b: "unat y * ?p + unat x < 2 ^ 64" using assms(1) by (simp add: fb_ok_def)
  then have m: "unat (y * (fb_pitch i div 4)) = unat y * ?p" using p by (subst unat_mult_fits) simp_all
  then show ?thesis unfolding pixel_index_def using b by (subst unat_add_fits) (simp_all add: m)
qed

lemma pixel_index_inj:
  assumes "fb_ok i" "onscreen i (unat x) (unat y)" "onscreen i (unat x') (unat y')" "pixel_index i x y = pixel_index i x' y'"
  shows "x = x' \<and> y = y'"
proof -
  let ?p = "unat (fb_pitch i) div 4"
  have e: "unat y * ?p + unat x = unat y' * ?p + unat x'"
    using pixel_index_value [OF assms(1,2)] pixel_index_value [OF assms(1,3)] assms(4) by simp
  have l: "unat x < ?p" "unat x' < ?p" using assms by (simp_all add: onscreen_def fb_ok_def)
  have "unat x = (unat y * ?p + unat x) mod ?p" "unat y = (unat y * ?p + unat x) div ?p" using l by simp_all
  moreover have "unat x' = (unat y' * ?p + unat x') mod ?p" "unat y' = (unat y' * ?p + unat x') div ?p" using l by simp_all
  ultimately show ?thesis using e by (metis unat_eqI)
qed

lemma setColor_fb [simp]: "fb (fb_setColor p c f) = fb f"
  by (simp add: fb_setColor_def split: prod.splits)

lemma setColor_pix:
  assumes "fb_ok (fb f)" "onscreen (fb f) x y"
  shows "pix (fb_setColor (a, b) c f) x y = (if unat a = x \<and> unat b = y then packed_color (fb f) c else pix f x y)"
proof -
  note o = onscreen_fits [OF assms(2)]
  show ?thesis
  proof (cases "onscreen (fb f) (unat a) (unat b)")
    case True
    have "pixel_index (fb f) (of_nat x) (of_nat y) = pixel_index (fb f) a b \<longleftrightarrow> unat a = x \<and> unat b = y"
      using pixel_index_inj [OF assms(1) _ True, of "of_nat x" "of_nat y"] assms(2) o by auto
    moreover have "\<not> fb_width (fb f) \<le> a" "\<not> fb_height (fb f) \<le> b"
      using True by (simp_all add: onscreen_def word_le_unat)
    ultimately show ?thesis using assms(1) by (simp add: fb_setColor_def pix_def fb_ok_def)
  next
    case False
    then have "fb_setColor (a, b) c f = f" by (auto simp: fb_setColor_def onscreen_def word_le_unat)
    then show ?thesis using False assms(2) by auto
  qed
qed

text \<open>Two nested loops are one loop over the cells.\<close>

definition cells :: "'a list \<Rightarrow> 'b list \<Rightarrow> ('a \<times> 'b) list" where
  "cells xs ys = concat (map (\<lambda>y. map (\<lambda>x. (x, y)) xs) ys)"

lemma set_cells [simp]: "set (cells xs ys) = set xs \<times> set ys"
  by (auto simp: cells_def)

lemma fold_cells: "fold (\<lambda>y f. fold (\<lambda>x f. g x y f) xs f) ys f = fold (\<lambda>(x, y). g x y) (cells xs ys) f"
proof (induction ys arbitrary: f)
  case (Cons y ys)
  have "fold (\<lambda>x f. g x y f) xs f = fold (\<lambda>(x, y). g x y) (map (\<lambda>x. (x, y)) xs) f" for f
    by (induction xs arbitrary: f) simp_all
  then show ?case by (simp add: Cons cells_def)
qed (simp add: cells_def)

lemma paint_cells:
  assumes "fb_ok (fb f)" "onscreen (fb f) x y" "\<forall>p \<in> set ps. fst p < 2 ^ 64 \<and> snd p < 2 ^ 64"
  shows "fb (fold (\<lambda>(a, b) f. fb_setColor (of_nat a, of_nat b) c f) ps f) = fb f \<and>
    pix (fold (\<lambda>(a, b) f. fb_setColor (of_nat a, of_nat b) c f) ps f) x y =
      (if (x, y) \<in> set ps then packed_color (fb f) c else pix f x y)"
  using assms
proof (induction ps arbitrary: f)
  case (Cons p ps)
  obtain a b where p: "p = (a, b)" by (cases p)
  have ab: "unat (of_nat a :: u64) = a" "unat (of_nat b :: u64) = b"
    using Cons.prems(3) p by (simp_all add: unat_of_nat_fits)
  have "\<forall>p \<in> set ps. fst p < 2 ^ 64 \<and> snd p < 2 ^ 64" using Cons.prems(3) by simp
  from Cons.IH [OF _ _ this, of "fb_setColor (of_nat a, of_nat b) c f"] Cons.prems(1,2) show ?case
    using setColor_pix [OF Cons.prems(1,2), of "of_nat a" "of_nat b" c] by (auto simp: p ab)
qed simp

lemma fold_inv: "P s \<Longrightarrow> (\<And>x s. x \<in> set xs \<Longrightarrow> P s \<Longrightarrow> P (f x s)) \<Longrightarrow> P (fold f xs s)"
  by (induction xs arbitrary: s) simp_all

lemma paint_fb [simp]: "fb (fb_paintRectangle s e c f) = fb f"
proof -
  have i: "fb (fold (\<lambda>x f. fb_setColor (h x) c f) xs f) = fb f" for h :: "nat \<Rightarrow> _" and xs f
    by (rule fold_inv [of "\<lambda>g. fb g = fb f"]) simp_all
  show ?thesis
    unfolding fb_paintRectangle_def by (auto simp: Let_def i intro!: fold_inv [of "\<lambda>g. fb g = fb f"] split: prod.splits)
qed

text \<open>A painted rectangle: the pixels of the rectangle that are on the screen get the colour, all others keep theirs.\<close>

lemma paint_pix:
  assumes "fb_ok (fb f)" "onscreen (fb f) x y"
  shows "pix (fb_paintRectangle (sx, sy) (ex, ey) c f) x y =
    (if unat sx \<le> x \<and> x < unat ex \<and> unat sy \<le> y \<and> y < unat ey then packed_color (fb f) c else pix f x y)"
proof -
  note o = assms(2) [unfolded onscreen_def]
  consider "ex \<le> sx \<or> ey \<le> sy" | "fb_width (fb f) \<le> sx \<or> fb_height (fb f) \<le> sy"
    | "\<not> (ex \<le> sx \<or> ey \<le> sy)" "\<not> (fb_width (fb f) \<le> sx \<or> fb_height (fb f) \<le> sy)" by blast
  then show ?thesis
  proof cases
    case 1 then show ?thesis by (auto simp: fb_paintRectangle_def word_le_unat)
  next
    case 2 then show ?thesis using o by (auto simp: fb_paintRectangle_def word_le_unat)
  next
    case 3
    let ?ex = "if fb_width (fb f) < ex then fb_width (fb f) else ex"
    let ?ey = "if fb_height (fb f) < ey then fb_height (fb f) else ey"
    have run: "fb_paintRectangle (sx, sy) (ex, ey) c f =
        fold (\<lambda>(a, b) f. fb_setColor (of_nat a, of_nat b) c f) (cells [unat sx..<unat ?ex] [unat sy..<unat ?ey]) f"
      using 3 by (simp add: fb_paintRectangle_def Let_def fold_cells split del: if_split)
    have u: "unat ?ex = min (unat (fb_width (fb f))) (unat ex)" "unat ?ey = min (unat (fb_height (fb f))) (unat ey)"
      by (auto simp: word_less_unat)
    have "\<forall>p \<in> set (cells [unat sx..<unat ?ex] [unat sy..<unat ?ey]). fst p < 2 ^ 64 \<and> snd p < 2 ^ 64"
      using unsigned_less [of ?ex, where ?'a = nat] unsigned_less [of ?ey, where ?'a = nat]
      by (auto simp: less_trans simp del: if_split)
    from paint_cells [OF assms this, where c = c] show ?thesis
      unfolding run u using o by auto
  qed
qed

section \<open>Copying\<close>

text \<open>The colour a raw pixel is read as, and the pixel it becomes when it is copied.\<close>

definition color_of :: "fb_info \<Rightarrow> u32 \<Rightarrow> color" where
  "color_of i raw =
     rgb (expandTo8Bit (channel raw (red_shift i) (red_size i)) (red_size i))
       (expandTo8Bit (channel raw (green_shift i) (green_size i)) (green_size i))
       (expandTo8Bit (channel raw (blue_shift i) (blue_size i)) (blue_size i))"

definition recode :: "fb_info \<Rightarrow> u32 \<Rightarrow> u32" where
  "recode i raw = packed_color i (color_of i raw)"

lemma getColor_pix:
  assumes "fb_ok (fb f)" "onscreen (fb f) x y"
  shows "fb_getColor (of_nat x, of_nat y) f = color_of (fb f) (pix f x y)"
proof -
  have "\<not> fb_width (fb f) \<le> of_nat x" "\<not> fb_height (fb f) \<le> of_nat y"
    using assms(2) onscreen_fits [OF assms(2)] by (simp_all add: onscreen_def word_le_unat)
  then show ?thesis
    using assms(1) by (simp add: fb_getColor_def color_of_def pix_def Let_def fb_ok_def)
qed

lemma copy_pixel_fb [simp]: "fb (copy_pixel s d p f) = fb f"
  by (simp add: copy_pixel_def split: prod.splits)

lemma copy_pixel_pix:
  assumes "fb_ok (fb f)" "onscreen (fb f) x y" "onscreen (fb f) (unat (fst s) + c) (unat (snd s) + r)"
    "onscreen (fb f) (unat (fst d) + c) (unat (snd d) + r)"
  shows "pix (copy_pixel s d (c, r) f) x y =
    (if x = unat (fst d) + c \<and> y = unat (snd d) + r then recode (fb f) (pix f (unat (fst s) + c) (unat (snd s) + r))
     else pix f x y)"
proof -
  have a: "a + of_nat n = of_nat (unat a + n)" for a :: u64 and n by simp
  show ?thesis
    unfolding copy_pixel_def prod.case a getColor_pix [OF assms(1,3)] recode_def
    using setColor_pix [OF assms(1,2)] onscreen_fits [OF assms(4)] by (auto simp del: of_nat_add)
qed

lemma copy_cells:
  assumes "fb_ok (fb f)" "onscreen (fb f) x y" "distinct ps"
    "\<forall>(c, r) \<in> set ps. onscreen (fb f) (unat (fst s) + c) (unat (snd s) + r) \<and> onscreen (fb f) (unat (fst d) + c) (unat (snd d) + r)"
    "sorted_wrt (\<lambda>(c, r) (c', r'). (unat (fst d) + c, unat (snd d) + r) \<noteq> (unat (fst s) + c', unat (snd s) + r')) ps"
  shows "pix (fold (copy_pixel s d) ps f) x y =
    (if \<exists>(c, r) \<in> set ps. x = unat (fst d) + c \<and> y = unat (snd d) + r
     then recode (fb f) (pix f (x - unat (fst d) + unat (fst s)) (y - unat (snd d) + unat (snd s))) else pix f x y)"
  using assms
proof (induction ps arbitrary: f)
  case (Cons p ps)
  obtain c r where p: "p = (c, r)" by (cases p)
  let ?f = "copy_pixel s d p f"
  have on: "onscreen (fb f) (unat (fst s) + c) (unat (snd s) + r)" "onscreen (fb f) (unat (fst d) + c) (unat (snd d) + r)"
    using Cons.prems(4) p by auto
  note cp = copy_pixel_pix [OF Cons.prems(1) _ on, folded p]
  have IH: "pix (fold (copy_pixel s d) ps ?f) x y =
    (if \<exists>(c, r) \<in> set ps. x = unat (fst d) + c \<and> y = unat (snd d) + r
     then recode (fb f) (pix ?f (x - unat (fst d) + unat (fst s)) (y - unat (snd d) + unat (snd s))) else pix ?f x y)"
    using Cons.IH [of ?f] Cons.prems by simp
  show ?case
  proof (cases "\<exists>(c, r) \<in> set ps. x = unat (fst d) + c \<and> y = unat (snd d) + r")
    case True
    then obtain c' r' where q: "(c', r') \<in> set ps" "x = unat (fst d) + c'" "y = unat (snd d) + r'" by auto
    have src: "onscreen (fb f) (unat (fst s) + c') (unat (snd s) + r')" using Cons.prems(4) q(1) by auto
    have "(unat (fst d) + c, unat (snd d) + r) \<noteq> (unat (fst s) + c', unat (snd s) + r')"
      using Cons.prems(5) q(1) p by auto
    then have "pix ?f (unat (fst s) + c') (unat (snd s) + r') = pix f (unat (fst s) + c') (unat (snd s) + r')"
      using cp [OF src] by auto
    then show ?thesis using IH True q by (auto simp: ac_simps)
  next
    case False
    have "p \<notin> set ps" using Cons.prems(3) by simp
    then show ?thesis using IH False cp [OF Cons.prems(2)] p by (auto simp: ac_simps)
  qed
qed simp

lemma sorted_cells:
  assumes "sorted_wrt Q ys" "\<And>r r' c c'. Q r r' \<Longrightarrow> R (c, r) (c', r')" "\<And>r. r \<in> set ys \<Longrightarrow> sorted_wrt (\<lambda>c c'. R (c, r) (c', r)) xs"
  shows "sorted_wrt R (cells xs ys)"
  using assms(1,3)
proof (induction ys)
  case (Cons y ys)
  have "cells xs (y # ys) = map (\<lambda>x. (x, y)) xs @ cells xs ys" by (simp add: cells_def)
  moreover have "\<forall>a \<in> set (map (\<lambda>x. (x, y)) xs). \<forall>b \<in> set (cells xs ys). R a b"
    using Cons.prems(1) assms(2) by auto
  ultimately show ?case using Cons by (simp add: sorted_wrt_append sorted_wrt_map)
qed (simp add: cells_def)

lemma distinct_cells: "distinct xs \<Longrightarrow> distinct ys \<Longrightarrow> distinct (cells xs ys)"
proof (induction ys)
  case (Cons y ys)
  then show ?case by (auto simp: cells_def distinct_map inj_on_def)
qed (simp add: cells_def)

text \<open>An order of indices that is safe for moving from \<open>s\<close> to \<open>d\<close>.\<close>

lemma copy_order:
  fixes s d n :: nat
  assumes "js = (if s < d then rev [0..<n] else [0..<n])"
  shows "sorted_wrt (\<lambda>i j. d + i \<noteq> s + j) js" "set js = {0..<n}" "distinct js"
proof -
  have "sorted_wrt (\<lambda>i j. d + i \<noteq> s + j) [0..<n]" if "\<not> s < d"
    by (rule sorted_wrt_mono_rel [OF _ sorted_wrt_upt]) (use that in auto)
  moreover have "sorted_wrt (\<lambda>i j. d + i \<noteq> s + j) (rev [0..<n])" if "s < d"
    unfolding sorted_wrt_rev by (rule sorted_wrt_mono_rel [OF _ sorted_wrt_upt]) (use that in auto)
  ultimately show "sorted_wrt (\<lambda>i j. d + i \<noteq> s + j) js" "set js = {0..<n}" "distinct js" using assms by auto
qed

lemma copyRect_pix:
  assumes "fb_ok (fb f)" "onscreen (fb f) x y"
    "unat sx + unat a < 2 ^ 64" "unat dx + unat a < 2 ^ 64" "unat sy + unat b < 2 ^ 64" "unat dy + unat b < 2 ^ 64"
  defines "w \<equiv> min (unat a) (min (unat (fb_width (fb f)) - unat sx) (unat (fb_width (fb f)) - unat dx))"
    and "h \<equiv> min (unat b) (min (unat (fb_height (fb f)) - unat sy) (unat (fb_height (fb f)) - unat dy))"
  shows "pix (fb_copyRect (sx, sy) (dx, dy) (a, b) f) x y =
    (if unat dx \<le> x \<and> x < unat dx + w \<and> unat dy \<le> y \<and> y < unat dy + h
     then recode (fb f) (pix f (x - unat dx + unat sx) (y - unat dy + unat sy)) else pix f x y)"
proof -
  let ?W = "fb_width (fb f)" and ?H = "fb_height (fb f)"
  define a1 where "a1 = (if ?W < sx + a then ?W - sx else a)"
  define a2 where "a2 = (if ?W < dx + a1 then ?W - dx else a1)"
  define b1 where "b1 = (if ?H < sy + b then ?H - sy else b)"
  define b2 where "b2 = (if ?H < dy + b1 then ?H - dy else b1)"
  have clip: "unat (if W < s + n then W - s else n) = min (unat n) (unat W - unat s)"
    if "unat s < unat W" "unat s + unat n < 2 ^ 64" for W s n :: u64
    using that by (simp add: word_less_unat unat_add_fits unat_sub_fits)
  show ?thesis
  proof (cases "a = 0 \<or> b = 0 \<or> ?W \<le> sx \<or> ?W \<le> dx \<or> ?H \<le> sy \<or> ?H \<le> dy")
    case True
    then have "fb_copyRect (sx, sy) (dx, dy) (a, b) f = f"
      unfolding fb_copyRect_def Let_def fst_conv snd_conv by (elim disjE) simp_all
    moreover have "w = 0 \<or> h = 0" using True by (auto simp: w_def h_def word_le_unat)
    ultimately show ?thesis by auto
  next
    case False
    then have pos: "unat sx < unat ?W" "unat dx < unat ?W" "unat sy < unat ?H" "unat dy < unat ?H" "a \<noteq> 0" "b \<noteq> 0"
      by (auto simp: word_le_unat)
    have a1: "unat a1 = min (unat a) (unat ?W - unat sx)" unfolding a1_def by (rule clip [OF pos(1) assms(3)])
    then have a2: "unat a2 = w" unfolding a2_def using clip [OF pos(2), of a1] assms(4) by (simp add: w_def min.assoc)
    have b1: "unat b1 = min (unat b) (unat ?H - unat sy)" unfolding b1_def by (rule clip [OF pos(3) assms(5)])
    then have b2: "unat b2 = h" unfolding b2_def using clip [OF pos(4), of b1] assms(6) by (simp add: h_def min.assoc)
    have "0 < unat a" "0 < unat b" using pos(5,6) by (simp_all add: unat_gt_0)
    then have "0 < w" "0 < h" using pos(1-4) by (simp_all add: w_def h_def)
    then have nz: "(a2 = 0) = False" "(b2 = 0) = False" using a2 b2 by (auto simp: unat_eq_0)
    define rows where "rows = (if unat sy < unat dy then rev [0..<h] else [0..<h])"
    define cols where "cols = (if unat sx < unat dx then rev [0..<w] else [0..<w])"
    have nn: "(a = 0) = False" "(b = 0) = False" "(?W \<le> sx) = False" "(?W \<le> dx) = False"
      "(?H \<le> sy) = False" "(?H \<le> dy) = False" using False by auto
    have order: "rows = (if sy < dy then rev [0..<unat b2] else [0..<unat b2])"
      "cols = (if sx < dx then rev [0..<unat a2] else [0..<unat a2])"
      by (simp_all add: rows_def cols_def a2 b2 word_less_unat)
    note ro = copy_order [OF rows_def] and co = copy_order [OF cols_def]
    have run: "fb_copyRect (sx, sy) (dx, dy) (a, b) f = fold (copy_pixel (sx, sy) (dx, dy)) (cells cols rows) f"
    proof -
      have "fb_copyRect (sx, sy) (dx, dy) (a, b) f =
          fold (\<lambda>row f. fold (\<lambda>col f. copy_pixel (sx, sy) (dx, dy) (col, row) f) cols f) rows f"
        by (simp only: fb_copyRect_def fst_conv snd_conv Let_def nn nz if_False simp_thms order
            a1_def [symmetric] a2_def [symmetric] b1_def [symmetric] b2_def [symmetric])
      also have "\<dots> = fold (\<lambda>(col, row). copy_pixel (sx, sy) (dx, dy) (col, row)) (cells cols rows) f"
        by (rule fold_cells)
      finally show ?thesis by (simp add: case_prod_eta)
    qed
    have on: "\<forall>(c, r) \<in> set (cells cols rows). onscreen (fb f) (unat (fst (sx, sy)) + c) (unat (snd (sx, sy)) + r) \<and>
        onscreen (fb f) (unat (fst (dx, dy)) + c) (unat (snd (dx, dy)) + r)"
      using ro(2) co(2) by (auto simp: onscreen_def w_def h_def)
    have st: "sorted_wrt (\<lambda>(c, r) (c', r'). (unat (fst (dx, dy)) + c, unat (snd (dx, dy)) + r) \<noteq>
        (unat (fst (sx, sy)) + c', unat (snd (sx, sy)) + r')) (cells cols rows)"
      by (rule sorted_cells [OF ro(1)]) (auto intro: sorted_wrt_mono_rel [OF _ co(1)])
    have "(\<exists>(c, r) \<in> set (cells cols rows). x = unat (fst (dx, dy)) + c \<and> y = unat (snd (dx, dy)) + r) \<longleftrightarrow>
        unat dx \<le> x \<and> x < unat dx + w \<and> unat dy \<le> y \<and> y < unat dy + h"
      (is "?l = ?r")
    proof
      assume ?r
      then have "(x - unat dx, y - unat dy) \<in> set (cells cols rows)" using ro(2) co(2) by auto
      then show ?l using \<open>?r\<close> by (intro bexI) auto
    qed (use ro(2) co(2) in auto)
    then show ?thesis
      unfolding run copy_cells [OF assms(1,2) distinct_cells [OF co(3) ro(3)] on st] by simp
  qed
qed

section \<open>What drawing can touch\<close>

definition drawn_only :: "framebuffer \<Rightarrow> framebuffer \<Rightarrow> bool" where
  "drawn_only f f' \<longleftrightarrow> fb f' = fb f \<and>
     (\<forall>i. (\<forall>x y. onscreen (fb f) (unat x) (unat y) \<longrightarrow> i \<noteq> pixel_index (fb f) x y) \<longrightarrow> fb_ptr f' i = fb_ptr f i)"

lemma drawn_refl: "drawn_only f f"
  by (simp add: drawn_only_def)

lemma drawn_trans: "drawn_only f g \<Longrightarrow> drawn_only g h \<Longrightarrow> drawn_only f h"
  by (simp add: drawn_only_def)

lemma drawn_fold: "(\<And>x g. drawn_only g (op x g)) \<Longrightarrow> drawn_only f (fold op xs f)"
  using fold_inv [of "drawn_only f" f xs op] drawn_refl drawn_trans by blast

lemma drawn_setColor: "drawn_only f (fb_setColor p c f)"
  by (cases p) (auto simp: drawn_only_def fb_setColor_def onscreen_def word_le_unat not_le)

lemma drawn_paint: "drawn_only f (fb_paintRectangle s e c f)"
  unfolding fb_paintRectangle_def Let_def
  by (auto intro!: drawn_fold drawn_setColor drawn_refl split: prod.splits)

lemma drawn_copy_pixel: "drawn_only f (copy_pixel s d p f)"
  by (auto simp: copy_pixel_def drawn_setColor split: prod.splits)

lemma drawn_if: "drawn_only f a \<Longrightarrow> drawn_only f b \<Longrightarrow> drawn_only f (if c then a else b)"
  by simp

lemma drawn_copy: "drawn_only f (fb_copyRect s d z f)"
  unfolding fb_copyRect_def Let_def by (intro drawn_if drawn_refl drawn_fold drawn_copy_pixel)

lemma drawn_character: "drawn_only f (fb_drawCharacter p fg bg c s f)"
  unfolding fb_drawCharacter_def Let_def by (intro drawn_fold drawn_setColor)

text \<open>
  C25. Drawing stays on the screen: rectangles, characters and copies, with any arguments, however large, change no memory but
  the pixels inside the visible area, each of which is one word of its own within the buffer of
  \<^verbatim>\<open>height * pitch\<close> bytes.
\<close>

theorem fb_draws_on_screen:
  assumes "fb_ok (fb f)" "f' \<in> {fb_paintRectangle s e c f, fb_drawCharacter p fg bg ch scale f, fb_copyRect s d z f}"
    "fb_ptr f' i \<noteq> fb_ptr f i"
  shows "\<exists>x y. x < fb_width (fb f) \<and> y < fb_height (fb f) \<and> i = pixel_index (fb f) x y \<and>
    unat i = unat y * (unat (fb_pitch (fb f)) div 4) + unat x \<and>
    4 * unat i + 4 \<le> unat (fb_height (fb f)) * unat (fb_pitch (fb f))"
proof -
  have "drawn_only f f'" using assms(2) by (elim insertE emptyE) (simp_all only: drawn_paint drawn_character drawn_copy)
  then obtain x y where xy: "onscreen (fb f) (unat x) (unat y)" "i = pixel_index (fb f) x y"
    using assms(3) unfolding drawn_only_def by blast
  note v = pixel_index_value [OF assms(1) xy(1)]
  let ?p = "unat (fb_pitch (fb f)) div 4"
  have l: "unat x < ?p" "unat y < unat (fb_height (fb f))" using xy(1) assms(1) by (simp_all add: onscreen_def fb_ok_def)
  then have "(unat y + 1) * (4 * ?p) \<le> unat (fb_height (fb f)) * unat (fb_pitch (fb f))" by (intro mult_le_mono) simp_all
  then have "4 * unat i + 4 \<le> unat (fb_height (fb f)) * unat (fb_pitch (fb f))" using v l(1) xy(2) by (simp add: algebra_simps)
  then show ?thesis using xy v by (intro exI [of _ x] exI [of _ y]) (simp add: onscreen_def word_less_unat)
qed

text \<open>
  C26. Copying a rectangle moves it as a whole even where source and target overlap: each pixel of the target, clipped to
  the screen, becomes the old pixel of the source at the same place, and every other pixel stays.
\<close>

theorem fb_copy_moves:
  assumes "fb_ok (fb f)" "onscreen (fb f) x y"
    "unat sx + unat a < 2 ^ 64" "unat dx + unat a < 2 ^ 64" "unat sy + unat b < 2 ^ 64" "unat dy + unat b < 2 ^ 64"
  shows "pix (fb_copyRect (sx, sy) (dx, dy) (a, b) f) x y =
    (let w = min (unat a) (min (unat (fb_width (fb f)) - unat sx) (unat (fb_width (fb f)) - unat dx));
         h = min (unat b) (min (unat (fb_height (fb f)) - unat sy) (unat (fb_height (fb f)) - unat dy))
     in if unat dx \<le> x \<and> x < unat dx + w \<and> unat dy \<le> y \<and> y < unat dy + h
        then recode (fb f) (pix f (x - unat dx + unat sx) (y - unat dy + unat sy)) else pix f x y)"
  unfolding Let_def by (rule copyRect_pix [OF assms])

end
