(* ===== verification/Fb_Console.thy ===== *)
theory Fb_Console
  imports Framebuffer
begin

text \<open>
  The text console on the framebuffer (\<^verbatim>\<open>FramebufferConsole\<close> of
  \<^verbatim>\<open>kernel/graphics/framebuffer.cpp\<close>): cursor, line breaks, scrolling, tabs and backspace. Operations
  that read the clock take its value as the argument \<open>now\<close>. A tab prints blanks in a loop that need not end: its
  result is an option, \<open>None\<close> when the loop never ends.
\<close>

section \<open>The console\<close>

record fbcon =
  con_fb :: framebuffer
  con_fg :: color
  con_bg :: color
  con_scale :: u64
  cursorX :: u64
  cursorY :: u64
  cursorVisible :: bool
  cursorDrawn :: bool
  cursorBlink :: u64
  con_rows :: u64

definition con_width :: "fbcon \<Rightarrow> u64" where "con_width c = fb_widthOf (con_fb c)"
definition con_height :: "fbcon \<Rightarrow> u64" where "con_height c = fb_heightOf (con_fb c)"

definition con_charHeight :: "fbcon \<Rightarrow> u64" where
  "con_charHeight c = FONT_HEIGHT * fontScale (con_scale c)"

definition con_charWidth :: "fbcon \<Rightarrow> u64" where
  "con_charWidth c = FONT_WIDTH * fontScale (con_scale c)"

definition con_cursorBox :: "color \<Rightarrow> fbcon \<Rightarrow> framebuffer" where
  "con_cursorBox col c =
     (let pixelX = cursorX c; pixelY = cursorY c * con_charHeight c in
      fb_paintRectangle (pixelX, pixelY) (pixelX + fontScale (con_scale c), pixelY + con_charHeight c) col (con_fb c))"

definition con_drawCursor :: "fbcon \<Rightarrow> fbcon" where
  "con_drawCursor c = c\<lparr>con_fb := con_cursorBox (con_fg c) c, cursorDrawn := True\<rparr>"

definition con_eraseCursor :: "fbcon \<Rightarrow> fbcon" where
  "con_eraseCursor c =
     (if \<not> cursorDrawn c then c else c\<lparr>con_fb := con_cursorBox (con_bg c) c, cursorDrawn := False\<rparr>)"

text \<open>The first and the last lines of the operations that move the cursor.\<close>

definition con_begin :: "fbcon \<Rightarrow> fbcon" where
  "con_begin c = (if cursorDrawn c then con_eraseCursor c else c)"

definition con_finish :: "u64 \<Rightarrow> fbcon \<Rightarrow> fbcon" where
  "con_finish now c = (if cursorVisible c then con_drawCursor (c\<lparr>cursorBlink := now\<rparr>) else c)"

definition con_clear :: "u64 \<Rightarrow> fbcon \<Rightarrow> fbcon" where
  "con_clear now c =
     con_drawCursor (c\<lparr>con_fb := fb_paintRectangle (0, 0) (con_width c, con_height c) (con_bg c) (con_fb c),
       cursorX := 0, cursorY := 0, cursorDrawn := False, cursorBlink := now\<rparr>)"

definition con_new :: "u64 \<Rightarrow> framebuffer \<Rightarrow> color \<Rightarrow> color \<Rightarrow> u64 \<Rightarrow> fbcon" where
  "con_new now f fg bg scale =
     con_clear now \<lparr>con_fb = f, con_fg = fg, con_bg = bg, con_scale = (if scale < 1 then 1 else scale),
       cursorX = 0, cursorY = 0, cursorVisible = True, cursorDrawn = False, cursorBlink = 0,
       con_rows = fb_heightOf f div (FONT_HEIGHT * fontScale scale)\<rparr>"

definition con_drawCell :: "u64 \<Rightarrow> u64 \<Rightarrow> u8 \<Rightarrow> fbcon \<Rightarrow> fbcon" where
  "con_drawCell pixelX y ch c =
     c\<lparr>con_fb := fb_drawCharacter (pixelX, y * FONT_HEIGHT * fontScale (con_scale c)) (con_fg c) (con_bg c) ch
       (con_scale c) (con_fb c)\<rparr>"

definition con_scroll :: "fbcon \<Rightarrow> fbcon" where
  "con_scroll c =
     (let charHeight = con_charHeight c;
          f = fb_copyRect (0, charHeight) (0, 0) (con_width c, con_height c - charHeight) (con_fb c);
          f = fb_paintRectangle (0, con_height c - charHeight) (con_width c, charHeight) (con_bg c) f
      in c\<lparr>con_fb := f\<rparr>)"

definition con_newline :: "fbcon \<Rightarrow> fbcon" where
  "con_newline c =
     (let c = c\<lparr>cursorX := 0, cursorY := cursorY c + 1\<rparr> in
      if con_rows c \<le> cursorY c then (con_scroll c)\<lparr>cursorY := con_rows c - 1\<rparr> else c)"

definition con_backspace :: "u64 \<Rightarrow> fbcon \<Rightarrow> fbcon" where
  "con_backspace now c =
     (let c = con_begin c in
      if cursorX c = 0 \<and> cursorY c = 0 then con_finish now c
      else
        let c = (if cursorX c = 0 then c\<lparr>cursorY := cursorY c - 1, cursorX := con_width c - con_charWidth c\<rparr>
                 else if con_charWidth c < cursorX c then c\<lparr>cursorX := cursorX c - con_charWidth c\<rparr>
                 else c\<lparr>cursorX := 0\<rparr>)
        in con_finish now (con_drawCell (cursorX c) (cursorY c) 32 c))"

definition con_backspace_char :: "u64 \<Rightarrow> u8 \<Rightarrow> fbcon \<Rightarrow> fbcon" where
  "con_backspace_char now ch c =
     (let c = con_begin c; charWidth = glyphAdvance ch * fontScale (con_scale c);
          c = (if charWidth \<le> cursorX c then c\<lparr>cursorX := cursorX c - charWidth\<rparr> else c\<lparr>cursorX := 0\<rparr>)
      in con_finish now (con_drawCell (cursorX c) (cursorY c) 32 c))"

text \<open>\<^verbatim>\<open>putChar\<close>: the branch for printable characters, and the whole for everything but a tab.\<close>

definition con_glyph :: "u8 \<Rightarrow> fbcon \<Rightarrow> fbcon" where
  "con_glyph ch c =
     (let advance = glyphAdvance ch * fontScale (con_scale c);
          c = (if con_width c < cursorX c + con_charWidth c then con_newline c else c);
          c = con_drawCell (cursorX c) (cursorY c) ch c;
          c = c\<lparr>cursorX := cursorX c + advance\<rparr>
      in if con_width c \<le> cursorX c then con_newline c else c)"

definition con_putPlain :: "u64 \<Rightarrow> u8 \<Rightarrow> fbcon \<Rightarrow> fbcon" where
  "con_putPlain now ch c =
     (let c = con_begin c;
          c = (if ch = 10 then con_newline c
               else if ch = 13 then c\<lparr>cursorX := 0\<rparr>
               else if ch = 8 then con_backspace now c
               else con_glyph ch c)
      in con_finish now c)"

partial_function (option) tab_loop :: "u64 \<Rightarrow> u64 \<Rightarrow> fbcon \<Rightarrow> fbcon option" where
  "tab_loop now nextTab c = (if cursorX c < nextTab then tab_loop now nextTab (con_putPlain now 32 c) else Some c)"

definition next_tab :: "fbcon \<Rightarrow> u64" where
  "next_tab c = (let tabWidth = glyphAdvance 32 * fontScale (con_scale c) * 4 in ((cursorX c div tabWidth) + 1) * tabWidth)"

definition con_putChar :: "u64 \<Rightarrow> u8 \<Rightarrow> fbcon \<Rightarrow> fbcon option" where
  "con_putChar now ch c =
     (if ch = 9 then
        let c = con_begin c in
        case tab_loop now (next_tab c) c of None \<Rightarrow> None | Some c \<Rightarrow> Some (con_finish now c)
      else Some (con_putPlain now ch c))"

text \<open>The argument is a C string: the loop ends at its NUL.\<close>

fun con_write :: "u64 \<Rightarrow> u8 list \<Rightarrow> fbcon \<Rightarrow> fbcon option" where
  "con_write now [] c = Some c"
| "con_write now (ch # str) c =
     (if ch = 0 then Some c
      else case con_putChar now ch c of None \<Rightarrow> None | Some c \<Rightarrow> con_write now str c)"

definition con_writeLn :: "u64 \<Rightarrow> u8 list \<Rightarrow> fbcon \<Rightarrow> fbcon option" where
  "con_writeLn now str c = (case con_write now str c of None \<Rightarrow> None | Some c \<Rightarrow> con_putChar now 10 c)"

definition con_setColor :: "color \<Rightarrow> color \<Rightarrow> fbcon \<Rightarrow> fbcon" where
  "con_setColor foreground background c = c\<lparr>con_fg := foreground, con_bg := background\<rparr>"

definition con_setCursor :: "u64 \<Rightarrow> u64 \<Rightarrow> u64 \<Rightarrow> fbcon \<Rightarrow> fbcon" where
  "con_setCursor now x y c =
     (let c = con_begin c;
          c = c\<lparr>cursorX := x * FONT_WIDTH * fontScale (con_scale c)\<rparr>;
          c = (if con_width c \<le> cursorX c then c\<lparr>cursorX := con_width c - con_charWidth c\<rparr> else c);
          c = c\<lparr>cursorY := y\<rparr>;
          c = (if con_rows c \<le> cursorY c then c\<lparr>cursorY := con_rows c - 1\<rparr> else c)
      in con_finish now c)"

definition con_updateCursor :: "u64 \<Rightarrow> fbcon \<Rightarrow> fbcon" where
  "con_updateCursor now c =
     (if \<not> cursorVisible c then con_eraseCursor c
      else if now - cursorBlink c < 500 then c
      else let c = c\<lparr>cursorBlink := now\<rparr> in if cursorDrawn c then con_eraseCursor c else con_drawCursor c)"

section \<open>The cursor\<close>

text \<open>A console with room for a character, whose cursor is on the screen.\<close>

definition con_ok :: "fbcon \<Rightarrow> bool" where
  "con_ok c \<longleftrightarrow> unat (con_charWidth c) \<le> unat (con_width c) \<and> con_charWidth c \<noteq> 0 \<and> con_rows c \<noteq> 0 \<and>
     cursorX c < con_width c \<and> cursorY c < con_rows c"

named_theorems con_frame \<open>what the drawing parts of the console leave alone\<close>

lemma draw_fb [simp]: "fb (fb_drawCharacter p fg bg ch s f) = fb f" "fb (fb_copyRect a b d f) = fb f"
  using drawn_character [of f p fg bg ch s] drawn_copy [of f a b d] by (simp_all add: drawn_only_def)

lemma con_drawing [con_frame]:
  "fb (con_fb (con_drawCursor c)) = fb (con_fb c)" "con_scale (con_drawCursor c) = con_scale c"
  "con_rows (con_drawCursor c) = con_rows c" "cursorX (con_drawCursor c) = cursorX c" "cursorY (con_drawCursor c) = cursorY c"
  "fb (con_fb (con_eraseCursor c)) = fb (con_fb c)" "con_scale (con_eraseCursor c) = con_scale c"
  "con_rows (con_eraseCursor c) = con_rows c" "cursorX (con_eraseCursor c) = cursorX c" "cursorY (con_eraseCursor c) = cursorY c"
  "fb (con_fb (con_drawCell x y ch c)) = fb (con_fb c)" "con_scale (con_drawCell x y ch c) = con_scale c"
  "con_rows (con_drawCell x y ch c) = con_rows c" "cursorX (con_drawCell x y ch c) = cursorX c" "cursorY (con_drawCell x y ch c) = cursorY c"
  "fb (con_fb (con_scroll c)) = fb (con_fb c)" "con_scale (con_scroll c) = con_scale c"
  "con_rows (con_scroll c) = con_rows c" "cursorX (con_scroll c) = cursorX c" "cursorY (con_scroll c) = cursorY c"
  by (simp_all add: con_drawCursor_def con_eraseCursor_def con_drawCell_def con_scroll_def con_cursorBox_def Let_def)

lemma con_wrapping [con_frame]:
  "fb (con_fb (con_begin c)) = fb (con_fb c)" "con_scale (con_begin c) = con_scale c"
  "con_rows (con_begin c) = con_rows c" "cursorX (con_begin c) = cursorX c" "cursorY (con_begin c) = cursorY c"
  "fb (con_fb (con_finish now c)) = fb (con_fb c)" "con_scale (con_finish now c) = con_scale c"
  "con_rows (con_finish now c) = con_rows c" "cursorX (con_finish now c) = cursorX c" "cursorY (con_finish now c) = cursorY c"
  by (simp_all add: con_begin_def con_finish_def con_frame)

lemma con_newline_frame [con_frame]:
  "fb (con_fb (con_newline c)) = fb (con_fb c)" "con_scale (con_newline c) = con_scale c" "con_rows (con_newline c) = con_rows c"
  "cursorX (con_newline c) = 0"
  by (simp_all add: con_newline_def Let_def con_frame)

lemmas con_sizes = con_width_def con_height_def con_charWidth_def con_charHeight_def fb_widthOf_def fb_heightOf_def

lemma con_ok_cong:
  "fb (con_fb c') = fb (con_fb c) \<Longrightarrow> con_scale c' = con_scale c \<Longrightarrow> con_rows c' = con_rows c \<Longrightarrow> con_ok c \<Longrightarrow>
    cursorX c' < con_width c \<Longrightarrow> cursorY c' < con_rows c \<Longrightarrow> con_ok c'"
  by (simp add: con_ok_def con_sizes)

lemma newline_row: "con_rows c \<noteq> 0 \<Longrightarrow> cursorY c < con_rows c \<Longrightarrow> cursorY (con_newline c) < con_rows c"
  by (auto simp: con_newline_def Let_def con_frame word_less_unat unat_arith_simps unat_gt_0 not_le)

lemma con_ok_newline: "con_ok c \<Longrightarrow> con_ok (con_newline c)"
  by (rule con_ok_cong) (auto simp: con_frame con_ok_def newline_row word_gt_0_no intro: le_less_trans word_gt_0)

lemma con_ok_begin: "con_ok c \<Longrightarrow> con_ok (con_begin c)"
  and con_ok_finish: "con_ok c \<Longrightarrow> con_ok (con_finish now c)"
  and con_ok_drawCell: "con_ok c \<Longrightarrow> con_ok (con_drawCell x y ch c)"
  by (auto intro!: con_ok_cong [of _ c] simp: con_frame) (auto simp: con_ok_def)

lemma con_ok_move:
  assumes "con_ok c" "x < con_width c" "y < con_rows c"
  shows "con_ok (c\<lparr>cursorX := x\<rparr>)" "con_ok (c\<lparr>cursorY := y\<rparr>)" "con_ok (c\<lparr>cursorY := y, cursorX := x\<rparr>)"
    "con_ok (c\<lparr>cursorX := x, cursorY := y\<rparr>)"
  using assms by (auto simp: con_ok_def con_sizes)

lemma con_ok_facts:
  assumes "con_ok c"
  shows "0 < con_width c" "con_width c - con_charWidth c < con_width c" "con_rows c - 1 < con_rows c"
    "cursorX c < con_width c" "cursorY c < con_rows c"
proof -
  have w: "unat (con_charWidth c) \<le> unat (con_width c)" "0 < unat (con_charWidth c)" "0 < unat (con_rows c)"
    using assms by (simp_all add: con_ok_def unat_gt_0)
  show "0 < con_width c" "con_width c - con_charWidth c < con_width c" "con_rows c - 1 < con_rows c"
    using w by (simp_all add: word_less_unat unat_arith_simps)
  show "cursorX c < con_width c" "cursorY c < con_rows c" using assms by (simp_all add: con_ok_def)
qed

lemma con_ok_backspace:
  assumes "con_ok c"
  shows "con_ok (con_backspace now c)"
proof -
  let ?b = "con_begin c"
  have b: "con_ok ?b" by (rule con_ok_begin [OF assms])
  note f = con_ok_facts [OF b]
  have "cursorY ?b - 1 < con_rows ?b" if "cursorY ?b \<noteq> 0"
    using f(5) that by (simp add: word_less_unat unat_arith_simps unat_gt_0)
  moreover have "cursorX ?b - con_charWidth ?b < con_width ?b" if "con_charWidth ?b < cursorX ?b"
    using f(4) that by (simp add: word_less_unat unat_sub_fits)
  ultimately show ?thesis
    unfolding con_backspace_def Let_def
    using b con_ok_move [OF b] f by (auto intro!: con_ok_finish con_ok_drawCell)
qed

lemma con_ok_backspace_char:
  assumes "con_ok c"
  shows "con_ok (con_backspace_char now ch c)"
proof -
  let ?b = "con_begin c"
  have b: "con_ok ?b" by (rule con_ok_begin [OF assms])
  note f = con_ok_facts [OF b]
  have "cursorX ?b - w < con_width ?b" if "w \<le> cursorX ?b" for w
    using f(4) that by (simp add: word_less_unat word_le_unat unat_sub_fits)
  then show ?thesis
    unfolding con_backspace_char_def Let_def
    using b con_ok_move(1) [OF b _ f(5)] f(1) by (auto intro!: con_ok_finish con_ok_drawCell)
qed

lemma con_ok_glyph:
  assumes "con_ok c"
  shows "con_ok (con_glyph ch c)"
proof -
  let ?a = "if con_width c < cursorX c + con_charWidth c then con_newline c else c"
  have a: "con_ok ?a" using assms con_ok_newline by simp
  let ?d = "con_drawCell (cursorX ?a) (cursorY ?a) ch ?a"
  have d: "con_ok ?d" by (rule con_ok_drawCell [OF a])
  let ?e = "?d\<lparr>cursorX := cursorX ?d + glyphAdvance ch * fontScale (con_scale c)\<rparr>"
  show ?thesis
  proof (cases "con_width ?e \<le> cursorX ?e")
    case True
    have "con_ok (con_newline ?e)"
      by (rule con_ok_cong [of _ ?d])
        (use d con_ok_facts [OF d] newline_row [of ?e] in \<open>simp_all add: con_frame con_ok_def con_sizes\<close>)
    then show ?thesis using True by (simp add: con_glyph_def Let_def split del: if_split)
  next
    case False
    then have "con_ok ?e" using con_ok_move(1) [OF d _ con_ok_facts(5) [OF d]] by (simp add: con_sizes not_le)
    then show ?thesis using False by (simp add: con_glyph_def Let_def split del: if_split)
  qed
qed

lemma con_ok_putPlain: "con_ok c \<Longrightarrow> con_ok (con_putPlain now ch c)"
  unfolding con_putPlain_def Let_def
  using con_ok_begin [of c] con_ok_facts [of "con_begin c"] con_ok_move(1) [of "con_begin c" 0 "cursorY (con_begin c)"]
  by (auto intro!: con_ok_finish con_ok_newline con_ok_backspace con_ok_glyph)

lemma con_ok_tab_loop:
  assumes "tab_loop now t c = Some c'" "con_ok c"
  shows "con_ok c' \<and> t \<le> cursorX c'"
proof -
  have "con_ok c \<longrightarrow> con_ok c' \<and> t \<le> cursorX c'"
  proof (rule tab_loop.raw_induct [OF _ assms(1), where P = "\<lambda>now t c c'. con_ok c \<longrightarrow> con_ok c' \<and> t \<le> cursorX c'"])
    fix loop now t c c'
    assume IH: "\<And>now t c c'. loop now t c = Some c' \<Longrightarrow> con_ok c \<longrightarrow> con_ok c' \<and> t \<le> cursorX c'"
      and step: "(if cursorX c < t then loop now t (con_putPlain now 32 c) else Some c) = Some c'"
    show "con_ok c \<longrightarrow> con_ok c' \<and> t \<le> cursorX c'"
      using IH [of now t "con_putPlain now 32 c" c'] step con_ok_putPlain [of c now 32] by (auto split: if_splits)
  qed
  then show ?thesis using assms(2) by blast
qed

lemma next_tab_begin [con_frame]: "next_tab (con_begin c) = next_tab c"
  by (simp add: next_tab_def con_frame)

lemma con_ok_putChar:
  assumes "con_ok c" "con_putChar now ch c = Some c'"
  shows "con_ok c'"
proof (cases "ch = 9")
  case True
  then obtain d where "tab_loop now (next_tab c) (con_begin c) = Some d" "c' = con_finish now d"
    using assms(2) by (auto simp: con_putChar_def Let_def con_frame split: option.splits)
  then show ?thesis using con_ok_tab_loop con_ok_begin [OF assms(1)] con_ok_finish by blast
qed (use assms con_ok_putPlain in \<open>auto simp: con_putChar_def\<close>)

lemma con_ok_write: "con_write now str c = Some c' \<Longrightarrow> con_ok c \<Longrightarrow> con_ok c'"
  by (induction now str c rule: con_write.induct) (auto split: if_splits option.splits intro: con_ok_putChar)

lemma con_ok_setCursor:
  assumes "con_ok c"
  shows "con_ok (con_setCursor now x y c)"
proof -
  let ?b = "con_begin c"
  have b: "con_ok ?b" by (rule con_ok_begin [OF assms])
  note f = con_ok_facts [OF b]
  define x' where "x' = (if con_width ?b \<le> x * FONT_WIDTH * fontScale (con_scale c) then con_width ?b - con_charWidth ?b
    else x * FONT_WIDTH * fontScale (con_scale c))"
  define y' where "y' = (if con_rows ?b \<le> y then con_rows ?b - 1 else y)"
  have "x' < con_width ?b" "y' < con_rows ?b" using f by (auto simp: x'_def y'_def)
  then have "con_ok (?b\<lparr>cursorX := x', cursorY := y'\<rparr>)" by (rule con_ok_move(4) [OF b])
  moreover have "con_setCursor now x y c = con_finish now (?b\<lparr>cursorX := x', cursorY := y'\<rparr>)"
    by (simp add: con_setCursor_def Let_def x'_def y'_def con_sizes con_frame)
  ultimately show ?thesis using con_ok_finish by simp
qed

section \<open>Tabs\<close>

lemma space_advance: "glyphAdvance 32 = 5"
  by (simp add: glyphAdvance_def glyph_char_def FONT_FIRST_def FONT_LAST_def)

lemma tab_step:
  assumes "con_ok c" "fontScale (con_scale c) = 1" "cursorX c < t" "unat t + 8 \<le> unat (con_width c)"
  shows "unat (cursorX (con_putPlain now 32 c)) = unat (cursorX c) + 5" "con_width (con_putPlain now 32 c) = con_width c"
    "con_scale (con_putPlain now 32 c) = con_scale c"
proof -
  let ?b = "con_begin c"
  have x: "unat (cursorX c) < unat t" using assms(3) by (simp add: word_less_unat)
  have w: "unat (con_width c) < 2 ^ 64" using unsigned_less [of "con_width c", where ?'a = nat] by simp
  have a: "unat (cursorX c + 8) = unat (cursorX c) + 8" "unat (cursorX c + 5) = unat (cursorX c) + 5"
    using x assms(4) w by (simp_all add: unat_add_fits)
  have cw: "con_charWidth ?b = 8" using assms(2) by (simp add: con_charWidth_def FONT_WIDTH_def con_frame)
  have ww: "con_width ?b = con_width c" by (simp add: con_width_def fb_widthOf_def con_frame)
  have n1: "\<not> con_width ?b < cursorX ?b + con_charWidth ?b"
    using a x assms(4) by (simp add: ww cw con_frame word_less_unat)
  have n2: "\<not> con_width c \<le> cursorX c + 5" using a x assms(4) by (simp add: word_le_unat)
  have g: "con_glyph 32 ?b = (con_drawCell (cursorX ?b) (cursorY ?b) 32 ?b)\<lparr>cursorX := cursorX c + 5\<rparr>"
    using n1 n2 assms(2) by (simp add: con_glyph_def Let_def con_frame space_advance con_width_def fb_widthOf_def)
  then have p: "con_putPlain now 32 c = con_finish now ((con_drawCell (cursorX ?b) (cursorY ?b) 32 ?b)\<lparr>cursorX := cursorX c + 5\<rparr>)"
    by (simp add: con_putPlain_def Let_def)
  show "unat (cursorX (con_putPlain now 32 c)) = unat (cursorX c) + 5" "con_width (con_putPlain now 32 c) = con_width c"
    "con_scale (con_putPlain now 32 c) = con_scale c"
    unfolding p using a(2) by (simp_all add: con_frame con_width_def fb_widthOf_def)
qed

lemma tab_returns:
  assumes "con_ok c" "fontScale (con_scale c) = 1" "unat t + 8 \<le> unat (con_width c)" "unat (cursorX c) < unat t + 5"
  shows "\<exists>c'. tab_loop now t c = Some c' \<and> t \<le> cursorX c' \<and> unat (cursorX c') < unat t + 5"
  using assms
proof (induction "unat t + 5 - unat (cursorX c)" arbitrary: c rule: less_induct)
  case less
  show ?case
  proof (cases "cursorX c < t")
    case True
    note st = tab_step [OF less.prems(1,2) True less.prems(3), of now]
    have "\<exists>c'. tab_loop now t (con_putPlain now 32 c) = Some c' \<and> t \<le> cursorX c' \<and> unat (cursorX c') < unat t + 5"
      by (rule less.hyps) (use st less.prems True con_ok_putPlain in \<open>simp_all add: word_less_unat\<close>)
    then show ?thesis using True by (simp add: tab_loop.simps [of now t c])
  next
    case False
    then have "tab_loop now t c = Some c" by (simp add: tab_loop.simps [of now t c])
    then show ?thesis using less.prems(4) False by (simp add: not_less)
  qed
qed

lemma tab_hangs:
  assumes "con_ok c" "con_width c \<le> t"
  shows "tab_loop now t c = None"
proof -
  have "con_ok c \<and> con_width c \<le> t \<longrightarrow> False" if "tab_loop now t c = Some c'" for c'
  proof (rule tab_loop.raw_induct [OF _ that, where P = "\<lambda>now t c c'. con_ok c \<and> con_width c \<le> t \<longrightarrow> False"])
    fix loop now t c c'
    assume IH: "\<And>now t c c'. loop now t c = Some c' \<Longrightarrow> con_ok c \<and> con_width c \<le> t \<longrightarrow> False"
      and step: "(if cursorX c < t then loop now t (con_putPlain now 32 c) else Some c) = Some c'"
    have "con_width (con_putPlain now 32 c) = con_width c"
      by (simp add: con_putPlain_def con_glyph_def Let_def con_width_def fb_widthOf_def con_frame)
    then show "con_ok c \<and> con_width c \<le> t \<longrightarrow> False"
      using IH [of now t "con_putPlain now 32 c" c'] step con_ok_putPlain [of c now 32] con_ok_facts(4) [of c]
      by (auto split: if_splits)
  qed
  then show ?thesis using assms by (cases "tab_loop now t c") auto
qed

lemma next_tab_value:
  assumes "fontScale (con_scale c) = 1" "unat (cursorX c) < 2 ^ 32"
  shows "unat (next_tab c) = (unat (cursorX c) div 20 + 1) * 20"
proof -
  have q: "unat (cursorX c div 20) = unat (cursorX c) div 20" by (simp add: unat_div)
  have "unat (cursorX c) div 20 \<le> unat (cursorX c)" by (rule div_le_dividend)
  then have b: "(unat (cursorX c) div 20 + 1) * 20 < 2 ^ 64" using assms(2) by simp
  then show ?thesis
    using assms(1) q by (simp add: next_tab_def space_advance Let_def unat_arith_simps)
qed

section \<open>The properties\<close>



text \<open>
  Scrolling moves every text row up by one, but the last row keeps its pixels: the rectangle meant to clear it ends above
  where it starts.
\<close>

theorem con_scroll_keeps_last_row:
  assumes "fb_ok (fb (con_fb c))" "onscreen (fb (con_fb c)) x y"
    "2 * unat (con_charHeight c) \<le> unat (con_height c)"
  shows "pix (con_fb (con_scroll c)) x y =
    (if y + unat (con_charHeight c) < unat (con_height c)
     then recode (fb (con_fb c)) (pix (con_fb c) x (y + unat (con_charHeight c)))
     else pix (con_fb c) x y)"
proof -
  let ?f = "con_fb c" and ?ch = "con_charHeight c"
  have h: "con_height c = fb_height (fb ?f)" "con_width c = fb_width (fb ?f)" by (simp_all add: con_sizes)
  have d: "unat (con_height c - ?ch) = unat (con_height c) - unat ?ch" using assms(3) by (simp add: unat_sub_fits)
  let ?g = "fb_copyRect (0, ?ch) (0, 0) (con_width c, con_height c - ?ch) ?f"
  have lt: "unat (con_width c) < 2 ^ 64" "unat (con_height c) < 2 ^ 64"
    using unsigned_less [of "con_width c", where ?'a = nat] unsigned_less [of "con_height c", where ?'a = nat] by simp_all
  have g: "pix ?g x y = (if y < unat (con_height c) - unat ?ch then recode (fb ?f) (pix ?f x (y + unat ?ch)) else pix ?f x y)"
    using copyRect_pix [OF assms(1,2), of 0 "con_width c" 0 ?ch "con_height c - ?ch" 0] lt assms(2,3) d
    by (simp add: h onscreen_def)
  have "\<not> (unat (con_height c) - unat ?ch \<le> y \<and> y < unat ?ch)" using assms(3) by linarith
  then have "pix (con_fb (con_scroll c)) x y = pix ?g x y"
    using paint_pix [of ?g x y 0 "con_height c - ?ch" "con_width c" ?ch "con_bg c"] assms d
    by (auto simp: con_scroll_def Let_def)
  then show ?thesis using g by auto
qed

end
