(* ===== verification/Screen_Witnesses.thy ===== *)
theory Screen_Witnesses
  imports Fb_Console
begin

text \<open>
  The properties of the framebuffer and its console on a black screen of 64 by 64 pixels with eight bits for each colour.
\<close>

definition info64 :: fb_info where
  "info64 = \<lparr>fb_width = 64, fb_height = 64, fb_pitch = 256, fb_bpp = 32, red_size = 8, red_shift = 16,
     green_size = 8, green_shift = 8, blue_size = 8, blue_shift = 0\<rparr>"

definition screen64 :: framebuffer where
  "screen64 = \<lparr>fb = info64, fb_ptr = (\<lambda>i. if i = 70 then 0xFF else 0)\<rparr>"

lemma screen64_ok: "fb_ok (fb screen64)" "onscreen (fb screen64) x y \<longleftrightarrow> x < 64 \<and> y < 64"
  by (simp_all add: fb_ok_def onscreen_def screen64_def info64_def)

lemma fb_draws_on_screen_witness:
  "\<exists>x y. x < fb_width info64 \<and> y < fb_height info64 \<and> 0 = pixel_index info64 x y"
proof -
  let ?f = "fb_paintRectangle (0, 0) (1, 1) (rgb 255 255 255) screen64"
  have "fb_ptr ?f 0 \<noteq> fb_ptr screen64 0"
    by (simp add: fb_paintRectangle_def fb_setColor_def screen64_def info64_def pixel_index_def packed_color_def rgb_def Let_def)
  from fb_draws_on_screen [OF screen64_ok(1) _ this, of "(0, 0)" "(1, 1)" "rgb 255 255 255"] show ?thesis
    by (auto simp: screen64_def)
qed

text \<open>The pixel at (6, 1) is blue; it moves up a row with the rest of the screen.\<close>

lemma fb_copy_moves_witness:
  "pix (fb_copyRect (0, 1) (0, 0) (64, 63) screen64) 6 0 = 0xFF"
proof -
  have "onscreen (fb screen64) 6 0" using screen64_ok(2) by simp
  from fb_copy_moves [OF screen64_ok(1) this, of 0 64 0 1 63 0] show ?thesis
    by (simp add: screen64_def info64_def pix_def pixel_index_def recode_def color_of_def channel_def expandTo8Bit_def
        packed_color_def rgb_def)
qed

definition con64 :: "u64 \<Rightarrow> fbcon" where
  "con64 x = \<lparr>con_fb = screen64, con_fg = rgb 255 255 255, con_bg = rgb 0 0 0, con_scale = 1, cursorX = x, cursorY = 0,
     cursorVisible = True, cursorDrawn = False, cursorBlink = 0, con_rows = 4\<rparr>"

lemma con64_ok: "x < 64 \<Longrightarrow> con_ok (con64 x)"
  by (simp add: con_ok_def con64_def con_sizes screen64_def info64_def fontScale_def FONT_WIDTH_def)



lemma con_scroll_keeps_last_row_witness:
  "pix (con_fb (con_scroll (con64 0))) 5 63 = pix screen64 5 63"
proof -
  have "fb_ok (fb (con_fb (con64 0)))" "onscreen (fb (con_fb (con64 0))) 5 63"
    using screen64_ok by (simp_all add: con64_def)
  moreover have "con_charHeight (con64 0) = 16" "con_height (con64 0) = 64"
    by (simp_all add: con64_def con_sizes screen64_def info64_def fontScale_def FONT_HEIGHT_def)
  ultimately show ?thesis
    using con_scroll_keeps_last_row [of "con64 0" 5 63] by (simp add: con64_def)
qed

end
