(* ===== verification/Kstring.thy ===== *)
theory Kstring
  imports Avery_Prelude
begin

text \<open>
  The kernel's string class (\<^verbatim>\<open>include/types.h\<close>,
  \<^verbatim>\<open>kernel/utils/types.cpp\<close>): a buffer of \<open>capacity + 1\<close> bytes whose first
  \<open>len\<close> bytes are the text, followed by a NUL. The bytes of a fresh buffer are not initialised: they are the
  argument \<open>junk\<close> of every operation that allocates one. Allocation succeeds, and a C string argument
  does not point into the string's own buffer. Every operation is shown to compute on the text what its name says.
\<close>

section \<open>The class\<close>

record kstring =
  s_data :: "u8 list"
  s_len :: nat
  s_cap :: nat

definition new_chars :: "(nat \<Rightarrow> u8) \<Rightarrow> nat \<Rightarrow> u8 list" where
  "new_chars junk n = map junk [0..<n]"

text \<open>\<^verbatim>\<open>while (str[n] != '\0') n++\<close>\<close>

fun strlen :: "u8 list \<Rightarrow> nat" where
  "strlen [] = 0"
| "strlen (c # cs) = (if c = 0 then 0 else Suc (strlen cs))"

text \<open>\<^verbatim>\<open>memory::copy\<close> takes its count as an \<^verbatim>\<open>int\<close>.\<close>

fun copy_loop :: "nat \<Rightarrow> nat \<Rightarrow> u8 list \<Rightarrow> nat \<Rightarrow> u8 list \<Rightarrow> u8 list" where
  "copy_loop 0 i dest at src = dest"
| "copy_loop (Suc n) i dest at src = copy_loop n (i + 1) (dest[at + i := src ! i]) at src"

definition copy_chars :: "u8 list \<Rightarrow> nat \<Rightarrow> u8 list \<Rightarrow> nat \<Rightarrow> u8 list" where
  "copy_chars dest at src count = copy_loop (nat (sint (of_nat count :: 32 word))) 0 dest at src"

definition string_empty :: kstring where
  "string_empty = \<lparr>s_data = [0], s_len = 0, s_cap = 0\<rparr>"

definition string_of :: "(nat \<Rightarrow> u8) \<Rightarrow> u8 list \<Rightarrow> kstring" where
  "string_of junk str =
     (let n = strlen str; d = copy_chars (new_chars junk (n + 1)) 0 str n
      in \<lparr>s_data = d[n := 0], s_len = n, s_cap = n\<rparr>)"

definition string_copy :: "(nat \<Rightarrow> u8) \<Rightarrow> kstring \<Rightarrow> kstring" where
  "string_copy junk other =
     (let d = copy_chars (new_chars junk (s_cap other + 1)) 0 (s_data other) (s_len other)
      in \<lparr>s_data = d[s_len other := 0], s_len = s_len other, s_cap = s_cap other\<rparr>)"

text \<open>Move construction: the new string and what is left of the old one.\<close>

definition string_move :: "kstring \<Rightarrow> kstring \<times> kstring" where
  "string_move other = (other, string_empty)"

definition string_assign :: "(nat \<Rightarrow> u8) \<Rightarrow> kstring \<Rightarrow> kstring \<Rightarrow> kstring" where
  "string_assign junk s other =
     (let d = copy_chars (new_chars junk (s_cap other + 1)) 0 (s_data other) (s_len other)
      in s\<lparr>s_data := d[s_len other := 0], s_len := s_len other, s_cap := s_cap other\<rparr>)"

definition string_move_assign :: "kstring \<Rightarrow> kstring \<Rightarrow> kstring \<times> kstring" where
  "string_move_assign s other =
     (s\<lparr>s_data := s_data other, s_len := s_len other, s_cap := s_cap other\<rparr>, string_empty)"

fun same_chars :: "nat \<Rightarrow> nat \<Rightarrow> u8 list \<Rightarrow> u8 list \<Rightarrow> bool" where
  "same_chars 0 i a b = True"
| "same_chars (Suc n) i a b = (if a ! i \<noteq> b ! i then False else same_chars n (i + 1) a b)"

definition string_eq :: "kstring \<Rightarrow> kstring \<Rightarrow> bool" where
  "string_eq s other =
     (if s_len other \<noteq> s_len s then False else same_chars (s_len other) 0 (s_data s) (s_data other))"

definition string_neq :: "kstring \<Rightarrow> kstring \<Rightarrow> bool" where
  "string_neq s other = (\<not> string_eq s other)"

definition string_startsWith :: "kstring \<Rightarrow> kstring \<Rightarrow> bool" where
  "string_startsWith s other =
     (if s_len s < s_len other then False else same_chars (s_len other) 0 (s_data s) (s_data other))"

definition string_length :: "kstring \<Rightarrow> nat" where "string_length s = s_len s"
definition string_isEmpty :: "kstring \<Rightarrow> bool" where "string_isEmpty s \<longleftrightarrow> s_len s = 0"
definition string_cStr :: "kstring \<Rightarrow> u8 list" where "string_cStr s = s_data s"

definition string_clear :: "kstring \<Rightarrow> kstring" where
  "string_clear s = s\<lparr>s_len := 0, s_data := (s_data s)[0 := 0]\<rparr>"

definition string_reserve :: "(nat \<Rightarrow> u8) \<Rightarrow> nat \<Rightarrow> kstring \<Rightarrow> kstring" where
  "string_reserve junk newCapacity s =
     (if newCapacity \<le> s_cap s then s
      else let d = copy_chars (new_chars junk (newCapacity + 1)) 0 (s_data s) (s_len s)
           in s\<lparr>s_data := d[s_len s := 0], s_cap := newCapacity\<rparr>)"

definition string_append_char :: "(nat \<Rightarrow> u8) \<Rightarrow> u8 \<Rightarrow> kstring \<Rightarrow> kstring" where
  "string_append_char junk c s =
     (let s = string_reserve junk (s_len s + 1) s;
          s = s\<lparr>s_data := copy_chars (s_data s) (s_len s) [c] 1, s_len := s_len s + 1\<rparr>
      in s\<lparr>s_data := (s_data s)[s_len s := 0]\<rparr>)"

definition string_popBack :: "kstring \<Rightarrow> u8 \<times> kstring" where
  "string_popBack s =
     (if s_len s = 0 then (0, s)
      else let n = s_len s - 1 in (s_data s ! n, s\<lparr>s_len := n, s_data := (s_data s)[n := 0]\<rparr>))"

definition string_append :: "(nat \<Rightarrow> u8) \<Rightarrow> u8 list \<Rightarrow> kstring \<Rightarrow> kstring" where
  "string_append junk str s =
     (let n = strlen str;
          s = string_reserve junk (s_len s + n) s;
          s = s\<lparr>s_data := copy_chars (s_data s) (s_len s) str n, s_len := s_len s + n\<rparr>
      in s\<lparr>s_data := (s_data s)[s_len s := 0]\<rparr>)"

text \<open>\<^verbatim>\<open>operator[]\<close>, both versions: the value behind the reference.\<close>

definition string_at :: "kstring \<Rightarrow> nat \<Rightarrow> u8 option" where
  "string_at s index = (if s_len s \<le> index then None else Some (s_data s ! index))"

text \<open>\<^verbatim>\<open>for (i = len; i > 0; i--) data[i + by - 1] = data[i - 1]\<close>\<close>

fun shift_up :: "nat \<Rightarrow> nat \<Rightarrow> u8 list \<Rightarrow> u8 list" where
  "shift_up by 0 d = d"
| "shift_up by (Suc i) d = shift_up by i (d[i + by := d ! i])"

definition string_prepend_char :: "(nat \<Rightarrow> u8) \<Rightarrow> u8 \<Rightarrow> kstring \<Rightarrow> kstring" where
  "string_prepend_char junk c s =
     (let s = string_reserve junk (s_len s + 1) s;
          d = (shift_up 1 (s_len s) (s_data s))[0 := c];
          n = s_len s + 1
      in s\<lparr>s_data := d[n := 0], s_len := n\<rparr>)"

definition string_prepend :: "(nat \<Rightarrow> u8) \<Rightarrow> u8 list \<Rightarrow> kstring \<Rightarrow> kstring" where
  "string_prepend junk str s =
     (let n = strlen str in
      if n = 0 then s
      else let s = string_reserve junk (s_len s + n) s;
               d = copy_chars (shift_up n (s_len s) (s_data s)) 0 str n;
               l = s_len s + n
           in s\<lparr>s_data := d[l := 0], s_len := l\<rparr>)"

text \<open>\<^verbatim>\<open>for (i < count) data[i] = data[i + by]\<close>\<close>

fun shift_down :: "nat \<Rightarrow> nat \<Rightarrow> nat \<Rightarrow> u8 list \<Rightarrow> u8 list" where
  "shift_down 0 i by d = d"
| "shift_down (Suc n) i by d = shift_down n (i + 1) by (d[i := d ! (i + by)])"

definition string_removePrefix :: "u8 list \<Rightarrow> kstring \<Rightarrow> kstring" where
  "string_removePrefix str s =
     (let n = strlen str in
      if n = 0 \<or> s_len s < n then s
      else if \<not> same_chars n 0 (s_data s) str then s
      else s\<lparr>s_data := shift_down (s_len s - n + 1) 0 n (s_data s), s_len := s_len s - n\<rparr>)"

definition string_removeSuffix :: "u8 list \<Rightarrow> kstring \<Rightarrow> kstring" where
  "string_removeSuffix str s =
     (let n = strlen str in
      if n = 0 \<or> s_len s < n then s
      else let start = s_len s - n in
        if \<not> same_chars n 0 (drop start (s_data s)) str then s
        else s\<lparr>s_data := (s_data s)[start := 0], s_len := s_len s - n\<rparr>)"

definition isSpace :: "u8 \<Rightarrow> bool" where
  "isSpace c \<longleftrightarrow> c = 32 \<or> c = 10 \<or> c = 13 \<or> c = 9 \<or> c = 11 \<or> c = 12"

fun skip_spaces :: "nat \<Rightarrow> nat \<Rightarrow> u8 list \<Rightarrow> nat" where
  "skip_spaces 0 start d = start"
| "skip_spaces (Suc n) start d = (if isSpace (d ! start) then skip_spaces n (start + 1) d else start)"

fun trim_back :: "nat \<Rightarrow> nat \<Rightarrow> u8 list \<Rightarrow> nat" where
  "trim_back start 0 d = 0"
| "trim_back start (Suc n) d = (if start < Suc n \<and> isSpace (d ! n) then trim_back start n d else Suc n)"

definition string_trim :: "kstring \<Rightarrow> kstring" where
  "string_trim s =
     (if s_len s = 0 then s
      else let start = skip_spaces (s_len s) 0 (s_data s);
               stop = trim_back start (s_len s) (s_data s);
               n = stop - start
           in s\<lparr>s_data := (shift_down n 0 start (s_data s))[n := 0], s_len := n\<rparr>)"

section \<open>The text of a string\<close>

definition chars :: "kstring \<Rightarrow> u8 list" where
  "chars s = take (s_len s) (s_data s)"

definition string_ok :: "kstring \<Rightarrow> bool" where
  "string_ok s \<longleftrightarrow> s_len s \<le> s_cap s \<and> length (s_data s) = s_cap s + 1 \<and> s_data s ! s_len s = 0 \<and> s_cap s < 2 ^ 31"

lemma length_chars: "string_ok s \<Longrightarrow> length (chars s) = s_len s"
  by (simp add: chars_def string_ok_def)

text \<open>The characters of a C string.\<close>

definition cstr :: "u8 list \<Rightarrow> u8 list" where
  "cstr str = takeWhile (\<lambda>c. c \<noteq> 0) str"

lemma strlen_cstr: "strlen str = length (cstr str)"
  by (induction str) (simp_all add: cstr_def)

lemma cstr_take: "take (strlen str) str = cstr str"
  by (induction str) (simp_all add: cstr_def)

lemma cstr_stop: "cstr (cs @ 0 # ds) = cstr cs"
  by (induction cs) (simp_all add: cstr_def)

lemma strlen_le: "strlen str \<le> length str"
  by (induction str) simp_all

section \<open>What the loops compute\<close>

lemma copy_loop_spec:
  assumes "at + i + n \<le> length dest"
  shows "length (copy_loop n i dest at src) = length dest \<and>
    (\<forall>j < length dest. copy_loop n i dest at src ! j = (if at + i \<le> j \<and> j < at + i + n then src ! (j - at) else dest ! j))"
  using assms
proof (induction n arbitrary: i dest)
  case (Suc n)
  have "(at + i \<le> j \<and> j < at + i + Suc n) = (j = at + i \<or> at + (i + 1) \<le> j \<and> j < at + (i + 1) + n)" for j by auto
  with Suc.IH [of "i + 1" "dest[at + i := src ! i]"] Suc.prems show ?case
    by (auto simp: nth_list_update)
qed auto

lemma copy_count: "count < 2 ^ 31 \<Longrightarrow> nat (sint (of_nat count :: 32 word)) = count"
  by (simp add: sint_uint signed_take_bit_int_eq_self unsigned_of_nat take_bit_nat_eq_self signed_of_nat signed_take_bit_int_eq_self_iff)

lemma copy_chars_eq:
  assumes "at + count \<le> length dest" "count \<le> length src" "count < 2 ^ 31"
  shows "copy_chars dest at src count = take at dest @ take count src @ drop (at + count) dest"
proof (rule nth_equalityI)
  note c = copy_loop_spec [of at 0 count dest src] copy_count [OF assms(3)]
  show "length (copy_chars dest at src count) = length (take at dest @ take count src @ drop (at + count) dest)"
    using c assms by (simp add: copy_chars_def)
  fix j assume "j < length (copy_chars dest at src count)"
  then have j: "j < length dest" using c assms(1) by (simp add: copy_chars_def)
  show "copy_chars dest at src count ! j = (take at dest @ take count src @ drop (at + count) dest) ! j"
    using c j assms by (auto simp: copy_chars_def nth_append)
qed

lemma same_chars_iff: "same_chars n i a b \<longleftrightarrow> (\<forall>j. i \<le> j \<longrightarrow> j < i + n \<longrightarrow> a ! j = b ! j)"
proof (induction n arbitrary: i)
  case (Suc n)
  have "(\<forall>j. i \<le> j \<longrightarrow> j < i + Suc n \<longrightarrow> a ! j = b ! j) \<longleftrightarrow>
      a ! i = b ! i \<and> (\<forall>j. i + 1 \<le> j \<longrightarrow> j < i + 1 + n \<longrightarrow> a ! j = b ! j)"
    (is "?l = ?r")
  proof
    assume ?r
    moreover have "j = i \<or> i + 1 \<le> j \<and> j < i + 1 + n" if "i \<le> j" "j < i + Suc n" for j using that by auto
    ultimately show ?l by blast
  qed auto
  then show ?case using Suc.IH [of "i + 1"] by simp
qed simp

lemma same_chars_take:
  assumes "n \<le> length a" "n \<le> length b"
  shows "same_chars n 0 a b \<longleftrightarrow> take n a = take n b"
  using assms by (simp add: same_chars_iff list_eq_iff_nth_eq)

lemma shift_up_spec:
  assumes "i + by \<le> length d" "0 < by"
  shows "length (shift_up by i d) = length d \<and>
    (\<forall>j < length d. shift_up by i d ! j = (if by \<le> j \<and> j < i + by then d ! (j - by) else d ! j))"
  using assms(1)
proof (induction i arbitrary: d)
  case (Suc i)
  have "(by \<le> j \<and> j < Suc i + by) = (j = i + by \<or> by \<le> j \<and> j < i + by)" for j by auto
  with Suc.IH [of "d[i + by := d ! i]"] Suc.prems assms(2) show ?case
    by (auto simp: nth_list_update)
qed auto

lemma shift_up_eq:
  assumes "i + by \<le> length d" "0 < by"
  shows "drop by (take (i + by) (shift_up by i d)) = take i d" "length (shift_up by i d) = length d"
    "drop (i + by) (shift_up by i d) = drop (i + by) d"
  using shift_up_spec [OF assms] assms by (auto simp: list_eq_iff_nth_eq)

lemma shift_down_spec:
  assumes "i + n + by \<le> length d"
  shows "length (shift_down n i by d) = length d \<and>
    (\<forall>j < length d. shift_down n i by d ! j = (if i \<le> j \<and> j < i + n then d ! (j + by) else d ! j))"
  using assms
proof (induction n arbitrary: i d)
  case (Suc n)
  have "(i \<le> j \<and> j < i + Suc n) = (j = i \<or> i + 1 \<le> j \<and> j < i + 1 + n)" for j by auto
  with Suc.IH [of "i + 1" "d[i := d ! (i + by)]"] Suc.prems show ?case
    by (auto simp: nth_list_update)
qed auto

lemma shift_down_eq:
  assumes "n + by \<le> length d"
  shows "take n (shift_down n 0 by d) = take n (drop by d)" "length (shift_down n 0 by d) = length d"
  using shift_down_spec [of 0 n "by" d] assms by (auto simp: list_eq_iff_nth_eq ac_simps)

lemma skip_spaces_eq: "start + n \<le> length d \<Longrightarrow> skip_spaces n start d = start + length (takeWhile isSpace (take n (drop start d)))"
proof (induction n start d rule: skip_spaces.induct)
  case (2 n start d)
  have "drop start d = d ! start # drop (start + 1) d" using 2(2) by (simp add: Cons_nth_drop_Suc)
  then show ?case using 2 by simp
qed simp

lemma trim_back_eq:
  assumes "start \<le> n" "n \<le> length d"
  shows "drop start (take (trim_back start n d) d) = rev (dropWhile isSpace (rev (drop start (take n d))))"
    "start \<le> trim_back start n d" "trim_back start n d \<le> n"
  using assms
proof (induction n)
  case (Suc n)
  { case 1
    show ?case
    proof (cases "start < Suc n")
      case True
      have "drop start (take (Suc n) d) = drop start (take n d) @ [d ! n]"
        using True 1 by (simp add: take_Suc_conv_app_nth)
      then show ?thesis using Suc.IH(1) 1 True by auto
    qed (use 1 in auto)
  next
    case 2 then show ?case using Suc.IH(2) by auto
  next
    case 3 then show ?case using Suc.IH(3) by auto
  }
qed auto

section \<open>The operations on the text\<close>

lemma string_make:
  assumes "n \<le> c" "length d = c + 1" "n < 2 ^ 31" "n \<le> length src" "c < 2 ^ 31"
  shows "string_ok \<lparr>s_data = (copy_chars d 0 src n)[n := 0], s_len = n, s_cap = c\<rparr> \<and>
    chars \<lparr>s_data = (copy_chars d 0 src n)[n := 0], s_len = n, s_cap = c\<rparr> = take n src"
  using assms by (simp add: string_ok_def chars_def copy_chars_eq)

lemma length_new_chars [simp]: "length (new_chars junk n) = n"
  by (simp add: new_chars_def)

lemma string_of_ok: "strlen str < 2 ^ 31 \<Longrightarrow> string_ok (string_of junk str) \<and> chars (string_of junk str) = cstr str"
  using string_make [of "strlen str" "strlen str" "new_chars junk (strlen str + 1)" str] strlen_le [of str]
  by (simp add: string_of_def Let_def cstr_take)

lemma string_copy_ok: "string_ok s \<Longrightarrow> string_ok (string_copy junk s) \<and> chars (string_copy junk s) = chars s"
  using string_make [of "s_len s" "s_cap s" "new_chars junk (s_cap s + 1)" "s_data s"]
  by (simp add: string_copy_def Let_def string_ok_def chars_def)

lemma string_assign_ok: "string_ok t \<Longrightarrow> string_ok (string_assign junk s t) \<and> chars (string_assign junk s t) = chars t"
  using string_copy_ok [of t junk] by (simp add: string_assign_def string_copy_def Let_def string_ok_def chars_def)

lemma string_move_ok:
  assumes "string_ok t"
  shows "string_ok (fst (string_move_assign s t)) \<and> chars (fst (string_move_assign s t)) = chars t \<and>
    string_ok (snd (string_move_assign s t)) \<and> chars (snd (string_move_assign s t)) = []"
    "fst (string_move t) = t \<and> chars (snd (string_move t)) = []"
  using assms by (simp_all add: string_move_assign_def string_move_def string_ok_def chars_def string_empty_def)

lemma string_eq_iff:
  assumes "string_ok s" "string_ok t"
  shows "string_eq s t \<longleftrightarrow> chars s = chars t"
proof (cases "s_len s = s_len t")
  case True
  then show ?thesis
    using assms same_chars_take [of "s_len t" "s_data s" "s_data t"] by (simp add: string_eq_def chars_def string_ok_def)
next
  case False
  then have "chars s \<noteq> chars t" using length_chars [OF assms(1)] length_chars [OF assms(2)] by auto
  then show ?thesis using False by (simp add: string_eq_def)
qed

lemma string_startsWith_iff: "string_ok s \<Longrightarrow> string_ok t \<Longrightarrow> string_startsWith s t \<longleftrightarrow> (\<exists>rest. chars s = chars t @ rest)"
proof -
  assume a: "string_ok s" "string_ok t"
  have "(\<exists>rest. chars s = chars t @ rest) \<longleftrightarrow> length (chars t) \<le> length (chars s) \<and> take (length (chars t)) (chars s) = chars t"
    by (metis append_eq_conv_conj append_take_drop_id le_add1 length_append)
  also have "\<dots> \<longleftrightarrow> string_startsWith s t"
    using a length_chars [OF a(1)] length_chars [OF a(2)] same_chars_take [of "s_len t" "s_data s" "s_data t"]
    by (auto simp: string_startsWith_def chars_def string_ok_def min_def)
  finally show ?thesis by simp
qed

lemma string_reserve_ok:
  assumes "string_ok s" "n < 2 ^ 31"
  shows "string_ok (string_reserve junk n s)" "chars (string_reserve junk n s) = chars s" "n \<le> s_cap (string_reserve junk n s)"
    "s_len (string_reserve junk n s) = s_len s"
  using assms string_make [of "s_len s" n "new_chars junk (n + 1)" "s_data s"]
  by (auto simp: string_reserve_def Let_def string_ok_def chars_def)

lemma string_append_ok:
  assumes "string_ok s" "s_len s + strlen str < 2 ^ 31"
  shows "string_ok (string_append junk str s) \<and> chars (string_append junk str s) = chars s @ cstr str"
proof -
  let ?r = "string_reserve junk (s_len s + strlen str) s"
  note r = string_reserve_ok [OF assms, of junk]
  have b: "s_len s + strlen str < length (s_data ?r)" using r by (simp add: string_ok_def)
  then show ?thesis
    using r assms strlen_le [of str]
    by (simp add: string_append_def Let_def string_ok_def chars_def copy_chars_eq cstr_take [symmetric])
qed

lemma string_append_char_ok:
  assumes "string_ok s" "s_len s + 1 < 2 ^ 31"
  shows "string_ok (string_append_char junk c s) \<and> chars (string_append_char junk c s) = chars s @ [c]"
proof -
  let ?r = "string_reserve junk (s_len s + 1) s"
  note r = string_reserve_ok [OF assms, of junk]
  have b: "s_len s + 1 < length (s_data ?r)" using r by (simp add: string_ok_def)
  then show ?thesis
    using r assms
    by (simp add: string_append_char_def Let_def string_ok_def chars_def copy_chars_eq)
qed

lemma string_popBack_ok:
  assumes "string_ok s"
  shows "string_ok (snd (string_popBack s)) \<and> chars (snd (string_popBack s)) = butlast (chars s) \<and>
    fst (string_popBack s) = (if chars s = [] then 0 else last (chars s))"
proof (cases "s_len s")
  case 0
  then show ?thesis using assms by (simp add: string_popBack_def chars_def)
next
  case (Suc n)
  then have l: "n < length (s_data s)" using assms by (simp add: string_ok_def)
  have "chars s = take n (s_data s) @ [s_data s ! n]" using Suc l by (simp add: chars_def take_Suc_conv_app_nth)
  then show ?thesis using assms Suc l by (simp add: string_popBack_def string_ok_def chars_def Let_def)
qed

lemma string_clear_ok: "string_ok s \<Longrightarrow> string_ok (string_clear s) \<and> chars (string_clear s) = []"
  by (simp add: string_clear_def string_ok_def chars_def)

lemma string_at_ok: "string_ok s \<Longrightarrow> string_at s i = (if i < length (chars s) then Some (chars s ! i) else None)"
  by (auto simp: string_at_def chars_def string_ok_def)

lemma text_put:
  assumes "string_ok r" "length d = length (s_data r)" "n \<le> s_cap r"
  shows "string_ok (r\<lparr>s_data := d[n := 0], s_len := n\<rparr>) \<and> chars (r\<lparr>s_data := d[n := 0], s_len := n\<rparr>) = take n d"
  using assms by (simp add: string_ok_def chars_def)

lemma prepend_text:
  assumes "string_ok r" "s_len r + n \<le> s_cap r" "0 < n" "length p = n"
  shows "take (s_len r + n) (p @ drop n (shift_up n (s_len r) (s_data r))) = p @ chars r"
proof -
  have l: "s_len r + n \<le> length (s_data r)" using assms by (simp add: string_ok_def)
  note u = shift_up_eq [OF l assms(3)]
  have "take (s_len r) (drop n (shift_up n (s_len r) (s_data r))) = take (s_len r) (s_data r)"
    using u(1) by (simp add: take_drop add.commute)
  then show ?thesis using assms(4) by (simp add: chars_def)
qed

lemma string_prepend_ok:
  assumes "string_ok s" "s_len s + strlen str < 2 ^ 31"
  shows "string_ok (string_prepend junk str s) \<and> chars (string_prepend junk str s) = cstr str @ chars s"
proof (cases "strlen str = 0")
  case True
  then show ?thesis using assms(1) by (simp add: string_prepend_def strlen_cstr)
next
  case False
  let ?n = "strlen str" and ?r = "string_reserve junk (s_len s + strlen str) s"
  note r = string_reserve_ok [OF assms, of junk]
  have b: "s_len s + ?n \<le> length (s_data ?r)" "s_len s + ?n < length (s_data ?r)" using r by (simp_all add: string_ok_def)
  have lu: "length (shift_up ?n (s_len s) (s_data ?r)) = length (s_data ?r)" using shift_up_eq(2) [OF b(1)] False by simp
  have cp: "copy_chars (shift_up ?n (s_len s) (s_data ?r)) 0 str ?n = cstr str @ drop ?n (shift_up ?n (s_len s) (s_data ?r))"
    using b lu assms(2) strlen_le [of str] by (simp add: copy_chars_eq cstr_take)
  have t: "take (s_len s + ?n) (cstr str @ drop ?n (shift_up ?n (s_len s) (s_data ?r))) = cstr str @ chars s"
    by (rule prepend_text [OF r(1), of ?n "cstr str", unfolded r(4,2)]) (use r(3) False in \<open>simp_all add: strlen_cstr [symmetric]\<close>)
  have "length (cstr str @ drop ?n (shift_up ?n (s_len s) (s_data ?r))) = length (s_data ?r)"
    using lu b by (simp add: strlen_cstr [symmetric])
  from text_put [OF r(1) this r(3)] show ?thesis
    unfolding string_prepend_def Let_def r(4) cp t using False by simp
qed

lemma string_prepend_char_ok:
  assumes "string_ok s" "s_len s + 1 < 2 ^ 31"
  shows "string_ok (string_prepend_char junk c s) \<and> chars (string_prepend_char junk c s) = c # chars s"
proof -
  let ?r = "string_reserve junk (s_len s + 1) s"
  note r = string_reserve_ok [OF assms, of junk]
  have b: "s_len s + 1 \<le> length (s_data ?r)" "s_len s + 1 < length (s_data ?r)" using r by (simp_all add: string_ok_def)
  have lu: "length (shift_up 1 (s_len s) (s_data ?r)) = length (s_data ?r)" using shift_up_eq(2) [OF b(1)] by simp
  have up: "(shift_up 1 (s_len s) (s_data ?r))[0 := c] = [c] @ drop 1 (shift_up 1 (s_len s) (s_data ?r))"
    using lu b by (cases "shift_up 1 (s_len s) (s_data ?r)") auto
  have t: "take (s_len s + 1) ([c] @ drop 1 (shift_up 1 (s_len s) (s_data ?r))) = [c] @ chars s"
    using prepend_text [OF r(1), of 1 "[c]"] r by simp
  have "length ([c] @ drop 1 (shift_up 1 (s_len s) (s_data ?r))) = length (s_data ?r)" using lu b by simp
  from text_put [OF r(1) this r(3)] show ?thesis
    unfolding string_prepend_char_def Let_def r(4) up t by simp
qed

lemma string_removePrefix_ok:
  assumes "string_ok s"
  shows "string_ok (string_removePrefix str s) \<and>
    chars (string_removePrefix str s) =
      (if take (length (cstr str)) (chars s) = cstr str then drop (length (cstr str)) (chars s) else chars s)"
proof -
  let ?n = "strlen str"
  have l: "s_len s < length (s_data s)" using assms by (simp add: string_ok_def)
  consider "?n = 0" | "s_len s < ?n" | "0 < ?n" "?n \<le> s_len s" by linarith
  then show ?thesis
  proof cases
    case 2
    then have "take (length (cstr str)) (chars s) \<noteq> cstr str"
      using length_chars [OF assms] by (metis length_take min.strict_order_iff min_def not_less strlen_cstr)
    then show ?thesis using 2 assms by (simp add: string_removePrefix_def)
  next
    case 3
    have eq: "same_chars ?n 0 (s_data s) str \<longleftrightarrow> take (length (cstr str)) (chars s) = cstr str"
      using same_chars_take [of ?n "s_data s" str] strlen_le [of str] 3 l
      by (simp add: cstr_take strlen_cstr [symmetric] chars_def min_absorb1)
    let ?d = "shift_down (s_len s - ?n + 1) 0 ?n (s_data s)"
    have b: "s_len s - ?n + 1 + ?n \<le> length (s_data s)" using 3 l by simp
    note dn = shift_down_eq [OF b]
    have "take (s_len s - ?n + 1) ?d ! (s_len s - ?n) = take (s_len s - ?n + 1) (drop ?n (s_data s)) ! (s_len s - ?n)"
      using dn(1) by simp
    then have z: "?d ! (s_len s - ?n) = 0" using 3 l assms by (simp add: string_ok_def)
    have "take (s_len s - ?n) (take (s_len s - ?n + 1) ?d) = take (s_len s - ?n) (take (s_len s - ?n + 1) (drop ?n (s_data s)))"
      using dn(1) by simp
    then have "take (s_len s - ?n) ?d = drop ?n (chars s)" using 3 by (simp add: chars_def drop_take min_def)
    then show ?thesis
      using 3 eq z dn(2) assms by (auto simp: string_removePrefix_def Let_def string_ok_def strlen_cstr [symmetric] chars_def)
  qed (use assms in \<open>simp_all add: string_removePrefix_def strlen_cstr\<close>)
qed

lemma string_removeSuffix_ok:
  assumes "string_ok s"
  shows "string_ok (string_removeSuffix str s) \<and>
    chars (string_removeSuffix str s) =
      (if \<exists>cs. chars s = cs @ cstr str then take (length (chars s) - length (cstr str)) (chars s) else chars s)"
proof -
  let ?n = "strlen str"
  have l: "s_len s < length (s_data s)" using assms by (simp add: string_ok_def)
  consider "?n = 0" | "s_len s < ?n" | "0 < ?n" "?n \<le> s_len s" by linarith
  then show ?thesis
  proof cases
    case 1
    then have "cstr str = []" by (simp add: strlen_cstr)
    then show ?thesis using assms 1 by (simp add: string_removeSuffix_def)
  next
    case 2
    then have "\<nexists>cs. chars s = cs @ cstr str" using length_chars [OF assms] by (auto simp: strlen_cstr)
    then show ?thesis using 2 assms by (simp add: string_removeSuffix_def)
  next
    case 3
    have "same_chars ?n 0 (drop (s_len s - ?n) (s_data s)) str \<longleftrightarrow> drop (s_len s - ?n) (chars s) = cstr str"
      using same_chars_take [of ?n "drop (s_len s - ?n) (s_data s)" str] strlen_le [of str] 3 l
      by (simp add: cstr_take chars_def take_drop [symmetric] drop_take)
    also have "\<dots> \<longleftrightarrow> (\<exists>cs. chars s = cs @ cstr str)"
      using length_chars [OF assms] 3 by (auto simp: strlen_cstr) (metis append_take_drop_id)
    finally show ?thesis
      using 3 assms l length_chars [OF assms]
      by (auto simp: string_removeSuffix_def Let_def string_ok_def strlen_cstr [symmetric] chars_def)
  qed
qed

definition trimmed :: "u8 list \<Rightarrow> u8 list" where
  "trimmed cs = rev (dropWhile isSpace (rev (dropWhile isSpace cs)))"

lemma string_trim_ok:
  assumes "string_ok s"
  shows "string_ok (string_trim s) \<and> chars (string_trim s) = trimmed (chars s)"
proof (cases "s_len s = 0")
  case True
  then show ?thesis using assms by (simp add: string_trim_def chars_def trimmed_def)
next
  case False
  let ?d = "s_data s" and ?start = "skip_spaces (s_len s) 0 (s_data s)"
  have l: "s_len s < length ?d" using assms by (simp add: string_ok_def)
  have st: "?start = length (takeWhile isSpace (chars s))" using l by (simp add: skip_spaces_eq chars_def)
  have le: "?start \<le> s_len s" using st length_takeWhile_le [of isSpace "chars s"] length_chars [OF assms] by simp
  let ?stop = "trim_back ?start (s_len s) ?d"
  note tb = trim_back_eq [OF le less_imp_le [OF l]]
  have dw: "drop ?start (chars s) = dropWhile isSpace (chars s)"
    unfolding st by (metis append_eq_conv_conj takeWhile_dropWhile_id)
  have b: "?stop - ?start + ?start \<le> length ?d" using tb(2,3) l by simp
  note dn = shift_down_eq [OF b]
  have "take (?stop - ?start) (drop ?start ?d) = drop ?start (take ?stop ?d)"
    using tb(2) by (simp add: drop_take)
  then have "take (?stop - ?start) (shift_down (?stop - ?start) 0 ?start ?d) = trimmed (chars s)"
    using dn(1) tb(1) dw by (simp add: trimmed_def chars_def)
  moreover have "?stop - ?start \<le> s_cap s" using tb(3) assms unfolding string_ok_def by linarith
  ultimately show ?thesis
    using text_put [OF assms dn(2), of "?stop - ?start"] False unfolding string_trim_def Let_def by simp
qed

section \<open>Sequences of operations\<close>

datatype string_op = AppendText "u8 list" | AppendChar u8 | PrependText "u8 list" | PrependChar u8 | PopBack
  | RemovePrefix "u8 list" | RemoveSuffix "u8 list" | Trim | Clear

fun string_run :: "(nat \<Rightarrow> u8) \<Rightarrow> string_op \<Rightarrow> kstring \<Rightarrow> kstring" where
  "string_run junk (AppendText t) s = string_append junk t s"
| "string_run junk (AppendChar c) s = string_append_char junk c s"
| "string_run junk (PrependText t) s = string_prepend junk t s"
| "string_run junk (PrependChar c) s = string_prepend_char junk c s"
| "string_run junk PopBack s = snd (string_popBack s)"
| "string_run junk (RemovePrefix t) s = string_removePrefix t s"
| "string_run junk (RemoveSuffix t) s = string_removeSuffix t s"
| "string_run junk Trim s = string_trim s"
| "string_run junk Clear s = string_clear s"

text \<open>The same operations on plain texts, and how much a text can grow.\<close>

fun text_run :: "string_op \<Rightarrow> u8 list \<Rightarrow> u8 list" where
  "text_run (AppendText t) cs = cs @ cstr t"
| "text_run (AppendChar c) cs = cs @ [c]"
| "text_run (PrependText t) cs = cstr t @ cs"
| "text_run (PrependChar c) cs = c # cs"
| "text_run PopBack cs = butlast cs"
| "text_run (RemovePrefix t) cs = (if take (length (cstr t)) cs = cstr t then drop (length (cstr t)) cs else cs)"
| "text_run (RemoveSuffix t) cs =
     (if \<exists>ds. cs = ds @ cstr t then take (length cs - length (cstr t)) cs else cs)"
| "text_run Trim cs = trimmed cs"
| "text_run Clear cs = []"

fun grows :: "string_op \<Rightarrow> nat" where
  "grows (AppendText t) = length (cstr t)"
| "grows (AppendChar c) = 1"
| "grows (PrependText t) = length (cstr t)"
| "grows (PrependChar c) = 1"
| "grows _ = 0"

lemma text_run_length: "length (text_run p cs) \<le> length cs + grows p"
proof -
  have "length (trimmed cs) \<le> length cs"
    unfolding trimmed_def by (metis length_dropWhile_le length_rev order_trans)
  then show ?thesis by (cases p) auto
qed

lemma string_run_ok:
  assumes "string_ok s" "length (chars s) + grows p < 2 ^ 31"
  shows "string_ok (string_run junk p s) \<and> chars (string_run junk p s) = text_run p (chars s)"
  using assms length_chars [OF assms(1)]
    string_append_ok [of s] string_append_char_ok [of s] string_prepend_ok [of s] string_prepend_char_ok [of s]
    string_popBack_ok [of s] string_removePrefix_ok [of s] string_removeSuffix_ok [of s] string_trim_ok [of s]
    string_clear_ok [of s]
  by (cases p) (simp_all add: strlen_cstr)

lemma string_runs_ok:
  assumes "string_ok s" "length (chars s) + sum_list (map grows ops) < 2 ^ 31"
  shows "string_ok (fold (string_run junk) ops s) \<and> chars (fold (string_run junk) ops s) = fold text_run ops (chars s)"
  using assms
proof (induction ops arbitrary: s)
  case (Cons p ops)
  have r: "string_ok (string_run junk p s)" "chars (string_run junk p s) = text_run p (chars s)"
    using string_run_ok [OF Cons.prems(1), of p junk] Cons.prems(2) by simp_all
  have "length (chars (string_run junk p s)) + sum_list (map grows ops) < 2 ^ 31"
    using r(2) text_run_length [of p "chars s"] Cons.prems(2) by simp
  from Cons.IH [OF r(1) this] show ?case by (simp add: r(2))
qed simp

text \<open>
  C23. The string class implements texts: however its modifying operations are combined, the buffer stays
  NUL-terminated and within its capacity, and its text is what the same operations give on plain lists of
  characters, while the total length stays below the range of the copy routine's \<^verbatim>\<open>int\<close> count.
\<close>

theorem string_refines_text:
  assumes "string_ok s" "length (chars s) + sum_list (map grows ops) < 2 ^ 31"
  shows "string_ok (fold (string_run junk) ops s) \<and>
    chars (fold (string_run junk) ops s) = fold text_run ops (chars s) \<and>
    cstr (string_cStr (fold (string_run junk) ops s)) = cstr (fold text_run ops (chars s))"
proof -
  let ?s = "fold (string_run junk) ops s"
  note r = string_runs_ok [OF assms, of junk]
  have l: "s_len ?s < length (s_data ?s)" "s_data ?s ! s_len ?s = 0" using r by (simp_all add: string_ok_def)
  have "s_data ?s = chars ?s @ 0 # drop (Suc (s_len ?s)) (s_data ?s)"
    using id_take_nth_drop [OF l(1)] l(2) by (simp add: chars_def)
  then have "cstr (s_data ?s) = cstr (chars ?s)" by (metis cstr_stop)
  then show ?thesis using r by (simp add: string_cStr_def)
qed

text \<open>\<^verbatim>\<open>" ab "\<close>, trimmed, with \<^verbatim>\<open>"/"\<close> in front and its last letter removed.\<close>

lemma string_refines_text_witness:
  "chars (fold (string_run (\<lambda>_. 7)) [AppendText [32, 97, 98, 32, 0], Trim, PrependChar 47, PopBack] string_empty) = [47, 97]"
proof -
  have k: "string_ok string_empty" "chars string_empty = []"
    by (simp_all add: string_ok_def string_empty_def chars_def)
  have b: "length (chars string_empty) +
      sum_list (map grows [AppendText [32, 97, 98, 32, 0], Trim, PrependChar 47, PopBack]) < 2 ^ 31"
    by (simp add: k(2) cstr_def)
  show ?thesis
    using string_refines_text [OF k(1) b, of "\<lambda>_. 7"] by (simp add: k(2) cstr_def trimmed_def isSpace_def)
qed

end
