(* ===== verification/Kernel_Output.thy ===== *)
theory Kernel_Output
  imports Fb_Console Kstring "HOL-Library.Monad_Syntax"
begin

text \<open>
  Text output (\<^verbatim>\<open>kernel/io/serial.cpp\<close>, \<^verbatim>\<open>kernel/io/console.cpp\<close>,
  \<^verbatim>\<open>kernel/core/debug.cpp\<close>): numbers in decimal and hexadecimal, the choice between debug port and
  framebuffer, log lines, stack traces and the panic screen. What reaches the debug port is kept as a list of bytes.
  Operations that may print a tab on the framebuffer return an option, as in \<open>Fb_Console\<close>. The number routines
  exist twice in the code, once for each destination, with the same text; local arrays start with arbitrary contents
  (\<open>junk\<close>).
\<close>

section \<open>Digits\<close>

text \<open>
  \<^verbatim>\<open>do { index--; buffer[index] = '0' + num % 10; num /= 10; } while (num != 0)\<close>; the text is what
  stands in the buffer from the index on.
\<close>

function number_loop :: "u64 \<Rightarrow> u8 list \<Rightarrow> nat \<Rightarrow> u8 list \<times> nat" where
  "number_loop num buffer index =
     (let index = index - 1;
          buffer = buffer[index := 48 + ucast (num mod 10)];
          num = num div 10
      in if num \<noteq> 0 then number_loop num buffer index else (buffer, index))"
  by pat_completeness auto
termination
proof (relation "measure (\<lambda>(num, _, _). unat num)")
  fix num :: u64 and buffer :: "u8 list" and index x xa xb
  assume "xb = num div 10" "xb \<noteq> 0"
  then have "unat num div 10 < unat num" by (intro div_less_dividend) (auto simp: unat_gt_0)
  then show "((xb, xa, x), num, buffer, index) \<in> measure (\<lambda>(num, _, _). unat num)"
    using \<open>xb = num div 10\<close> by (simp add: unat_div)
qed simp

declare number_loop.simps [simp del]

definition number_text :: "(nat \<Rightarrow> u8) \<Rightarrow> u64 \<Rightarrow> u8 list" where
  "number_text junk num =
     (let (buffer, index) = number_loop num ((new_chars junk 21)[20 := 0]) 20 in drop index buffer)"

definition hex_digits :: "u8 list" where
  "hex_digits = [48, 49, 50, 51, 52, 53, 54, 55, 56, 57, 65, 66, 67, 68, 69, 70]"

text \<open>The loop over the shifts \<open>4 k, \<dots>, 4, 0\<close>.\<close>

fun hex_loop :: "u64 \<Rightarrow> nat \<Rightarrow> u8 list \<Rightarrow> nat \<Rightarrow> bool \<Rightarrow> u8 list \<times> nat" where
  "hex_loop num k hex index started =
     (let digit = unat (drop_bit (4 * k) num AND 0xF);
          (hex, index, started) =
            (if digit \<noteq> 0 \<or> started \<or> k = 0 then (hex[index := hex_digits ! digit], index + 1, True)
             else (hex, index, started))
      in case k of 0 \<Rightarrow> (hex, index) | Suc k \<Rightarrow> hex_loop num k hex index started)"

declare hex_loop.simps [simp del]

definition hex_text :: "(nat \<Rightarrow> u8) \<Rightarrow> u64 \<Rightarrow> u8 list" where
  "hex_text junk num =
     (let (hex, index) = hex_loop num 15 ((new_chars junk 19)[0 := 48, 1 := 120]) 2 False in hex[index := 0])"

section \<open>Numbers as texts\<close>

text \<open>Positional notation and its value.\<close>

fun digits_of :: "nat \<Rightarrow> nat \<Rightarrow> nat list" where
  "digits_of b n = (if n < b \<or> b < 2 then [n] else digits_of b (n div b) @ [n mod b])"

declare digits_of.simps [simp del]

definition value_of :: "nat \<Rightarrow> nat list \<Rightarrow> nat" where
  "value_of b = foldl (\<lambda>a d. b * a + d) 0"

lemma digits_value: "value_of b (digits_of b n) = n"
proof (induction b n rule: digits_of.induct)
  case (1 b n)
  then show ?case by (subst digits_of.simps) (auto simp: value_of_def)
qed

lemma digits_small: "1 < b \<Longrightarrow> d \<in> set (digits_of b n) \<Longrightarrow> d < b"
proof (induction b n rule: digits_of.induct)
  case (1 b n)
  then show ?case by (subst (asm) (2) digits_of.simps) (auto split: if_splits)
qed

lemma digits_length: "1 < b \<Longrightarrow> n < b ^ k \<Longrightarrow> 0 < k \<Longrightarrow> length (digits_of b n) \<le> k"
proof (induction b n arbitrary: k rule: digits_of.induct)
  case (1 b n)
  show ?case
  proof (cases "n < b")
    case False
    obtain j where k: "k = Suc j" using "1.prems"(3) by (cases k) auto
    have "0 < j" using False "1.prems"(2) k by (cases j) auto
    moreover have "n div b < b ^ j" using "1.prems" k by (simp add: less_mult_imp_div_less mult.commute)
    ultimately show ?thesis using 1 False k by (subst digits_of.simps) auto
  qed (use 1 in \<open>subst digits_of.simps, auto\<close>)
qed

lemma digits_no_zero: "1 < b \<Longrightarrow> 0 < n \<Longrightarrow> hd (digits_of b n) \<noteq> 0"
proof (induction b n rule: digits_of.induct)
  case (1 b n)
  have "digits_of b m \<noteq> []" for m by (subst digits_of.simps) auto
  moreover have "0 < n div b" if "\<not> n < b" using that 1(2) by (simp add: div_greater_zero_iff)
  ultimately show ?case using 1 by (subst digits_of.simps) auto
qed

lemma number_loop_ok:
  assumes "length (digits_of 10 (unat num)) \<le> index" "index < length buffer"
  shows "case number_loop num buffer index of (b, i) \<Rightarrow>
    drop i b = map (\<lambda>d. 48 + of_nat d) (digits_of 10 (unat num)) @ drop index buffer"
  using assms
proof (induction num buffer index rule: number_loop.induct)
  case (1 num buffer index)
  let ?b = "buffer[index - 1 := 48 + ucast (num mod 10)]"
  have d: "ucast (num mod 10) = (of_nat (unat num mod 10) :: u8)"
  proof -
    have "ucast (num mod 10) = (of_nat (unat (num mod 10)) :: u8)" by (rule of_nat_unat [symmetric])
    then show ?thesis by (simp add: unat_mod)
  qed
  have dn: "unat (num div 10) = unat num div 10" by (simp add: unat_div)
  have "digits_of 10 (unat num) \<noteq> []" by (subst digits_of.simps) auto
  then obtain i where i: "index = Suc i" using "1.prems"(1) by (cases index) auto
  have "drop i ?b = ?b ! i # drop (Suc i) ?b"
    by (rule Cons_nth_drop_Suc [symmetric]) (use i "1.prems"(2) in simp)
  then have drp: "drop (index - 1) ?b = (48 + of_nat (unat num mod 10)) # drop index buffer"
    using i "1.prems"(2) d by simp
  show ?case
  proof (cases "num div 10 = 0")
    case True
    then have "unat num < 10" using dn by (simp add: div_eq_0_iff)
    then show ?thesis using True drp by (subst number_loop.simps, subst digits_of.simps) (simp add: Let_def)
  next
    case False
    then have "unat num div 10 \<noteq> 0" using dn by (metis unat_eq_zero)
    then have dg: "digits_of 10 (unat num) = digits_of 10 (unat (num div 10)) @ [unat num mod 10]"
      by (subst digits_of.simps) (auto simp: unat_div)
    have "length (digits_of 10 (unat (num div 10))) \<le> index - 1" "index - 1 < length ?b" using "1.prems" dg by auto
    from "1.IH" [OF refl refl refl False this] show ?thesis
      using False drp dg by (subst number_loop.simps) (simp add: Let_def split: prod.splits)
  qed
qed

lemma digits_step:
  assumes "1 < b"
  shows "digits_of b n = (if n div b = 0 then [] else digits_of b (n div b)) @ [n mod b]"
  using assms by (subst digits_of.simps) (auto simp: div_eq_0_iff)

lemma num_bound: "unat (num :: u64) < 2 ^ 64"
  using unsigned_less [of num] by simp

lemma hex_digit: "unat (drop_bit (4 * k) num AND 0xF) = unat (num :: u64) div 16 ^ k mod 16"
proof -
  have "drop_bit (4 * k) num AND 0xF = take_bit 4 (drop_bit (4 * k) num)"
    by (simp add: take_bit_eq_mask mask_eq_exp_minus_1)
  moreover have "unat (take_bit 4 (drop_bit (4 * k) num)) = take_bit 4 (drop_bit (4 * k) (unat num))"
    by (simp only: unsigned_take_bit_eq unsigned_drop_bit_eq) (simp add: take_bit_nat_eq_self [OF num_bound])
  ultimately show ?thesis by (simp add: take_bit_eq_mod drop_bit_eq_div power_mult)
qed

lemma hex_loop_ok:
  assumes "started \<longleftrightarrow> unat num div 16 ^ Suc k \<noteq> 0" "index + Suc k < length hex"
    "take index hex = pre @
      (if started then map ((!) hex_digits) (digits_of 16 (unat num div 16 ^ Suc k)) else [])"
  shows "case hex_loop num k hex index started of (h, i) \<Rightarrow>
    take i h = pre @ map ((!) hex_digits) (digits_of 16 (unat num)) \<and> i < length h \<and> i \<le> index + Suc k"
  using assms
proof (induction k arbitrary: hex index started)
  case 0
  then show ?case
    using digits_step [of 16 "unat num"]
    by (subst hex_loop.simps) (auto simp: hex_digit [of 0, simplified] take_Suc_conv_app_nth Let_def)
next
  case (Suc k)
  let ?m = "unat num div 16 ^ Suc k"
  let ?d = "unat (drop_bit (4 * Suc k) num AND 0xF)"
  have md: "?m div 16 = unat num div 16 ^ Suc (Suc k)" by (simp add: div_mult2_eq [symmetric] mult.commute)
  have d: "?d = ?m mod 16" by (rule hex_digit)
  show ?case
  proof (cases "?d \<noteq> 0 \<or> started")
    case True
    then have m: "?m \<noteq> 0" using d Suc.prems(1) md by auto
    have "take (index + 1) (hex[index := hex_digits ! ?d]) =
        pre @ (if True then map ((!) hex_digits) (digits_of 16 ?m) else [])"
      using Suc.prems digits_step [of 16 ?m] d md by (simp add: take_Suc_conv_app_nth)
    from Suc.IH [OF _ _ this] show ?thesis
      using True m Suc.prems(2) by (subst hex_loop.simps) (auto simp: Let_def split: prod.splits)
  next
    case False
    then have m: "?m = 0" using d Suc.prems(1) md by auto
    from Suc.IH [of False index hex] show ?thesis
      using False m Suc.prems by (subst hex_loop.simps) (auto simp: Let_def split: prod.splits)
  qed
qed

text \<open>The texts: a digit is written as its character.\<close>

lemma number_text_eq:
  "number_text junk num = map (\<lambda>d. 48 + of_nat d) (digits_of 10 (unat num)) @ [0]"
proof -
  have "unat num < 10 ^ 20" by (rule less_le_trans [OF num_bound]) simp
  then have l: "length (digits_of 10 (unat num)) \<le> 20" by (intro digits_length) auto
  have "drop 20 ((new_chars junk 21)[20 := 0]) = [0]"
    by (simp add: new_chars_def drop_update_swap drop_map upt_rec)
  then show ?thesis
    using number_loop_ok [OF l, of "(new_chars junk 21)[20 := 0]"]
    by (auto simp: number_text_def new_chars_def split: prod.splits)
qed

lemma hex_text_eq:
  "cstr (hex_text junk num) = [48, 120] @ map ((!) hex_digits) (digits_of 16 (unat num))"
proof -
  let ?b = "(new_chars junk 19)[0 := 48, 1 := 120]" and ?t = "map ((!) hex_digits) (digits_of 16 (unat num))"
  have z: "unat num div 16 ^ Suc 15 = 0" using less_le_trans [OF num_bound, of "16 ^ Suc 15"] by simp
  have b: "take 2 ?b = [48, 120] @ (if False then map ((!) hex_digits) (digits_of 16 (unat num div 16 ^ Suc 15)) else [])"
    "2 + Suc 15 < length ?b"
    by (simp_all add: new_chars_def upt_rec numeral_2_eq_2)
  obtain h i where h: "hex_loop num 15 ?b 2 False = (h, i)" by fastforce
  then have t: "take i h = [48, 120] @ ?t" "i < length h" using hex_loop_ok [OF _ b(2,1)] z by auto
  have n0: "c \<noteq> 0" if "c \<in> set ([48, 120] @ ?t)" for c
    using that digits_small [of 16 _ "unat num"]
    by (fastforce simp: hex_digits_def nth_Cons' split: if_splits)
  have "h[i := 0] = ([48, 120] @ ?t) @ 0 # drop (Suc i) h"
    using t by (metis upd_conv_take_nth_drop)
  then have "hex_text junk num = ([48, 120] @ ?t) @ 0 # drop (Suc i) h" using h by (simp add: hex_text_def)
  then show ?thesis using n0 by (simp only: cstr_stop) (simp add: cstr_def takeWhile_eq_all_conv)
qed


section \<open>Where the output goes\<close>

datatype output_mode = SerialOutput | FramebufferOutput

text \<open>
  \<^verbatim>\<open>consoleAccess\<close> and \<^verbatim>\<open>GlobalFramebufferConsole\<close> are set together and
  point to the one console, if there is one.
\<close>

record outputs =
  out_serial :: "u8 list"
  out_mode :: output_mode
  out_console :: "fbcon option"

definition color_white :: color where "color_white = rgb 255 255 255"
definition color_black :: color where "color_black = rgb 0 0 0"
definition color_red :: color where "color_red = rgb 255 0 0"
definition color_green :: color where "color_green = rgb 0 255 0"
definition color_yellow :: color where "color_yellow = rgb 255 255 0"

definition output_start :: outputs where
  "output_start = \<lparr>out_serial = [], out_mode = SerialOutput, out_console = None\<rparr>"

definition initFramebufferConsole :: "u64 \<Rightarrow> framebuffer \<Rightarrow> outputs \<Rightarrow> outputs" where
  "initFramebufferConsole now f s =
     s\<lparr>out_mode := FramebufferOutput, out_console := Some (con_new now f color_white color_black 1)\<rparr>"

definition switchTo :: "output_mode \<Rightarrow> outputs \<Rightarrow> outputs" where
  "switchTo mode s = s\<lparr>out_mode := mode\<rparr>"

definition serialWriteChar :: "u8 \<Rightarrow> outputs \<Rightarrow> outputs" where
  "serialWriteChar c s = s\<lparr>out_serial := out_serial s @ [c]\<rparr>"

fun serialWrite :: "u8 list \<Rightarrow> outputs \<Rightarrow> outputs" where
  "serialWrite [] s = s"
| "serialWrite (c # cs) s = (if c = 0 then s else serialWrite cs (serialWriteChar c s))"

definition serialWriteNumber :: "(nat \<Rightarrow> u8) \<Rightarrow> u64 \<Rightarrow> outputs \<Rightarrow> outputs" where
  "serialWriteNumber junk num s = serialWrite (number_text junk num) s"

definition serialWriteHex :: "(nat \<Rightarrow> u8) \<Rightarrow> u64 \<Rightarrow> outputs \<Rightarrow> outputs" where
  "serialWriteHex junk num s = serialWrite (hex_text junk num) s"

text \<open>
  \<^verbatim>\<open>outputMode == Framebuffer && consoleAccess != nullptr\<close>: the console the output goes to, or else the
  debug port.
\<close>

definition screen_of :: "outputs \<Rightarrow> fbcon option" where
  "screen_of s = (if out_mode s = FramebufferOutput then out_console s else None)"

definition on_console :: "(fbcon \<Rightarrow> fbcon option) \<Rightarrow> (outputs \<Rightarrow> outputs) \<Rightarrow> outputs \<Rightarrow> outputs option" where
  "on_console f g s =
     (case screen_of s of
        Some c \<Rightarrow> (case f c of None \<Rightarrow> None | Some c \<Rightarrow> Some (s\<lparr>out_console := Some c\<rparr>))
      | None \<Rightarrow> Some (g s))"

definition out_print :: "u64 \<Rightarrow> u8 list \<Rightarrow> outputs \<Rightarrow> outputs option" where
  "out_print now str = on_console (con_write now str) (serialWrite str)"

definition out_putChar :: "u64 \<Rightarrow> u8 \<Rightarrow> outputs \<Rightarrow> outputs option" where
  "out_putChar now c = on_console (con_putChar now c) (serialWriteChar c)"

definition out_println :: "u64 \<Rightarrow> u8 list \<Rightarrow> outputs \<Rightarrow> outputs option" where
  "out_println now str = on_console (con_writeLn now str) (\<lambda>s. serialWrite [10, 0] (serialWrite str s))"

definition out_newline :: "u64 \<Rightarrow> outputs \<Rightarrow> outputs option" where
  "out_newline now = out_putChar now 10"

definition out_clear :: "u64 \<Rightarrow> outputs \<Rightarrow> outputs" where
  "out_clear now s = (case screen_of s of Some c \<Rightarrow> s\<lparr>out_console := Some (con_clear now c)\<rparr> | None \<Rightarrow> s)"

definition out_setColor :: "color \<Rightarrow> color \<Rightarrow> outputs \<Rightarrow> outputs" where
  "out_setColor fg bg s = (case screen_of s of Some c \<Rightarrow> s\<lparr>out_console := Some (con_setColor fg bg c)\<rparr> | None \<Rightarrow> s)"

definition printHex :: "(nat \<Rightarrow> u8) \<Rightarrow> u64 \<Rightarrow> u64 \<Rightarrow> outputs \<Rightarrow> outputs option" where
  "printHex junk now num = out_print now (hex_text junk num)"

definition printNumber :: "(nat \<Rightarrow> u8) \<Rightarrow> u64 \<Rightarrow> u64 \<Rightarrow> outputs \<Rightarrow> outputs option" where
  "printNumber junk now num = out_print now (number_text junk num)"

definition printSigned :: "(nat \<Rightarrow> u8) \<Rightarrow> u64 \<Rightarrow> 64 word \<Rightarrow> outputs \<Rightarrow> outputs option" where
  "printSigned junk now num s =
     (if sint num < 0 then do {
        s \<leftarrow> out_putChar now 45 s;
        printNumber junk now (- (num + 1) + 1) s
      } else printNumber junk now num s)"

text \<open>The arguments of the overloaded \<^verbatim>\<open>print\<close> and \<^verbatim>\<open>writeValue\<close>.\<close>

datatype out_arg = ArgText "u8 list" | ArgString kstring | ArgChar u8 | ArgBool bool | ArgU8 "8 word" | ArgU16 "16 word"
  | ArgU32 "32 word" | ArgU64 "64 word" | ArgI16 "16 word" | ArgI32 "32 word" | ArgI64 "64 word" | ArgPointer u64

definition text_true :: "u8 list" where "text_true = [116, 114, 117, 101, 0]"
definition text_false :: "u8 list" where "text_false = [102, 97, 108, 115, 101, 0]"

fun print_arg :: "(nat \<Rightarrow> u8) \<Rightarrow> u64 \<Rightarrow> out_arg \<Rightarrow> outputs \<Rightarrow> outputs option" where
  "print_arg junk now (ArgText str) s = out_print now str s"
| "print_arg junk now (ArgString str) s = out_print now (string_cStr str) s"
| "print_arg junk now (ArgChar c) s = out_putChar now c s"
| "print_arg junk now (ArgBool b) s = out_print now (if b then text_true else text_false) s"
| "print_arg junk now (ArgU8 n) s = printNumber junk now (ucast n) s"
| "print_arg junk now (ArgU16 n) s = printNumber junk now (ucast n) s"
| "print_arg junk now (ArgU32 n) s = printNumber junk now (ucast n) s"
| "print_arg junk now (ArgU64 n) s = printNumber junk now n s"
| "print_arg junk now (ArgI16 n) s = printSigned junk now (scast n) s"
| "print_arg junk now (ArgI32 n) s = printSigned junk now (scast n) s"
| "print_arg junk now (ArgI64 n) s = printSigned junk now n s"
| "print_arg junk now (ArgPointer p) s = printHex junk now p s"

fun print_args :: "(nat \<Rightarrow> u8) \<Rightarrow> u64 \<Rightarrow> out_arg list \<Rightarrow> outputs \<Rightarrow> outputs option" where
  "print_args junk now [] s = Some s"
| "print_args junk now (a # as) s = do { s \<leftarrow> print_arg junk now a s; print_args junk now as s }"

definition println_args :: "(nat \<Rightarrow> u8) \<Rightarrow> u64 \<Rightarrow> out_arg list \<Rightarrow> outputs \<Rightarrow> outputs option" where
  "println_args junk now args s = do { s \<leftarrow> print_args junk now args s; out_putChar now 10 s }"

section \<open>Diagnostics\<close>

datatype log_type = LogConsole | LogSerial

text \<open>One definition for each overload that does the writing; the others convert their argument and call these.\<close>

definition writeText :: "u64 \<Rightarrow> log_type \<Rightarrow> u8 list \<Rightarrow> outputs \<Rightarrow> outputs option" where
  "writeText now t str s = (if t = LogSerial then Some (serialWrite str s) else out_print now str s)"

definition writeChar :: "u64 \<Rightarrow> log_type \<Rightarrow> u8 \<Rightarrow> outputs \<Rightarrow> outputs option" where
  "writeChar now t c s = (if t = LogSerial then Some (serialWriteChar c s) else out_putChar now c s)"

definition writeU64 :: "(nat \<Rightarrow> u8) \<Rightarrow> u64 \<Rightarrow> log_type \<Rightarrow> u64 \<Rightarrow> outputs \<Rightarrow> outputs option" where
  "writeU64 junk now t n s = (if t = LogSerial then Some (serialWriteNumber junk n s) else printNumber junk now n s)"

definition writeI64 :: "(nat \<Rightarrow> u8) \<Rightarrow> u64 \<Rightarrow> log_type \<Rightarrow> 64 word \<Rightarrow> outputs \<Rightarrow> outputs option" where
  "writeI64 junk now t n s =
     (if sint n < 0 then do {
        s \<leftarrow> writeChar now t 45 s;
        writeU64 junk now t (- (n + 1) + 1) s
      } else writeU64 junk now t n s)"

definition writePointer :: "(nat \<Rightarrow> u8) \<Rightarrow> u64 \<Rightarrow> log_type \<Rightarrow> u64 \<Rightarrow> outputs \<Rightarrow> outputs option" where
  "writePointer junk now t p s = (if t = LogSerial then Some (serialWriteHex junk p s) else printHex junk now p s)"

fun writeValue :: "(nat \<Rightarrow> u8) \<Rightarrow> u64 \<Rightarrow> log_type \<Rightarrow> out_arg \<Rightarrow> outputs \<Rightarrow> outputs option" where
  "writeValue junk now t (ArgText str) s = writeText now t str s"
| "writeValue junk now t (ArgString str) s = writeText now t (string_cStr str) s"
| "writeValue junk now t (ArgChar c) s = writeChar now t c s"
| "writeValue junk now t (ArgBool b) s = writeText now t (if b then text_true else text_false) s"
| "writeValue junk now t (ArgU8 n) s = writeU64 junk now t (ucast n) s"
| "writeValue junk now t (ArgU16 n) s = writeU64 junk now t (ucast n) s"
| "writeValue junk now t (ArgU32 n) s = writeU64 junk now t (ucast n) s"
| "writeValue junk now t (ArgU64 n) s = writeU64 junk now t n s"
| "writeValue junk now t (ArgI16 n) s = writeI64 junk now t (scast n) s"
| "writeValue junk now t (ArgI32 n) s = writeI64 junk now t (scast n) s"
| "writeValue junk now t (ArgI64 n) s = writeI64 junk now t n s"
| "writeValue junk now t (ArgPointer p) s = writePointer junk now t p s"

fun writeValues :: "(nat \<Rightarrow> u8) \<Rightarrow> u64 \<Rightarrow> log_type \<Rightarrow> out_arg list \<Rightarrow> outputs \<Rightarrow> outputs option" where
  "writeValues junk now t [] s = Some s"
| "writeValues junk now t (a # as) s = do { s \<leftarrow> writeValue junk now t a s; writeValues junk now t as s }"

definition writeLineEnd :: "u64 \<Rightarrow> log_type \<Rightarrow> outputs \<Rightarrow> outputs option" where
  "writeLineEnd now t = writeChar now t 10"

definition writePrefix :: "u64 \<Rightarrow> log_type \<Rightarrow> u8 list \<Rightarrow> outputs \<Rightarrow> outputs option" where
  "writePrefix now t prefix s =
     (if t = LogSerial then Some (serialWrite prefix s)
      else let fg = (if prefix ! 1 = 76 then color_green else if prefix ! 1 = 87 then color_yellow else color_red)
           in out_print now prefix (out_setColor fg color_black s))"

definition text_LOG :: "u8 list" where "text_LOG = [91, 76, 79, 71, 93, 32, 0]"
definition text_WARNING :: "u8 list" where "text_WARNING = [91, 87, 65, 82, 78, 73, 78, 71, 93, 32, 0]"
definition text_ERROR :: "u8 list" where "text_ERROR = [91, 69, 82, 82, 79, 82, 93, 32, 0]"

definition debug_log :: "(nat \<Rightarrow> u8) \<Rightarrow> u64 \<Rightarrow> log_type \<Rightarrow> out_arg list \<Rightarrow> outputs \<Rightarrow> outputs option" where
  "debug_log junk now t args s = do {
     s \<leftarrow> writePrefix now t text_LOG s;
     s \<leftarrow> writeValues junk now t args s;
     writeLineEnd now t s
   }"

definition debug_warn :: "(nat \<Rightarrow> u8) \<Rightarrow> u64 \<Rightarrow> log_type \<Rightarrow> out_arg list \<Rightarrow> outputs \<Rightarrow> outputs option" where
  "debug_warn junk now t args s = do {
     s \<leftarrow> writePrefix now t text_WARNING s;
     s \<leftarrow> writeValues junk now t args s;
     writeLineEnd now t s
   }"

definition debug_error :: "(nat \<Rightarrow> u8) \<Rightarrow> u64 \<Rightarrow> log_type \<Rightarrow> out_arg list \<Rightarrow> outputs \<Rightarrow> outputs option" where
  "debug_error junk now t args s = do {
     s \<leftarrow> writePrefix now t text_ERROR s;
     s \<leftarrow> writeValues junk now t args s;
     writeLineEnd now t s
   }"

text \<open>
  The stack trace follows the saved frame pointers: \<open>frames p\<close> is the pair \<open>(rbp, rip)\<close> stored at
  \<open>p\<close>; the frame it starts from is the value of the register \<^verbatim>\<open>rbp\<close>.
\<close>

definition text_STACK :: "u8 list" where "text_STACK = [91, 83, 84, 65, 67, 75, 32, 0]"
definition text_close :: "u8 list" where "text_close = [93, 58, 32, 0]"

definition text_StackTrace :: "u8 list" where
  "text_StackTrace = [83, 116, 97, 99, 107, 32, 84, 114, 97, 99, 101, 58]"

definition trace_line :: "(nat \<Rightarrow> u8) \<Rightarrow> u64 \<Rightarrow> log_type \<Rightarrow> nat \<Rightarrow> u64 \<Rightarrow> outputs \<Rightarrow> outputs option" where
  "trace_line junk now t i rip s =
     (if t = LogSerial then
        Some (serialWrite [10, 0] (serialWriteHex junk rip (serialWrite text_close
          (serialWriteNumber junk (ucast (of_nat i :: 32 word)) (serialWrite text_STACK s)))))
      else do {
        s \<leftarrow> out_print now text_STACK s;
        s \<leftarrow> printNumber junk now (ucast (of_nat i :: 32 word)) s;
        s \<leftarrow> out_print now text_close s;
        s \<leftarrow> printHex junk now rip s;
        out_print now [10, 0] s
      })"

fun trace_loop :: "(nat \<Rightarrow> u8) \<Rightarrow> u64 \<Rightarrow> log_type \<Rightarrow> (u64 \<Rightarrow> u64 \<times> u64) \<Rightarrow> nat \<Rightarrow> nat \<Rightarrow> u64 \<Rightarrow> outputs \<Rightarrow> outputs option" where
  "trace_loop junk now t frames 0 i frame s = Some s"
| "trace_loop junk now t frames (Suc n) i frame s =
     (if frame = 0 then Some s
      else do {
        s \<leftarrow> trace_line junk now t i (snd (frames frame)) s;
        trace_loop junk now t frames n (i + 1) (fst (frames frame)) s
      })"

definition stackTrace :: "(nat \<Rightarrow> u8) \<Rightarrow> u64 \<Rightarrow> log_type \<Rightarrow> (u64 \<Rightarrow> u64 \<times> u64) \<Rightarrow> u64 \<Rightarrow> outputs \<Rightarrow> outputs option" where
  "stackTrace junk now t frames rbp s = do {
     s \<leftarrow> (if t = LogSerial then Some (serialWrite (text_StackTrace @ [32, 10, 0]) s)
          else out_println now (text_StackTrace @ [0]) s);
     trace_loop junk now t frames 32 0 rbp s
   }"

text \<open>
  The panic screen; the second component of the result says whether the processor is then halted for good. The file,
  the line and the function are those of the caller.
\<close>

definition ascii :: "string \<Rightarrow> u8 list" where "ascii s = map of_char s @ [0]"

fun println_all :: "u64 \<Rightarrow> u8 list list \<Rightarrow> outputs \<Rightarrow> outputs option" where
  "println_all now [] s = Some s"
| "println_all now (t # ts) s = do { s \<leftarrow> out_println now t s; println_all now ts s }"

definition panic_header :: "u8 list list" where
  "panic_header = map ascii
     ['''', ''The Avery Kernel panicked!'',
      ''Avery entered a bad execution state that resulted in an unrecoverable state.'',
      ''Restart your computer and contact the developers if the problem keeps happening'',
      ''================='', ''Crash Information:'']"

definition kernelPanic ::
  "u64 \<Rightarrow> u8 list \<Rightarrow> u8 list \<Rightarrow> u8 list \<Rightarrow> bool \<Rightarrow> outputs \<Rightarrow> (outputs \<times> bool) option"
where
  "kernelPanic now message file function hlt s =
     (let s = out_clear now (out_setColor color_white color_red s) in
      do {
        s \<leftarrow> println_all now (panic_header @ [message, [0]]) s;
        s \<leftarrow> out_print now (ascii ''At file: '') s;
        s \<leftarrow> println_all now [file, [0]] s;
        s \<leftarrow> out_print now (ascii ''At function: '') s;
        s \<leftarrow> out_println now function s;
        Some (s, hlt)
      })"

section \<open>Output as text\<close>

text \<open>What an argument looks like, as a text, and characters written one after the other.\<close>

definition decimal :: "nat \<Rightarrow> u8 list" where "decimal n = map (\<lambda>d. 48 + of_nat d) (digits_of 10 n)"
definition hexadecimal :: "nat \<Rightarrow> u8 list" where "hexadecimal n = [48, 120] @ map ((!) hex_digits) (digits_of 16 n)"

definition signed_decimal :: "int \<Rightarrow> u8 list" where
  "signed_decimal i = (if i < 0 then 45 # decimal (nat (- i)) else decimal (nat i))"

fun render :: "out_arg \<Rightarrow> u8 list" where
  "render (ArgText str) = cstr str"
| "render (ArgString str) = cstr (s_data str)"
| "render (ArgChar c) = [c]"
| "render (ArgBool b) = cstr (if b then text_true else text_false)"
| "render (ArgU8 n) = decimal (unat n)"
| "render (ArgU16 n) = decimal (unat n)"
| "render (ArgU32 n) = decimal (unat n)"
| "render (ArgU64 n) = decimal (unat n)"
| "render (ArgI16 n) = signed_decimal (sint n)"
| "render (ArgI32 n) = signed_decimal (sint n)"
| "render (ArgI64 n) = signed_decimal (sint n)"
| "render (ArgPointer p) = hexadecimal (unat p)"

fun put_chars :: "(u8 \<Rightarrow> 's \<Rightarrow> 's option) \<Rightarrow> u8 list \<Rightarrow> 's \<Rightarrow> 's option" where
  "put_chars put [] s = Some s"
| "put_chars put (c # cs) s = do { s \<leftarrow> put c s; put_chars put cs s }"

lemma put_chars_append [simp]:
  "put_chars put (cs @ ds) s = do { s \<leftarrow> put_chars put cs s; put_chars put ds s }"
  by (induction cs arbitrary: s) (auto split: bind_splits)

lemma con_write_chars: "con_write now str c = put_chars (con_putChar now) (cstr str) c"
  by (induction str arbitrary: c) (auto simp: cstr_def split: option.splits bind_splits)

lemma serialWrite_eq: "serialWrite str s = s\<lparr>out_serial := out_serial s @ cstr str\<rparr>"
  by (induction str arbitrary: s) (auto simp: cstr_def serialWriteChar_def)

lemma put_serial: "put_chars (\<lambda>c s. Some (serialWriteChar c s)) cs s = Some (s\<lparr>out_serial := out_serial s @ cs\<rparr>)"
  by (induction cs arbitrary: s) (auto simp: serialWriteChar_def)

lemma put_screen:
  "screen_of s = Some c \<Longrightarrow>
    put_chars (out_putChar now) cs s =
      map_option (\<lambda>c. s\<lparr>out_console := Some c\<rparr>) (put_chars (con_putChar now) cs c)"
proof (induction cs arbitrary: s c)
  case Nil
  then show ?case by (cases s) (auto simp: screen_of_def split: if_splits)
next
  case (Cons x cs)
  show ?case
  proof (cases "con_putChar now x c")
    case (Some d)
    have "screen_of (s\<lparr>out_console := Some d\<rparr>) = Some d" using Cons.prems by (simp add: screen_of_def split: if_splits)
    from Cons.IH [OF this] show ?thesis using Some Cons.prems by (simp add: out_putChar_def on_console_def)
  qed (use Cons.prems in \<open>simp add: out_putChar_def on_console_def\<close>)
qed

lemma put_port:
  "screen_of s = None \<Longrightarrow> put_chars (out_putChar now) cs s = Some (s\<lparr>out_serial := out_serial s @ cs\<rparr>)"
proof (induction cs arbitrary: s)
  case (Cons x cs)
  have "screen_of (serialWriteChar x s) = None"
    using Cons.prems by (simp add: screen_of_def serialWriteChar_def split: if_splits)
  from Cons.IH [OF this] show ?case using Cons.prems by (simp add: out_putChar_def on_console_def serialWriteChar_def)
qed simp

lemma out_print_chars: "out_print now str s = put_chars (out_putChar now) (cstr str) s"
proof (cases "screen_of s")
  case None
  then show ?thesis by (simp add: out_print_def on_console_def put_port serialWrite_eq)
next
  case (Some c)
  then show ?thesis
    by (simp add: out_print_def on_console_def put_screen con_write_chars split: option.splits)
qed

lemma writeChar_target:
  "writeChar now LogConsole = out_putChar now" "writeChar now LogSerial = (\<lambda>c s. Some (serialWriteChar c s))"
  by (simp_all add: fun_eq_iff writeChar_def)

lemma writeText_chars: "writeText now t str s = put_chars (writeChar now t) (cstr str) s"
  by (cases t) (simp_all add: writeText_def writeChar_target out_print_chars put_serial serialWrite_eq)

lemma cstr_decimal: "cstr (number_text junk n) = decimal (unat n)"
proof -
  have "48 + of_nat d \<noteq> (0 :: u8)" if "d < 10" for d
    using that by (cases "d = 0 \<or> d = 1 \<or> d = 2 \<or> d = 3 \<or> d = 4 \<or> d = 5 \<or> d = 6 \<or> d = 7 \<or> d = 8 \<or> d = 9") auto
  then have "cstr (decimal (unat n)) = decimal (unat n)"
    using digits_small [of 10 _ "unat n"] by (auto simp: cstr_def decimal_def takeWhile_eq_all_conv)
  then show ?thesis using cstr_stop [of "decimal (unat n)" "[]"] by (simp add: number_text_eq decimal_def)
qed

lemma writeU64_chars: "writeU64 junk now t n s = put_chars (writeChar now t) (decimal (unat n)) s"
  using writeText_chars [of now t "number_text junk n" s]
  by (cases t) (simp_all add: writeU64_def writeText_def serialWriteNumber_def printNumber_def cstr_decimal)

lemma writePointer_chars: "writePointer junk now t p s = put_chars (writeChar now t) (hexadecimal (unat p)) s"
  using writeText_chars [of now t "hex_text junk p" s]
  by (cases t) (simp_all add: writePointer_def writeText_def serialWriteHex_def printHex_def hex_text_eq hexadecimal_def)

lemma negated_magnitude:
  fixes n :: "64 word"
  assumes "sint n < 0"
  shows "unat (- (n + 1) + 1) = nat (- sint n)"
proof -
  have b: "- (2 ^ 63) \<le> sint n" using sint_ge [of n] by simp
  have e: "- (n + 1) + 1 = (word_of_int (- sint n) :: 64 word)" by simp
  have "uint (- (n + 1) + 1) = take_bit LENGTH(64) (- sint n)" unfolding e by (rule uint_word_of_int_eq)
  also have "\<dots> = - sint n" using b assms by (simp add: take_bit_int_eq_self)
  finally show ?thesis by (metis nat_uint_eq)
qed

lemma nonnegative_magnitude:
  fixes n :: "64 word"
  assumes "\<not> sint n < 0"
  shows "unat n = nat (sint n)"
proof -
  have "uint n = take_bit LENGTH(64) (sint n)" by (rule uint_sint)
  also have "\<dots> = sint n" using sint_lt [of n] assms by (simp add: take_bit_int_eq_self)
  finally show ?thesis by (metis nat_uint_eq)
qed

lemma sint_extend:
  fixes n :: "'a::len word"
  assumes "LENGTH('a) \<le> 64"
  shows "sint (scast n :: 64 word) = sint n"
proof -
  have p: "(2 :: int) ^ (LENGTH('a) - 1) \<le> 2 ^ 63" using assms by (intro power_increasing) auto
  have "sint (scast n :: 64 word) = signed_take_bit (LENGTH(64) - Suc 0) (sint n)" by (rule signed_scast_eq)
  also have "\<dots> = sint n" using sint_ge [of n] sint_lt [of n] p by (simp add: signed_take_bit_int_eq_self)
  finally show ?thesis .
qed

lemma unat_extend:
  fixes n :: "'a::len word"
  assumes "LENGTH('a) \<le> 64"
  shows "unat (ucast n :: u64) = unat n"
proof -
  have "unat n < 2 ^ LENGTH('a)" by (rule unsigned_less)
  also have "\<dots> \<le> 2 ^ 64" using assms by (intro power_increasing) auto
  finally show ?thesis by (simp add: unsigned_ucast_eq take_bit_nat_eq_self)
qed

lemma writeI64_chars: "writeI64 junk now t n s = put_chars (writeChar now t) (signed_decimal (sint n)) s"
  using negated_magnitude [of n] nonnegative_magnitude [of n]
  by (auto simp: writeI64_def writeU64_chars signed_decimal_def)

lemma put_one: "put_chars put [c] s = put c s"
  by (cases "put c s") auto

lemma small_lengths: "LENGTH(8) \<le> 64" "LENGTH(16) \<le> 64" "LENGTH(32) \<le> 64"
  by simp_all

lemma writeValue_chars: "writeValue junk now t a s = put_chars (writeChar now t) (render a) s"
  by (cases a)
    (simp_all only: writeValue.simps render.simps writeText_chars writeU64_chars writeI64_chars writePointer_chars
      string_cStr_def sint_extend unat_extend small_lengths put_one)

lemma writeValues_chars: "writeValues junk now t args = put_chars (writeChar now t) (concat (map render args))"
proof (induction args)
  case (Cons a args)
  show ?case by (rule ext) (simp add: writeValue_chars Cons.IH)
qed (simp add: fun_eq_iff)

lemma print_arg_value: "print_arg junk now a s = writeValue junk now LogConsole a s"
  by (cases a)
    (simp_all add: writeText_def writeChar_def writeU64_def writeI64_def writePointer_def printSigned_def)

lemma print_args_chars: "print_args junk now args = put_chars (out_putChar now) (concat (map render args))"
proof (induction args)
  case (Cons a args)
  show ?case by (rule ext) (simp add: print_arg_value writeValue_chars writeChar_target Cons.IH)
qed (simp add: fun_eq_iff)

text \<open>The colour a prefix sets, and the prefix as text.\<close>

definition log_start :: "log_type \<Rightarrow> color \<Rightarrow> outputs \<Rightarrow> outputs" where
  "log_start t fg s = (if t = LogSerial then s else out_setColor fg color_black s)"

lemma prefix_letter: "text_LOG ! 1 = 76" "text_WARNING ! 1 = 87" "text_ERROR ! 1 = 69"
  by (simp_all add: text_LOG_def text_WARNING_def text_ERROR_def)

lemma writePrefix_chars:
  "writePrefix now t prefix s = put_chars (writeChar now t) (cstr prefix)
    (log_start t (if prefix ! 1 = 76 then color_green else if prefix ! 1 = 87 then color_yellow else color_red) s)"
  by (cases t) (simp_all add: writePrefix_def log_start_def writeChar_target put_serial serialWrite_eq out_print_chars)

text \<open>
  C40. A log line is text: whatever the kinds of its arguments, and whatever the local buffers held, the line written is the
  prefix, the arguments in decimal, signed decimal, hexadecimal or as they are, and a line feed, character by character;
  on the debug port it is exactly these bytes and nothing on the screen changes.
\<close>

theorem log_line_text:
  defines "line \<equiv> \<lambda>prefix args. cstr prefix @ concat (map render args) @ [10]"
  shows "debug_log junk now t args s = put_chars (writeChar now t) (line text_LOG args) (log_start t color_green s) \<and>
    debug_warn junk now t args s = put_chars (writeChar now t) (line text_WARNING args) (log_start t color_yellow s) \<and>
    debug_error junk now t args s = put_chars (writeChar now t) (line text_ERROR args) (log_start t color_red s) \<and>
    debug_log junk now LogSerial args s = Some (s\<lparr>out_serial := out_serial s @ line text_LOG args\<rparr>)"
  by (simp only: line_def debug_log_def debug_warn_def debug_error_def writePrefix_chars writeValues_chars writeLineEnd_def
    put_one put_chars_append prefix_letter) (simp add: writeChar_target put_serial log_start_def, simp add: serialWriteChar_def)

text \<open>Reading a number back.\<close>

definition hex_value :: "u8 \<Rightarrow> nat" where
  "hex_value c = (if c < 58 then unat (c - 48) else unat (c - 55))"

lemma hex_value_digit: "d < 16 \<Longrightarrow> hex_value (hex_digits ! d) = d"
proof -
  have "\<forall>d \<in> set [0..<16]. hex_value (hex_digits ! d) = d"
    by (simp add: hex_value_def hex_digits_def upt_rec)
  then show "d < 16 \<Longrightarrow> hex_value (hex_digits ! d) = d" by simp
qed

lemma hex_value_decimal: "d < 10 \<Longrightarrow> hex_value (48 + of_nat d) = d"
proof -
  have "\<forall>d \<in> set [0..<10]. hex_value (48 + of_nat d) = d"
    by (simp add: hex_value_def upt_rec)
  then show "d < 10 \<Longrightarrow> hex_value (48 + of_nat d) = d" by simp
qed

definition decimal_value :: "u8 list \<Rightarrow> nat" where "decimal_value = value_of 10 \<circ> map hex_value"
definition hexadecimal_value :: "u8 list \<Rightarrow> nat" where "hexadecimal_value = value_of 16 \<circ> map hex_value"

definition signed_value :: "u8 list \<Rightarrow> int" where
  "signed_value t = (if hd t = 45 then - int (decimal_value (tl t)) else int (decimal_value t))"

lemma decimal_back: "decimal_value (decimal n) = n"
proof -
  have "map hex_value (decimal n) = digits_of 10 n"
    using digits_small [of 10 _ n] by (simp add: decimal_def map_idI hex_value_decimal)
  then show ?thesis by (simp add: decimal_value_def digits_value)
qed

lemma hexadecimal_back: "hexadecimal_value (drop 2 (hexadecimal n)) = n"
proof -
  have "map (hex_value \<circ> (!) hex_digits) (digits_of 16 n) = digits_of 16 n"
    using digits_small [of 16 _ n] by (intro map_idI) (simp add: hex_value_digit)
  then show ?thesis by (simp add: hexadecimal_value_def hexadecimal_def digits_value)
qed

lemma decimal_head: "\<exists>d < 10. hd (decimal n) = 48 + of_nat d \<and> (d = 0 \<longleftrightarrow> n = 0)"
proof -
  have ne: "digits_of 10 n \<noteq> []" by (subst digits_of.simps) auto
  have "digits_of 10 0 = [0]" by (subst digits_of.simps) auto
  then have "hd (digits_of 10 n) = 0 \<longleftrightarrow> n = 0" using digits_no_zero [of 10 n] by (cases "n = 0") auto
  then show ?thesis
    using ne digits_small [of 10 "hd (digits_of 10 n)" n]
    by (intro exI [of _ "hd (digits_of 10 n)"]) (simp add: decimal_def hd_map)
qed

lemma decimal_head_char: "hd (decimal n) \<noteq> 45" "hd (decimal n) = 48 \<longleftrightarrow> n = 0"
proof -
  obtain d where d: "d < 10" "hd (decimal n) = 48 + of_nat d" "d = 0 \<longleftrightarrow> n = 0" using decimal_head by blast
  have "\<forall>d \<in> set [0..<10]. 48 + of_nat d \<noteq> (45 :: u8) \<and> (48 + of_nat d = (48 :: u8) \<longleftrightarrow> d = 0)" by (simp add: upt_rec)
  then show "hd (decimal n) \<noteq> 45" "hd (decimal n) = 48 \<longleftrightarrow> n = 0" using d by auto
qed

lemma signed_back: "signed_value (signed_decimal i) = i"
  using decimal_head_char(1) by (simp add: signed_value_def signed_decimal_def decimal_back)

text \<open>
  Printed numbers can be read back: the decimal text of a number has at most 20 digits, which fit the buffer, the
  hexadecimal one at most 16, neither has a leading zero but for the number 0, and the digits give the number again; a signed
  number is its magnitude with a minus sign in front when it is negative, also for the least one.
\<close>

theorem numbers_read_back:
  "decimal_value (cstr (number_text junk n)) = unat n \<and> length (cstr (number_text junk n)) \<le> 20 \<and>
    (hd (cstr (number_text junk n)) = 48) = (n = 0) \<and>
    take 2 (cstr (hex_text junk n)) = [48, 120] \<and> hexadecimal_value (drop 2 (cstr (hex_text junk n))) = unat n \<and>
    length (cstr (hex_text junk n)) \<le> 18 \<and>
    printSigned junk now m s = put_chars (out_putChar now) (signed_decimal (sint m)) s \<and>
    signed_value (signed_decimal (sint m)) = sint m"
proof (intro conjI)
  have "unat n < 10 ^ 20" by (rule less_le_trans [OF num_bound]) simp
  then show "length (cstr (number_text junk n)) \<le> 20"
    using digits_length [of 10 "unat n" 20] by (simp add: cstr_decimal decimal_def)
  have "unat n < 16 ^ 16" by (rule less_le_trans [OF num_bound]) simp
  then show "length (cstr (hex_text junk n)) \<le> 18"
    using digits_length [of 16 "unat n" 16] by (simp add: hex_text_eq)
  show "hexadecimal_value (drop 2 (cstr (hex_text junk n))) = unat n"
    using hexadecimal_back [of "unat n"] by (simp add: hex_text_eq hexadecimal_def)
  show "printSigned junk now m s = put_chars (out_putChar now) (signed_decimal (sint m)) s"
    using print_arg_value [of junk now "ArgI64 m" s] by (simp add: writeI64_chars writeChar_target)
qed (simp_all add: cstr_decimal decimal_back decimal_head_char(2) hex_text_eq signed_back unat_eq_zero)

end
