(* ===== verification/Keyboard.thy ===== *)
theory Keyboard
  imports Avery_Prelude "HOL-Library.Sublist"
begin

text \<open>
  The PS/2 keyboard, \<^verbatim>\<open>kernel/drivers/input/keyboard.cpp\<close>: the layout tables, the
  interrupt handler that decodes scancodes, and the ring buffer between the handler and the readers.
  Characters are bytes. A scancode is the byte the handler reads from port 0x60, an argument here.
\<close>

section \<open>Layouts\<close>

definition es_table :: "u8 list" where
  "es_table = [0, 27, 49, 50, 51, 52, 53, 54, 55, 56, 57, 48, 39, 63, 8, 9, 113, 119, 101, 114, 116,
     121, 117, 105, 111, 112, 96, 43, 10, 0, 97, 115, 100, 102, 103, 104, 106, 107, 108, 63, 63, 0, 0,
     63, 122, 120, 99, 118, 98, 110, 109, 44, 46, 45, 0, 42, 0, 32, 0, 0, 0, 0, 0, 0, 0, 0, 0, 0, 0, 0,
     0, 0, 0, 45, 0, 0, 0, 43, 0, 0, 0, 0, 0, 0, 0, 0, 0, 0, 0, 60]"

definition esShift_table :: "u8 list" where
  "esShift_table = [0, 27, 33, 34, 35, 36, 37, 38, 47, 40, 41, 61, 63, 63, 8, 9, 81, 87, 69, 82, 84,
     89, 85, 73, 79, 80, 94, 42, 10, 0, 65, 83, 68, 70, 71, 72, 74, 75, 76, 63, 63, 0, 0, 63, 90, 88,
     67, 86, 66, 78, 77, 59, 58, 95, 0, 42, 0, 32, 0, 0, 0, 0, 0, 0, 0, 0, 0, 0, 0, 0, 0, 0, 0, 45, 0,
     0, 0, 43, 0, 0, 0, 0, 0, 0, 0, 0, 0, 0, 62]"

text \<open>The arrays have 128 entries; those without an initialiser are 0.\<close>

definition layout_at :: "u8 list \<Rightarrow> u8 \<Rightarrow> u8" where
  "layout_at table scancode = (if unat scancode < length table then table ! unat scancode else 0)"

section \<open>State and operations\<close>

record keyboard =
  inputBuffer :: "u8 list"
  readIndex :: u64
  writeIndex :: u64
  shiftPressed :: bool
  extendedScancode :: bool
  activeLayout :: "u8 list"

definition BufferSize :: u64 where "BufferSize = 256"

definition kb_initial :: keyboard where
  "kb_initial = \<lparr>inputBuffer = replicate 256 0, readIndex = 0, writeIndex = 0, shiftPressed = False,
     extendedScancode = False, activeLayout = es_table\<rparr>"

definition kb_enqueue :: "u8 \<Rightarrow> keyboard \<Rightarrow> keyboard" where
  "kb_enqueue c kb =
     (let nextIndex = (writeIndex kb + 1) mod BufferSize in
      if nextIndex = readIndex kb then kb
      else kb\<lparr>inputBuffer := (inputBuffer kb)[unat (writeIndex kb) := c], writeIndex := nextIndex\<rparr>)"

definition kb_handler :: "u8 \<Rightarrow> keyboard \<Rightarrow> keyboard" where
  "kb_handler scancode kb =
     (if scancode = 0xE0 then kb\<lparr>extendedScancode := True\<rparr>
      else if extendedScancode kb then kb\<lparr>extendedScancode := False\<rparr>
      else if scancode AND 0x80 \<noteq> 0 then
        (let released = scancode AND 0x7F in
         if released = 0x2A \<or> released = 0x36 then kb\<lparr>shiftPressed := False\<rparr> else kb)
      else if scancode = 0x2A \<or> scancode = 0x36 then kb\<lparr>shiftPressed := True\<rparr>
      else
        let layout = (if shiftPressed kb then esShift_table else activeLayout kb);
            c = layout_at layout scancode
        in if c \<noteq> 0 then kb_enqueue c kb else kb)"

definition kb_hasChar :: "keyboard \<Rightarrow> bool" where
  "kb_hasChar kb \<longleftrightarrow> readIndex kb \<noteq> writeIndex kb"

text \<open>\<^verbatim>\<open>getChar\<close> waits while the buffer is empty: \<open>None\<close> is one more turn of that loop.\<close>

definition kb_getChar :: "keyboard \<Rightarrow> (u8 \<times> keyboard) option" where
  "kb_getChar kb =
     (if readIndex kb = writeIndex kb then None
      else Some (inputBuffer kb ! unat (readIndex kb),
                 kb\<lparr>readIndex := (readIndex kb + 1) mod BufferSize\<rparr>))"

section \<open>The ring buffer is a bounded queue\<close>

text \<open>The interface between the interrupt handler and the readers.\<close>

locale bounded_fifo =
  fixes enq :: "'a \<Rightarrow> 's \<Rightarrow> 's"
    and deq :: "'s \<Rightarrow> ('a \<times> 's) option"
    and items :: "'s \<Rightarrow> 'a list"
    and ok :: "'s \<Rightarrow> bool"
    and cap :: nat
  assumes enq_law: "ok s \<Longrightarrow> ok (enq c s) \<and> items (enq c s) = (if length (items s) < cap then items s @ [c] else items s)"
    and deq_none: "ok s \<Longrightarrow> deq s = None \<longleftrightarrow> items s = []"
    and deq_some: "ok s \<Longrightarrow> deq s = Some (c, s') \<Longrightarrow> ok s' \<and> items s = c # items s'"
    and bounded: "ok s \<Longrightarrow> length (items s) \<le> cap"
begin

lemma enq_many:
  "ok s \<Longrightarrow> ok (fold enq cs s) \<and> items (fold enq cs s) = take cap (items s @ cs)"
proof (induction cs arbitrary: s)
  case Nil
  then show ?case using bounded by simp
next
  case (Cons c cs)
  then show ?case
    using enq_law [OF Cons.prems, of c] bounded [OF Cons.prems]
    by (cases "length (items s) < cap") (auto simp flip: Suc_diff_Suc)
qed

lemma deq_after_enq:
  assumes "ok s" "items s = []" "0 < cap"
  shows "\<exists>s'. deq (enq c s) = Some (c, s') \<and> ok s' \<and> items s' = []"
proof -
  note e = enq_law [OF assms(1), of c]
  then have "deq (enq c s) \<noteq> None"
    using deq_none assms(2,3) by auto
  then obtain x s' where "deq (enq c s) = Some (x, s')" by auto
  then show ?thesis using deq_some [of "enq c s" x s'] e assms(2,3) by auto
qed

end

definition kb_count :: "keyboard \<Rightarrow> nat" where
  "kb_count kb = (unat (writeIndex kb) + 256 - unat (readIndex kb)) mod 256"

definition kb_items :: "keyboard \<Rightarrow> u8 list" where
  "kb_items kb = map (\<lambda>i. inputBuffer kb ! ((unat (readIndex kb) + i) mod 256)) [0..<kb_count kb]"

definition kb_ok :: "keyboard \<Rightarrow> bool" where
  "kb_ok kb \<longleftrightarrow> length (inputBuffer kb) = 256 \<and> unat (readIndex kb) < 256 \<and> unat (writeIndex kb) < 256"

lemma ring_index: "a < 256 \<Longrightarrow> i < 256 \<Longrightarrow> (a + i) mod 256 = (if a + i < 256 then a + i else a + i - 256)"
  for a i :: nat
  by (simp add: le_mod_geq)

lemma ring_count: "r < 256 \<Longrightarrow> w < 256 \<Longrightarrow> (w + 256 - r) mod 256 = (if r \<le> w then w - r else w + 256 - r)"
  for r w :: nat
  by (simp add: le_mod_geq)

lemma unat_next: "unat x < 256 \<Longrightarrow> unat ((x + 1) mod BufferSize) = (unat x + 1) mod 256"
  for x :: u64
  by (simp add: BufferSize_def unat_mod unat_add_fits)

lemma kb_enqueue_items:
  assumes ok: "kb_ok kb"
  shows "kb_ok (kb_enqueue c kb)"
    "kb_items (kb_enqueue c kb) = (if length (kb_items kb) < 255 then kb_items kb @ [c] else kb_items kb)"
proof -
  define r w where "r = unat (readIndex kb)" and "w = unat (writeIndex kb)"
  have rw: "r < 256" "w < 256" "length (inputBuffer kb) = 256"
    using ok by (simp_all add: kb_ok_def r_def w_def)
  have nx: "unat ((writeIndex kb + 1) mod BufferSize) = (w + 1) mod 256"
    using unat_next rw by (simp add: w_def)
  then have full: "(writeIndex kb + 1) mod BufferSize = readIndex kb \<longleftrightarrow> (w + 1) mod 256 = r"
    unfolding r_def by (metis unat_eqI)
  have cnt: "kb_count kb = (w + 256 - r) mod 256"
    by (simp add: kb_count_def r_def w_def)
  have w1: "(w + 1) mod 256 = (if w = 255 then 0 else w + 1)"
    using rw ring_index [of w 1] by auto
  have fc: "(w + 1) mod 256 = r \<longleftrightarrow> \<not> (w + 256 - r) mod 256 < 255"
    using rw by (auto simp: ring_count w1 [simplified])
  show "kb_ok (kb_enqueue c kb)"
    using ok nx by (simp add: kb_enqueue_def kb_ok_def Let_def)
  show "kb_items (kb_enqueue c kb) = (if length (kb_items kb) < 255 then kb_items kb @ [c] else kb_items kb)"
  proof (cases "(w + 1) mod 256 = r")
    case True
    then show ?thesis
      using full fc by (simp add: kb_enqueue_def kb_items_def cnt)
  next
    case False
    let ?n = "(w + 256 - r) mod 256"
    have n': "((w + 1) mod 256 + 256 - r) mod 256 = Suc ?n"
    proof (cases "w = 255")
      case True
      then show ?thesis using False rw w1 ring_count [of r 0] ring_count [of r 255] by auto
    next
      case w: False
      then show ?thesis
        using False rw w1 ring_count [of r "w + 1"] ring_count [of r w] by auto
    qed
    have n256: "?n < 256" by simp
    have old: "(r + i) mod 256 \<noteq> w" if "i < ?n" for i
      using that rw ring_index [of r i] ring_count [of r w] by (auto split: if_splits)
    have new: "(r + ?n) mod 256 = w"
      using rw ring_index [of r ?n] ring_count [of r w] by (auto split: if_splits)
    have "kb_items (kb_enqueue c kb) =
        map (\<lambda>i. (inputBuffer kb)[w := c] ! ((r + i) mod 256)) [0..<Suc ?n]"
      using full False n' nx
      by (simp add: kb_enqueue_def kb_items_def kb_count_def r_def [symmetric] w_def [symmetric] Let_def)
    also have "\<dots> = map (\<lambda>i. inputBuffer kb ! ((r + i) mod 256)) [0..<?n] @ [c]"
    proof -
      have "(inputBuffer kb)[w := c] ! ((r + i) mod 256) = inputBuffer kb ! ((r + i) mod 256)" if "i < ?n" for i
        by (rule nth_list_update_neq) (use old [OF that] in simp)
      then show ?thesis using new rw by simp
    qed
    also have "\<dots> = kb_items kb @ [c]"
      by (simp add: kb_items_def cnt r_def [symmetric])
    finally show ?thesis
      using False fc by (simp add: kb_items_def cnt)
  qed
qed

lemma kb_getChar_items:
  assumes ok: "kb_ok kb"
  shows "kb_getChar kb = None \<longleftrightarrow> kb_items kb = []"
    "kb_getChar kb = Some (c, kb') \<Longrightarrow> kb_ok kb' \<and> kb_items kb = c # kb_items kb'"
proof -
  define r w where "r = unat (readIndex kb)" and "w = unat (writeIndex kb)"
  have rw: "r < 256" "w < 256" using ok by (simp_all add: kb_ok_def r_def w_def)
  have eq: "readIndex kb = writeIndex kb \<longleftrightarrow> r = w"
    unfolding r_def w_def by (metis unat_eqI)
  have cnt: "kb_count kb = (w + 256 - r) mod 256"
    by (simp add: kb_count_def r_def w_def)
  have "(w + 256 - r) mod 256 = 0 \<longleftrightarrow> r = w"
    using rw by (auto simp: ring_count)
  then show "kb_getChar kb = None \<longleftrightarrow> kb_items kb = []"
    by (simp add: kb_getChar_def eq kb_items_def cnt)
  assume g: "kb_getChar kb = Some (c, kb')"
  then have ne: "r \<noteq> w" and c: "c = inputBuffer kb ! r"
    and kb': "kb' = kb\<lparr>readIndex := (readIndex kb + 1) mod BufferSize\<rparr>"
    by (auto simp: kb_getChar_def eq r_def split: if_splits)
  have nx: "unat ((readIndex kb + 1) mod BufferSize) = (r + 1) mod 256"
    using unat_next rw by (simp add: r_def)
  define n where "n = (w + 256 - (r + 1) mod 256) mod 256"
  have sn: "(w + 256 - r) mod 256 = Suc n"
  proof (cases "r = 255")
    case True
    then show ?thesis using ne rw ring_count [of 0 w] by (simp add: n_def ring_count)
  next
    case False
    then have "(r + 1) mod 256 = r + 1" using rw by simp
    then show ?thesis
      using False ne rw ring_count [of "r + 1" w] ring_count [of r w] by (auto simp: n_def)
  qed
  have "kb_items kb = map (\<lambda>i. inputBuffer kb ! ((r + i) mod 256)) (0 # map Suc [0..<n])"
    by (simp add: kb_items_def cnt sn r_def [symmetric] upt_conv_Cons map_Suc_upt del: upt_Suc)
  also have "\<dots> = c # map (\<lambda>i. inputBuffer kb ! (((r + 1) mod 256 + i) mod 256)) [0..<n]"
    using rw by (simp add: c mod_add_left_eq)
  also have "\<dots> = c # kb_items kb'"
    by (simp add: kb' kb_items_def kb_count_def nx n_def w_def)
  finally show "kb_ok kb' \<and> kb_items kb = c # kb_items kb'"
    using ok nx by (simp add: kb' kb_ok_def)
qed

interpretation kb_fifo: bounded_fifo kb_enqueue kb_getChar kb_items kb_ok 255
proof unfold_locales
  fix s c s'
  assume ok: "kb_ok s"
  show "kb_ok (kb_enqueue c s) \<and>
      kb_items (kb_enqueue c s) = (if length (kb_items s) < 255 then kb_items s @ [c] else kb_items s)"
    using kb_enqueue_items [OF ok] by simp
  show "(kb_getChar s = None) = (kb_items s = [])"
    by (rule kb_getChar_items(1) [OF ok])
  show "kb_getChar s = Some (c, s') \<Longrightarrow> kb_ok s' \<and> kb_items s = c # kb_items s'"
    by (rule kb_getChar_items(2) [OF ok])
  show "length (kb_items s) \<le> 255"
    by (simp add: kb_items_def kb_count_def less_Suc_eq_le [symmetric])
qed

section \<open>What the keys mean\<close>

text \<open>
  The reference decoder: shift and extension state, and the characters a sequence of scancodes types.
\<close>

definition decode_key :: "u8 list \<Rightarrow> bool \<times> bool \<Rightarrow> u8 \<Rightarrow> (bool \<times> bool) \<times> u8 list" where
  "decode_key layout st sc =
     (case st of (shift, ext) \<Rightarrow>
        if sc = 0xE0 then ((shift, True), [])
        else if ext then ((shift, False), [])
        else if 0x80 \<le> sc then ((shift \<and> sc \<noteq> 0xAA \<and> sc \<noteq> 0xB6, False), [])
        else if sc = 0x2A \<or> sc = 0x36 then ((True, False), [])
        else ((shift, False),
              filter (\<lambda>c. c \<noteq> 0) [layout_at (if shift then esShift_table else layout) sc]))"

fun typed :: "u8 list \<Rightarrow> bool \<times> bool \<Rightarrow> u8 list \<Rightarrow> u8 list" where
  "typed layout st [] = []"
| "typed layout st (sc # scs) = (case decode_key layout st sc of (st', cs) \<Rightarrow> cs @ typed layout st' scs)"

fun key_state :: "u8 list \<Rightarrow> bool \<times> bool \<Rightarrow> u8 list \<Rightarrow> bool \<times> bool" where
  "key_state layout st [] = st"
| "key_state layout st (sc # scs) = key_state layout (fst (decode_key layout st sc)) scs"

definition kb_mode :: "keyboard \<Rightarrow> bool \<times> bool" where
  "kb_mode kb = (shiftPressed kb, extendedScancode kb)"

lemma and_0x80: "sc AND 0x80 \<noteq> 0 \<longleftrightarrow> 0x80 \<le> sc" for sc :: u8
proof -
  have "(0x80 :: u8) = push_bit 7 1" by simp
  then have "sc AND 0x80 \<noteq> 0 \<longleftrightarrow> bit sc 7"
    by (metis and_exp_eq_0_iff_not_bit push_bit_of_1)
  also have "\<dots> \<longleftrightarrow> odd (unat sc div 2 ^ 7)"
  proof -
    have "bit sc 7 = bit (unat sc) 7" by (simp add: bit_unsigned_iff)
    then show ?thesis by (simp only: bit_iff_odd)
  qed
  also have "\<dots> \<longleftrightarrow> 2 ^ 7 \<le> unat sc"
  proof -
    have "unat sc < 256" using unsigned_less [of sc, where ?'a = nat] by simp
    then have "unat sc div 128 = 0 \<or> unat sc div 128 = 1" by auto
    then show ?thesis by (auto simp: div_eq_0_iff)
  qed
  finally show ?thesis by (simp add: word_le_unat)
qed

lemma and_0x7F: "0x80 \<le> sc \<Longrightarrow> sc AND 0x7F = sc - 0x80" for sc :: u8
proof -
  assume le: "0x80 \<le> sc"
  have m: "(0x7F :: u8) = mask 7" by (simp add: mask_eq_exp_minus_1)
  have "sc AND 0x7F = sc mod 2 ^ 7"
    unfolding m by (simp only: take_bit_eq_mod flip: take_bit_eq_mask)
  then have "sc AND 0x7F = sc mod 128" by simp
  moreover have "unat (sc mod 128) = unat (sc - 128)"
  proof -
    have "unat sc < 256" "128 \<le> unat sc"
      using le unsigned_less [of sc, where ?'a = nat] by (simp_all add: word_le_unat)
    then have "unat sc mod 128 = unat sc - 128" by (simp add: le_mod_geq)
    then show ?thesis using le by (simp add: unat_mod unat_sub)
  qed
  ultimately show ?thesis by (metis unat_eqI)
qed

lemma kb_handler_step:
  assumes ok: "kb_ok kb"
  shows "kb_ok (kb_handler sc kb) \<and> activeLayout (kb_handler sc kb) = activeLayout kb \<and>
     kb_mode (kb_handler sc kb) = fst (decode_key (activeLayout kb) (kb_mode kb) sc) \<and>
     kb_items (kb_handler sc kb) =
       kb_items (fold kb_enqueue (snd (decode_key (activeLayout kb) (kb_mode kb) sc)) kb)"
proof -
  have f: "activeLayout (kb_enqueue c kb) = activeLayout kb" "kb_mode (kb_enqueue c kb) = kb_mode kb" for c
    by (simp_all add: kb_enqueue_def kb_mode_def Let_def)
  have r: "sc AND 0x7F = 0x2A \<longleftrightarrow> sc = 0xAA" "sc AND 0x7F = 0x36 \<longleftrightarrow> sc = 0xB6" if "0x80 \<le> sc"
    unfolding and_0x7F [OF that] by (auto simp: diff_eq_eq)
  have i: "kb_items (kb\<lparr>shiftPressed := b\<rparr>) = kb_items kb" "kb_items (kb\<lparr>extendedScancode := b\<rparr>) = kb_items kb"
    for b by (simp_all add: kb_items_def kb_count_def)
  have o: "kb_ok (kb\<lparr>shiftPressed := b\<rparr>)" "kb_ok (kb\<lparr>extendedScancode := b\<rparr>)" for b
    using ok by (simp_all add: kb_ok_def)
  consider "sc = 0xE0" | "sc \<noteq> 0xE0" "extendedScancode kb"
    | "sc \<noteq> 0xE0" "\<not> extendedScancode kb" "0x80 \<le> sc"
    | "sc \<noteq> 0xE0" "\<not> extendedScancode kb" "\<not> 0x80 \<le> sc" by blast
  then show ?thesis
  proof cases
    case 1
    then show ?thesis using o i by (simp add: kb_handler_def decode_key_def kb_mode_def)
  next
    case 2
    then show ?thesis using o i by (simp add: kb_handler_def decode_key_def kb_mode_def)
  next
    case 3
    then show ?thesis
      using ok o i r and_0x80 [of sc] by (auto simp: kb_handler_def decode_key_def kb_mode_def Let_def)
  next
    case 4
    then show ?thesis
      using ok o i f kb_enqueue_items(1) [OF ok] and_0x80 [of sc]
      by (auto simp: kb_handler_def decode_key_def kb_mode_def Let_def)
  qed
qed

lemma handlers_step:
  assumes "kb_ok kb"
  shows "kb_ok (fold kb_handler scs kb) \<and> activeLayout (fold kb_handler scs kb) = activeLayout kb \<and>
     kb_items (fold kb_handler scs kb) = take 255 (kb_items kb @ typed (activeLayout kb) (kb_mode kb) scs) \<and>
     kb_mode (fold kb_handler scs kb) = key_state (activeLayout kb) (kb_mode kb) scs"
  using assms
proof (induction scs arbitrary: kb)
  case Nil
  then show ?case using kb_fifo.bounded [OF Nil] by simp
next
  case (Cons sc scs)
  let ?d = "decode_key (activeLayout kb) (kb_mode kb) sc"
  note h = kb_handler_step [OF Cons.prems, of sc]
  have it: "kb_items (kb_handler sc kb) = take 255 (kb_items kb @ snd ?d)"
    using h kb_fifo.enq_many [OF Cons.prems, of "snd ?d"] by simp
  have cut: "take 255 (take 255 xs @ zs) = take 255 (xs @ zs)" for xs zs :: "u8 list"
    by (cases "length xs \<le> 255") auto
  have "kb_ok (kb_handler sc kb)" "activeLayout (kb_handler sc kb) = activeLayout kb"
      "kb_mode (kb_handler sc kb) = fst ?d"
    using h by simp_all
  then show ?case
    using Cons.IH [of "kb_handler sc kb"] unfolding it cut by (simp add: case_prod_unfold)
qed


section \<open>Handler and readers interleaved\<close>

text \<open>
  \<open>kb_run kb codes chars kb'\<close>: from \<open>kb\<close> the interrupts delivered \<open>codes\<close> and
  \<^verbatim>\<open>getChar\<close> returned \<open>chars\<close>, in some interleaving.
\<close>

inductive kb_run :: "keyboard \<Rightarrow> u8 list \<Rightarrow> u8 list \<Rightarrow> keyboard \<Rightarrow> bool" where
  run_start: "kb_run kb [] [] kb"
| run_key: "kb_run kb codes chars kb' \<Longrightarrow> kb_run kb (codes @ [sc]) chars (kb_handler sc kb')"
| run_read: "kb_run kb codes chars kb' \<Longrightarrow> kb_getChar kb' = Some (c, kb'') \<Longrightarrow>
     kb_run kb codes (chars @ [c]) kb''"

lemma typed_append: "typed layout st (xs @ ys) = typed layout st xs @ typed layout (key_state layout st xs) ys"
  by (induction xs arbitrary: st) (auto simp: case_prod_unfold)

lemma key_state_append: "key_state layout st (xs @ ys) = key_state layout (key_state layout st xs) ys"
  by (induction layout st xs rule: key_state.induct) auto

lemma kb_run_inv:
  assumes "kb_run kb codes chars kb'" "kb_ok kb" "kb_items kb = []"
  shows "kb_ok kb' \<and> activeLayout kb' = activeLayout kb \<and>
     kb_mode kb' = key_state (activeLayout kb) (kb_mode kb) codes \<and>
     subseq (chars @ kb_items kb') (typed (activeLayout kb) (kb_mode kb) codes) \<and>
     (length (typed (activeLayout kb) (kb_mode kb) codes) \<le> 255 \<longrightarrow>
        chars @ kb_items kb' = typed (activeLayout kb) (kb_mode kb) codes)"
  using assms
proof (induction rule: kb_run.induct)
  case (run_start kb)
  then show ?case by simp
next
  case (run_key kb codes chars kb' sc)
  let ?d = "decode_key (activeLayout kb) (kb_mode kb') sc"
  let ?t = "typed (activeLayout kb) (kb_mode kb) codes"
  have IH: "kb_ok kb'" "activeLayout kb' = activeLayout kb"
      "kb_mode kb' = key_state (activeLayout kb) (kb_mode kb) codes" "subseq (chars @ kb_items kb') ?t"
      "length ?t \<le> 255 \<longrightarrow> chars @ kb_items kb' = ?t"
    using run_key by auto
  note h = kb_handler_step [OF IH(1), of sc, unfolded IH(2)]
  have it: "kb_items (kb_handler sc kb') = take 255 (kb_items kb' @ snd ?d)"
    using h kb_fifo.enq_many [OF IH(1), of "snd ?d"] by simp
  have t: "typed (activeLayout kb) (kb_mode kb) (codes @ [sc]) = ?t @ snd ?d"
    by (simp add: typed_append IH(3) case_prod_unfold)
  have "subseq (kb_items (kb_handler sc kb')) (kb_items kb' @ snd ?d)"
    unfolding it by (rule prefix_imp_subseq [OF take_is_prefix])
  then have "subseq (chars @ kb_items (kb_handler sc kb')) ((chars @ kb_items kb') @ snd ?d)"
    using list_emb_append_mono [OF subseq_order.order_refl [of chars]] by fastforce
  then have "subseq (chars @ kb_items (kb_handler sc kb')) (?t @ snd ?d)"
    using IH(4) by (meson list_emb_append_mono subseq_order.order_refl subseq_order.order_trans)
  moreover have "chars @ kb_items (kb_handler sc kb') = ?t @ snd ?d" if "length (?t @ snd ?d) \<le> 255"
  proof -
    have e: "chars @ kb_items kb' = ?t" using IH(5) that by simp
    have "length (kb_items kb' @ snd ?d) \<le> 255"
      using that unfolding e [symmetric] by simp
    then show ?thesis using e it by simp
  qed
  ultimately show ?case
    using h IH(3) by (simp add: t key_state_append)
next
  case (run_read kb codes chars kb' c kb'')
  then show ?case
    using kb_fifo.deq_some [of kb' c kb'']
    by (auto simp: kb_getChar_def kb_mode_def split: if_splits)
qed

text \<open>
  However reads and interrupts interleave, the characters handed to readers are a subsequence of
  the characters typed, in order, each at most once; and while no more than 255 characters have been typed
  none is lost.
\<close>

theorem kb_run_fifo:
  assumes "kb_run kb_initial codes chars kb"
  shows "subseq (chars @ kb_items kb) (typed es_table (False, False) codes) \<and>
     (length (typed es_table (False, False) codes) \<le> 255 \<longrightarrow>
        chars @ kb_items kb = typed es_table (False, False) codes)"
proof -
  have "kb_ok kb_initial" "kb_items kb_initial = []" "activeLayout kb_initial = es_table"
    "kb_mode kb_initial = (False, False)"
    by (simp_all add: kb_initial_def kb_ok_def kb_items_def kb_count_def kb_mode_def)
  then show ?thesis using kb_run_inv [OF assms] by simp
qed

text \<open>
  The ISO key next to the left shift, scancode 86, types nothing in either layout: the entries
  \<^verbatim>\<open>'<'\<close> and \<^verbatim>\<open>'>'\<close> that the comments place at 86 are at 89 and 88.
\<close>

theorem kb_iso_key_dead:
  "\<not> extendedScancode kb \<Longrightarrow> activeLayout kb = es_table \<Longrightarrow>
   kb_handler 86 kb = kb \<and> layout_at es_table 89 = 60 \<and> layout_at esShift_table 88 = 62"
  by (simp add: kb_handler_def layout_at_def es_table_def esShift_table_def Let_def)


theorem kb_run_fifo_witness: "\<exists>kb. kb_run kb_initial [0x10] [113] kb \<and> kb_items kb = []"
proof -
  let ?k = "kb_handler 0x10 kb_initial"
  have "kb_run kb_initial ([] @ [0x10]) [] ?k"
    by (intro run_key run_start)
  moreover obtain k where "kb_getChar ?k = Some (113, k)"
    by (simp add: kb_handler_def kb_getChar_def kb_enqueue_def kb_initial_def layout_at_def es_table_def
        BufferSize_def Let_def)
  ultimately have r: "kb_run kb_initial [0x10] [113] k"
    using run_read by fastforce
  have "typed es_table (False, False) [0x10] = [113]"
    by (simp add: decode_key_def layout_at_def es_table_def)
  then show ?thesis
    using kb_run_fifo [OF r] r by auto
qed

theorem kb_iso_key_dead_witness: "kb_handler 86 kb_initial = kb_initial"
  using kb_iso_key_dead [of kb_initial] by (simp add: kb_initial_def)

end
