(* ===== verification/Line_Input.thy ===== *)
theory Line_Input
  imports Kernel_Output Keyboard
begin

text \<open>
  Line input (\<^verbatim>\<open>in::getChar\<close>, \<^verbatim>\<open>in::getLine\<close> of
  \<^verbatim>\<open>kernel/io/console.cpp\<close>), where keyboard, string class and console meet. Waiting for a key is a loop
  whose turns the argument \<open>polls\<close> lists: the scancodes that interrupts deliver before the turn, and the clock.
  When the list is used up, the reader still waits.
\<close>

section \<open>Operations\<close>

record terminal =
  t_out :: outputs
  t_kb :: keyboard

datatype 'a outcome = Waiting terminal | Hung | Got 'a

type_synonym poll = "u8 list \<times> u64"

text \<open>\<^verbatim>\<open>GlobalFramebufferConsole->updateCursor()\<close> when the framebuffer is the output.\<close>

definition blink :: "u64 \<Rightarrow> outputs \<Rightarrow> outputs" where
  "blink now s =
     (case screen_of s of Some c \<Rightarrow> s\<lparr>out_console := Some (con_updateCursor now c)\<rparr> | None \<Rightarrow> s)"

fun in_getChar :: "poll list \<Rightarrow> terminal \<Rightarrow> (u8 \<times> u64 \<times> poll list \<times> terminal) outcome" where
  "in_getChar [] t = Waiting t"
| "in_getChar ((codes, now) # polls) t =
     (let t = t\<lparr>t_kb := fold kb_handler codes (t_kb t)\<rparr> in
      if \<not> kb_hasChar (t_kb t) then in_getChar polls (t\<lparr>t_out := blink now (t_out t)\<rparr>)
      else case kb_getChar (t_kb t) of None \<Rightarrow> Waiting t | Some (c, kb) \<Rightarrow> Got (c, now, polls, t\<lparr>t_kb := kb\<rparr>))"

lemma getChar_shorter: "in_getChar polls t = Got (c, now, rest, t') \<Longrightarrow> length rest < length polls"
  by (induction polls t rule: in_getChar.induct) (auto simp: Let_def less_Suc_eq split: if_splits option.splits)

text \<open>What backspace shows: the removed character is wiped on the screen, or a backspace goes to the debug port.\<close>

definition erase_removed :: "u64 \<Rightarrow> u8 \<Rightarrow> outputs \<Rightarrow> outputs option" where
  "erase_removed now removed s =
     (case screen_of s of
        Some c \<Rightarrow> Some (s\<lparr>out_console := Some (con_backspace_char now removed c)\<rparr>)
      | None \<Rightarrow> out_putChar now 8 s)"

text \<open>One turn of the loop for a character that is not a line feed: the new line and output.\<close>

definition line_key :: "(nat \<Rightarrow> u8) \<Rightarrow> u64 \<Rightarrow> u8 \<Rightarrow> kstring \<Rightarrow> outputs \<Rightarrow> (kstring \<times> outputs) option" where
  "line_key junk now c line s =
     (if c = 8 then
        if \<not> string_isEmpty line then
          let (removed, line) = string_popBack line in
          case erase_removed now removed s of None \<Rightarrow> None | Some s \<Rightarrow> Some (line, s)
        else Some (line, s)
      else
        let line = string_append_char junk c line in
        case out_putChar now c s of None \<Rightarrow> None | Some s \<Rightarrow> Some (line, s))"

function line_loop ::
  "(nat \<Rightarrow> u8) \<Rightarrow> kstring \<Rightarrow> poll list \<Rightarrow> terminal \<Rightarrow> (kstring \<times> poll list \<times> terminal) outcome"
where
  "line_loop junk line polls t =
     (case in_getChar polls t of
        Waiting t \<Rightarrow> Waiting t
      | Hung \<Rightarrow> Hung
      | Got (c, now, polls, t) \<Rightarrow>
          (if c = 10 then
             (case out_putChar now 10 (t_out t) of None \<Rightarrow> Hung | Some s \<Rightarrow> Got (line, polls, t\<lparr>t_out := s\<rparr>))
           else
             (case line_key junk now c line (t_out t) of None \<Rightarrow> Hung
              | Some (line, s) \<Rightarrow> line_loop junk line polls (t\<lparr>t_out := s\<rparr>))))"
  by pat_completeness auto
termination
  by (relation "measure (\<lambda>(_, _, polls, _). length polls)") (auto dest!: getChar_shorter)

declare line_loop.simps [simp del]

definition in_getLine ::
  "(nat \<Rightarrow> u8) \<Rightarrow> u64 \<Rightarrow> u8 list option \<Rightarrow> poll list \<Rightarrow> terminal \<Rightarrow> (kstring \<times> poll list \<times> terminal) outcome"
where
  "in_getLine junk now prompt polls t =
     (case (case prompt of None \<Rightarrow> Some (t_out t) | Some p \<Rightarrow> out_print now p (t_out t)) of
        None \<Rightarrow> Hung
      | Some s \<Rightarrow> line_loop junk string_empty polls (t\<lparr>t_out := s\<rparr>))"

section \<open>The line is what editing the typed characters gives\<close>

definition edited :: "u8 list \<Rightarrow> u8 list \<Rightarrow> u8 list" where
  "edited = fold (\<lambda>c l. if c = 8 then butlast l else l @ [c])"

text \<open>Characters that can be shown without an endless tab.\<close>

definition showable :: "u8 list \<Rightarrow> outputs \<Rightarrow> bool" where
  "showable cs s \<longleftrightarrow> 9 \<notin> set cs \<or> screen_of s = None"

lemma showable_putChar:
  assumes "showable (c # cs) s"
  obtains s' where "out_putChar now c s = Some s'" "showable cs s'"
proof (cases "screen_of s")
  case None
  then have "out_putChar now c s = Some (serialWriteChar c s)" "screen_of (serialWriteChar c s) = None"
    by (simp_all add: out_putChar_def on_console_def serialWriteChar_def screen_of_def split: if_splits)
  then show ?thesis using that by (simp add: showable_def)
next
  case (Some d)
  then have "9 \<notin> set (c # cs)" using assms by (simp add: showable_def)
  then show ?thesis using that Some by (simp add: out_putChar_def on_console_def con_putChar_def showable_def)
qed

lemma showable_print:
  assumes "showable (cstr p @ cs) s"
  obtains s' where "out_print now p s = Some s'" "showable cs s'"
proof -
  have "\<exists>s'. put_chars (out_putChar now) ds s = Some s' \<and> showable cs s'" if "showable (ds @ cs) s" for ds s
    using that
  proof (induction ds arbitrary: s)
    case (Cons d ds)
    obtain s1 where "out_putChar now d s = Some s1" "showable (ds @ cs) s1"
      using showable_putChar [of d "ds @ cs" s now] Cons.prems by (metis append_Cons)
    then show ?case using Cons.IH [of s1] by auto
  qed simp
  from this [OF assms] show ?thesis using that by (auto simp: out_print_chars)
qed

lemma showable_erase:
  assumes "showable cs s"
  obtains s' where "erase_removed now c s = Some s'" "showable cs s'"
proof (cases "screen_of s")
  case None
  then have "erase_removed now c s = Some (serialWriteChar 8 s)" "screen_of (serialWriteChar 8 s) = None"
    by (simp_all add: erase_removed_def out_putChar_def on_console_def serialWriteChar_def screen_of_def split: if_splits)
  then show ?thesis using that by (simp add: showable_def)
next
  case (Some d)
  then show ?thesis using that assms by (simp add: erase_removed_def showable_def)
qed

lemma showable_blink: "showable cs s \<Longrightarrow> showable cs (blink now s)"
  by (cases "screen_of s") (simp_all add: showable_def blink_def)

lemma line_key_ok:
  assumes "string_ok line" "length (chars line) + 1 < 2 ^ 31" "showable (c # cs) s"
  obtains line' s' where "line_key junk now c line s = Some (line', s')" "string_ok line'"
    "chars line' = edited [c] (chars line)" "showable cs s'"
proof -
  have cs: "showable cs s" using assms(3) by (auto simp: showable_def)
  note n = length_chars [OF assms(1)]
  obtain s1 where s1: "erase_removed now (fst (string_popBack line)) s = Some s1" "showable cs s1"
    using showable_erase [OF cs] by blast
  obtain s2 where s2: "out_putChar now c s = Some s2" "showable cs s2"
    using showable_putChar [OF assms(3)] by blast
  have "\<exists>line' s'. line_key junk now c line s = Some (line', s') \<and> string_ok line' \<and>
    chars line' = edited [c] (chars line) \<and> showable cs s'"
    using s1 s2 cs n assms string_popBack_ok [OF assms(1)] string_append_char_ok [of line junk c]
    by (auto simp: line_key_def edited_def string_isEmpty_def case_prod_unfold)
  then show ?thesis using that by blast
qed

text \<open>
  What the buffer holds and the interrupts still to come type.
\<close>

definition pending :: "poll list \<Rightarrow> keyboard \<Rightarrow> u8 list" where
  "pending polls kb = kb_items kb @ typed (activeLayout kb) (kb_mode kb) (concat (map fst polls))"

lemma handled:
  assumes "kb_ok kb" "length (pending ((codes, now) # polls) kb) \<le> 255"
  defines "kb' \<equiv> fold kb_handler codes kb"
  shows "kb_ok kb'" "pending polls kb' = pending ((codes, now) # polls) kb"
proof -
  have "kb_ok kb' \<and> activeLayout kb' = activeLayout kb \<and> kb_mode kb' = key_state (activeLayout kb) (kb_mode kb) codes \<and>
      kb_items kb' = kb_items kb @ typed (activeLayout kb) (kb_mode kb) codes"
    using handlers_step [OF assms(1), of codes] assms(2) by (simp add: kb'_def pending_def typed_append)
  then show "kb_ok kb'" "pending polls kb' = pending ((codes, now) # polls) kb"
    by (simp_all add: pending_def typed_append)
qed

lemma hasChar_items: "kb_ok kb \<Longrightarrow> kb_hasChar kb \<longleftrightarrow> kb_items kb \<noteq> []"
  using kb_fifo.deq_none [of kb] by (simp add: kb_hasChar_def kb_getChar_def split: if_splits)

lemma getChar_pending:
  assumes "kb_getChar kb = Some (c, kb')" "kb_ok kb"
  shows "pending polls kb = c # pending polls kb'" "kb_ok kb'"
proof -
  have "activeLayout kb' = activeLayout kb" "kb_mode kb' = kb_mode kb"
    using assms(1) by (auto simp: kb_getChar_def kb_mode_def split: if_splits)
  then show "pending polls kb = c # pending polls kb'" "kb_ok kb'"
    using kb_fifo.deq_some [OF assms(2,1)] by (simp_all add: pending_def)
qed

text \<open>A character that is pending is read, if the polls go on long enough.\<close>

lemma in_getChar_ok:
  assumes "kb_ok (t_kb t)" "pending (polls @ replicate (Suc n) ([], now)) (t_kb t) = c # cs" "length cs < 255"
    "showable ds (t_out t)"
  obtains w rest m t' where
    "in_getChar (polls @ replicate (Suc n) ([], now)) t = Got (c, w, rest @ replicate m ([], now), t')" "n \<le> m"
    "kb_ok (t_kb t')" "pending (rest @ replicate m ([], now)) (t_kb t') = cs" "showable ds (t_out t')"
proof -
  have "\<exists>w rest m t'. in_getChar (polls @ replicate (Suc n) ([], now)) t = Got (c, w, rest @ replicate m ([], now), t') \<and>
      n \<le> m \<and> kb_ok (t_kb t') \<and> pending (rest @ replicate m ([], now)) (t_kb t') = cs \<and> showable ds (t_out t')"
    using assms
  proof (induction polls arbitrary: t)
    case Nil
    have e: "typed l m (concat (map fst (replicate k ([], now)))) = []" for l m k
      by (simp add: map_replicate_const)
    have i: "kb_items (t_kb t) = c # cs" using Nil.prems(2) unfolding pending_def by (simp only: append_Nil e append_Nil2)
    then obtain kb' where g: "kb_getChar (t_kb t) = Some (c, kb')"
      using kb_fifo.deq_none [OF Nil.prems(1)] kb_fifo.deq_some [OF Nil.prems(1)] by fastforce
    show ?case
      using g i getChar_pending(1) [OF g Nil.prems(1), of "replicate n ([], now)"] getChar_pending(2) [OF g Nil.prems(1)] hasChar_items [OF Nil.prems(1)] Nil.prems(4)
      by (auto simp: Let_def pending_def e intro!: exI [of _ "[]"] exI [of _ n])
  next
    case (Cons p polls)
    obtain codes w where p: "p = (codes, w)" by (cases p)
    let ?kb = "fold kb_handler codes (t_kb t)" and ?r = "polls @ replicate (Suc n) ([], now)"
    have b: "length (pending ((codes, w) # ?r) (t_kb t)) \<le> 255" using Cons.prems(2,3) p by simp
    note h = handled [OF Cons.prems(1) b]
    show ?case
    proof (cases "kb_items ?kb = []")
      case True
      show ?thesis
        using Cons.IH [of "t\<lparr>t_kb := ?kb, t_out := blink w (t_out t)\<rparr>"] h Cons.prems True hasChar_items [OF h(1)]
          showable_blink [OF Cons.prems(4)] p
        by (simp add: Let_def)
    next
      case False
      then obtain d kb' where g: "kb_getChar ?kb = Some (d, kb')" using kb_fifo.deq_none [OF h(1)] by fastforce
      note q = getChar_pending(1) [OF g h(1), of ?r] getChar_pending(2) [OF g h(1)]
      have "d = c" "pending ?r kb' = cs" using q(1) h(2) Cons.prems(2) p by simp_all
      then show ?thesis
        using g q(2) hasChar_items [OF h(1)] False Cons.prems(4) p
        by (auto simp: Let_def intro!: exI [of _ polls] exI [of _ "Suc n"])
    qed
  qed
  then show ?thesis using that by blast
qed

lemma line_loop_ok:
  assumes "kb_ok (t_kb t)" "pending (polls @ replicate n ([], now)) (t_kb t) = read @ 10 # later"
    "10 \<notin> set read" "length read + length later < 255" "length read < n" "showable (read @ [10]) (t_out t)"
    "string_ok line" "length (chars line) + length read < 2 ^ 31"
  shows "\<exists>line' rest t'. line_loop junk line (polls @ replicate n ([], now)) t = Got (line', rest, t') \<and>
    string_ok line' \<and> chars line' = edited read (chars line) \<and> kb_ok (t_kb t') \<and> pending rest (t_kb t') = later"
  using assms
proof (induction read arbitrary: polls n t line)
  case Nil
  obtain m where n: "n = Suc m" using Nil.prems(5) by (cases n) auto
  note pr = Nil.prems(1,2,4,6) [unfolded n append_Nil]
  have l: "length later < 255" using pr(3) by simp
  obtain w rest k t' where g:
    "in_getChar (polls @ replicate (Suc m) ([], now)) t = Got (10, w, rest @ replicate k ([], now), t')" "m \<le> k"
    "kb_ok (t_kb t')" "pending (rest @ replicate k ([], now)) (t_kb t') = later" "showable [10] (t_out t')"
    by (rule in_getChar_ok [OF pr(1,2) l pr(4)]) (rule that)
  obtain s where "out_putChar w 10 (t_out t') = Some s" using showable_putChar [OF g(5)] by blast
  then show ?case
    using g Nil.prems(7) n by (subst line_loop.simps) (auto simp: edited_def simp del: replicate.simps)
next
  case (Cons c read)
  obtain m where n: "n = Suc m" using Cons.prems(5) by (cases n) auto
  note pr = Cons.prems(1,2,6) [unfolded n append_Cons]
  have l: "length (read @ 10 # later) < 255" using Cons.prems(4) by simp
  obtain w rest k t' where g:
    "in_getChar (polls @ replicate (Suc m) ([], now)) t = Got (c, w, rest @ replicate k ([], now), t')" "m \<le> k"
    "kb_ok (t_kb t')" "pending (rest @ replicate k ([], now)) (t_kb t') = read @ 10 # later"
    "showable (c # read @ [10]) (t_out t')"
    by (rule in_getChar_ok [OF pr(1,2) l pr(3)]) (rule that)
  have "length (chars line) + 1 < 2 ^ 31" using Cons.prems(8) by simp
  from line_key_ok [OF Cons.prems(7) this g(5)] obtain line1 s1 where k: "line_key junk w c line (t_out t') = Some (line1, s1)"
    "string_ok line1" "chars line1 = edited [c] (chars line)" "showable (read @ [10]) s1" by metis
  have "length (chars line1) \<le> length (chars line) + 1" by (auto simp: k(3) edited_def)
  then have "length (chars line1) + length read < 2 ^ 31" using Cons.prems(8) by simp
  from Cons.IH [of "t'\<lparr>t_out := s1\<rparr>" rest k, OF _ _ _ _ _ _ k(2) this] g k Cons.prems n
  obtain line' rest' t'' where "line_loop junk line1 (rest @ replicate k ([], now)) (t'\<lparr>t_out := s1\<rparr>) = Got (line', rest', t'')"
    "string_ok line'" "chars line' = edited read (chars line1)" "kb_ok (t_kb t'')" "pending rest' (t_kb t'') = later"
    by auto
  then show ?case
    using g(1) k(1,3) Cons.prems(3) n by (subst line_loop.simps) (auto simp: edited_def simp del: replicate.simps)
qed

text \<open>The line and what is left, whatever the prompt.\<close>

lemma getLine_line:
  assumes "kb_ok (t_kb t)" "pending polls (t_kb t) = read @ 10 # later" "10 \<notin> set read"
    "length read + length later < 255" "length read < n"
    "9 \<notin> set read \<and> (\<forall>p \<in> set_option prompt. 9 \<notin> set (cstr p)) \<or> screen_of (t_out t) = None"
  shows "\<exists>line rest t'. in_getLine junk now prompt (polls @ replicate n ([], now)) t = Got (line, rest, t') \<and>
    string_ok line \<and> chars line = edited read [] \<and> kb_ok (t_kb t') \<and> pending rest (t_kb t') = later"
proof -
  have "concat (map fst (polls @ replicate n ([], now))) = concat (map fst polls)" by (simp add: map_replicate_const)
  then have p: "pending (polls @ replicate n ([], now)) (t_kb t) = read @ 10 # later"
    using assms(2) unfolding pending_def by (simp only:)
  have r: "showable (read @ [10]) (t_out t)" using assms(6) by (auto simp: showable_def)
  have "\<exists>s. showable (read @ [10]) s \<and>
      (case prompt of None \<Rightarrow> Some (t_out t) | Some p \<Rightarrow> out_print now p (t_out t)) = Some s"
  proof (cases prompt)
    case (Some q)
    have "showable (cstr q @ read @ [10]) (t_out t)" using assms(6) Some by (auto simp: showable_def)
    then obtain s where "out_print now q (t_out t) = Some s" "showable (read @ [10]) s" by (rule showable_print)
    then show ?thesis using Some by simp
  qed (use r in simp)
  then obtain s where s: "showable (read @ [10]) s"
      "(case prompt of None \<Rightarrow> Some (t_out t) | Some p \<Rightarrow> out_print now p (t_out t)) = Some s" by blast
  have e: "string_ok string_empty" "chars string_empty = []" by (simp_all add: string_ok_def string_empty_def chars_def)
  let ?t = "t\<lparr>t_out := s\<rparr>"
  have "\<exists>line rest t'. line_loop junk string_empty (polls @ replicate n ([], now)) ?t = Got (line, rest, t') \<and>
      string_ok line \<and> chars line = edited read (chars string_empty) \<and> kb_ok (t_kb t') \<and> pending rest (t_kb t') = later"
  proof (rule line_loop_ok)
    have k: "t_kb ?t = t_kb t" "t_out ?t = s" by simp_all
    show "kb_ok (t_kb ?t)" "pending (polls @ replicate n ([], now)) (t_kb ?t) = read @ 10 # later"
        "showable (read @ [10]) (t_out ?t)"
      unfolding k by (fact assms(1) p s(1))+
    show "length (chars string_empty) + length read < 2 ^ 31" using assms(4) unfolding e(2) by simp
  qed (fact assms(3,4,5) e(1))+
  then show ?thesis by (simp add: in_getLine_def s(2) e(2))
qed

text \<open>
  C37. Reading a line ends, with the right line: when the characters waiting and the keys still to come type a text with a line
  feed in it, at most 254 others, no tab unless the output goes to the debug port, and the reader gets enough turns, then
  \<^verbatim>\<open>getLine\<close> returns what editing the typed characters up to the line feed gives, each backspace taking
  back one character, however keys and turns interleave; what was typed after it waits for the next line.
\<close>

theorem getLine_edits:
  assumes "kb_ok (t_kb t)" "pending polls (t_kb t) = read @ 10 # later" "10 \<notin> set read"
    "length read + length later < 255" "length read < n"
    "9 \<notin> set read \<and> (\<forall>p \<in> set_option prompt. 9 \<notin> set (cstr p)) \<or> screen_of (t_out t) = None"
  shows "\<exists>line rest t'. in_getLine junk now prompt (polls @ replicate n ([], now)) t = Got (line, rest, t') \<and>
    string_ok line \<and> chars line = edited read [] \<and> kb_ok (t_kb t') \<and> pending rest (t_kb t') = later"
  by (rule getLine_line [OF assms])

text \<open>The keys \<^verbatim>\<open>q\<close>, backspace, \<^verbatim>\<open>q\<close> and return.\<close>

lemma getLine_edits_witness:
  "\<exists>line rest t'. in_getLine (\<lambda>_. 7) 0 (Some [62, 0]) ([([0x10, 0x0E], 0), ([0x10, 0x1C], 1)] @ replicate 4 ([], 0))
      \<lparr>t_out = output_start, t_kb = kb_initial\<rparr> = Got (line, rest, t') \<and> chars line = [113]"
proof -
  let ?t = "\<lparr>t_out = output_start, t_kb = kb_initial\<rparr>"
  have k: "kb_ok (t_kb ?t)" by (simp add: kb_initial_def kb_ok_def)
  have p: "pending [([0x10, 0x0E], 0), ([0x10, 0x1C], 1)] (t_kb ?t) = [113, 8, 113] @ 10 # []"
    by (simp add: pending_def kb_initial_def kb_items_def kb_count_def kb_mode_def decode_key_def layout_at_def es_table_def)
  have s: "screen_of (t_out ?t) = None" by (simp add: output_start_def screen_of_def)
  have e: "edited [113, 8, 113] [] = [113]" by (simp add: edited_def)
  show ?thesis
    using getLine_edits [OF k p, of 4 "Some [62, 0]" "\<lambda>_. 7" 0] s by (auto simp: e)
qed

end
