(* ===== verification/Device_Model.thy ===== *)
theory Device_Model
  imports Kstring
begin

text \<open>
  Devices and drivers (\<^verbatim>\<open>include/drivers/driver.h\<close>, \<^verbatim>\<open>kernel/drivers/drivers.cpp\<close>):
  the two registries and the binding of drivers to devices. Devices and drivers are known by their addresses, 0 being the
  null pointer; the objects behind them are a store. What a driver does when it probes, starts or stops is an argument
  that works on the whole kernel state, of which the registries are a part.
\<close>

section \<open>Registries\<close>

datatype device_type = UnknownDevice | BlockDeviceType | CharacterDevice | TimerDevice | InputDevice | PCIDeviceType

datatype driver_state = Created | Registered | Probing | Active | Failed | Stopping

record device =
  dev_name :: kstring
  dev_type :: device_type
  dev_driver :: u64
  dev_parent :: u64

definition MaxDevices :: nat where "MaxDevices = 256"
definition MaxDrivers :: nat where "MaxDrivers = 128"

record registry =
  r_devices :: "u64 list"
  r_deviceCount :: nat
  r_drivers :: "u64 list"
  r_driverCount :: nat
  r_dev :: "u64 \<Rightarrow> device"
  r_state :: "u64 \<Rightarrow> driver_state"

text \<open>The virtual functions; the first address is the driver's, the second the device's.\<close>

record 's driver_ops =
  op_probe :: "u64 \<Rightarrow> u64 \<Rightarrow> 's \<Rightarrow> bool \<times> 's"
  op_start :: "u64 \<Rightarrow> u64 \<Rightarrow> 's \<Rightarrow> bool \<times> 's"
  op_stop :: "u64 \<Rightarrow> u64 \<Rightarrow> 's \<Rightarrow> bool \<times> 's"

definition setState :: "u64 \<Rightarrow> driver_state \<Rightarrow> 'm registry_scheme \<Rightarrow> 'm registry_scheme" where
  "setState drv st s = s\<lparr>r_state := (r_state s)(drv := st)\<rparr>"

definition driver_of :: "u64 \<Rightarrow> 'm registry_scheme \<Rightarrow> u64" where
  "driver_of d s = dev_driver (r_dev s d)"

definition set_driver :: "u64 \<Rightarrow> u64 \<Rightarrow> 'm registry_scheme \<Rightarrow> 'm registry_scheme" where
  "set_driver d drv s = s\<lparr>r_dev := (r_dev s)(d := (r_dev s d)\<lparr>dev_driver := drv\<rparr>)\<rparr>"

definition deviceAt :: "nat \<Rightarrow> 'm registry_scheme \<Rightarrow> u64" where
  "deviceAt i s = (if r_deviceCount s \<le> i then 0 else r_devices s ! i)"

fun index_of :: "u64 \<Rightarrow> u64 list \<Rightarrow> nat \<Rightarrow> nat \<Rightarrow> nat option" where
  "index_of p a i 0 = None"
| "index_of p a i (Suc n) = (if a ! i = p then Some i else index_of p a (i + 1) n)"

text \<open>\<^verbatim>\<open>for (j = i; j + 1 < count; j++) a[j] = a[j + 1]\<close>\<close>

fun shift_entries :: "nat \<Rightarrow> nat \<Rightarrow> u64 list \<Rightarrow> u64 list" where
  "shift_entries j 0 a = a"
| "shift_entries j (Suc n) a = shift_entries (j + 1) n (a[j := a ! (j + 1)])"

definition remove_entry :: "nat \<Rightarrow> nat \<Rightarrow> u64 list \<Rightarrow> u64 list" where
  "remove_entry i count a = (shift_entries i (count - 1 - i) a)[count - 1 := 0]"

section \<open>Binding\<close>

text \<open>
  One driver tried on one device: \<open>True\<close> when it is bound. The loops below read the counts anew at each turn,
  since a driver's \<^verbatim>\<open>start\<close> may register devices; they stop at the capacity of the arrays.
\<close>

definition try_driver :: "'m registry_scheme driver_ops \<Rightarrow> u64 \<Rightarrow> u64 \<Rightarrow> 'm registry_scheme \<Rightarrow> bool \<times> 'm registry_scheme" where
  "try_driver ops drv d s =
     (let s = setState drv Probing s; (ok, s) = op_probe ops drv d s in
      if \<not> ok then (False, setState drv Registered s)
      else
        let (ok, s) = op_start ops drv d s in
        if \<not> ok then (False, setState drv Failed s)
        else (True, setState drv Active (set_driver d drv s)))"

function tryBind_device_loop ::
  "'m registry_scheme driver_ops \<Rightarrow> u64 \<Rightarrow> nat \<Rightarrow> 'm registry_scheme \<Rightarrow> bool \<times> 'm registry_scheme"
where
  "tryBind_device_loop ops d i s =
     (if i < r_driverCount s \<and> i < MaxDrivers then
        let (bound, s) = try_driver ops (r_drivers s ! i) d s
        in if bound then (True, s) else tryBind_device_loop ops d (i + 1) s
      else (False, s))"
  by pat_completeness auto
termination by (relation "measure (\<lambda>(_, _, i, _). MaxDrivers - i)") auto

definition tryBind_device :: "'m registry_scheme driver_ops \<Rightarrow> u64 \<Rightarrow> 'm registry_scheme \<Rightarrow> bool \<times> 'm registry_scheme" where
  "tryBind_device ops d s = (if driver_of d s \<noteq> 0 then (False, s) else tryBind_device_loop ops d 0 s)"

function tryBind_driver_loop ::
  "'m registry_scheme driver_ops \<Rightarrow> u64 \<Rightarrow> nat \<Rightarrow> 'm registry_scheme \<Rightarrow> 'm registry_scheme"
where
  "tryBind_driver_loop ops drv i s =
     (if i < r_deviceCount s \<and> i < MaxDevices then
        let d = deviceAt i s in
        if d = 0 \<or> driver_of d s \<noteq> 0 then tryBind_driver_loop ops drv (i + 1) s
        else let (bound, s) = try_driver ops drv d s in tryBind_driver_loop ops drv (i + 1) s
      else s)"
  by pat_completeness auto
termination by (relation "measure (\<lambda>(_, _, i, _). MaxDevices - i)") auto

declare tryBind_device_loop.simps [simp del] tryBind_driver_loop.simps [simp del]

definition tryBind_driver :: "'m registry_scheme driver_ops \<Rightarrow> u64 \<Rightarrow> 'm registry_scheme \<Rightarrow> bool \<times> 'm registry_scheme" where
  "tryBind_driver ops drv s = (True, tryBind_driver_loop ops drv 0 s)"

definition registerDevice :: "'m registry_scheme driver_ops \<Rightarrow> u64 \<Rightarrow> 'm registry_scheme \<Rightarrow> bool \<times> 'm registry_scheme" where
  "registerDevice ops d s =
     (if d = 0 then (False, s)
      else if index_of d (r_devices s) 0 (r_deviceCount s) \<noteq> None then (True, s)
      else if MaxDevices \<le> r_deviceCount s then (False, s)
      else
        let s = s\<lparr>r_devices := (r_devices s)[r_deviceCount s := d], r_deviceCount := r_deviceCount s + 1\<rparr>
        in (True, snd (tryBind_device ops d s)))"

definition registerDriver :: "'m registry_scheme driver_ops \<Rightarrow> u64 \<Rightarrow> 'm registry_scheme \<Rightarrow> bool \<times> 'm registry_scheme" where
  "registerDriver ops drv s =
     (if drv = 0 then (False, s)
      else if index_of drv (r_drivers s) 0 (r_driverCount s) \<noteq> None then (True, s)
      else if MaxDrivers \<le> r_driverCount s then (False, s)
      else
        let s = s\<lparr>r_drivers := (r_drivers s)[r_driverCount s := drv], r_driverCount := r_driverCount s + 1\<rparr>
        in (True, snd (tryBind_driver ops drv (setState drv Registered s))))"

definition unbind :: "'m registry_scheme driver_ops \<Rightarrow> u64 \<Rightarrow> 'm registry_scheme \<Rightarrow> 'm registry_scheme" where
  "unbind ops d s =
     (let drv = driver_of d s in
      if drv = 0 then s
      else set_driver d 0 (setState drv Registered (snd (op_stop ops drv d s))))"

definition unregisterDevice :: "'m registry_scheme driver_ops \<Rightarrow> u64 \<Rightarrow> 'm registry_scheme \<Rightarrow> 'm registry_scheme" where
  "unregisterDevice ops d s =
     (if d = 0 then s
      else
        let s = unbind ops d s in
        case index_of d (r_devices s) 0 (r_deviceCount s) of
          None \<Rightarrow> s
        | Some i \<Rightarrow> s\<lparr>r_devices := remove_entry i (r_deviceCount s) (r_devices s), r_deviceCount := r_deviceCount s - 1\<rparr>)"

function unbind_loop :: "'m registry_scheme driver_ops \<Rightarrow> u64 \<Rightarrow> nat \<Rightarrow> 'm registry_scheme \<Rightarrow> 'm registry_scheme" where
  "unbind_loop ops drv i s =
     (if i < r_deviceCount s \<and> i < MaxDevices then
        let d = deviceAt i s
        in unbind_loop ops drv (i + 1) (if d \<noteq> 0 \<and> driver_of d s = drv then unbind ops d s else s)
      else s)"
  by pat_completeness auto
termination by (relation "measure (\<lambda>(_, _, i, _). MaxDevices - i)") auto

declare unbind_loop.simps [simp del]

definition unregisterDriver :: "'m registry_scheme driver_ops \<Rightarrow> u64 \<Rightarrow> 'm registry_scheme \<Rightarrow> 'm registry_scheme" where
  "unregisterDriver ops drv s =
     (if drv = 0 then s
      else
        let s = unbind_loop ops drv 0 s in
        case index_of drv (r_drivers s) 0 (r_driverCount s) of
          None \<Rightarrow> s
        | Some i \<Rightarrow>
            setState drv Stopping
              (s\<lparr>r_drivers := remove_entry i (r_driverCount s) (r_drivers s), r_driverCount := r_driverCount s - 1\<rparr>))"

text \<open>\<^verbatim>\<open>drivers::firstBlockDevice\<close>\<close>

fun first_block :: "nat \<Rightarrow> nat \<Rightarrow> 'm registry_scheme \<Rightarrow> u64" where
  "first_block i 0 s = 0"
| "first_block i (Suc n) s =
     (let d = deviceAt i s in
      if d \<noteq> 0 \<and> dev_type (r_dev s d) = BlockDeviceType then d else first_block (i + 1) n s)"

definition firstBlockDevice :: "'m registry_scheme \<Rightarrow> u64" where
  "firstBlockDevice s = first_block 0 (r_deviceCount s) s"

section \<open>Consistent registries\<close>

definition devs :: "'m registry_scheme \<Rightarrow> u64 list" where "devs s = take (r_deviceCount s) (r_devices s)"
definition drvs :: "'m registry_scheme \<Rightarrow> u64 list" where "drvs s = take (r_driverCount s) (r_drivers s)"

text \<open>
  Entries are distinct and not null, and every registered device is bound to a registered driver or to none: no device is
  left with a dangling driver pointer.
\<close>

definition reg_ok :: "'m registry_scheme \<Rightarrow> bool" where
  "reg_ok s \<longleftrightarrow> length (r_devices s) = MaxDevices \<and> length (r_drivers s) = MaxDrivers \<and>
     r_deviceCount s \<le> MaxDevices \<and> r_driverCount s \<le> MaxDrivers \<and>
     distinct (devs s) \<and> 0 \<notin> set (devs s) \<and> distinct (drvs s) \<and> 0 \<notin> set (drvs s) \<and>
     (\<forall>d \<in> set (devs s). driver_of d s = 0 \<or> driver_of d s \<in> set (drvs s))"

named_theorems reg_frame \<open>what the small updates leave alone\<close>

lemma setState_frame [reg_frame]:
  "devs (setState drv st s) = devs s" "drvs (setState drv st s) = drvs s" "driver_of d (setState drv st s) = driver_of d s"
  "r_devices (setState drv st s) = r_devices s" "r_drivers (setState drv st s) = r_drivers s"
  "r_deviceCount (setState drv st s) = r_deviceCount s" "r_driverCount (setState drv st s) = r_driverCount s"
  "r_dev (setState drv st s) = r_dev s" "r_state (setState drv st s) drv = st"
  by (simp_all add: setState_def devs_def drvs_def driver_of_def)

lemma set_driver_frame [reg_frame]:
  "devs (set_driver d drv s) = devs s" "drvs (set_driver d drv s) = drvs s"
  "driver_of x (set_driver d drv s) = (if x = d then drv else driver_of x s)"
  "r_devices (set_driver d drv s) = r_devices s" "r_drivers (set_driver d drv s) = r_drivers s"
  "r_deviceCount (set_driver d drv s) = r_deviceCount s" "r_driverCount (set_driver d drv s) = r_driverCount s"
  "r_state (set_driver d drv s) = r_state s"
  by (simp_all add: set_driver_def devs_def drvs_def driver_of_def)

lemma reg_ok_setState [simp]: "reg_ok (setState drv st s) = reg_ok s"
  by (simp add: reg_ok_def reg_frame)

lemma reg_ok_set_driver: "reg_ok s \<Longrightarrow> drv = 0 \<or> drv \<in> set (drvs s) \<Longrightarrow> reg_ok (set_driver d drv s)"
  by (auto simp: reg_ok_def reg_frame)

lemma deviceAt_devs:
  assumes "reg_ok s"
  shows "i < r_deviceCount s \<Longrightarrow> deviceAt i s = devs s ! i" "length (devs s) = r_deviceCount s" "length (drvs s) = r_driverCount s"
    "i < r_driverCount s \<Longrightarrow> r_drivers s ! i = drvs s ! i"
  using assms by (auto simp: deviceAt_def devs_def drvs_def reg_ok_def)

lemma index_of_take:
  "i + n \<le> length a \<Longrightarrow>
    (case index_of p a i n of None \<Rightarrow> p \<notin> set (take n (drop i a)) | Some k \<Rightarrow> i \<le> k \<and> k < i + n \<and> a ! k = p)"
proof (induction n arbitrary: i)
  case (Suc n)
  then show ?case
    using Suc.IH [of "i + 1"] by (auto simp: Cons_nth_drop_Suc [symmetric] split: option.splits)
qed simp

lemma shift_entries_eq:
  "j + n < length a \<Longrightarrow> shift_entries j n a = take j a @ take n (drop (Suc j) a) @ drop (j + n) a"
proof (induction n arbitrary: j a)
  case (Suc n)
  let ?a = "a[j := a ! (j + 1)]"
  have "shift_entries (j + 1) n ?a = take (j + 1) ?a @ take n (drop (Suc (j + 1)) ?a) @ drop (j + 1 + n) ?a"
    by (rule Suc.IH) (use Suc.prems in simp)
  moreover have "take (j + 1) ?a = take j a @ [a ! (j + 1)]" using Suc.prems by (simp add: take_Suc_conv_app_nth)
  moreover have "take (Suc n) (drop (Suc j) a) = a ! (j + 1) # take n (drop (Suc (Suc j)) a)"
    using Suc.prems by (simp add: Cons_nth_drop_Suc [symmetric])
  ultimately show ?case by simp
qed simp

lemma remove_entry_take:
  assumes "i < n" "n \<le> length a"
  shows "take (n - 1) (remove_entry i n a) = take i a @ drop (Suc i) (take n a)" "length (remove_entry i n a) = length a"
proof -
  have "shift_entries i (n - 1 - i) a = take i a @ take (n - 1 - i) (drop (Suc i) a) @ drop (n - 1) a"
    using assms shift_entries_eq [of i "n - 1 - i" a] by simp
  then show "take (n - 1) (remove_entry i n a) = take i a @ drop (Suc i) (take n a)" "length (remove_entry i n a) = length a"
    using assms by (auto simp: remove_entry_def drop_take)
qed

lemma remove_entry_all:
  assumes "distinct (take n a)" "i < n" "n \<le> length a" "a ! i = p"
  shows "take (n - 1) (remove_entry i n a) = removeAll p (take n a)"
proof -
  have split: "take n a = take i a @ p # drop (Suc i) (take n a)"
    using id_take_nth_drop [of i "take n a"] assms(2-4) by (simp add: min_def)
  then have "distinct (take i a @ p # drop (Suc i) (take n a))" using assms(1) by simp
  then have "p \<notin> set (take i a)" "p \<notin> set (drop (Suc i) (take n a))" by auto
  then have "removeAll p (take i a @ p # drop (Suc i) (take n a)) = take i a @ drop (Suc i) (take n a)"
    by simp
  then show ?thesis using remove_entry_take(1) [OF assms(2,3)] split by simp
qed

lemma find_entry:
  assumes "distinct (take n a)" "n \<le> length a" "p \<in> set (take n a)"
  obtains i where "index_of p a 0 n = Some i" "take (n - 1) (remove_entry i n a) = removeAll p (take n a)"
    "length (remove_entry i n a) = length a"
proof -
  obtain i where "index_of p a 0 n = Some i" "i < n" "a ! i = p"
    using index_of_take [of 0 n a p] assms(2,3) by (auto split: option.splits)
  then show ?thesis using that remove_entry_all assms(1,2) remove_entry_take(2) by blast
qed

section \<open>What a driver may do\<close>

text \<open>
  While it probes, starts or stops, a driver may register further devices, but it leaves the devices of others and the list
  of drivers alone. \<open>grows d drv s s'\<close> is what may happen between \<open>s\<close> and \<open>s'\<close>.
\<close>

definition grows :: "u64 \<Rightarrow> u64 \<Rightarrow> 'm registry_scheme \<Rightarrow> 'm registry_scheme \<Rightarrow> bool" where
  "grows d drv s s' \<longleftrightarrow> reg_ok s' \<and> drvs s' = drvs s \<and> take (length (devs s)) (devs s') = devs s \<and>
     (\<forall>x \<in> set (devs s). x \<noteq> d \<longrightarrow> driver_of x s' = driver_of x s) \<and>
     (\<forall>x \<in> set (devs s') - set (devs s). driver_of x s' = drv \<or> driver_of x s' = 0) \<and> driver_of d s' \<in> {0, drv}"

lemma starts_trans:
  assumes "take (length a) b = a" "take (length b) c = b"
  shows "take (length a) c = a"
proof -
  have "b = a @ drop (length a) b" "c = b @ drop (length b) c" using assms by (metis append_take_drop_id)+
  then have "c = a @ drop (length a) b @ drop (length b) c" by (metis append_assoc)
  then show ?thesis by (metis append_eq_conv_conj)
qed

lemma starts_subset: "take (length a) b = a \<Longrightarrow> set a \<subseteq> set b"
  by (metis set_take_subset)

locale driver_contract =
  fixes ops :: "'m registry_scheme driver_ops"
  assumes probe_law: "reg_ok s \<Longrightarrow> drv \<in> set (drvs s) \<Longrightarrow> d \<in> set (devs s) \<Longrightarrow> driver_of d s = 0 \<Longrightarrow>
      op_probe ops drv d s = (b, s') \<Longrightarrow> grows d drv s s' \<and> devs s' = devs s \<and> driver_of d s' = 0"
    and start_law: "reg_ok s \<Longrightarrow> drv \<in> set (drvs s) \<Longrightarrow> d \<in> set (devs s) \<Longrightarrow> driver_of d s = 0 \<Longrightarrow>
      op_start ops drv d s = (b, s') \<Longrightarrow> grows d drv s s' \<and> (driver_of d s' = drv \<longrightarrow> b)"
    and stop_law: "reg_ok s \<Longrightarrow> drv \<in> set (drvs s) \<Longrightarrow> d \<in> set (devs s) \<Longrightarrow> driver_of d s = drv \<Longrightarrow>
      op_stop ops drv d s = (b, s') \<Longrightarrow> grows d drv s s' \<and> devs s' = devs s"
begin

lemma try_driver_ok:
  assumes "reg_ok s" "drv \<in> set (drvs s)" "d \<in> set (devs s)" "driver_of d s = 0" "try_driver ops drv d s = (b, s')"
  shows "grows d drv s s'" "b \<Longrightarrow> driver_of d s' = drv \<and> r_state s' drv = Active" "\<not> b \<Longrightarrow> driver_of d s' = 0"
proof -
  let ?s0 = "setState drv Probing s"
  obtain ok s1 where p: "op_probe ops drv d ?s0 = (ok, s1)" by fastforce
  have g1: "grows d drv ?s0 s1" "devs s1 = devs s" "driver_of d s1 = 0"
    using probe_law [of ?s0 drv d ok s1] assms(1-4) p by (simp_all add: reg_frame)
  obtain ok' s2 where q: "op_start ops drv d s1 = (ok', s2)" by fastforce
  have "reg_ok s1" "drvs s1 = drvs s" using g1(1) by (simp_all add: grows_def reg_frame)
  then have g2: "grows d drv s1 s2" "driver_of d s2 = drv \<Longrightarrow> ok'"
    using start_law [of s1 drv d ok' s2] assms(2,3) g1 q by simp_all
  have drv: "drv \<noteq> 0" using assms(1,2) by (auto simp: reg_ok_def)
  have r: "(b, s') = (if \<not> ok then (False, setState drv Registered s1)
      else if \<not> ok' then (False, setState drv Failed s2) else (True, setState drv Active (set_driver d drv s2)))"
    using assms(5) p q by (auto simp: try_driver_def split: if_splits)
  have in2: "drv \<in> set (drvs s2)" "reg_ok s2" using g2(1) g1(1) assms(2) by (simp_all add: grows_def reg_frame)
  show "grows d drv s s'"
    using r g1 g2(1) in2 reg_ok_set_driver [of s2 drv d]
    by (auto simp: grows_def reg_frame split: if_splits)
  show "b \<Longrightarrow> driver_of d s' = drv \<and> r_state s' drv = Active" using r by (auto simp: reg_frame split: if_splits)
  show "\<not> b \<Longrightarrow> driver_of d s' = 0" using r g1(3) g2 drv by (auto simp: reg_frame grows_def split: if_splits)
qed

text \<open>Binding one device: the first driver that takes it gets it.\<close>

lemma tryBind_device_loop_ok:
  assumes "reg_ok s" "d \<in> set (devs s)" "driver_of d s = 0" "tryBind_device_loop ops d i s = (b, s')"
  shows "reg_ok s' \<and> drvs s' = drvs s \<and> take (length (devs s)) (devs s') = devs s \<and>
    (\<forall>x \<in> set (devs s). x \<noteq> d \<longrightarrow> driver_of x s' = driver_of x s) \<and>
    (if b then driver_of d s' \<in> set (drvs s) \<and> r_state s' (driver_of d s') = Active else driver_of d s' = 0)"
  using assms
proof (induction "MaxDrivers - i" arbitrary: i s rule: less_induct)
  case less
  note prems = less.prems
  show ?case
  proof (cases "i < r_driverCount s \<and> i < MaxDrivers")
    case False
    then show ?thesis using prems by (subst (asm) tryBind_device_loop.simps) (auto split: if_splits)
  next
    case True
    let ?drv = "r_drivers s ! i"
    have drv: "?drv \<in> set (drvs s)" using True deviceAt_devs(3,4) [OF prems(1)] by (metis nth_mem)
    obtain bd s1 where t: "try_driver ops ?drv d s = (bd, s1)" by fastforce
    note ok = try_driver_ok [OF prems(1) drv prems(2,3) t]
    have g: "reg_ok s1" "drvs s1 = drvs s" "take (length (devs s)) (devs s1) = devs s"
      "\<forall>x \<in> set (devs s). x \<noteq> d \<longrightarrow> driver_of x s1 = driver_of x s"
      using ok(1) by (simp_all add: grows_def)
    have sub: "set (devs s) \<subseteq> set (devs s1)" by (rule starts_subset [OF g(3)])
    show ?thesis
    proof (cases bd)
      case bd: True
      then show ?thesis
        using ok(2) g drv t True prems(4) by (subst (asm) tryBind_device_loop.simps) auto
    next
      case False
      have r: "tryBind_device_loop ops d (i + 1) s1 = (b, s')"
        using prems(4) True False t by (subst (asm) tryBind_device_loop.simps) simp
      have "MaxDrivers - (i + 1) < MaxDrivers - i" using True by linarith
      from less.hyps [OF this g(1) _ ok(3) [OF False] r] prems(2) sub
      have IH: "reg_ok s' \<and> drvs s' = drvs s1 \<and> take (length (devs s1)) (devs s') = devs s1 \<and>
        (\<forall>x \<in> set (devs s1). x \<noteq> d \<longrightarrow> driver_of x s' = driver_of x s1) \<and>
        (if b then driver_of d s' \<in> set (drvs s1) \<and> r_state s' (driver_of d s') = Active else driver_of d s' = 0)" by blast
      have "take (length (devs s)) (devs s') = devs s" using starts_trans [OF g(3)] IH by blast
      then show ?thesis using IH g sub by (auto split: if_splits)
    qed
  qed
qed

lemma tryBind_driver_loop_ok:
  fixes i :: nat
  assumes "reg_ok s" "drv \<in> set (drvs s)"
  defines "s' \<equiv> tryBind_driver_loop ops drv i s"
  shows "reg_ok s' \<and> drvs s' = drvs s \<and> take (length (devs s)) (devs s') = devs s \<and>
    (\<forall>x \<in> set (devs s). driver_of x s \<noteq> 0 \<longrightarrow> driver_of x s' = driver_of x s)"
  using assms(1,2) unfolding s'_def
proof (induction "MaxDevices - i" arbitrary: i s rule: less_induct)
  case less
  note prems = less.prems
  show ?case
  proof (cases "i < r_deviceCount s \<and> i < MaxDevices")
    case False
    then have "tryBind_driver_loop ops drv i s = s" by (subst tryBind_driver_loop.simps) auto
    then show ?thesis using prems by simp
  next
    case True
    then have lt: "MaxDevices - (i + 1) < MaxDevices - i" by linarith
    let ?d = "deviceAt i s"
    have d: "?d \<in> set (devs s)" using True deviceAt_devs(1,2) [OF prems(1)] by (metis nth_mem)
    show ?thesis
    proof (cases "?d = 0 \<or> driver_of ?d s \<noteq> 0")
      case skip: True
      have "tryBind_driver_loop ops drv i s = tryBind_driver_loop ops drv (i + 1) s"
        using True skip by (subst tryBind_driver_loop.simps) (simp add: Let_def)
      then show ?thesis using less.hyps [OF lt prems] by simp
    next
      case False
      obtain b s1 where t: "try_driver ops drv ?d s = (b, s1)" by fastforce
      have dr: "driver_of ?d s = 0" using False by simp
      note g = try_driver_ok(1) [OF prems d dr t]
      have g': "reg_ok s1" "drvs s1 = drvs s" "take (length (devs s)) (devs s1) = devs s"
        "\<forall>x \<in> set (devs s). x \<noteq> ?d \<longrightarrow> driver_of x s1 = driver_of x s"
        using g by (simp_all add: grows_def)
      have "drv \<in> set (drvs s1)" using g'(2) prems(2) by simp
      note IH = less.hyps [OF lt g'(1) this]
      have "tryBind_driver_loop ops drv i s = tryBind_driver_loop ops drv (i + 1) s1"
        using True False t by (subst tryBind_driver_loop.simps) (simp add: Let_def)
      moreover have "take (length (devs s)) (devs (tryBind_driver_loop ops drv (i + 1) s1)) = devs s"
        using starts_trans [OF g'(3)] IH by blast
      moreover have "driver_of x (tryBind_driver_loop ops drv (i + 1) s1) = driver_of x s"
        if "x \<in> set (devs s)" "driver_of x s \<noteq> 0" for x
      proof -
        have "x \<noteq> ?d" using that(2) dr by auto
        then have "driver_of x s1 = driver_of x s" "x \<in> set (devs s1)"
          using g'(4) that(1) starts_subset [OF g'(3)] by auto
        then show ?thesis using IH that(2) by simp
      qed
      ultimately show ?thesis using IH g'(2) by simp
    qed
  qed
qed

text \<open>The operations on the registries.\<close>

lemma registerDevice_ok:
  assumes "reg_ok s" "d \<noteq> 0" "driver_of d s = 0 \<or> driver_of d s \<in> set (drvs s)" "registerDevice ops d s = (b, s')"
  shows "reg_ok s' \<and> drvs s' = drvs s \<and> take (length (devs s)) (devs s') = devs s \<and>
    b = (d \<in> set (devs s')) \<and> (\<forall>x \<in> set (devs s). driver_of x s' = driver_of x s) \<and>
    (driver_of d s \<noteq> 0 \<longrightarrow> driver_of d s' = driver_of d s)"
proof (cases "index_of d (r_devices s) 0 (r_deviceCount s)")
  case (Some k)
  have "d \<in> set (devs s)"
    using index_of_take [of 0 "r_deviceCount s" "r_devices s" d] Some assms(1) deviceAt_devs(1) [OF assms(1), of k] deviceAt_devs(2) [OF assms(1)]
    by (auto simp: reg_ok_def deviceAt_def)
  then show ?thesis using Some assms by (auto simp: registerDevice_def)
next
  case None
  then have new: "d \<notin> set (devs s)"
    using index_of_take [of 0 "r_deviceCount s" "r_devices s" d] assms(1) by (auto simp: reg_ok_def devs_def)
  show ?thesis
  proof (cases "MaxDevices \<le> r_deviceCount s")
    case True
    then show ?thesis using None new assms by (auto simp: registerDevice_def)
  next
    case False
    let ?s = "s\<lparr>r_devices := (r_devices s)[r_deviceCount s := d], r_deviceCount := r_deviceCount s + 1\<rparr>"
    have f: "devs ?s = devs s @ [d]" "drvs ?s = drvs s" "driver_of x ?s = driver_of x s" for x
      using False assms(1) by (simp_all add: devs_def drvs_def driver_of_def reg_ok_def take_Suc_conv_app_nth)
    then have ok: "reg_ok ?s" using False new assms(1-3) by (auto simp: reg_ok_def)
    have r: "b = True" "s' = snd (tryBind_device ops d ?s)" using assms(2,4) None False by (auto simp: registerDevice_def)
    show ?thesis
    proof (cases "driver_of d s = 0")
      case nz: False
      then have "s' = ?s" using r(2) f(3) by (simp add: tryBind_device_def)
      then show ?thesis using ok f r(1) nz by simp
    next
      case z: True
      obtain b1 where t: "tryBind_device_loop ops d 0 ?s = (b1, s')"
        using r(2) f(3) z by (cases "tryBind_device_loop ops d 0 ?s") (simp add: tryBind_device_def)
      have "d \<in> set (devs ?s)" "driver_of d ?s = 0" using f z by simp_all
      note l = tryBind_device_loop_ok [OF ok this t]
      have "take (length (devs ?s)) (devs s') = devs ?s" using l by blast
      then have "set (devs ?s) \<subseteq> set (devs s')" "take (length (devs s)) (devs s') = devs s"
        using starts_subset starts_trans [of "devs s" "devs ?s"] f(1) by (metis, simp)
      then show ?thesis using l f r(1) new z by auto
    qed
  qed
qed

lemma registerDriver_ok:
  assumes "reg_ok s" "drv \<noteq> 0" "registerDriver ops drv s = (b, s')"
  shows "reg_ok s' \<and> take (length (devs s)) (devs s') = devs s \<and> b = (drv \<in> set (drvs s')) \<and>
    set (drvs s) \<subseteq> set (drvs s') \<and> set (drvs s') \<subseteq> insert drv (set (drvs s)) \<and>
    (\<forall>x \<in> set (devs s). driver_of x s \<noteq> 0 \<longrightarrow> driver_of x s' = driver_of x s)"
proof (cases "index_of drv (r_drivers s) 0 (r_driverCount s)")
  case (Some k)
  have "drv \<in> set (drvs s)"
    using index_of_take [of 0 "r_driverCount s" "r_drivers s" drv] Some assms(1) deviceAt_devs(4) [OF assms(1), of k]
      deviceAt_devs(3) [OF assms(1)]
    by (auto simp: reg_ok_def)
  then show ?thesis using Some assms by (auto simp: registerDriver_def)
next
  case None
  then have new: "drv \<notin> set (drvs s)"
    using index_of_take [of 0 "r_driverCount s" "r_drivers s" drv] assms(1) by (auto simp: reg_ok_def drvs_def)
  show ?thesis
  proof (cases "MaxDrivers \<le> r_driverCount s")
    case True
    then show ?thesis using None new assms by (auto simp: registerDriver_def)
  next
    case False
    let ?s = "s\<lparr>r_drivers := (r_drivers s)[r_driverCount s := drv], r_driverCount := r_driverCount s + 1\<rparr>"
    let ?t = "setState drv Registered ?s"
    have f: "drvs ?s = drvs s @ [drv]" "devs ?s = devs s" "driver_of x ?s = driver_of x s" for x
      using False assms(1) by (simp_all add: devs_def drvs_def driver_of_def reg_ok_def take_Suc_conv_app_nth)
    then have ok: "reg_ok ?t" "drv \<in> set (drvs ?t)" using False new assms(1,2) by (auto simp: reg_ok_def reg_frame)
    have r: "b = True" "s' = tryBind_driver_loop ops drv 0 ?t"
      using assms(2,3) None False by (auto simp: registerDriver_def tryBind_driver_def)
    show ?thesis using tryBind_driver_loop_ok [OF ok, of 0] f r by (auto simp: reg_frame)
  qed
qed

lemma unbind_ok:
  assumes "reg_ok s" "d \<in> set (devs s)"
  defines "s' \<equiv> unbind ops d s"
  shows "reg_ok s'" "drvs s' = drvs s" "devs s' = devs s" "driver_of d s' = 0"
    "x \<in> set (devs s) \<Longrightarrow> x \<noteq> d \<Longrightarrow> driver_of x s' = driver_of x s"
proof -
  have "reg_ok s' \<and> drvs s' = drvs s \<and> devs s' = devs s \<and> driver_of d s' = 0 \<and>
    (\<forall>x \<in> set (devs s). x \<noteq> d \<longrightarrow> driver_of x s' = driver_of x s)"
  proof (cases "driver_of d s = 0")
    case True
    then show ?thesis using assms by (simp add: s'_def unbind_def)
  next
    case False
    then have drv: "driver_of d s \<in> set (drvs s)" using assms(1,2) by (auto simp: reg_ok_def)
    obtain b s1 where o: "op_stop ops (driver_of d s) d s = (b, s1)" by fastforce
    have "grows d (driver_of d s) s s1 \<and> devs s1 = devs s" by (rule stop_law [OF assms(1) drv assms(2) refl o])
    then show ?thesis
      using False o reg_ok_set_driver [of "setState (driver_of d s) Registered s1" 0 d]
      by (auto simp: s'_def unbind_def grows_def reg_frame)
  qed
  then show "reg_ok s'" "drvs s' = drvs s" "devs s' = devs s" "driver_of d s' = 0"
    "x \<in> set (devs s) \<Longrightarrow> x \<noteq> d \<Longrightarrow> driver_of x s' = driver_of x s" by blast+
qed

lemma unbind_loop_ok:
  fixes i :: nat and drv :: u64
  assumes "reg_ok s"
  defines "s' \<equiv> unbind_loop ops drv i s"
  shows "reg_ok s' \<and> drvs s' = drvs s \<and> devs s' = devs s \<and>
    (\<forall>x \<in> set (devs s). driver_of x s' = driver_of x s \<or> driver_of x s' = 0) \<and>
    (\<forall>j. i \<le> j \<and> j < length (devs s) \<and> drv \<noteq> 0 \<longrightarrow> driver_of (devs s ! j) s' \<noteq> drv)"
  using assms(1) unfolding s'_def
proof (induction "MaxDevices - i" arbitrary: i s rule: less_induct)
  case less
  note ok = less.prems
  show ?case
  proof (cases "i < r_deviceCount s \<and> i < MaxDevices")
    case False
    then have "unbind_loop ops drv i s = s" by (subst unbind_loop.simps) auto
    then show ?thesis using False ok deviceAt_devs(2) [OF ok] by (auto simp: reg_ok_def)
  next
    case True
    then have lt: "MaxDevices - (i + 1) < MaxDevices - i" by linarith
    let ?d = "deviceAt i s"
    have d: "?d \<in> set (devs s)" "?d = devs s ! i" using True deviceAt_devs(1,2) [OF ok] by (metis nth_mem, metis)
    define s1 where "s1 = (if ?d \<noteq> 0 \<and> driver_of ?d s = drv then unbind ops ?d s else s)"
    have "?d \<noteq> 0" using d(1) ok by (auto simp: reg_ok_def)
    then have s1: "reg_ok s1" "drvs s1 = drvs s" "devs s1 = devs s" "driver_of ?d s1 \<noteq> drv \<or> drv = 0"
      "\<forall>x \<in> set (devs s). driver_of x s1 = driver_of x s \<or> driver_of x s1 = 0"
      using unbind_ok [OF ok d(1)] ok unfolding s1_def by auto
    note IH = less.hyps [OF lt s1(1), unfolded s1(2,3)]
    have e: "unbind_loop ops drv i s = unbind_loop ops drv (i + 1) s1"
      using True by (subst unbind_loop.simps) (simp add: Let_def s1_def)
    have "driver_of (devs s ! j) (unbind_loop ops drv (i + 1) s1) \<noteq> drv" if "i \<le> j" "j < length (devs s)" "drv \<noteq> 0" for j
    proof (cases "j = i")
      case True
      then show ?thesis using IH s1(4) d that(3) by metis
    next
      case False
      then show ?thesis using IH that by simp
    qed
    then show ?thesis using IH s1(5) unfolding e by (metis (no_types, lifting))
  qed
qed

lemma unregisterDevice_ok:
  assumes "reg_ok s" "d \<in> set (devs s)"
  defines "s' \<equiv> unregisterDevice ops d s"
  shows "reg_ok s' \<and> devs s' = removeAll d (devs s) \<and> drvs s' = drvs s \<and> driver_of d s' = 0 \<and>
    (\<forall>x \<in> set (devs s). x \<noteq> d \<longrightarrow> driver_of x s' = driver_of x s)"
proof -
  let ?u = "unbind ops d s"
  note u = unbind_ok [OF assms(1,2)]
  have d0: "d \<noteq> 0" using assms(1,2) by (auto simp: reg_ok_def)
  have h: "distinct (take (r_deviceCount ?u) (r_devices ?u))" "r_deviceCount ?u \<le> length (r_devices ?u)"
    "d \<in> set (take (r_deviceCount ?u) (r_devices ?u))"
    using u(1,3) assms(2) by (simp_all add: reg_ok_def devs_def)
  obtain i where i: "index_of d (r_devices ?u) 0 (r_deviceCount ?u) = Some i"
    "take (r_deviceCount ?u - 1) (remove_entry i (r_deviceCount ?u) (r_devices ?u)) = removeAll d (devs ?u)"
    "length (remove_entry i (r_deviceCount ?u) (r_devices ?u)) = length (r_devices ?u)"
    using find_entry [OF h] unfolding devs_def by metis
  have s': "s' = ?u\<lparr>r_devices := remove_entry i (r_deviceCount ?u) (r_devices ?u), r_deviceCount := r_deviceCount ?u - 1\<rparr>"
    unfolding s'_def unregisterDevice_def Let_def i(1) using d0 by simp
  have f: "devs s' = removeAll d (devs ?u)" "drvs s' = drvs ?u" "driver_of x s' = driver_of x ?u" for x
    using i(2) by (simp_all add: s' devs_def drvs_def driver_of_def)
  have "length (r_devices s') = length (r_devices ?u)" "r_drivers s' = r_drivers ?u" "r_driverCount s' = r_driverCount ?u"
    "r_deviceCount s' = r_deviceCount ?u - 1"
    using i(3) by (simp_all add: s')
  then have "reg_ok s'" using u(1) f unfolding reg_ok_def by (auto simp: distinct_removeAll)
  then show ?thesis using f u by simp
qed

lemma unregisterDriver_ok:
  assumes "reg_ok s" "drv \<in> set (drvs s)"
  defines "s' \<equiv> unregisterDriver ops drv s"
  shows "reg_ok s' \<and> drvs s' = removeAll drv (drvs s) \<and> devs s' = devs s \<and>
    (\<forall>x \<in> set (devs s). driver_of x s' \<noteq> drv) \<and> r_state s' drv = Stopping"
proof -
  let ?u = "unbind_loop ops drv 0 s"
  note u = unbind_loop_ok [OF assms(1), of drv 0]
  have d0: "drv \<noteq> 0" using assms(1,2) by (auto simp: reg_ok_def)
  have h: "distinct (take (r_driverCount ?u) (r_drivers ?u))" "r_driverCount ?u \<le> length (r_drivers ?u)"
    "drv \<in> set (take (r_driverCount ?u) (r_drivers ?u))"
    unfolding drvs_def [symmetric] using u assms(2) by (auto simp: reg_ok_def)
  obtain i where i: "index_of drv (r_drivers ?u) 0 (r_driverCount ?u) = Some i"
    "take (r_driverCount ?u - 1) (remove_entry i (r_driverCount ?u) (r_drivers ?u)) = removeAll drv (drvs ?u)"
    "length (remove_entry i (r_driverCount ?u) (r_drivers ?u)) = length (r_drivers ?u)"
    using find_entry [OF h] unfolding drvs_def by metis
  have s': "s' = setState drv Stopping
      (?u\<lparr>r_drivers := remove_entry i (r_driverCount ?u) (r_drivers ?u), r_driverCount := r_driverCount ?u - 1\<rparr>)"
    unfolding s'_def unregisterDriver_def Let_def i(1) using d0 by simp
  have f: "drvs s' = removeAll drv (drvs ?u)" "devs s' = devs ?u" "driver_of x s' = driver_of x ?u" for x
    using i(2) by (simp_all add: s' reg_frame) (simp_all add: devs_def drvs_def driver_of_def)
  have l: "length (r_drivers s') = length (r_drivers ?u)" "r_devices s' = r_devices ?u" "r_deviceCount s' = r_deviceCount ?u"
    "r_driverCount s' = r_driverCount ?u - 1" "r_state s' drv = Stopping"
    using i(3) by (simp_all add: s' reg_frame)
  have free: "\<forall>x \<in> set (devs s). driver_of x s' \<noteq> drv" using u d0 f(3) by (metis in_set_conv_nth zero_le)
  then have "reg_ok s'" using u l(1-4) f unfolding reg_ok_def by (auto simp: distinct_removeAll)
  then show ?thesis using f u free l(5) by simp
qed

end

end
