(* ===== verification/Port_Io.thy ===== *)
theory Port_Io
  imports Avery_Prelude
begin

text \<open>
  The hardware as the kernel sees it (\<^verbatim>\<open>include/io/io.h\<close>): a record of the processor's port
  instructions and of volatile loads and stores, over a state of any type. It is an argument of every definition that
  talks to a device. What a theorem needs of a device is a named condition on this record.
\<close>

record 'h machine =
  m_inb :: "u16 \<Rightarrow> 'h \<Rightarrow> u8 \<times> 'h"
  m_outb :: "u16 \<Rightarrow> u8 \<Rightarrow> 'h \<Rightarrow> 'h"
  m_inw :: "u16 \<Rightarrow> 'h \<Rightarrow> u16 \<times> 'h"
  m_outw :: "u16 \<Rightarrow> u16 \<Rightarrow> 'h \<Rightarrow> 'h"
  m_inl :: "u16 \<Rightarrow> 'h \<Rightarrow> u32 \<times> 'h"
  m_outl :: "u16 \<Rightarrow> u32 \<Rightarrow> 'h \<Rightarrow> 'h"
  m_load32 :: "u64 \<Rightarrow> 'h \<Rightarrow> u32 \<times> 'h"
  m_store32 :: "u64 \<Rightarrow> u32 \<Rightarrow> 'h \<Rightarrow> 'h"

definition io_wait :: "'h machine \<Rightarrow> 'h \<Rightarrow> 'h" where "io_wait io h = m_outb io 0x80 0 h"

text \<open>
  \<^verbatim>\<open>regs::enableSSE\<close>: the new values of CR0 and CR4.
\<close>

definition enableSSE :: "u64 \<Rightarrow> u64 \<Rightarrow> u64 \<times> u64" where
  "enableSSE cr0 cr4 =
     (let cr0 = cr0 AND NOT (push_bit 2 1);
          cr0 = cr0 OR push_bit 1 1;
          cr4 = cr4 OR push_bit 9 1;
          cr4 = cr4 OR push_bit 10 1
      in (cr0, cr4))"

lemma enableSSE_bits:
  "bit (fst (enableSSE cr0 cr4)) n \<longleftrightarrow> n = 1 \<or> n \<noteq> 2 \<and> bit cr0 n"
  "bit (snd (enableSSE cr0 cr4)) n \<longleftrightarrow> n = 9 \<or> n = 10 \<or> bit cr4 n"
  unfolding enableSSE_def Let_def fst_conv snd_conv
  by (simp_all only: bit_simps) (auto dest: bit_imp_le_length)

end
