(* ===== verification/Mmio.thy ===== *)
theory Mmio
  imports Vmm Port_Io
begin

text \<open>
  Memory-mapped device registers (\<^verbatim>\<open>mmio::Interface\<close> of
  \<^verbatim>\<open>include/drivers/driver.h\<close> and \<^verbatim>\<open>kernel/drivers/mmio.cpp\<close>): a window of
  virtual addresses, taken from a counter that only grows, is mapped to the device's physical range. The width of a
  register access is 32 bits, the only one the kernel uses.
\<close>

section \<open>Interfaces\<close>

record mmio_interface =
  if_base :: u64
  if_mappingBase :: virtAddr
  if_mappedSize :: u64

record mmio_space =
  ms_next :: virtAddr
  ms_mem :: kmem

definition MMIO_START :: virtAddr where "MMIO_START = 0xFFFF900000000000"

definition mmio_flags :: u64 where
  "mmio_flags = FlagPresent OR FlagWritable OR FlagCacheDisable OR FlagGlobal"

definition mmio_new :: "physAddr \<Rightarrow> u64 \<Rightarrow> mmio_space \<Rightarrow> (mmio_interface \<times> mmio_space) result" where
  "mmio_new physical sz s =
     (let alignedPhys = alignDown physical PAGE_SIZE;
          offset = physical - alignedPhys;
          mappedSize = alignUp (sz + offset) PAGE_SIZE;
          mappingBase = ms_next s;
          s = s\<lparr>ms_next := ms_next s + mappedSize\<rparr>
      in case vmm_mapRange (vmm_getKernelPml4 (ms_mem s)) mappingBase alignedPhys mappedSize mmio_flags (ms_mem s) of
           Inl e \<Rightarrow> Inl e
         | Inr (ok, m) \<Rightarrow>
             Inr (if \<not> ok then \<lparr>if_base = 0, if_mappingBase = 0, if_mappedSize = 0\<rparr>
                  else \<lparr>if_base = mappingBase + offset, if_mappingBase = mappingBase, if_mappedSize = mappedSize\<rparr>,
                  s\<lparr>ms_mem := m\<rparr>))"

fun unmap_loop :: "nat \<Rightarrow> virtAddr \<Rightarrow> kmem \<Rightarrow> kmem result" where
  "unmap_loop 0 v m = Inr m"
| "unmap_loop (Suc n) v m =
     (case vmm_unmapPage (vmm_getKernelPml4 m) v m of Inl e \<Rightarrow> Inl e | Inr (_, m) \<Rightarrow> unmap_loop n (v + PAGE_SIZE) m)"

definition mmio_delete :: "mmio_interface \<Rightarrow> mmio_space \<Rightarrow> mmio_space result" where
  "mmio_delete i s =
     (if if_mappingBase i = 0 \<or> if_mappedSize i = 0 then Inr s
      else case unmap_loop (unat ((if_mappedSize i + PAGE_SIZE - 1) div PAGE_SIZE)) (if_mappingBase i) (ms_mem s) of
          Inl e \<Rightarrow> Inl e
        | Inr m \<Rightarrow> Inr (s\<lparr>ms_mem := m\<rparr>))"

definition if_isValid :: "mmio_interface \<Rightarrow> bool" where "if_isValid i \<longleftrightarrow> if_base i \<noteq> 0"
definition if_address :: "mmio_interface \<Rightarrow> u64" where "if_address i = if_base i"

definition if_read :: "'h machine \<Rightarrow> mmio_interface \<Rightarrow> u64 \<Rightarrow> 'h \<Rightarrow> u32 \<times> 'h" where
  "if_read io i offset h = (if if_base i = 0 then (0, h) else m_load32 io (if_base i + offset) h)"

definition if_write :: "'h machine \<Rightarrow> mmio_interface \<Rightarrow> u64 \<Rightarrow> u32 \<Rightarrow> 'h \<Rightarrow> 'h" where
  "if_write io i offset v h = (if if_base i = 0 then h else m_store32 io (if_base i + offset) v h)"

section \<open>The window shows the device\<close>

lemma mmio_flags_ok: "mmio_flags AND PTE_ADDR_MASK = 0"
  by (simp add: mmio_flags_def FlagPresent_def FlagWritable_def FlagCacheDisable_def FlagGlobal_def PTE_ADDR_MASK_def)

lemma leaf_address:
  assumes "p mod PAGE_SIZE = 0" "unat p < 2 ^ 52" "flags AND PTE_ADDR_MASK = 0"
  shows "leaf_entry p flags AND PTE_ADDR_MASK = p"
proof -
  have "p mod 4096 = 0" using assms(1) by (simp add: PAGE_SIZE_def)
  then show ?thesis
    using assms(2,3) mask_page_address [of p]
    by (simp add: leaf_entry_def bit.conj_disj_distrib2 PTE_PRESENT_def) (simp add: PTE_ADDR_MASK_def)
qed

lemma page_multiple: "unat (v :: u64) mod 4096 = 0 \<longleftrightarrow> v mod PAGE_SIZE = 0"
proof -
  have "unat (v mod PAGE_SIZE) = unat v mod 4096" by (simp add: unat_mod PAGE_SIZE_def)
  then show ?thesis by (metis unat_eq_zero)
qed

lemma page_at:
  assumes "unat (v :: u64) + 4096 * q < 2 ^ 64"
  shows "unat (v + of_nat q * PAGE_SIZE) = unat v + 4096 * q"
proof -
  have "unat (of_nat q * PAGE_SIZE :: u64) = 4096 * q"
    using assms by (simp add: PAGE_SIZE_def unat_word_ariths unat_of_nat_fits)
  then show ?thesis using assms by (simp add: unat_add_fits)
qed

lemma unat_add_64: "unat a + unat b < 2 ^ 64 \<Longrightarrow> unat (a + b :: u64) = unat a + unat b"
  by (simp add: unat_add_fits)

text \<open>The window: its offset, its size in pages, and the room it takes.\<close>

lemma window_sizes:
  fixes physical sz :: u64
  assumes "unat physical + unat sz < 2 ^ 52"
  defines "p \<equiv> alignDown physical PAGE_SIZE"
  defines "n \<equiv> (unat physical mod 4096 + unat sz + 4095) div 4096"
  shows "unat p = unat physical div 4096 * 4096" "p mod PAGE_SIZE = 0" "unat (physical - p) = unat physical mod 4096"
    "unat (alignUp (sz + (physical - p)) PAGE_SIZE) = 4096 * n"
    "unat ((alignUp (sz + (physical - p)) PAGE_SIZE + PAGE_SIZE - 1) div PAGE_SIZE) = n" "n \<le> 2 ^ 41"
proof -
  have ps: "(PAGE_SIZE :: u64) = 2 ^ 12" by (simp add: PAGE_SIZE_def)
  show p: "unat p = unat physical div 4096 * 4096" unfolding p_def ps by (subst unat_alignDown_pow2) simp_all
  then show "p mod PAGE_SIZE = 0" using page_multiple [of p] by simp
  have "unat p \<le> unat physical" using p by simp
  then show o: "unat (physical - p) = unat physical mod 4096"
    using p by (simp add: unat_sub_fits minus_div_mult_eq_mod)
  have so: "unat (sz + (physical - p)) = unat physical mod 4096 + unat sz"
    using assms(1) o by (simp add: unat_add_fits)
  have "unat (alignUp (sz + (physical - p)) (2 ^ 12)) = n * 4096"
    using so assms(1) by (subst unat_alignUp_pow2) (simp_all add: n_def)
  then show m: "unat (alignUp (sz + (physical - p)) PAGE_SIZE) = 4096 * n" by (simp add: ps mult.commute)
  show n: "n \<le> 2 ^ 41" using assms(1) unfolding n_def by simp
  have "unat (alignUp (sz + (physical - p)) PAGE_SIZE + PAGE_SIZE - 1) = 4096 * n + 4095"
    using m n by (simp add: PAGE_SIZE_def unat_add_fits add_diff_eq [symmetric])
  then show "unat ((alignUp (sz + (physical - p)) PAGE_SIZE + PAGE_SIZE - 1) div PAGE_SIZE) = n"
    by (simp add: unat_div PAGE_SIZE_def)
qed

text \<open>One byte of the window.\<close>

lemma window_byte:
  fixes physical sz v :: u64
  assumes "unat physical + unat sz < 2 ^ 52" "unat sz < 2 ^ 47" "unat v + unat sz + 8192 < 2 ^ 64"
    "v mod PAGE_SIZE = 0" "vm_inv m root"
    "\<forall>q < (unat physical mod 4096 + unat sz + 4095) div 4096. \<forall>x. same_page x (v + of_nat q * PAGE_SIZE) \<longrightarrow>
      pte m root x = leaf_entry (alignDown physical PAGE_SIZE + of_nat q * PAGE_SIZE) mmio_flags"
    "k < unat sz"
  shows "vmm_virtToPhysical root (v + (physical - alignDown physical PAGE_SIZE) + of_nat k) m = Inr (physical + of_nat k)"
proof -
  let ?v = v and ?p = "alignDown physical PAGE_SIZE"
  let ?o = "physical - ?p"
  define n where "n = (unat physical mod 4096 + unat sz + 4095) div 4096"
  note w = window_sizes [OF assms(1), folded n_def] and inv = assms(5) and pages = assms(6) [folded n_def] and k = assms(7)
  have n: "4096 * n \<le> unat sz + 8191" by (simp add: n_def)
  have al: "unat ?v mod 4096 = 0" by (rule iffD2 [OF page_multiple assms(4)])
  have o: "unat ?o < 4096" unfolding w(3) by simp
  have "unat ?v + unat ?o < 2 ^ 64" using o assms(3) by linarith
  then have base: "unat (?v + ?o) = unat ?v + unat physical mod 4096"
    unfolding w(3) [symmetric] by (rule unat_add_64)
  let ?q = "(unat physical mod 4096 + k) div 4096" and ?r = "(unat physical mod 4096 + k) mod 4096"
  let ?page = "?v + of_nat ?q * PAGE_SIZE" and ?frame = "?p + of_nat ?q * PAGE_SIZE"
  have "?q + 1 = (unat physical mod 4096 + k + 4096) div 4096" by simp
  also have "\<dots> \<le> n" unfolding n_def by (rule div_le_mono) (use k in simp)
  finally have q: "?q < n" by simp
  have qr: "4096 * ?q + ?r = unat physical mod 4096 + k" "?r < 4096" by simp_all
  have pw: "(2 :: nat) ^ 52 < 2 ^ 64" by simp
  have pq: "unat ?p + (4096 * ?q + ?r) = unat physical + k" unfolding qr(1) w(1) by simp
  have page: "unat ?page = unat ?v + 4096 * ?q" by (rule page_at) (use q n assms(3) in linarith)
  have frame: "unat ?frame = unat ?p + 4096 * ?q" by (rule page_at) (use pq k assms(1) pw in linarith)
  have fr: "?frame mod PAGE_SIZE = 0" "unat ?frame < 2 ^ 52"
    using page_multiple [of ?frame] page_multiple [of ?p] w(2) frame pq k assms(1) by simp_all
  have pa: "?page mod PAGE_SIZE = 0" using page_multiple [of ?page] al page by simp
  have ur: "unat (of_nat ?r :: u64) = ?r" using qr(2) by (intro unat_of_nat_fits) simp
  note po = page_offset [OF pa, of "of_nat ?r", unfolded ur, OF qr(2)]
  have k64: "unat (of_nat k :: u64) = k" using k assms(2) by (intro unat_of_nat_fits) simp
  have wk: "?v + ?o + of_nat k = ?page + of_nat ?r"
  proof (rule unat_eqI)
    have "unat ?v + unat physical mod 4096 + k < 2 ^ 64"
      using k assms(3) o unfolding w(3) by linarith
    then have l: "unat (?v + ?o + of_nat k) = unat ?v + unat physical mod 4096 + k"
      using base k64 by (simp add: unat_add_fits)
    have lim: "unat ?v + (4096 * ?q + ?r) < 2 ^ 64" unfolding qr(1) using k assms(3) o unfolding w(3) by linarith
    have "unat (?page + of_nat ?r) = unat ?v + (4096 * ?q + ?r)"
      using lim by (subst unat_add_64) (simp_all only: page ur add.assoc)
    then show "unat (?v + ?o + of_nat k) = unat (?page + of_nat ?r)" unfolding qr(1) l by simp
  qed
  have pk: "?frame + of_nat ?r = physical + of_nat k"
  proof (rule unat_eqI)
    have lim: "unat ?p + (4096 * ?q + ?r) < 2 ^ 64" using pq k assms(1) pw by linarith
    have "unat (?frame + of_nat ?r) = unat ?p + (4096 * ?q + ?r)"
      using lim by (subst unat_add_64) (simp_all only: frame ur add.assoc)
    also have "\<dots> = unat (physical + of_nat k)" unfolding pq using k64 k assms(1) by (simp add: unat_add_fits)
    finally show "unat (?frame + of_nat ?r) = unat (physical + of_nat k)" .
  qed
  have e: "pte m root (?page + of_nat ?r) = leaf_entry ?frame mmio_flags" using pages q po(1) by simp
  show ?thesis
    unfolding wk virtToPhysical_effect [OF inv] is_mapped_def e leaf_address [OF fr mmio_flags_ok] po(2) pk
    by simp
qed

definition mmio_ok :: "mmio_space \<Rightarrow> bool" where
  "mmio_ok s \<longleftrightarrow> vm_inv (ms_mem s) (vmm_getKernelPml4 (ms_mem s)) \<and> ms_next s mod PAGE_SIZE = 0 \<and> ms_next s \<noteq> 0"

text \<open>
  C33. A register window shows its device: a new interface takes a window that starts where the last one ended, a multiple of
  the page size long, and if none of its pages was mapped before, the interface is valid and every byte of the device's
  range, whether or not it starts at a page boundary, is found at its distance from the interface's base; nothing outside the
  window is remapped. If some page was mapped, the interface is invalid.
\<close>

theorem mmio_window:
  assumes "mmio_ok s" "unat physical + unat sz < 2 ^ 52" "0 < unat sz" "unat sz < 2 ^ 47"
    "unat (ms_next s) + unat sz + 8192 < 2 ^ 64" "mmio_new physical sz s = Inr (i, s')"
  defines "root \<equiv> vmm_getKernelPml4 (ms_mem s)"
    and "n \<equiv> (unat physical mod 4096 + unat sz + 4095) div 4096"
  defines "fresh \<equiv> \<forall>k < n. \<not> is_mapped (ms_mem s) root (ms_next s + of_nat k * PAGE_SIZE)"
  shows "if_isValid i = fresh \<and> vm_inv (ms_mem s') root \<and>
    unat (ms_next s') = unat (ms_next s) + 4096 * n \<and> ms_next s' mod PAGE_SIZE = 0 \<and>
    (fresh \<longrightarrow> (\<forall>k < unat sz. vmm_virtToPhysical root (if_address i + of_nat k) (ms_mem s') = Inr (physical + of_nat k))) \<and>
    (\<forall>w. (\<forall>k < n. \<not> same_page w (ms_next s + of_nat k * PAGE_SIZE)) \<longrightarrow>
      pte (ms_mem s') root w = pte (ms_mem s) root w)"
proof -
  let ?p = "alignDown physical PAGE_SIZE" and ?m = "ms_mem s" and ?v = "ms_next s"
  let ?o = "physical - ?p"
  note w = window_sizes [OF assms(2), folded n_def]
  have inv: "vm_inv ?m root" and v: "?v mod PAGE_SIZE = 0" "?v \<noteq> 0" using assms(1) by (simp_all add: mmio_ok_def root_def)
  have n: "4096 * n \<le> unat sz + 8191" "n \<le> 2 ^ 36" "0 < n"
    using assms(3,4) by (simp_all add: n_def div_greater_zero_iff)
  obtain ok m where r: "vmm_mapRange root ?v ?p (alignUp (sz + ?o) PAGE_SIZE) mmio_flags ?m = Inr (ok, m)"
    and s': "ms_mem s' = m" "ms_next s' = ?v + alignUp (sz + ?o) PAGE_SIZE"
    and i: "i = (if \<not> ok then \<lparr>if_base = 0, if_mappingBase = 0, if_mappedSize = 0\<rparr>
      else \<lparr>if_base = ?v + ?o, if_mappingBase = ?v, if_mappedSize = alignUp (sz + ?o) PAGE_SIZE\<rparr>)"
    using assms(6) by (auto simp: mmio_new_def Let_def root_def split: sum.splits)
  obtain j where j: "vm_inv m root" "j \<le> n" "ok = (j = n)"
      "j < n \<longrightarrow> is_mapped ?m root (?v + of_nat j * PAGE_SIZE)"
      "\<forall>k < j. \<not> is_mapped ?m root (?v + of_nat k * PAGE_SIZE)"
      "\<forall>k < j. \<forall>x. same_page x (?v + of_nat k * PAGE_SIZE) \<longrightarrow> pte m root x = leaf_entry (?p + of_nat k * PAGE_SIZE) mmio_flags"
      "\<forall>x. (\<forall>k < j. \<not> same_page x (?v + of_nat k * PAGE_SIZE)) \<longrightarrow> pte m root x = pte ?m root x"
    using mapRange_loop_effect [OF inv v(1) w(2) n(2) r [unfolded vmm_mapRange_def w(5)]]
    by (elim conjE exE) (rule that)
  have ok: "ok = fresh" using j(2,3,4,5) unfolding fresh_def by (metis le_neq_implies_less)
  have next': "unat (ms_next s') = unat ?v + 4096 * n"
    unfolding s'(2) by (subst unat_add_64) (use w(4) n(1) assms(5) in linarith)+
  have al: "unat ?v mod 4096 = 0" by (rule iffD2 [OF page_multiple v(1)])
  have o: "unat ?o < 4096" unfolding w(3) by simp
  have "unat ?v + unat ?o < 2 ^ 64" using o assms(5) by linarith
  then have base: "unat (?v + ?o) = unat ?v + unat physical mod 4096"
    unfolding w(3) [symmetric] by (rule unat_add_64)
  have "0 < unat ?v" using v(2) by (simp add: unat_gt_0)
  then have "?v + ?o \<noteq> 0" using base by (metis add_gr_0 less_irrefl unat_eq_zero)
  then have valid: "if_isValid i = fresh" using i ok by (simp add: if_isValid_def)
  have tr: "vmm_virtToPhysical root (if_address i + of_nat k) m = Inr (physical + of_nat k)" if f: fresh and k: "k < unat sz" for k
  proof -
    have "if_address i = ?v + ?o" using i ok f by (simp add: if_address_def)
    then show ?thesis
      using window_byte [OF assms(2,4,5) v(1) j(1) _ k] j(3,6) f ok unfolding n_def by simp
  qed
  show ?thesis
    using valid j(1,2,3,7) next' page_multiple [of "ms_next s'"] al tr ok unfolding s'(1) by auto
qed

end
