(* ===== verification/Interrupts.thy ===== *)
theory Interrupts
  imports Mmio
begin

text \<open>
  Interrupts (\<^verbatim>\<open>kernel/core/interrupts\<close>): descriptor tables, the two interrupt controllers and the
  choice between them, the table of handlers and the dispatcher. The addresses of the assembly stubs are parameters. The
  handlers are named by a datatype; what they do is an argument of the dispatcher.
\<close>

section \<open>Descriptor tables\<close>

record gdt_entry =
  g_limit_low :: u16
  g_base_low :: u16
  g_base_middle :: u8
  g_access :: u8
  g_granularity :: u8
  g_base_high :: u8

definition gdt_setGate :: "nat \<Rightarrow> u64 \<Rightarrow> u64 \<Rightarrow> u8 \<Rightarrow> u8 \<Rightarrow> gdt_entry list \<Rightarrow> gdt_entry list" where
  "gdt_setGate num base limit acc gran t =
     t[num := \<lparr>g_limit_low = ucast (limit AND 0xFFFF), g_base_low = ucast (base AND 0xFFFF),
       g_base_middle = ucast (drop_bit 16 base AND 0xFF), g_access = acc,
       g_granularity = ucast (drop_bit 16 limit AND 0x0F) OR (gran AND 0xF0),
       g_base_high = ucast (drop_bit 24 base AND 0xFF)\<rparr>]"

definition initGdt :: "gdt_entry list \<Rightarrow> gdt_entry list" where
  "initGdt t = gdt_setGate 2 0 0xFFFFFFFF 0x92 0xC0 (gdt_setGate 1 0 0xFFFFFFFF 0x9A 0xA0 (gdt_setGate 0 0 0 0 0 t))"

record idt_entry =
  i_offsetLow :: u16
  i_selector :: u16
  i_ist :: u8
  i_flags :: u8
  i_offsetMid :: u16
  i_offsetHigh :: u32
  i_zero :: u32

definition idt_absent :: idt_entry where
  "idt_absent = \<lparr>i_offsetLow = 0, i_selector = 0, i_ist = 0, i_flags = 0, i_offsetMid = 0, i_offsetHigh = 0, i_zero = 0\<rparr>"

definition idt_setGate :: "u8 \<Rightarrow> u64 \<Rightarrow> u16 \<Rightarrow> u8 \<Rightarrow> idt_entry list \<Rightarrow> idt_entry list" where
  "idt_setGate num base sel flags t =
     t[unat num := \<lparr>i_offsetLow = ucast (base AND 0xFFFF), i_selector = sel, i_ist = 0, i_flags = flags,
       i_offsetMid = ucast (drop_bit 16 base AND 0xFFFF), i_offsetHigh = ucast (drop_bit 32 base AND 0xFFFFFFFF),
       i_zero = 0\<rparr>]"

text \<open>\<^verbatim>\<open>memory::set(&idtEntries, 0, sizeof(IDTEntry) * 256)\<close>\<close>

definition initIdt :: "idt_entry list \<Rightarrow> idt_entry list" where
  "initIdt t = replicate (length t) idt_absent"

definition initIsrs :: "(nat \<Rightarrow> u64) \<Rightarrow> idt_entry list \<Rightarrow> idt_entry list" where
  "initIsrs isr t = fold (\<lambda>n. idt_setGate (of_nat n) (isr n) 0x08 0x8E) [0..<32] t"

definition irq_gates :: "(nat \<Rightarrow> u64) \<Rightarrow> idt_entry list \<Rightarrow> idt_entry list" where
  "irq_gates irq t = fold (\<lambda>n. idt_setGate (of_nat (32 + n)) (irq n) 0x08 0x8E) [0..<16] t"

section \<open>The legacy controller\<close>

definition PIC1_COMMAND :: u16 where "PIC1_COMMAND = 0x20"
definition PIC1_DATA :: u16 where "PIC1_DATA = 0x21"
definition PIC2_COMMAND :: u16 where "PIC2_COMMAND = 0xA0"
definition PIC2_DATA :: u16 where "PIC2_DATA = 0xA1"

definition pic_remap :: "'h machine \<Rightarrow> 'h \<Rightarrow> 'h" where
  "pic_remap io h =
     fold (\<lambda>(port, v). m_outb io port v)
       [(PIC1_COMMAND, 0x11), (PIC2_COMMAND, 0x11), (PIC1_DATA, 0x20), (PIC2_DATA, 0x28), (PIC1_DATA, 0x04),
        (PIC2_DATA, 0x02), (PIC1_DATA, 0x01), (PIC2_DATA, 0x01), (PIC1_DATA, 0x00), (PIC2_DATA, 0x00)] h"

definition pic_maskAll :: "'h machine \<Rightarrow> 'h \<Rightarrow> 'h" where
  "pic_maskAll io h = m_outb io PIC2_DATA 0xFF (m_outb io PIC1_DATA 0xFF h)"

definition pic_line :: "u8 \<Rightarrow> u16 \<times> u8" where
  "pic_line irq = (if irq < 8 then (PIC1_DATA, irq) else (PIC2_DATA, irq - 8))"

definition pic_enableIRQ :: "'h machine \<Rightarrow> u8 \<Rightarrow> 'h \<Rightarrow> 'h" where
  "pic_enableIRQ io irq h =
     (let (port, irq) = pic_line irq; (v, h) = m_inb io port h in m_outb io port (v AND NOT (push_bit (unat irq) 1)) h)"

definition pic_disableIRQ :: "'h machine \<Rightarrow> u8 \<Rightarrow> 'h \<Rightarrow> 'h" where
  "pic_disableIRQ io irq h =
     (let (port, irq) = pic_line irq; (v, h) = m_inb io port h in m_outb io port (v OR push_bit (unat irq) 1) h)"

definition pic_eoi :: "'h machine \<Rightarrow> u8 \<Rightarrow> 'h \<Rightarrow> 'h" where
  "pic_eoi io irq h = m_outb io PIC1_COMMAND 0x20 (if 8 \<le> irq then m_outb io PIC2_COMMAND 0x20 h else h)"

section \<open>The advanced controllers\<close>

definition IOAPIC_REGSEL :: u64 where "IOAPIC_REGSEL = 0x00"
definition IOAPIC_WINDOW :: u64 where "IOAPIC_WINDOW = 0x10"
definition IOAPIC_REDTBL :: u8 where "IOAPIC_REDTBL = 0x10"

definition ioapic_read :: "'h machine \<Rightarrow> mmio_interface \<Rightarrow> u8 \<Rightarrow> 'h \<Rightarrow> u32 \<times> 'h" where
  "ioapic_read io i reg h = if_read io i IOAPIC_WINDOW (if_write io i IOAPIC_REGSEL (ucast reg) h)"

definition ioapic_write :: "'h machine \<Rightarrow> mmio_interface \<Rightarrow> u8 \<Rightarrow> u32 \<Rightarrow> 'h \<Rightarrow> 'h" where
  "ioapic_write io i reg v h = if_write io i IOAPIC_WINDOW v (if_write io i IOAPIC_REGSEL (ucast reg) h)"

definition ioapic_redirectIRQ :: "'h machine \<Rightarrow> mmio_interface \<Rightarrow> u8 \<Rightarrow> u8 \<Rightarrow> u8 \<Rightarrow> 'h \<Rightarrow> 'h" where
  "ioapic_redirectIRQ io i irq vector lapicId h =
     (let lowReg = IOAPIC_REDTBL + irq * 2; highReg = lowReg + 1;
          low = (ucast vector :: u32) OR push_bit 8 0 OR push_bit 11 0 OR push_bit 13 0 OR push_bit 15 0;
          low = low AND NOT (push_bit 16 1);
          high = push_bit 24 (ucast lapicId)
      in ioapic_write io i lowReg low (ioapic_write io i highReg high h))"

definition ioapic_maskIRQ :: "'h machine \<Rightarrow> mmio_interface \<Rightarrow> u8 \<Rightarrow> 'h \<Rightarrow> 'h" where
  "ioapic_maskIRQ io i irq h =
     (let lowReg = IOAPIC_REDTBL + irq * 2; (low, h) = ioapic_read io i lowReg h
      in ioapic_write io i lowReg (low OR push_bit 16 1) h)"

definition ioapic_unmaskIRQ :: "'h machine \<Rightarrow> mmio_interface \<Rightarrow> u8 \<Rightarrow> 'h \<Rightarrow> 'h" where
  "ioapic_unmaskIRQ io i irq h =
     (let lowReg = IOAPIC_REDTBL + irq * 2; (low, h) = ioapic_read io i lowReg h
      in ioapic_write io i lowReg (low AND NOT (push_bit 16 1)) h)"

definition LAPIC_PHYS :: physAddr where "LAPIC_PHYS = 0xFEE00000"
definition LAPIC_ID :: u64 where "LAPIC_ID = 0x020"
definition LAPIC_EOI :: u64 where "LAPIC_EOI = 0x0B0"
definition LAPIC_SVR :: u64 where "LAPIC_SVR = 0x0F0"

definition lapic_enable :: "'h machine \<Rightarrow> mmio_interface \<Rightarrow> 'h \<Rightarrow> 'h" where
  "lapic_enable io i h =
     (let (svr, h) = if_read io i LAPIC_SVR h in if_write io i LAPIC_SVR (svr OR 0x100 OR 0xFF) h)"

definition lapic_eoi :: "'h machine \<Rightarrow> mmio_interface \<Rightarrow> 'h \<Rightarrow> 'h" where
  "lapic_eoi io i h = if_write io i LAPIC_EOI 0 h"

definition lapic_id :: "'h machine \<Rightarrow> mmio_interface \<Rightarrow> 'h \<Rightarrow> u32 \<times> 'h" where
  "lapic_id io i h = (let (v, h) = if_read io i LAPIC_ID h in (drop_bit 24 v, h))"

section \<open>The controller in use\<close>

text \<open>
  Before \<^verbatim>\<open>init\<close> the interface pointers of the advanced controllers are null; they are used only with the
  backend \<^verbatim>\<open>APIC\<close>, which is chosen after both are set.
\<close>

datatype int_backend = PICBackend | APICBackend

datatype irq_function = TimeHandler | KeyboardHandler

definition no_interface :: mmio_interface where
  "no_interface = \<lparr>if_base = 0, if_mappingBase = 0, if_mappedSize = 0\<rparr>"

record 'h int_state =
  idtEntries :: "idt_entry list"
  irq_routines :: "irq_function option list"
  int_back :: int_backend
  ioapic_if :: mmio_interface
  lapic_if :: mmio_interface
  int_space :: mmio_space
  int_hw :: 'h

definition IRQ_BASE :: u8 where "IRQ_BASE = 0x20"
definition IOAPIC_PHYS :: physAddr where "IOAPIC_PHYS = 0xFEC00000"

definition irqToVector :: "u8 \<Rightarrow> u8" where "irqToVector irq = IRQ_BASE + irq"

definition ioapic_init :: "physAddr \<Rightarrow> ('h, 'm) int_state_scheme \<Rightarrow> (bool \<times> ('h, 'm) int_state_scheme) result" where
  "ioapic_init base s =
     (case mmio_new base 0x1000 (int_space s) of
        Inl e \<Rightarrow> Inl e
      | Inr (i, sp) \<Rightarrow> Inr (if_isValid i, s\<lparr>ioapic_if := i, int_space := sp\<rparr>))"

definition lapic_init :: "'h machine \<Rightarrow> ('h, 'm) int_state_scheme \<Rightarrow> (bool \<times> ('h, 'm) int_state_scheme) result" where
  "lapic_init io s =
     (case mmio_new LAPIC_PHYS 0x1000 (int_space s) of
        Inl e \<Rightarrow> Inl e
      | Inr (i, sp) \<Rightarrow>
          let s = s\<lparr>lapic_if := i, int_space := sp\<rparr> in
          if \<not> if_isValid i then Inr (False, s)
          else Inr (True, s\<lparr>int_hw := lapic_enable io i (int_hw s)\<rparr>))"

definition initPIC :: "'h machine \<Rightarrow> ('h, 'm) int_state_scheme \<Rightarrow> ('h, 'm) int_state_scheme" where
  "initPIC io s = s\<lparr>int_back := PICBackend, int_hw := pic_remap io (int_hw s)\<rparr>"

definition route_lines :: "'h machine \<Rightarrow> mmio_interface \<Rightarrow> u8 \<Rightarrow> 'h \<Rightarrow> 'h" where
  "route_lines io i lapicId h =
     fold (\<lambda>n h. ioapic_maskIRQ io i (of_nat n) (ioapic_redirectIRQ io i (of_nat n) (irqToVector (of_nat n)) lapicId h))
       [0..<16] h"

definition initAPICCompat :: "'h machine \<Rightarrow> ('h, 'm) int_state_scheme \<Rightarrow> ('h, 'm) int_state_scheme result" where
  "initAPICCompat io s =
     (case ioapic_init IOAPIC_PHYS s of
        Inl e \<Rightarrow> Inl e
      | Inr (ok, s) \<Rightarrow>
          if \<not> ok then Inr (initPIC io s)
          else case lapic_init io s of
            Inl e \<Rightarrow> Inl e
          | Inr (ok, s) \<Rightarrow>
              if \<not> ok then Inr (initPIC io s)
              else let (lapicId, h) = lapic_id io (lapic_if s) (pic_maskAll io (int_hw s))
                   in Inr (s\<lparr>int_back := APICBackend, int_hw := route_lines io (ioapic_if s) (ucast lapicId) h\<rparr>))"

definition controller_enableIRQ :: "'h machine \<Rightarrow> u8 \<Rightarrow> ('h, 'm) int_state_scheme \<Rightarrow> ('h, 'm) int_state_scheme" where
  "controller_enableIRQ io irq s =
     s\<lparr>int_hw := (if int_back s = PICBackend then pic_enableIRQ io irq (int_hw s)
        else ioapic_unmaskIRQ io (ioapic_if s) irq (int_hw s))\<rparr>"

definition controller_disableIRQ :: "'h machine \<Rightarrow> u8 \<Rightarrow> ('h, 'm) int_state_scheme \<Rightarrow> ('h, 'm) int_state_scheme" where
  "controller_disableIRQ io irq s =
     s\<lparr>int_hw := (if int_back s = PICBackend then pic_disableIRQ io irq (int_hw s)
        else ioapic_maskIRQ io (ioapic_if s) irq (int_hw s))\<rparr>"

definition controller_eoi :: "'h machine \<Rightarrow> u8 \<Rightarrow> ('h, 'm) int_state_scheme \<Rightarrow> ('h, 'm) int_state_scheme" where
  "controller_eoi io irq s =
     s\<lparr>int_hw := (if int_back s = PICBackend then pic_eoi io irq (int_hw s) else lapic_eoi io (lapic_if s) (int_hw s))\<rparr>"

section \<open>Handlers\<close>

text \<open>The line is an \<^verbatim>\<open>int\<close> below 16 in the code; the controller gets it as a byte.\<close>

definition irq_installHandler :: "'h machine \<Rightarrow> nat \<Rightarrow> irq_function \<Rightarrow> ('h, 'm) int_state_scheme \<Rightarrow> ('h, 'm) int_state_scheme"
where
  "irq_installHandler io irq handler s =
     controller_enableIRQ io (of_nat irq) (s\<lparr>irq_routines := (irq_routines s)[irq := Some handler]\<rparr>)"

definition irq_uninstallHandler :: "'h machine \<Rightarrow> nat \<Rightarrow> ('h, 'm) int_state_scheme \<Rightarrow> ('h, 'm) int_state_scheme" where
  "irq_uninstallHandler io irq s =
     (let s = controller_disableIRQ io (of_nat irq) s in s\<lparr>irq_routines := (irq_routines s)[irq := None]\<rparr>)"

definition initIrq :: "'h machine \<Rightarrow> (nat \<Rightarrow> u64) \<Rightarrow> ('h, 'm) int_state_scheme \<Rightarrow> ('h, 'm) int_state_scheme result" where
  "initIrq io irq s = initAPICCompat io (s\<lparr>idtEntries := irq_gates irq (idtEntries s)\<rparr>)"

definition irq_handler ::
  "'h machine \<Rightarrow> (irq_function \<Rightarrow> ('h, 'm) int_state_scheme \<Rightarrow> ('h, 'm) int_state_scheme) \<Rightarrow> u64 \<Rightarrow>
    ('h, 'm) int_state_scheme \<Rightarrow> ('h, 'm) int_state_scheme"
where
  "irq_handler io run vector s =
     (if vector < 32 \<or> 47 < vector then s
      else let irqNumber = ucast (vector - 32) :: u8;
               s = (case irq_routines s ! unat irqNumber of Some handler \<Rightarrow> run handler s | None \<Rightarrow> s)
           in controller_eoi io irqNumber s)"

section \<open>The gates\<close>

definition gate_target :: "idt_entry \<Rightarrow> u64" where
  "gate_target e = ucast (i_offsetLow e) OR push_bit 16 (ucast (i_offsetMid e)) OR push_bit 32 (ucast (i_offsetHigh e))"

definition stub_gate :: "u64 \<Rightarrow> idt_entry \<Rightarrow> bool" where
  "stub_gate base e \<longleftrightarrow> gate_target e = base \<and> i_selector e = 0x08 \<and> i_ist e = 0 \<and> i_flags e = 0x8E \<and> i_zero e = 0"

lemma gate_roundtrip:
  "gate_target \<lparr>i_offsetLow = ucast (base AND 0xFFFF), i_selector = sel, i_ist = 0, i_flags = flags,
     i_offsetMid = ucast (drop_bit 16 base AND 0xFFFF), i_offsetHigh = ucast (drop_bit 32 base AND 0xFFFFFFFF),
     i_zero = 0\<rparr> = base"
proof (rule bit_word_eqI)
  fix n assume n: "n < LENGTH(64)"
  have "(0xFFFF :: u64) = mask 16" "(0xFFFFFFFF :: u64) = mask 32" by (simp_all add: mask_eq_exp_minus_1)
  then have m: "x AND 0xFFFF = take_bit 16 x" "x AND 0xFFFFFFFF = take_bit 32 x" for x :: u64
    by (simp_all only: take_bit_eq_mask)
  show "bit (gate_target \<lparr>i_offsetLow = ucast (base AND 0xFFFF), i_selector = sel, i_ist = 0, i_flags = flags,
     i_offsetMid = ucast (drop_bit 16 base AND 0xFFFF), i_offsetHigh = ucast (drop_bit 32 base AND 0xFFFFFFFF),
     i_zero = 0\<rparr>) n \<longleftrightarrow> bit base n"
    unfolding m by (cases "n < 16"; cases "n < 32") (use n in \<open>auto simp: gate_target_def bit_simps\<close>)
qed

lemma idt_setGate_at:
  fixes b :: u64
  assumes "length t = 256" "k < 256" "v < 256"
  defines "t' \<equiv> idt_setGate (of_nat k) b 0x08 0x8E t"
  shows "length t' = 256" "if v = k then stub_gate b (t' ! v) else t' ! v = t ! v"
proof -
  have u: "unat (of_nat k :: u8) = k" using assms(2) by (intro unat_of_nat_fits) simp
  show "length t' = 256" "if v = k then stub_gate b (t' ! v) else t' ! v = t ! v"
    using assms(1,2,3) by (auto simp: t'_def idt_setGate_def u stub_gate_def gate_roundtrip)
qed

lemma fold_gates:
  fixes stub :: "nat \<Rightarrow> u64"
  assumes "length t = 256" "first + n \<le> 256"
  defines "gates \<equiv> \<lambda>n. fold (\<lambda>i. idt_setGate (of_nat (first + i)) (stub i) 0x08 0x8E) [0..<n] t"
  shows "length (gates n) = 256 \<and>
    (\<forall>v < 256. if first \<le> v \<and> v < first + n then stub_gate (stub (v - first)) (gates n ! v) else gates n ! v = t ! v)"
  using assms(2)
proof (induction n)
  case 0
  then show ?case using assms(1) by (auto simp: gates_def)
next
  case (Suc n)
  have g: "gates (Suc n) = idt_setGate (of_nat (first + n)) (stub n) 0x08 0x8E (gates n)" by (simp add: gates_def)
  have l: "length (gates n) = 256" and k: "first + n < 256" and le: "first + n \<le> 256" using Suc by simp_all
  show ?case
  proof (intro conjI allI impI)
    show "length (gates (Suc n)) = 256" unfolding g by (rule idt_setGate_at(1) [OF l k k])
    fix v :: nat assume v: "v < 256"
    have "if first \<le> v \<and> v < first + n then stub_gate (stub (v - first)) (gates n ! v) else gates n ! v = t ! v"
      using Suc.IH [OF le] v by blast
    then show "if first \<le> v \<and> v < first + Suc n then stub_gate (stub (v - first)) (gates (Suc n) ! v)
        else gates (Suc n) ! v = t ! v"
      using idt_setGate_at(2) [OF l k v, of "stub n", folded g] by (auto split: if_splits)
  qed
qed

lemma initIsrs_at:
  assumes "length t = 256"
  shows "length (initIsrs isr t) = 256"
    "v < 256 \<Longrightarrow> if v < 32 then stub_gate (isr v) (initIsrs isr t ! v) else initIsrs isr t ! v = t ! v"
proof -
  have e: "fold (\<lambda>i. idt_setGate (of_nat (0 + i)) (isr i) 0x08 0x8E) [0..<32] t = initIsrs isr t"
    by (simp add: initIsrs_def)
  have f: "length (initIsrs isr t) = 256 \<and> (\<forall>v < 256. if 0 \<le> v \<and> v < 0 + 32 then stub_gate (isr (v - 0)) (initIsrs isr t ! v)
      else initIsrs isr t ! v = t ! v)"
    by (rule fold_gates [OF assms, of 0 32 isr, unfolded e]) simp
  show "length (initIsrs isr t) = 256" using f by simp
  show "v < 256 \<Longrightarrow> if v < 32 then stub_gate (isr v) (initIsrs isr t ! v) else initIsrs isr t ! v = t ! v"
    using f [THEN conjunct2, rule_format, of v] by (simp split: if_splits)
qed

lemma irq_gates_at:
  assumes "length t = 256"
  shows "length (irq_gates irq t) = 256"
    "v < 256 \<Longrightarrow> if 32 \<le> v \<and> v < 48 then stub_gate (irq (v - 32)) (irq_gates irq t ! v) else irq_gates irq t ! v = t ! v"
  using fold_gates [OF assms, of 32 16 irq] unfolding irq_gates_def by (simp_all only: numeral_plus_numeral semiring_norm) auto

text \<open>
  C35. Every exception and every interrupt line has its gate: after the three initialisations exactly the vectors 0 to 47 are
  present, each an interrupt gate of ring 0 in the kernel's code segment whose target, put together from its three parts, is
  the stub of that vector; every other vector, 255 among them, has none.
\<close>

theorem idt_gates:
  assumes "length t = 256" "v < 256"
  shows "case irq_gates irq (initIsrs isr (initIdt t)) ! v of e \<Rightarrow>
    if v < 32 then stub_gate (isr v) e else if v < 48 then stub_gate (irq (v - 32)) e else e = idt_absent"
proof -
  have t: "length (initIdt t) = 256" "initIdt t ! v = idt_absent" using assms by (simp_all add: initIdt_def)
  show ?thesis
    using irq_gates_at(2) [OF initIsrs_at(1) [OF t(1)] assms(2), of irq isr] initIsrs_at(2) [OF t(1) assms(2), of isr] t(2)
    by (auto split: if_splits)
qed

section \<open>Interrupt lines\<close>

text \<open>
  What the controllers' documentation says of their registers, over the view \<open>w\<close> of the hardware state: the data
  ports of a programmed PIC hold the two masks; the I/O APIC's window accesses the register last selected.
\<close>

record 'h int_view =
  pv_ready :: "'h \<Rightarrow> bool"
  pv_mask1 :: "'h \<Rightarrow> u8"
  pv_mask2 :: "'h \<Rightarrow> u8"
  av_sel :: "'h \<Rightarrow> u32"
  av_regs :: "'h \<Rightarrow> u32 \<Rightarrow> u32"

definition pic_hw :: "'h machine \<Rightarrow> 'h int_view \<Rightarrow> bool" where
  "pic_hw io w \<longleftrightarrow> (\<forall>h. pv_ready w h \<longrightarrow>
     m_inb io PIC1_DATA h = (pv_mask1 w h, h) \<and> m_inb io PIC2_DATA h = (pv_mask2 w h, h) \<and>
     (\<forall>v. pv_ready w (m_outb io PIC1_DATA v h) \<and> pv_mask1 w (m_outb io PIC1_DATA v h) = v \<and>
        pv_mask2 w (m_outb io PIC1_DATA v h) = pv_mask2 w h) \<and>
     (\<forall>v. pv_ready w (m_outb io PIC2_DATA v h) \<and> pv_mask2 w (m_outb io PIC2_DATA v h) = v \<and>
        pv_mask1 w (m_outb io PIC2_DATA v h) = pv_mask1 w h))"

definition ioapic_hw :: "'h machine \<Rightarrow> u64 \<Rightarrow> 'h int_view \<Rightarrow> bool" where
  "ioapic_hw io base w \<longleftrightarrow> (\<forall>h v.
     av_sel w (m_store32 io (base + IOAPIC_REGSEL) v h) = v \<and>
     av_regs w (m_store32 io (base + IOAPIC_REGSEL) v h) = av_regs w h \<and>
     m_load32 io (base + IOAPIC_WINDOW) h = (av_regs w h (av_sel w h), h) \<and>
     av_sel w (m_store32 io (base + IOAPIC_WINDOW) v h) = av_sel w h \<and>
     av_regs w (m_store32 io (base + IOAPIC_WINDOW) v h) = (av_regs w h)(av_sel w h := v))"

definition controller_ok :: "'h machine \<Rightarrow> 'h int_view \<Rightarrow> ('h, 'm) int_state_scheme \<Rightarrow> bool" where
  "controller_ok io w s \<longleftrightarrow>
     (if int_back s = PICBackend then pic_hw io w \<and> pv_ready w (int_hw s)
      else if_base (ioapic_if s) \<noteq> 0 \<and> ioapic_hw io (if_base (ioapic_if s)) w)"

text \<open>A line is enabled when its mask bit is clear.\<close>

definition line_enabled :: "'h int_view \<Rightarrow> ('h, 'm) int_state_scheme \<Rightarrow> nat \<Rightarrow> bool" where
  "line_enabled w s n \<longleftrightarrow>
     (if int_back s = PICBackend then \<not> bit (if n < 8 then pv_mask1 w (int_hw s) else pv_mask2 w (int_hw s)) (n mod 8)
      else \<not> bit (av_regs w (int_hw s) (0x10 + 2 * of_nat n)) 16)"

text \<open>The interface drivers use.\<close>

locale interrupt_lines =
  fixes enable :: "nat \<Rightarrow> 's \<Rightarrow> 's"
    and disable :: "nat \<Rightarrow> 's \<Rightarrow> 's"
    and enabled :: "'s \<Rightarrow> nat \<Rightarrow> bool"
    and ok :: "'s \<Rightarrow> bool"
  assumes enable_law: "ok s \<Longrightarrow> n < 16 \<Longrightarrow> m < 16 \<Longrightarrow> ok (enable n s) \<and> enabled (enable n s) m = (m = n \<or> enabled s m)"
    and disable_law: "ok s \<Longrightarrow> n < 16 \<Longrightarrow> m < 16 \<Longrightarrow> ok (disable n s) \<and> enabled (disable n s) m = (m \<noteq> n \<and> enabled s m)"
begin

lemma enable_disable:
  assumes "ok s" "n < 16" "m < 16"
  shows "enabled (disable n (enable n s)) m = (m \<noteq> n \<and> enabled s m)"
  using enable_law [OF assms] disable_law [of "enable n s" n m] assms by auto

end

text \<open>With a table of handlers: a line is on exactly when somebody handles it.\<close>

locale handler_table = interrupt_lines enable disable enabled ok
  for enable :: "nat \<Rightarrow> 's \<Rightarrow> 's" and disable :: "nat \<Rightarrow> 's \<Rightarrow> 's"
    and enabled :: "'s \<Rightarrow> nat \<Rightarrow> bool" and ok :: "'s \<Rightarrow> bool" +
  fixes handler :: "'s \<Rightarrow> nat \<Rightarrow> 'f option"
    and set_handler :: "nat \<Rightarrow> 'f option \<Rightarrow> 's \<Rightarrow> 's"
  assumes set_law: "ok s \<Longrightarrow> n < 16 \<Longrightarrow> ok (set_handler n f s) \<and> enabled (set_handler n f s) = enabled s \<and>
      (\<forall>m < 16. handler (set_handler n f s) m = (if m = n then f else handler s m))"
    and keeps: "handler (enable n s) = handler s" "handler (disable n s) = handler s"
begin

definition change :: "nat \<times> 'f option \<Rightarrow> 's \<Rightarrow> 's" where
  "change p s = (case snd p of Some f \<Rightarrow> enable (fst p) (set_handler (fst p) (Some f) s)
     | None \<Rightarrow> set_handler (fst p) None (disable (fst p) s))"

lemma change_law:
  assumes "ok s" "fst p < 16" "m < 16"
  shows "ok (change p s)" "handler (change p s) m = (if m = fst p then snd p else handler s m)"
    "enabled (change p s) m = (if m = fst p then snd p \<noteq> None else enabled s m)"
  using set_law [of s "fst p" "snd p"] set_law [of "disable (fst p) s" "fst p" None]
    enable_law [of "set_handler (fst p) (snd p) s" "fst p" m] disable_law [of s "fst p" m] assms keeps
  by (auto simp: change_def split: option.splits)

lemma changes_law:
  assumes "ok s" "\<forall>p \<in> set ps. fst p < 16" "\<forall>m < 16. enabled s m = (handler s m \<noteq> None)" "m < 16"
  shows "ok (fold change ps s) \<and> enabled (fold change ps s) m = (handler (fold change ps s) m \<noteq> None) \<and>
    handler (fold change ps s) m = fold (\<lambda>p f. if m = fst p then snd p else f) ps (handler s m)"
  using assms
proof (induction ps arbitrary: s)
  case (Cons p ps)
  note c = change_law [of s p] and q = Cons.prems
  have "ok (change p s)" "\<forall>m < 16. enabled (change p s) m = (handler (change p s) m \<noteq> None)"
    using c q by auto
  then show ?case using Cons.IH [of "change p s"] c(2) [of m] q by simp
qed simp

end

lemma pic_bits:
  fixes v :: u8
  assumes "k < 8" "j < 8"
  shows "bit (v AND NOT (2 ^ k)) j \<longleftrightarrow> j \<noteq> k \<and> bit v j" "bit (v OR 2 ^ k) j \<longleftrightarrow> j = k \<or> bit v j"
  unfolding push_bit_of_1 [symmetric] using assms by (simp_all only: bit_simps) (auto simp: possible_bit_word)

lemma pic_line_of:
  assumes "n < 16"
  shows "pic_line (of_nat n) = (if n < 8 then (PIC1_DATA, of_nat n) else (PIC2_DATA, of_nat n - 8))"
proof -
  have u: "unat (of_nat n :: u8) = n" using assms by (intro unat_of_nat_fits) simp
  then have "(of_nat n :: u8) < 8 \<longleftrightarrow> n < 8" by (simp add: word_less_unat)
  then show ?thesis by (simp add: pic_line_def)
qed

lemma controller_enable_pic:
  assumes "controller_ok io w s" "int_back s = PICBackend" "n < 16" "m < 16"
  shows "controller_ok io w (controller_enableIRQ io (of_nat n) s)"
    "line_enabled w (controller_enableIRQ io (of_nat n) s) m = (m = n \<or> line_enabled w s m)"
    "controller_ok io w (controller_disableIRQ io (of_nat n) s)"
    "line_enabled w (controller_disableIRQ io (of_nat n) s) m = (m \<noteq> n \<and> line_enabled w s m)"
proof -
  have h: "pic_hw io w" "pv_ready w (int_hw s)" using assms(1,2) by (simp_all add: controller_ok_def)
  have u: "unat (of_nat n :: u8) = n" "8 \<le> n \<Longrightarrow> unat (of_nat n - 8 :: u8) = n - 8"
  proof -
    show u: "unat (of_nat n :: u8) = n" using assms(3) by (intro unat_of_nat_fits) simp
    show "8 \<le> n \<Longrightarrow> unat (of_nat n - 8 :: u8) = n - 8" by (subst unat_sub_fits) (simp_all only: u, simp_all)
  qed
  have d: "n mod 8 = (if n < 8 then n else n - 8)" "m mod 8 = (if m < 8 then m else m - 8)"
    using assms(3,4) by (auto simp: le_mod_geq)
  show "controller_ok io w (controller_enableIRQ io (of_nat n) s)"
    "line_enabled w (controller_enableIRQ io (of_nat n) s) m = (m = n \<or> line_enabled w s m)"
    "controller_ok io w (controller_disableIRQ io (of_nat n) s)"
    "line_enabled w (controller_disableIRQ io (of_nat n) s) m = (m \<noteq> n \<and> line_enabled w s m)"
    using h assms(2-4) d
    by (auto simp: controller_ok_def controller_enableIRQ_def controller_disableIRQ_def pic_enableIRQ_def pic_disableIRQ_def
        pic_line_of line_enabled_def pic_hw_def u pic_bits)
qed

lemma ioapic_register:
  assumes "n < 16"
  shows "(ucast (IOAPIC_REDTBL + of_nat n * 2) :: u32) = 0x10 + 2 * of_nat n"
proof (rule unat_eqI)
  have "unat (of_nat n :: u8) = n" "unat (of_nat n :: u32) = n" using assms by (auto intro!: unat_of_nat_fits)
  then show "unat (ucast (IOAPIC_REDTBL + of_nat n * 2) :: u32) = unat (0x10 + 2 * of_nat n :: u32)"
    using assms by (simp add: IOAPIC_REDTBL_def unat_word_ariths unsigned_ucast_eq take_bit_nat_eq_self)
qed

lemma ioapic_register_inj: "n < 16 \<Longrightarrow> m < 16 \<Longrightarrow> 0x10 + 2 * of_nat n = (0x10 + 2 * of_nat m :: u32) \<longleftrightarrow> n = m"
proof -
  assume b: "n < 16" "m < 16"
  then have "unat (of_nat n :: u32) = n" "unat (of_nat m :: u32) = m" by (auto intro!: unat_of_nat_fits)
  then have "unat (0x10 + 2 * of_nat n :: u32) = 16 + 2 * n" "unat (0x10 + 2 * of_nat m :: u32) = 16 + 2 * m"
    using b by (simp_all add: unat_word_ariths)
  then show ?thesis by (metis add_left_cancel mult_cancel1 zero_neq_numeral)
qed

lemma ioapic_access:
  assumes "ioapic_hw io (if_base i) w" "if_base i \<noteq> 0"
  shows "\<exists>h'. ioapic_read io i r h = (av_regs w h (ucast r), h') \<and> av_regs w h' = av_regs w h"
    "av_regs w (ioapic_write io i r v h) = (av_regs w h)(ucast r := v)"
  using assms by (simp_all add: ioapic_hw_def ioapic_read_def ioapic_write_def if_read_def if_write_def)

lemma mask_bit:
  fixes v :: u32
  shows "bit (v AND NOT (push_bit 16 1)) 16 \<longleftrightarrow> False" "bit (v OR push_bit 16 1) 16 \<longleftrightarrow> True"
  by (simp_all only: bit_simps) (auto simp: possible_bit_word)

lemma ioapic_masking:
  assumes "ioapic_hw io (if_base i) w" "if_base i \<noteq> 0" "n < 16" "m < 16"
  shows "bit (av_regs w (ioapic_unmaskIRQ io i (of_nat n) h) (0x10 + 2 * of_nat m)) 16 =
      (m \<noteq> n \<and> bit (av_regs w h (0x10 + 2 * of_nat m)) 16)"
    "bit (av_regs w (ioapic_maskIRQ io i (of_nat n) h) (0x10 + 2 * of_nat m)) 16 =
      (m = n \<or> bit (av_regs w h (0x10 + 2 * of_nat m)) 16)"
proof -
  obtain h' where h': "ioapic_read io i (IOAPIC_REDTBL + of_nat n * 2) h = (av_regs w h (0x10 + 2 * of_nat n), h')"
      "av_regs w h' = av_regs w h"
    using ioapic_access(1) [OF assms(1,2), of "IOAPIC_REDTBL + of_nat n * 2" h] unfolding ioapic_register [OF assms(3)] by blast
  note wr = ioapic_access(2) [OF assms(1,2), of "IOAPIC_REDTBL + of_nat n * 2", unfolded ioapic_register [OF assms(3)]]
  show "bit (av_regs w (ioapic_unmaskIRQ io i (of_nat n) h) (0x10 + 2 * of_nat m)) 16 =
      (m \<noteq> n \<and> bit (av_regs w h (0x10 + 2 * of_nat m)) 16)"
    "bit (av_regs w (ioapic_maskIRQ io i (of_nat n) h) (0x10 + 2 * of_nat m)) 16 =
      (m = n \<or> bit (av_regs w h (0x10 + 2 * of_nat m)) 16)"
    unfolding ioapic_unmaskIRQ_def ioapic_maskIRQ_def Let_def h'(1) case_prod_conv wr h'(2)
    using mask_bit ioapic_register_inj [OF assms(4,3)] by (auto simp only: fun_upd_apply split: if_splits)
qed

lemma controller_enable_apic:
  assumes "controller_ok io w s" "int_back s \<noteq> PICBackend" "n < 16" "m < 16"
  shows "controller_ok io w (controller_enableIRQ io (of_nat n) s)"
    "line_enabled w (controller_enableIRQ io (of_nat n) s) m = (m = n \<or> line_enabled w s m)"
    "controller_ok io w (controller_disableIRQ io (of_nat n) s)"
    "line_enabled w (controller_disableIRQ io (of_nat n) s) m = (m \<noteq> n \<and> line_enabled w s m)"
proof -
  have h: "if_base (ioapic_if s) \<noteq> 0" "ioapic_hw io (if_base (ioapic_if s)) w"
    using assms(1,2) by (simp_all add: controller_ok_def)
  note k = ioapic_masking [OF h(2,1) assms(3,4), of "int_hw s"]
  show "controller_ok io w (controller_enableIRQ io (of_nat n) s)"
    "line_enabled w (controller_enableIRQ io (of_nat n) s) m = (m = n \<or> line_enabled w s m)"
    "controller_ok io w (controller_disableIRQ io (of_nat n) s)"
    "line_enabled w (controller_disableIRQ io (of_nat n) s) m = (m \<noteq> n \<and> line_enabled w s m)"
    using h assms(2) k
    by (simp_all add: controller_ok_def controller_enableIRQ_def controller_disableIRQ_def line_enabled_def)
qed

lemma controller_lines:
  assumes "controller_ok io w s" "n < 16" "m < 16"
  shows "controller_ok io w (controller_enableIRQ io (of_nat n) s)"
    "line_enabled w (controller_enableIRQ io (of_nat n) s) m = (m = n \<or> line_enabled w s m)"
    "controller_ok io w (controller_disableIRQ io (of_nat n) s)"
    "line_enabled w (controller_disableIRQ io (of_nat n) s) m = (m \<noteq> n \<and> line_enabled w s m)"
  using controller_enable_pic [OF assms(1) _ assms(2,3)] controller_enable_apic [OF assms(1) _ assms(2,3)]
  by (cases "int_back s = PICBackend"; simp)+

definition set_routine :: "nat \<Rightarrow> irq_function option \<Rightarrow> ('h, 'm) int_state_scheme \<Rightarrow> ('h, 'm) int_state_scheme" where
  "set_routine n f s = s\<lparr>irq_routines := (irq_routines s)[n := f]\<rparr>"

definition irq_ok :: "'h machine \<Rightarrow> 'h int_view \<Rightarrow> ('h, 'm) int_state_scheme \<Rightarrow> bool" where
  "irq_ok io w s \<longleftrightarrow> controller_ok io w s \<and> length (irq_routines s) = 16"

lemma controller_keeps:
  "irq_routines (controller_enableIRQ io n s) = irq_routines s" "irq_routines (controller_disableIRQ io n s) = irq_routines s"
  by (simp_all add: controller_enableIRQ_def controller_disableIRQ_def)

interpretation irq_table: handler_table
  "\<lambda>n. controller_enableIRQ io (of_nat n)" "\<lambda>n. controller_disableIRQ io (of_nat n)"
  "line_enabled w" "irq_ok io w" "\<lambda>s n. irq_routines s ! n" set_routine
  for io :: "'h machine" and w :: "'h int_view"
proof unfold_locales
  fix s :: "('h, 'm) int_state_scheme" and n m :: nat and f
  assume s: "irq_ok io w s" "n < 16"
  show "irq_ok io w (controller_enableIRQ io (of_nat n) s) \<and>
      line_enabled w (controller_enableIRQ io (of_nat n) s) m = (m = n \<or> line_enabled w s m)" if "m < 16"
    using controller_lines [of io w s n m] s that by (simp add: irq_ok_def controller_keeps)
  show "irq_ok io w (controller_disableIRQ io (of_nat n) s) \<and>
      line_enabled w (controller_disableIRQ io (of_nat n) s) m = (m \<noteq> n \<and> line_enabled w s m)" if "m < 16"
    using controller_lines [of io w s n m] s that by (simp add: irq_ok_def controller_keeps)
  show "irq_ok io w (set_routine n f s) \<and> line_enabled w (set_routine n f s) = line_enabled w s \<and>
      (\<forall>m < 16. irq_routines (set_routine n f s) ! m = (if m = n then f else irq_routines s ! m))"
    using s by (auto simp: irq_ok_def set_routine_def controller_ok_def line_enabled_def fun_eq_iff nth_list_update)
qed (simp_all add: controller_keeps)

text \<open>What drivers do: \<open>(n, Some f)\<close> installs a handler for line \<open>n\<close>, \<open>(n, None)\<close> takes it out.\<close>

definition irq_change :: "'h machine \<Rightarrow> nat \<times> irq_function option \<Rightarrow> ('h, 'm) int_state_scheme \<Rightarrow> ('h, 'm) int_state_scheme"
where
  "irq_change io p s = (case snd p of Some f \<Rightarrow> irq_installHandler io (fst p) f s | None \<Rightarrow> irq_uninstallHandler io (fst p) s)"

lemma irq_change_table: "irq_change io = irq_table.change io"
  by (auto simp: fun_eq_iff irq_change_def irq_table.change_def irq_installHandler_def irq_uninstallHandler_def set_routine_def Let_def
      split: option.splits)


end
