(* ===== verification/Timer.thy ===== *)
theory Timer
  imports Interrupts Keyboard
begin

text \<open>
  The timer (\<^verbatim>\<open>kernel/drivers/time/pit.cpp\<close>) and the interrupt side of the keyboard driver: the
  handlers the kernel installs, their state, and waiting. A wait is a loop whose turns the argument \<open>polls\<close>
  lists: the interrupt vectors that arrive before the turn.
\<close>

record 'h core_state = "'h int_state" +
  timerTicks :: u64
  core_kb :: keyboard

definition TICKS_PER_SECOND :: nat where "TICKS_PER_SECOND = 1000"

definition time_handler :: "('h, 'm) core_state_scheme \<Rightarrow> ('h, 'm) core_state_scheme" where
  "time_handler s = s\<lparr>timerTicks := timerTicks s + 1\<rparr>"

definition keyboard_irq :: "'h machine \<Rightarrow> ('h, 'm) core_state_scheme \<Rightarrow> ('h, 'm) core_state_scheme" where
  "keyboard_irq io s =
     (let (scancode, h) = m_inb io 0x60 (int_hw s) in s\<lparr>int_hw := h, core_kb := kb_handler scancode (core_kb s)\<rparr>)"

fun run_handler :: "'h machine \<Rightarrow> irq_function \<Rightarrow> ('h, 'm) core_state_scheme \<Rightarrow> ('h, 'm) core_state_scheme" where
  "run_handler io TimeHandler s = time_handler s"
| "run_handler io KeyboardHandler s = keyboard_irq io s"

definition core_irq :: "'h machine \<Rightarrow> u64 \<Rightarrow> ('h, 'm) core_state_scheme \<Rightarrow> ('h, 'm) core_state_scheme" where
  "core_irq io = irq_handler io (run_handler io)"

definition pit_start :: "'h machine \<Rightarrow> ('h, 'm) core_state_scheme \<Rightarrow> bool \<times> ('h, 'm) core_state_scheme" where
  "pit_start io s =
     (let divisor = (1193180 div TICKS_PER_SECOND);
          h = m_outb io 0x43 0x36 (int_hw s);
          h = m_outb io 0x40 (of_nat (divisor mod 256)) h;
          h = m_outb io 0x40 (of_nat (divisor div 256 mod 256)) h
      in (True, irq_installHandler io 0 TimeHandler (s\<lparr>int_hw := h\<rparr>)))"

definition pit_stop :: "'h machine \<Rightarrow> ('h, 'm) core_state_scheme \<Rightarrow> bool \<times> ('h, 'm) core_state_scheme" where
  "pit_stop io s = (True, irq_uninstallHandler io 0 s)"

definition kb_start :: "'h machine \<Rightarrow> ('h, 'm) core_state_scheme \<Rightarrow> bool \<times> ('h, 'm) core_state_scheme" where
  "kb_start io s = (True, irq_installHandler io 1 KeyboardHandler s)"

definition kb_stop :: "'h machine \<Rightarrow> ('h, 'm) core_state_scheme \<Rightarrow> bool \<times> ('h, 'm) core_state_scheme" where
  "kb_stop io s = (True, irq_uninstallHandler io 1 s)"

definition getUptime :: "('h, 'm) core_state_scheme \<Rightarrow> u64" where "getUptime s = timerTicks s"

fun wait_loop :: "'h machine \<Rightarrow> u64 \<Rightarrow> u64 list list \<Rightarrow> ('h, 'm) core_state_scheme \<Rightarrow>
    (u64 list list \<times> ('h, 'm) core_state_scheme) option" where
  "wait_loop io stop [] s = (if timerTicks s < stop then None else Some ([], s))"
| "wait_loop io stop (vs # polls) s =
     (if timerTicks s < stop then wait_loop io stop polls (fold (core_irq io) vs s) else Some (vs # polls, s))"

definition time_wait :: "'h machine \<Rightarrow> u64 \<Rightarrow> u64 list list \<Rightarrow> ('h, 'm) core_state_scheme \<Rightarrow>
    (u64 list list \<times> ('h, 'm) core_state_scheme) option" where
  "time_wait io ms polls s = wait_loop io (timerTicks s + ms) polls s"

section \<open>Time passes with the timer interrupts\<close>

lemma core_irq_time:
  assumes "irq_routines s ! 0 = Some TimeHandler"
    "\<forall>n < 16. n \<noteq> 0 \<longrightarrow> irq_routines s ! n \<noteq> Some TimeHandler"
  shows "timerTicks (core_irq io v s) = (if v = 32 then timerTicks s + 1 else timerTicks s)"
    "irq_routines (core_irq io v s) = irq_routines s"
proof -
  have run: "irq_routines (run_handler io f s) = irq_routines s \<and>
      timerTicks (run_handler io f s) = (if f = TimeHandler then timerTicks s + 1 else timerTicks s)" for f
    by (cases f) (simp_all add: time_handler_def keyboard_irq_def Let_def split: prod.split)
  have eoi: "timerTicks (controller_eoi io n t) = timerTicks t" "irq_routines (controller_eoi io n t) = irq_routines t" for n and t :: "('a, 'b) core_state_scheme"
    by (simp_all add: controller_eoi_def)
  have "timerTicks (core_irq io v s) = (if v = 32 then timerTicks s + 1 else timerTicks s) \<and>
    irq_routines (core_irq io v s) = irq_routines s"
  proof (cases "v < 32 \<or> 47 < v")
    case False
    then have b: "32 \<le> unat v" "unat v \<le> 47" by (simp_all add: word_less_unat not_less)
    then have "unat (v - 32) = unat v - 32" by (simp add: unat_sub_fits)
    then have n: "unat (ucast (v - 32) :: u8) = unat v - 32"
      using b by (simp add: unsigned_ucast_eq take_bit_nat_eq_self)
    have z: "unat v - 32 = 0 \<longleftrightarrow> v = 32"
      using b by (auto intro!: unat_eqI)
    show ?thesis
      using False assms b z
      by (auto simp: core_irq_def irq_handler_def Let_def n eoi run simp del: run_handler.simps split: option.splits)
  qed (auto simp: core_irq_def irq_handler_def)
  then show "timerTicks (core_irq io v s) = (if v = 32 then timerTicks s + 1 else timerTicks s)"
    "irq_routines (core_irq io v s) = irq_routines s"
    by blast+
qed

lemma core_irqs_time:
  assumes "irq_routines s ! 0 = Some TimeHandler"
    "\<forall>n < 16. n \<noteq> 0 \<longrightarrow> irq_routines s ! n \<noteq> Some TimeHandler"
  shows "timerTicks (fold (core_irq io) vs s) = timerTicks s + of_nat (count_list vs 32) \<and>
    irq_routines (fold (core_irq io) vs s) = irq_routines s"
  using assms
proof (induction vs arbitrary: s)
  case (Cons v vs)
  show ?case using Cons.IH [of "core_irq io v s"] core_irq_time [OF Cons.prems, of io v] Cons.prems by simp
qed simp

lemma wait_loop_ok:
  assumes "irq_routines s ! 0 = Some TimeHandler" "\<forall>n < 16. n \<noteq> 0 \<longrightarrow> irq_routines s ! n \<noteq> Some TimeHandler"
    "unat (timerTicks s) + count_list (concat polls) 32 < 2 ^ 64"
  shows "case wait_loop io stop polls s of
      Some (rest, s') \<Rightarrow> \<exists>k \<le> length polls. rest = drop k polls \<and>
        timerTicks s' = timerTicks s + of_nat (count_list (concat (take k polls)) 32) \<and>
        unat stop \<le> unat (timerTicks s) + count_list (concat (take k polls)) 32 \<and>
        (\<forall>j < k. unat (timerTicks s) + count_list (concat (take j polls)) 32 < unat stop)
    | None \<Rightarrow> unat (timerTicks s) + count_list (concat polls) 32 < unat stop"
  using assms
proof (induction polls arbitrary: s)
  case Nil
  then show ?case by (simp add: word_less_unat)
next
  case (Cons vs polls)
  show ?case
  proof (cases "timerTicks s < stop")
    case False
    then show ?thesis by (auto simp: word_less_unat intro!: exI [of _ 0])
  next
    case True
    let ?s = "fold (core_irq io) vs s"
    note t = core_irqs_time [OF Cons.prems(1,2), of io vs]
    have u: "unat (timerTicks ?s) = unat (timerTicks s) + count_list vs 32"
      using Cons.prems(3) t by (simp add: unat_add_fits unat_of_nat_fits)
    have IH: "case wait_loop io stop polls ?s of
        Some (rest, s') \<Rightarrow> \<exists>k \<le> length polls. rest = drop k polls \<and>
          timerTicks s' = timerTicks ?s + of_nat (count_list (concat (take k polls)) 32) \<and>
          unat stop \<le> unat (timerTicks ?s) + count_list (concat (take k polls)) 32 \<and>
          (\<forall>j < k. unat (timerTicks ?s) + count_list (concat (take j polls)) 32 < unat stop)
      | None \<Rightarrow> unat (timerTicks ?s) + count_list (concat polls) 32 < unat stop"
      using Cons.IH [of ?s] Cons.prems t u by simp
    show ?thesis
    proof (cases "wait_loop io stop polls ?s")
      case None
      then show ?thesis using True IH u by simp
    next
      case (Some r)
      obtain rest s' where r: "r = (rest, s')" by (cases r)
      then obtain k where k: "k \<le> length polls" "rest = drop k polls"
          "timerTicks s' = timerTicks ?s + of_nat (count_list (concat (take k polls)) 32)"
          "unat stop \<le> unat (timerTicks ?s) + count_list (concat (take k polls)) 32"
          "\<forall>j < k. unat (timerTicks ?s) + count_list (concat (take j polls)) 32 < unat stop"
        using IH Some by auto
      have "unat (timerTicks s) + count_list (concat (take j (vs # polls))) 32 < unat stop" if "j < Suc k" for j
        using k(5) that True u by (cases j) (auto simp: word_less_unat)
      then show ?thesis
        using True Some r k(1-4) u t by (auto simp: ac_simps intro!: exI [of _ "Suc k"])
    qed
  qed
qed

text \<open>
  C36. A wait lasts as long as asked: while only the timer's handler counts time, \<^verbatim>\<open>time::wait(ms)\<close> returns
  at the first turn by which \<open>ms\<close> timer interrupts have arrived, whatever other interrupts arrive in between, having
  counted every one of them; if fewer arrive it is still waiting.
\<close>

theorem wait_ends:
  assumes "irq_routines s ! 0 = Some TimeHandler" "\<forall>n < 16. n \<noteq> 0 \<longrightarrow> irq_routines s ! n \<noteq> Some TimeHandler"
    "unat (timerTicks s) + unat ms < 2 ^ 64" "unat (timerTicks s) + count_list (concat polls) 32 < 2 ^ 64"
  defines "arrived \<equiv> \<lambda>k. count_list (concat (take k polls)) 32"
  shows "case time_wait io ms polls s of
      Some (rest, s') \<Rightarrow> \<exists>k \<le> length polls. rest = drop k polls \<and> getUptime s' = getUptime s + of_nat (arrived k) \<and>
        unat ms \<le> arrived k \<and> (\<forall>j < k. arrived j < unat ms)
    | None \<Rightarrow> arrived (length polls) < unat ms"
proof -
  have "unat (timerTicks s + ms) = unat (timerTicks s) + unat ms" using assms(3) by (simp add: unat_add_fits)
  then show ?thesis
    using wait_loop_ok [OF assms(1,2,4), where io = io and stop = "timerTicks s + ms"]
    by (auto simp: time_wait_def arrived_def getUptime_def split: option.splits)
qed

end
