(* ===== verification/Pci.thy ===== *)
theory Pci
  imports Mmio Kstring
begin

text \<open>
  The PCI bus (\<^verbatim>\<open>kernel/drivers/pci.cpp\<close>): configuration space through the two ports, base address
  registers and the description of a device. The bus is the argument \<open>io\<close>.
\<close>

section \<open>Configuration space\<close>

definition ConfigAddress :: u16 where "ConfigAddress = 0xCF8"
definition ConfigData :: u16 where "ConfigData = 0xCFC"

text \<open>Bus, slot and function of a device.\<close>

type_synonym pci_location = "u8 \<times> u8 \<times> u8"

definition configAddress :: "pci_location \<Rightarrow> u8 \<Rightarrow> u32" where
  "configAddress loc offset =
     (case loc of (bus, slot, func) \<Rightarrow>
        push_bit 31 1 OR push_bit 16 (ucast bus) OR push_bit 11 (ucast slot) OR push_bit 8 (ucast func) OR
        (ucast offset AND 0xFC))"

definition pci_read32 :: "'h machine \<Rightarrow> pci_location \<Rightarrow> u8 \<Rightarrow> 'h \<Rightarrow> u32 \<times> 'h" where
  "pci_read32 io loc offset h = m_inl io ConfigData (m_outl io ConfigAddress (configAddress loc offset) h)"

definition pci_read16 :: "'h machine \<Rightarrow> pci_location \<Rightarrow> u8 \<Rightarrow> 'h \<Rightarrow> u16 \<times> 'h" where
  "pci_read16 io loc offset h =
     (let (v, h) = pci_read32 io loc offset h in (ucast (drop_bit (unat (offset AND 2) * 8) v AND 0xFFFF), h))"

definition pci_read8 :: "'h machine \<Rightarrow> pci_location \<Rightarrow> u8 \<Rightarrow> 'h \<Rightarrow> u8 \<times> 'h" where
  "pci_read8 io loc offset h =
     (let (v, h) = pci_read32 io loc offset h in (ucast (drop_bit (unat (offset AND 3) * 8) v AND 0xFF), h))"

definition pci_write32 :: "'h machine \<Rightarrow> pci_location \<Rightarrow> u8 \<Rightarrow> u32 \<Rightarrow> 'h \<Rightarrow> 'h" where
  "pci_write32 io loc offset v h = m_outl io ConfigData v (m_outl io ConfigAddress (configAddress loc offset) h)"

definition pci_write16 :: "'h machine \<Rightarrow> pci_location \<Rightarrow> u8 \<Rightarrow> u16 \<Rightarrow> 'h \<Rightarrow> 'h" where
  "pci_write16 io loc offset v h =
     (let (old, h) = pci_read32 io loc (offset AND 0xFC) h;
          shift = unat (offset AND 2) * 8;
          old = old AND NOT (push_bit shift 0xFFFF);
          old = old OR push_bit shift (ucast v)
      in pci_write32 io loc (offset AND 0xFC) old h)"

section \<open>Base address registers\<close>

datatype bar_type = BarNone | BarIO | BarMMIO32 | BarMMIO64

record pci_bar =
  bar_type :: bar_type
  bar_address :: u64
  bar_size :: u64
  bar_prefetchable :: bool

definition no_bar :: pci_bar where
  "no_bar = \<lparr>bar_type = BarNone, bar_address = 0, bar_size = 0, bar_prefetchable = False\<rparr>"

text \<open>Writing all ones, reading back, and putting the old value back.\<close>

definition probe_bar :: "'h machine \<Rightarrow> pci_location \<Rightarrow> u8 \<Rightarrow> u32 \<Rightarrow> 'h \<Rightarrow> u32 \<times> 'h" where
  "probe_bar io loc offset original h =
     (let h = pci_write32 io loc offset 0xFFFFFFFF h;
          (sizeMask, h) = pci_read32 io loc offset h
      in (sizeMask, pci_write32 io loc offset original h))"

definition readBAR :: "'h machine \<Rightarrow> pci_location \<Rightarrow> u8 \<Rightarrow> 'h \<Rightarrow> pci_bar \<times> 'h" where
  "readBAR io loc index h =
     (if 6 \<le> index then (no_bar, h)
      else
        let offset = 0x10 + index * 4; (original, h) = pci_read32 io loc offset h in
        if original = 0 then (no_bar, h)
        else
          let (sizeMask, h) = probe_bar io loc offset original h in
          if original AND 1 \<noteq> 0 then
            (\<lparr>bar_type = BarIO, bar_address = ucast original AND NOT 3,
              bar_size = ucast (NOT (sizeMask AND NOT 3) + 1), bar_prefetchable = False\<rparr>, h)
          else
            let memoryType = drop_bit 1 original AND 3; prefetchable = (original AND 8 \<noteq> 0) in
            if memoryType = 0 then
              (\<lparr>bar_type = BarMMIO32, bar_address = ucast original AND NOT 0xF,
                bar_size = ucast (NOT (sizeMask AND NOT 0xF) + 1), bar_prefetchable = prefetchable\<rparr>, h)
            else if memoryType = 2 then
              let (originalHigh, h) = pci_read32 io loc (offset + 4) h;
                  (sizeMaskHigh, h) = probe_bar io loc (offset + 4) originalHigh h;
                  fullMask = push_bit 32 (ucast sizeMaskHigh) OR ucast (sizeMask AND NOT 0xF) :: u64
              in (\<lparr>bar_type = BarMMIO64,
                   bar_address = push_bit 32 (ucast originalHigh) OR (ucast original AND NOT 0xF),
                   bar_size = NOT fullMask + 1, bar_prefetchable = prefetchable\<rparr>, h)
            else (no_bar, h))"

section \<open>Device description\<close>

definition pci_text :: "string \<Rightarrow> u8 list" where "pci_text s = map of_char s @ [0]"

definition class_names :: "(u8 \<times> string) list" where
  "class_names =
     [(0x00, ''Unclassified''), (0x01, ''Mass Storage Controller''), (0x02, ''Network Controller''),
      (0x03, ''Display Controller''), (0x04, ''Multimedia Controller''), (0x05, ''Memory Controller''),
      (0x06, ''Bridge Device''), (0x07, ''Simple Communication Controller''), (0x08, ''Base System Peripheral''),
      (0x09, ''Input Device Controller''), (0x0A, ''Docking Station''), (0x0B, ''Processor''),
      (0x0C, ''Serial Bus Controller''), (0x0D, ''Wireless Controller''), (0x0E, ''Intelligent Controller''),
      (0x0F, ''Satellite Communication Controller''), (0x10, ''Encryption Controller''),
      (0x11, ''Signal Processing Controller''), (0x12, ''Processing Accelerator''),
      (0x13, ''Non-Essential Instrumentation''), (0x40, ''Coprocessor''), (0xFF, ''Vendor Specific or Unassigned'')]"

definition className :: "u8 \<Rightarrow> u8 list" where
  "className c = pci_text (case map_of class_names c of Some s \<Rightarrow> s | None \<Rightarrow> ''Unknown'')"

text \<open>For each class with subclasses, their names and the name of any other subclass.\<close>

definition subclass_names :: "(u8 \<times> (u8 \<times> string) list \<times> string) list" where
  "subclass_names =
     [(0x01, [(0x00, ''SCSI Storage Controller''), (0x01, ''IDE Controller''), (0x02, ''Floppy Disk Controller''),
        (0x03, ''IPI Bus Controller''), (0x04, ''RAID Controller''), (0x05, ''ATA Controller''),
        (0x06, ''SATA Controller''), (0x07, ''Serial Attached SCSI Controller''),
        (0x08, ''Non-Volatile Memory Controller'')], ''Mass Storage Controller''),
      (0x02, [(0x00, ''Ethernet Controller'')], ''Network Controller''),
      (0x03, [(0x00, ''VGA Compatible Controller''), (0x01, ''XGA Controller''), (0x02, ''3D Controller'')],
        ''Display Controller''),
      (0x06, [(0x00, ''Host Bridge''), (0x01, ''ISA Bridge''), (0x02, ''EISA Bridge''), (0x03, ''MCA Bridge''),
        (0x04, ''PCI-to-PCI Bridge''), (0x05, ''PCMCIA Bridge''), (0x06, ''NuBus Bridge''), (0x07, ''CardBus Bridge''),
        (0x08, ''RACEway Bridge'')], ''Bridge Device''),
      (0x0C, [(0x00, ''FireWire Controller''), (0x01, ''ACCESS.bus Controller''), (0x02, ''SSA Controller''),
        (0x03, ''USB Controller''), (0x04, ''Fibre Channel Controller''), (0x05, ''SMBus Controller''),
        (0x06, ''InfiniBand Controller''), (0x07, ''IPMI Interface''), (0x08, ''SERCOS Interface''),
        (0x09, ''CANbus Controller'')], ''Serial Bus Controller'')]"

definition subclassName :: "u8 \<Rightarrow> u8 \<Rightarrow> u8 list" where
  "subclassName c sub =
     pci_text (case map_of subclass_names c of
        Some (names, other) \<Rightarrow> (case map_of names sub of Some s \<Rightarrow> s | None \<Rightarrow> other)
      | None \<Rightarrow> '''')"

record pci_device =
  p_loc :: pci_location
  p_vendorID :: u16
  p_deviceID :: u16
  p_revisionID :: u8
  p_progIF :: u8
  p_subClass :: u8
  p_classCode :: u8
  p_name :: kstring
  p_interruptLine :: u8
  p_interruptPin :: u8
  p_bars :: "pci_bar list"
  p_interface :: "mmio_interface option"

definition device_name :: "(nat \<Rightarrow> u8) \<Rightarrow> u8 \<Rightarrow> u8 \<Rightarrow> kstring" where
  "device_name junk c sub =
     (let name = string_append junk (className c) (string_of junk (pci_text ''PCI Device / ''));
          s = subclassName c sub
      in if string_isEmpty (string_of junk s) then name
         else string_append junk (pci_text '')'') (string_append junk s (string_append junk (pci_text '' ('') name)))"

fun read_bars :: "'h machine \<Rightarrow> pci_location \<Rightarrow> nat list \<Rightarrow> 'h \<Rightarrow> pci_bar list \<times> 'h" where
  "read_bars io loc [] h = ([], h)"
| "read_bars io loc (i # is) h =
     (let (b, h) = readBAR io loc (of_nat i) h; (bs, h) = read_bars io loc is h in (b # bs, h))"

definition pci_new :: "'h machine \<Rightarrow> (nat \<Rightarrow> u8) \<Rightarrow> pci_location \<Rightarrow> 'h \<Rightarrow> pci_device \<times> 'h" where
  "pci_new io junk loc h =
     (let (vendor, h) = pci_read16 io loc 0x00 h; (device, h) = pci_read16 io loc 0x02 h;
          (revision, h) = pci_read8 io loc 0x08 h; (progIF, h) = pci_read8 io loc 0x09 h;
          (sub, h) = pci_read8 io loc 0x0A h; (c, h) = pci_read8 io loc 0x0B h;
          (line, h) = pci_read8 io loc 0x3C h; (pin, h) = pci_read8 io loc 0x3D h;
          (bars, h) = read_bars io loc [0..<6] h
      in (\<lparr>p_loc = loc, p_vendorID = vendor, p_deviceID = device, p_revisionID = revision, p_progIF = progIF,
           p_subClass = sub, p_classCode = c, p_name = device_name junk c sub, p_interruptLine = line,
           p_interruptPin = pin, p_bars = bars, p_interface = None\<rparr>, h))"

definition pci_bar_at :: "pci_device \<Rightarrow> u8 \<Rightarrow> pci_bar" where
  "pci_bar_at d index = (if 6 \<le> index then no_bar else p_bars d ! unat index)"

definition createMMIOInterface :: "u8 \<Rightarrow> pci_device \<Rightarrow> mmio_space \<Rightarrow> (pci_device \<times> mmio_space) result" where
  "createMMIOInterface barIndex d s =
     (let selected = pci_bar_at d barIndex in
      if bar_type selected \<noteq> BarMMIO32 \<and> bar_type selected \<noteq> BarMMIO64 then Inr (d\<lparr>p_interface := None\<rparr>, s)
      else case mmio_new (bar_address selected) (bar_size selected) s of
          Inl e \<Rightarrow> Inl e
        | Inr (i, s) \<Rightarrow> Inr (d\<lparr>p_interface := Some i\<rparr>, s))"

definition enable_command :: "'h machine \<Rightarrow> nat \<Rightarrow> pci_device \<Rightarrow> 'h \<Rightarrow> 'h" where
  "enable_command io n d h =
     (let (command, h) = pci_read16 io (p_loc d) 0x4 h in pci_write16 io (p_loc d) 0x4 (command OR push_bit n 1) h)"

definition enableIOSpace :: "'h machine \<Rightarrow> pci_device \<Rightarrow> 'h \<Rightarrow> 'h" where "enableIOSpace io = enable_command io 0"
definition enableMemorySpace :: "'h machine \<Rightarrow> pci_device \<Rightarrow> 'h \<Rightarrow> 'h" where "enableMemorySpace io = enable_command io 1"
definition enableBusMastering :: "'h machine \<Rightarrow> pci_device \<Rightarrow> 'h \<Rightarrow> 'h" where "enableBusMastering io = enable_command io 2"

definition isClass :: "pci_device \<Rightarrow> u8 \<Rightarrow> u8 \<Rightarrow> bool" where
  "isClass d c sub \<longleftrightarrow> p_classCode d = c \<and> sub = p_subClass d"

definition isVendorDevice :: "pci_device \<Rightarrow> u16 \<Rightarrow> u16 \<Rightarrow> bool" where
  "isVendorDevice d vendor device \<longleftrightarrow> p_vendorID d = vendor \<and> device = p_deviceID d"

section \<open>What sizing a base address register finds\<close>

text \<open>
  Configuration mechanism 1, over the view \<open>w\<close> of the hardware state, for the registers in \<open>A\<close>: the
  address port selects a register, the data port reads it, and writes the bits of it that the device implements.
\<close>

record 'h pci_view =
  cv_sel :: "'h \<Rightarrow> u32"
  cv_reg :: "'h \<Rightarrow> u32 \<Rightarrow> u32"
  cv_mask :: "u32 \<Rightarrow> u32"

definition pci_hw :: "'h machine \<Rightarrow> 'h pci_view \<Rightarrow> u32 set \<Rightarrow> bool" where
  "pci_hw io w A \<longleftrightarrow> (\<forall>h v.
     cv_sel w (m_outl io ConfigAddress v h) = v \<and> cv_reg w (m_outl io ConfigAddress v h) = cv_reg w h \<and>
     (cv_sel w h \<in> A \<longrightarrow> m_inl io ConfigData h = (cv_reg w h (cv_sel w h), h) \<and>
        cv_reg w (m_outl io ConfigData v h) = (cv_reg w h)(cv_sel w h :=
          (v AND cv_mask w (cv_sel w h)) OR (cv_reg w h (cv_sel w h) AND NOT (cv_mask w (cv_sel w h))))))"

lemma pci_read32_hw:
  assumes "pci_hw io w A" "configAddress loc off \<in> A"
  shows "\<exists>h'. pci_read32 io loc off h = (cv_reg w h (configAddress loc off), h') \<and> cv_reg w h' = cv_reg w h"
  using assms by (simp add: pci_hw_def pci_read32_def)

lemma pci_write32_hw:
  assumes "pci_hw io w A" "configAddress loc off \<in> A"
  defines "a \<equiv> configAddress loc off"
  shows "cv_reg w (pci_write32 io loc off v h) =
    (cv_reg w h)(a := (v AND cv_mask w a) OR (cv_reg w h a AND NOT (cv_mask w a)))"
  using assms by (simp add: pci_hw_def pci_write32_def)

lemma probe_bar_hw:
  assumes "pci_hw io w A" "configAddress loc off \<in> A"
  defines "a \<equiv> configAddress loc off"
  shows "\<exists>h'. probe_bar io loc off (cv_reg w h a) h = (cv_mask w a OR (cv_reg w h a AND NOT (cv_mask w a)), h') \<and>
    cv_reg w h' = cv_reg w h"
proof -
  let ?v = "cv_reg w h a" and ?m = "cv_mask w a"
  let ?h1 = "pci_write32 io loc off 0xFFFFFFFF h"
  have ones: "(0xFFFFFFFF :: u32) = - 1" by simp
  have r1: "cv_reg w ?h1 = (cv_reg w h)(a := ?m OR (?v AND NOT ?m))"
    using pci_write32_hw [OF assms(1,2), of "0xFFFFFFFF" h] unfolding a_def ones by simp
  obtain h2 where h2: "pci_read32 io loc off ?h1 = (?m OR (?v AND NOT ?m), h2)" "cv_reg w h2 = cv_reg w ?h1"
    using pci_read32_hw [OF assms(1,2), of ?h1] r1 by (auto simp: a_def)
  have e: "(?v AND ?m) OR ((?m OR (?v AND NOT ?m)) AND NOT ?m) = ?v"
    by (rule bit_word_eqI) (auto simp: bit_simps)
  have "cv_reg w (pci_write32 io loc off ?v h2) = cv_reg w h"
    using pci_write32_hw [OF assms(1,2), of ?v h2] unfolding h2(2) r1 a_def [symmetric] fun_upd_same e by simp
  then show ?thesis using h2(1) by (simp add: probe_bar_def)
qed

text \<open>A register that decodes \<open>2\<^sup>k\<close> bytes implements the bits from \<open>k\<close> on, and its base is aligned.\<close>

lemma size_of_mask:
  fixes v m :: "'a::len word"
  assumes "m = NOT (mask k)" "v AND mask k = v AND mask t" "t \<le> k"
  shows "NOT ((m OR (v AND NOT m)) AND NOT (mask t)) + 1 = 2 ^ k"
proof -
  have z: "\<not> bit v n" if "t \<le> n" "n < k" "n < LENGTH('a)" for n
    using arg_cong [OF assms(2), of "\<lambda>w. bit w n"] that by (simp add: bit_and_iff bit_mask_iff possible_bit_word)
  have "NOT ((m OR (v AND NOT m)) AND NOT (mask t)) = mask k"
    by (rule bit_word_eqI) (use z assms(3) in \<open>auto simp: assms(1) bit_simps possible_bit_word\<close>)
  then show ?thesis by (simp add: mask_eq_exp_minus_1)
qed

definition wide :: "u32 \<Rightarrow> u32 \<Rightarrow> u64" where "wide hi lo = push_bit 32 (ucast hi) OR ucast lo"

lemma bit_wide: "bit (wide hi lo) n \<longleftrightarrow> (if n < 32 then bit lo n else bit hi (n - 32))"
  by (auto simp: wide_def bit_simps dest: bit_imp_le_length)

lemma low_masks: "(3 :: 'a::len word) = mask 2" "(0xF :: 'a::len word) = mask 4"
  by (simp_all add: mask_eq_exp_minus_1)

lemma wide_address: "push_bit 32 (ucast hi) OR (ucast lo AND NOT 0xF) = wide hi lo AND NOT 0xF"
  unfolding low_masks by (rule bit_word_eqI) (auto simp: wide_def bit_simps)

lemma wide_size:
  fixes mh ml vh vl :: u32
  defines "M \<equiv> wide mh ml" and "V \<equiv> wide vh vl"
  shows "push_bit 32 (ucast (mh OR (vh AND NOT mh))) OR ucast ((ml OR (vl AND NOT ml)) AND NOT 0xF) =
    (M OR (V AND NOT M)) AND NOT (mask 4)"
  unfolding low_masks M_def V_def
  by (rule bit_word_eqI) (auto simp: bit_wide bit_simps dest: bit_imp_le_length)

lemma ucast_pow2: "k < 32 \<Longrightarrow> (ucast (2 ^ k :: u32) :: u64) = 2 ^ k"
  by (rule unat_eqI) (simp add: unsigned_ucast_eq unat_pow2 take_bit_nat_eq_self)

text \<open>
  C34. Sizing a base address register finds what the device decodes: for an I/O, a 32-bit or a 64-bit memory register that
  implements all bits from \<open>k\<close> on, \<^verbatim>\<open>readBAR\<close> reports its kind, its base and the size
  \<open>2\<^sup>k\<close>, and although all ones were written to it on the way, every configuration register has its old value
  afterwards, whatever the register holds.
\<close>

theorem readBAR_sizes:
  fixes w :: "'h pci_view" and loc :: pci_location and index :: u8 and h :: 'h
  defines "a \<equiv> configAddress loc (0x10 + index * 4)" and "a4 \<equiv> configAddress loc (0x10 + index * 4 + 4)"
  defines "v \<equiv> cv_reg w h a" and "m \<equiv> cv_mask w a"
  defines "V \<equiv> wide (cv_reg w h a4) v" and "M \<equiv> wide (cv_mask w a4) m"
  assumes "pci_hw io w {a, a4}"
  shows "\<exists>b h'. readBAR io loc index h = (b, h') \<and> cv_reg w h' = cv_reg w h \<and>
    (index < 6 \<and> v AND 1 \<noteq> 0 \<and> m = NOT (mask k) \<and> 2 \<le> k \<and> k < 32 \<and> v AND mask k = v AND 3 \<longrightarrow>
      bar_type b = BarIO \<and> bar_address b = ucast v AND NOT 3 \<and> bar_size b = 2 ^ k) \<and>
    (index < 6 \<and> v \<noteq> 0 \<and> v AND 1 = 0 \<and> drop_bit 1 v AND 3 = 0 \<and> m = NOT (mask k) \<and> 4 \<le> k \<and> k < 32 \<and>
        v AND mask k = v AND 0xF \<longrightarrow>
      bar_type b = BarMMIO32 \<and> bar_address b = ucast v AND NOT 0xF \<and> bar_size b = 2 ^ k) \<and>
    (index < 6 \<and> v AND 1 = 0 \<and> drop_bit 1 v AND 3 = 2 \<and> M = NOT (mask k) \<and> 4 \<le> k \<and> k < 64 \<and>
        V AND mask k = V AND 0xF \<longrightarrow>
      bar_type b = BarMMIO64 \<and> bar_address b = V AND NOT 0xF \<and> bar_size b = 2 ^ k)"
proof (cases "index < 6")
  case False
  then show ?thesis by (auto simp: readBAR_def not_less)
next
  case True
  let ?off = "0x10 + index * 4 :: u8"
  have A: "configAddress loc ?off \<in> {a, a4}" "configAddress loc (?off + 4) \<in> {a, a4}" by (simp_all add: a_def a4_def)
  obtain h1 where h1: "pci_read32 io loc ?off h = (v, h1)" "cv_reg w h1 = cv_reg w h"
    using pci_read32_hw [OF assms(7) A(1), of h] by (auto simp: v_def a_def)
  obtain h2 where h2: "probe_bar io loc ?off v h1 = (m OR (v AND NOT m), h2)" "cv_reg w h2 = cv_reg w h"
    using probe_bar_hw [OF assms(7) A(1), of h1] h1(2) by (auto simp: v_def m_def a_def)
  obtain h3 where h3: "pci_read32 io loc (?off + 4) h2 = (cv_reg w h a4, h3)" "cv_reg w h3 = cv_reg w h"
    using pci_read32_hw [OF assms(7) A(2), of h2] h2(2) by (auto simp: a4_def)
  obtain h4 where h4: "probe_bar io loc (?off + 4) (cv_reg w h a4) h3 =
      (cv_mask w a4 OR (cv_reg w h a4 AND NOT (cv_mask w a4)), h4)" "cv_reg w h4 = cv_reg w h"
    using probe_bar_hw [OF assms(7) A(2), of h3] h3(2) by (auto simp: a4_def)
  have six: "\<not> 6 \<le> index" using True by simp
  define S2 where "S2 = NOT ((m OR (v AND NOT m)) AND NOT 3) + 1"
  define S4 where "S4 = NOT ((m OR (v AND NOT m)) AND NOT 0xF) + 1"
  define SW where "SW = NOT ((M OR (V AND NOT M)) AND NOT (mask 4)) + 1"
  have sizes: "m = NOT (mask k) \<Longrightarrow> v AND mask k = v AND 3 \<Longrightarrow> 2 \<le> k \<Longrightarrow> S2 = 2 ^ k"
      "m = NOT (mask k) \<Longrightarrow> v AND mask k = v AND 0xF \<Longrightarrow> 4 \<le> k \<Longrightarrow> S4 = 2 ^ k"
      "M = NOT (mask k) \<Longrightarrow> V AND mask k = V AND 0xF \<Longrightarrow> 4 \<le> k \<Longrightarrow> SW = 2 ^ k"
    unfolding S2_def S4_def SW_def low_masks by (rule size_of_mask; assumption)+
  note run = readBAR_def Let_def h1(1) h2(1) h3(1) h4(1) case_prod_conv if_not_P [OF six]
  show ?thesis
  proof (cases "v = 0")
    case True
    then show ?thesis using h1(2) unfolding run by simp
  next
    case False
    consider "v AND 1 \<noteq> 0" | "v AND 1 = 0" "drop_bit 1 v AND 3 = 0" | "v AND 1 = 0" "drop_bit 1 v AND 3 = 2"
      | "v AND 1 = 0" "drop_bit 1 v AND 3 \<noteq> 0" "drop_bit 1 v AND 3 \<noteq> 2" by blast
    then show ?thesis
    proof cases
      case 1
      then show ?thesis
        using False h2(2) sizes(1) ucast_pow2 [of k] unfolding run S2_def [symmetric] by auto
    next
      case 2
      then show ?thesis
        using False h2(2) sizes(2) ucast_pow2 [of k] unfolding run S4_def [symmetric] by auto
    next
      case 3
      then show ?thesis
        using False h4(2) sizes(3) unfolding run wide_size wide_address V_def [symmetric] M_def [symmetric] SW_def [symmetric]
        by auto
    next
      case 4
      then show ?thesis using False h2(2) unfolding run by auto
    qed
  qed
qed

end
