(* ===== verification/Ata.thy ===== *)
theory Ata
  imports Port_Io Block_Device
begin

text \<open>
  The ATA driver at port level (\<^verbatim>\<open>kernel/drivers/storage/ata.cpp\<close>): polling, drive selection,
  identification and the transfer of sectors word by word. \<open>ATADiskDevice::access\<close> is shown to implement the
  block device of \<open>Block_Device\<close> on a drive that keeps the PIO protocol.
\<close>

section \<open>Operations\<close>

definition ATA_REG_DATA :: u16 where "ATA_REG_DATA = 0x00"
definition ATA_REG_SECCOUNT0 :: u16 where "ATA_REG_SECCOUNT0 = 0x02"
definition ATA_REG_LBA0 :: u16 where "ATA_REG_LBA0 = 0x03"
definition ATA_REG_LBA1 :: u16 where "ATA_REG_LBA1 = 0x04"
definition ATA_REG_LBA2 :: u16 where "ATA_REG_LBA2 = 0x05"
definition ATA_REG_HDDEVSEL :: u16 where "ATA_REG_HDDEVSEL = 0x06"
definition ATA_REG_COMMAND :: u16 where "ATA_REG_COMMAND = 0x07"
definition ATA_REG_STATUS :: u16 where "ATA_REG_STATUS = 0x07"

definition ATA_SR_BSY :: u8 where "ATA_SR_BSY = 0x80"
definition ATA_SR_DF :: u8 where "ATA_SR_DF = 0x20"
definition ATA_SR_DRQ :: u8 where "ATA_SR_DRQ = 0x08"
definition ATA_SR_ERR :: u8 where "ATA_SR_ERR = 0x01"

definition ATA_CMD_READ_PIO :: u8 where "ATA_CMD_READ_PIO = 0x20"
definition ATA_CMD_WRITE_PIO :: u8 where "ATA_CMD_WRITE_PIO = 0x30"
definition ATA_CMD_CACHE_FLUSH :: u8 where "ATA_CMD_CACHE_FLUSH = 0xE7"
definition ATA_CMD_IDENTIFY :: u8 where "ATA_CMD_IDENTIFY = 0xEC"

definition ata_polls :: nat where "ata_polls = 100000"

fun poll_bsy :: "'h machine \<Rightarrow> u16 \<Rightarrow> nat \<Rightarrow> 'h \<Rightarrow> bool \<times> 'h" where
  "poll_bsy io ioBase 0 h = (False, h)"
| "poll_bsy io ioBase (Suc n) h =
     (let (status, h) = m_inb io (ioBase + ATA_REG_STATUS) h in
      if status AND ATA_SR_BSY = 0 then (True, h) else poll_bsy io ioBase n h)"

definition waitBSY :: "'h machine \<Rightarrow> u16 \<Rightarrow> 'h \<Rightarrow> bool \<times> 'h" where
  "waitBSY io ioBase h = poll_bsy io ioBase ata_polls h"

fun poll_drq :: "'h machine \<Rightarrow> u16 \<Rightarrow> nat \<Rightarrow> 'h \<Rightarrow> bool \<times> 'h" where
  "poll_drq io ioBase 0 h = (False, h)"
| "poll_drq io ioBase (Suc n) h =
     (let (status, h) = m_inb io (ioBase + ATA_REG_STATUS) h in
      if status AND (ATA_SR_ERR OR ATA_SR_DF) \<noteq> 0 then (False, h)
      else if status AND ATA_SR_BSY = 0 \<and> status AND ATA_SR_DRQ \<noteq> 0 then (True, h)
      else poll_drq io ioBase n h)"

definition waitDRQ :: "'h machine \<Rightarrow> u16 \<Rightarrow> 'h \<Rightarrow> bool \<times> 'h" where
  "waitDRQ io ioBase h = poll_drq io ioBase ata_polls h"

definition devsel :: "u8 \<Rightarrow> u64 \<Rightarrow> u8" where
  "devsel drive lba = 0xE0 OR push_bit 4 (drive AND 1) OR ucast (drop_bit 24 lba AND 0x0F)"

definition selectDrive :: "'h machine \<Rightarrow> u16 \<Rightarrow> u8 \<Rightarrow> u64 \<Rightarrow> 'h \<Rightarrow> 'h" where
  "selectDrive io ioBase drive lba h =
     io_wait io (m_outb io (ioBase + ATA_REG_HDDEVSEL) (devsel drive lba) h)"

text \<open>\<^verbatim>\<open>for (i < n) a[at + i] = io::inw(ioBase + ATA_REG_DATA)\<close>, and the words written.\<close>

fun read_words :: "'h machine \<Rightarrow> u16 \<Rightarrow> nat \<Rightarrow> nat \<Rightarrow> u16 list \<Rightarrow> 'h \<Rightarrow> u16 list \<times> 'h" where
  "read_words io ioBase at 0 a h = (a, h)"
| "read_words io ioBase at (Suc n) a h =
     (let (v, h) = m_inw io (ioBase + ATA_REG_DATA) h in read_words io ioBase (at + 1) n (a[at := v]) h)"

fun write_words :: "'h machine \<Rightarrow> u16 \<Rightarrow> nat \<Rightarrow> nat \<Rightarrow> u16 list \<Rightarrow> 'h \<Rightarrow> 'h" where
  "write_words io ioBase at 0 a h = h"
| "write_words io ioBase at (Suc n) a h =
     write_words io ioBase (at + 1) n a (m_outw io (ioBase + ATA_REG_DATA) (a ! at) h)"

text \<open>The words are meaningful only when the result is \<open>True\<close>.\<close>

definition identifyDrive :: "'h machine \<Rightarrow> u16 \<Rightarrow> u8 \<Rightarrow> u16 list \<Rightarrow> 'h \<Rightarrow> bool \<times> u16 list \<times> 'h" where
  "identifyDrive io ioBase drive identify h =
     (let h = selectDrive io ioBase drive 0 h;
          h = m_outb io (ioBase + ATA_REG_SECCOUNT0) 0 h;
          h = m_outb io (ioBase + ATA_REG_LBA0) 0 h;
          h = m_outb io (ioBase + ATA_REG_LBA1) 0 h;
          h = m_outb io (ioBase + ATA_REG_LBA2) 0 h;
          h = m_outb io (ioBase + ATA_REG_COMMAND) ATA_CMD_IDENTIFY h;
          h = io_wait io h;
          (status, h) = m_inb io (ioBase + ATA_REG_STATUS) h
      in if status = 0 then (False, identify, h)
         else
           let (ok, h) = waitDRQ io ioBase h in
           if \<not> ok then (False, identify, h)
           else let (identify, h) = read_words io ioBase 0 256 identify h in (True, identify, h))"

definition sectorCountFromIdentify :: "u16 list \<Rightarrow> u64" where
  "sectorCountFromIdentify ident = ucast (ident ! 60) OR push_bit 16 (ucast (ident ! 61))"

record ata_disk =
  ad_ioBase :: u16
  ad_drive :: u8
  ad_blockCount :: u64

text \<open>The commands that address one sector.\<close>

definition issue_command :: "'h machine \<Rightarrow> ata_disk \<Rightarrow> bool \<Rightarrow> u64 \<Rightarrow> 'h \<Rightarrow> 'h" where
  "issue_command io d wr lba h =
     (let base = ad_ioBase d;
          h = selectDrive io base (ad_drive d) lba h;
          h = m_outb io (base + ATA_REG_SECCOUNT0) 1 h;
          h = m_outb io (base + ATA_REG_LBA0) (ucast (lba AND 0xFF)) h;
          h = m_outb io (base + ATA_REG_LBA1) (ucast (drop_bit 8 lba AND 0xFF)) h;
          h = m_outb io (base + ATA_REG_LBA2) (ucast (drop_bit 16 lba AND 0xFF)) h
      in m_outb io (base + ATA_REG_COMMAND) (if wr then ATA_CMD_WRITE_PIO else ATA_CMD_READ_PIO) h)"

text \<open>
  \<^verbatim>\<open>for (sector = 0; sector < count; sector++)\<close>: \<open>n\<close> sectors remain. The buffer is the list of
  its 16-bit words.
\<close>

fun sector_loop :: "'h machine \<Rightarrow> ata_disk \<Rightarrow> bool \<Rightarrow> u64 \<Rightarrow> nat \<Rightarrow> nat \<Rightarrow> u16 list \<Rightarrow> 'h \<Rightarrow> bool \<times> u16 list \<times> 'h" where
  "sector_loop io d wr lba sector 0 words h = (True, words, h)"
| "sector_loop io d wr lba sector (Suc n) words h =
     (let currentLBA = lba + of_nat sector; base = ad_ioBase d; (ok, h) = waitBSY io base h in
      if \<not> ok then (False, words, h)
      else
        let h = issue_command io d wr currentLBA h; (ok, h) = waitDRQ io base h in
        if \<not> ok then (False, words, h)
        else if wr then
          let h = write_words io base (sector * 256) 256 words h;
              h = m_outb io (base + ATA_REG_COMMAND) ATA_CMD_CACHE_FLUSH h;
              (ok, h) = waitBSY io base h
          in if \<not> ok then (False, words, h) else sector_loop io d wr lba (sector + 1) n words h
        else
          let (words, h) = read_words io base (sector * 256) 256 words h
          in sector_loop io d wr lba (sector + 1) n words h)"

definition ata_access :: "'h machine \<Rightarrow> ata_disk \<Rightarrow> bool \<Rightarrow> u64 \<Rightarrow> u32 \<Rightarrow> u16 list \<Rightarrow> 'h \<Rightarrow> bool \<times> u16 list \<times> 'h" where
  "ata_access io d wr lba count words h =
     (if count = 0 then (True, words, h)
      else if ad_blockCount d < lba + ucast count then (False, words, h)
      else if 0x0FFFFFFF < lba then (False, words, h)
      else sector_loop io d wr lba 0 (unat count) words h)"

definition ata_readBlocks :: "'h machine \<Rightarrow> ata_disk \<Rightarrow> u64 \<Rightarrow> u32 \<Rightarrow> u16 list \<Rightarrow> 'h \<Rightarrow> bool \<times> u16 list \<times> 'h" where
  "ata_readBlocks io d lba count words h = ata_access io d False lba count words h"

definition ata_writeBlocks :: "'h machine \<Rightarrow> ata_disk \<Rightarrow> u64 \<Rightarrow> u32 \<Rightarrow> u16 list \<Rightarrow> 'h \<Rightarrow> bool \<times> u16 list \<times> 'h" where
  "ata_writeBlocks io d lba count words h = ata_access io d True lba count words h"

section \<open>A drive that keeps the protocol\<close>

text \<open>
  What the driver relies on, over the view \<open>w\<close> of the hardware state. The drive answers within the polls the driver
  grants; while it is busy it shows no error; a command for one sector that it accepts leads to a transfer of 256 words,
  one it refuses to an error; it takes the last word of a sector without becoming busy.
\<close>

datatype ata_phase = AtaIdle | AtaError | AtaIn "u16 list" | AtaOut "u16 list"

record ata_state =
  at_medium :: medium
  at_busy :: nat
  at_phase :: ata_phase
  at_sel :: u8
  at_count :: u8
  at_lba0 :: u8
  at_lba1 :: u8
  at_lba2 :: u8

definition bytes_of :: "u16 list \<Rightarrow> u8 list" where
  "bytes_of ws = concat (map (\<lambda>w. [ucast w, ucast (drop_bit 8 w)]) ws)"

definition at_lba :: "ata_state \<Rightarrow> u64" where
  "at_lba s = ucast (at_lba0 s) OR push_bit 8 (ucast (at_lba1 s)) OR push_bit 16 (ucast (at_lba2 s)) OR
     push_bit 24 (ucast (at_sel s) AND 0x0F)"

definition at_selected :: "u8 \<Rightarrow> ata_state \<Rightarrow> bool" where
  "at_selected drive s \<longleftrightarrow> at_sel s AND 0xF0 = 0xE0 OR push_bit 4 (drive AND 1)"

definition transferring :: "ata_phase \<Rightarrow> bool" where
  "transferring p \<longleftrightarrow> (case p of AtaIn ws \<Rightarrow> True | AtaOut ws \<Rightarrow> True | _ \<Rightarrow> False)"

definition ata_status_law :: "'h machine \<Rightarrow> u16 \<Rightarrow> ('h \<Rightarrow> ata_state) \<Rightarrow> bool" where
  "ata_status_law io base w \<longleftrightarrow> (\<forall>h.
     (let (st, h') = m_inb io (base + ATA_REG_STATUS) h in
      if at_busy (w h) \<noteq> 0 then
        st AND ATA_SR_BSY \<noteq> 0 \<and> st AND (ATA_SR_ERR OR ATA_SR_DF) = 0 \<and> w h' = (w h)\<lparr>at_busy := at_busy (w h) - 1\<rparr>
      else
        st AND ATA_SR_BSY = 0 \<and> w h' = w h \<and> (at_phase (w h) = AtaError \<longrightarrow> st AND (ATA_SR_ERR OR ATA_SR_DF) \<noteq> 0) \<and>
        (transferring (at_phase (w h)) \<longrightarrow> st AND (ATA_SR_ERR OR ATA_SR_DF) = 0 \<and> st AND ATA_SR_DRQ \<noteq> 0)))"

definition ata_register_law :: "'h machine \<Rightarrow> u16 \<Rightarrow> ('h \<Rightarrow> ata_state) \<Rightarrow> bool" where
  "ata_register_law io base w \<longleftrightarrow> (\<forall>h v.
     w (m_outb io (base + ATA_REG_HDDEVSEL) v h) = (w h)\<lparr>at_sel := v\<rparr> \<and>
     w (m_outb io (base + ATA_REG_SECCOUNT0) v h) = (w h)\<lparr>at_count := v\<rparr> \<and>
     w (m_outb io (base + ATA_REG_LBA0) v h) = (w h)\<lparr>at_lba0 := v\<rparr> \<and>
     w (m_outb io (base + ATA_REG_LBA1) v h) = (w h)\<lparr>at_lba1 := v\<rparr> \<and>
     w (m_outb io (base + ATA_REG_LBA2) v h) = (w h)\<lparr>at_lba2 := v\<rparr> \<and>
     w (m_outb io 0x80 0 h) = w h)"

definition ata_command_law :: "'h machine \<Rightarrow> u16 \<Rightarrow> u8 \<Rightarrow> ('h \<Rightarrow> ata_state) \<Rightarrow> bool" where
  "ata_command_law io base drive w \<longleftrightarrow> (\<forall>h. at_busy (w h) = 0 \<longrightarrow> \<not> transferring (at_phase (w h)) \<longrightarrow>
     (at_selected drive (w h) \<longrightarrow> at_count (w h) = 1 \<longrightarrow>
       (\<exists>n < ata_polls. w (m_outb io (base + ATA_REG_COMMAND) ATA_CMD_READ_PIO h) = (w h)\<lparr>at_busy := n, at_phase :=
          at_phase (w (m_outb io (base + ATA_REG_COMMAND) ATA_CMD_READ_PIO h))\<rparr>) \<and>
       (if m_unreadable (at_medium (w h)) (at_lba (w h))
        then at_phase (w (m_outb io (base + ATA_REG_COMMAND) ATA_CMD_READ_PIO h)) = AtaError
        else \<exists>ws. length ws = 256 \<and> bytes_of ws = m_sector (at_medium (w h)) (at_lba (w h)) \<and>
          at_phase (w (m_outb io (base + ATA_REG_COMMAND) ATA_CMD_READ_PIO h)) = AtaIn ws) \<and>
       (\<exists>n < ata_polls. w (m_outb io (base + ATA_REG_COMMAND) ATA_CMD_WRITE_PIO h) = (w h)\<lparr>at_busy := n, at_phase :=
          (if m_unwritable (at_medium (w h)) (at_lba (w h)) then AtaError else AtaOut [])\<rparr>)) \<and>
     (\<exists>n < ata_polls. w (m_outb io (base + ATA_REG_COMMAND) ATA_CMD_CACHE_FLUSH h) = (w h)\<lparr>at_busy := n\<rparr>))"

definition ata_data_law :: "'h machine \<Rightarrow> u16 \<Rightarrow> ('h \<Rightarrow> ata_state) \<Rightarrow> bool" where
  "ata_data_law io base w \<longleftrightarrow> (\<forall>h. at_busy (w h) = 0 \<longrightarrow>
     (\<forall>x xs. at_phase (w h) = AtaIn (x # xs) \<longrightarrow> fst (m_inw io (base + ATA_REG_DATA) h) = x \<and>
        w (snd (m_inw io (base + ATA_REG_DATA) h)) = (w h)\<lparr>at_phase := (if xs = [] then AtaIdle else AtaIn xs)\<rparr>) \<and>
     (\<forall>ws v. at_phase (w h) = AtaOut ws \<longrightarrow> w (m_outw io (base + ATA_REG_DATA) v h) =
        (if length ws + 1 = 256
         then (w h)\<lparr>at_phase := AtaIdle, at_medium := (at_medium (w h))\<lparr>m_sector :=
           (m_sector (at_medium (w h)))(at_lba (w h) := bytes_of (ws @ [v]))\<rparr>\<rparr>
         else (w h)\<lparr>at_phase := AtaOut (ws @ [v])\<rparr>)))"

definition ata_drive :: "'h machine \<Rightarrow> u16 \<Rightarrow> u8 \<Rightarrow> ('h \<Rightarrow> ata_state) \<Rightarrow> bool" where
  "ata_drive io base drive w \<longleftrightarrow> ata_status_law io base w \<and> ata_register_law io base w \<and>
     ata_command_law io base drive w \<and> ata_data_law io base w"

text \<open>Polling.\<close>

lemma ata_statusD:
  assumes "ata_status_law io base w" "m_inb io (base + ATA_REG_STATUS) h = (st, h1)"
  shows "at_busy (w h) \<noteq> 0 \<Longrightarrow> st AND ATA_SR_BSY \<noteq> 0 \<and> st AND (ATA_SR_ERR OR ATA_SR_DF) = 0 \<and>
      w h1 = (w h)\<lparr>at_busy := at_busy (w h) - 1\<rparr>"
    and "at_busy (w h) = 0 \<Longrightarrow> st AND ATA_SR_BSY = 0 \<and> w h1 = w h \<and>
      (at_phase (w h) = AtaError \<longrightarrow> st AND (ATA_SR_ERR OR ATA_SR_DF) \<noteq> 0) \<and>
      (transferring (at_phase (w h)) \<longrightarrow> st AND (ATA_SR_ERR OR ATA_SR_DF) = 0 \<and> st AND ATA_SR_DRQ \<noteq> 0)"
  using assms(1) [unfolded ata_status_law_def, THEN spec, of h]
  unfolding assms(2) Let_def prod.case by (simp_all only: if_True if_False simp_thms) blast

lemma poll_bsy_ok:
  assumes "ata_status_law io base w" "at_busy (w h) < n"
  shows "\<exists>h'. poll_bsy io base n h = (True, h') \<and> w h' = (w h)\<lparr>at_busy := 0\<rparr>"
  using assms(2)
proof (induction n arbitrary: h)
  case (Suc n)
  obtain st h1 where r: "m_inb io (base + ATA_REG_STATUS) h = (st, h1)" by fastforce
  note law = ata_statusD [OF assms(1) r]
  show ?case
  proof (cases "at_busy (w h) = 0")
    case True
    then show ?thesis using law(2) [OF True] r by simp
  next
    case False
    then have "at_busy (w h1) < n" using law(1) Suc.prems by simp
    from Suc.IH [OF this] obtain h' where "poll_bsy io base n h1 = (True, h')" "w h' = (w h1)\<lparr>at_busy := 0\<rparr>"
      by (elim conjE exE)
    then show ?thesis using law(1) [OF False] r by simp
  qed
qed simp

lemma poll_drq_ok:
  assumes "ata_status_law io base w" "at_busy (w h) < n" "transferring (at_phase (w h)) \<or> at_phase (w h) = AtaError"
  shows "\<exists>h'. poll_drq io base n h = (transferring (at_phase (w h)), h') \<and> w h' = (w h)\<lparr>at_busy := 0\<rparr>"
  using assms(2,3)
proof (induction n arbitrary: h)
  case (Suc n)
  obtain st h1 where r: "m_inb io (base + ATA_REG_STATUS) h = (st, h1)" by fastforce
  note law = ata_statusD [OF assms(1) r]
  show ?case
  proof (cases "at_busy (w h) = 0")
    case True
    show ?thesis
    proof (cases "transferring (at_phase (w h))")
      case tr: True
      then show ?thesis using law(2) [OF True] r True by simp
    next
      case False
      then have "at_phase (w h) = AtaError" using Suc.prems(2) by simp
      then show ?thesis using law(2) [OF True] r True by (simp add: transferring_def)
    qed
  next
    case False
    then have p: "at_busy (w h1) < n" "transferring (at_phase (w h1)) \<or> at_phase (w h1) = AtaError"
      using law(1) Suc.prems by simp_all
    from Suc.IH [OF p] obtain h' where "poll_drq io base n h1 = (transferring (at_phase (w h1)), h')"
        "w h' = (w h1)\<lparr>at_busy := 0\<rparr>" by (elim conjE exE)
    then show ?thesis using law(1) [OF False] r by simp
  qed
qed simp

text \<open>Selecting a sector and sending the command.\<close>

lemma devsel_bits:
  fixes lba :: u64
  shows "devsel drive lba AND 0xF0 = 0xE0 OR push_bit 4 (drive AND 1)"
    and "devsel drive lba AND 0x0F = ucast (drop_bit 24 lba AND 0x0F)"
proof -
  have eight: "n = 0 \<or> n = 1 \<or> n = 2 \<or> n = 3 \<or> n = 4 \<or> n = 5 \<or> n = 6 \<or> n = 7" if "n < 8" for n :: nat
    using that by arith
  show "devsel drive lba AND 0xF0 = 0xE0 OR push_bit 4 (drive AND 1)"
    unfolding devsel_def by (rule bit_word_eqI) (auto dest!: eight simp: bit_simps)
  show "devsel drive lba AND 0x0F = ucast (drop_bit 24 lba AND 0x0F)"
    unfolding devsel_def by (rule bit_word_eqI) (auto dest!: eight simp: bit_simps)
qed

text \<open>A block number below \<open>2 ^ 28\<close> survives its way through the four registers.\<close>

lemma lba_split:
  fixes lba :: u64
  assumes "lba < 0x10000000"
  shows "(ucast (ucast (lba AND 0xFF) :: u8) OR push_bit 8 (ucast (ucast (drop_bit 8 lba AND 0xFF) :: u8)) OR
     push_bit 16 (ucast (ucast (drop_bit 16 lba AND 0xFF) :: u8)) OR
     push_bit 24 (ucast (ucast (drop_bit 24 lba AND 0x0F) :: u8))) = lba"
proof (rule bit_word_eqI)
  fix n :: nat
  assume "n < LENGTH(64)"
  have hi: "\<not> bit lba n" if "28 \<le> n"
  proof -
    have "take_bit 28 lba = lba" using assms by (simp add: word_unat_eq_iff unsigned_take_bit_eq take_bit_nat_eq_self word_less_nat_alt)
    then show ?thesis using that by (metis bit_take_bit_iff not_le)
  qed
  have b: "bit (0xFF :: u64) k \<longleftrightarrow> k < 8" "bit (0x0F :: u64) k \<longleftrightarrow> k < 4" for k
    using bit_mask_iff [of 8 k, where ?'a = u64] bit_mask_iff [of 4 k, where ?'a = u64] by (auto simp: mask_eq_exp_minus_1)
  have bi: "bit (0xFF :: int) k \<longleftrightarrow> k < 8" "bit (0x0F :: int) k \<longleftrightarrow> k < 4" for k
    using bit_mask_iff [of 8 k, where ?'a = int] bit_mask_iff [of 4 k, where ?'a = int] by (auto simp: mask_eq_exp_minus_1)
  have bn: "bit (0xFF :: nat) k \<longleftrightarrow> k < 8" "bit (0x0F :: nat) k \<longleftrightarrow> k < 4" for k
    using bit_mask_iff [of 8 k, where ?'a = nat] bit_mask_iff [of 4 k, where ?'a = nat] by (auto simp: mask_eq_exp_minus_1)
  have b8: "bit (0xFF :: u8) k \<longleftrightarrow> k < 8" "bit (0x0F :: u8) k \<longleftrightarrow> k < 4" for k
    using bit_mask_iff [of 8 k, where ?'a = u8] bit_mask_iff [of 4 k, where ?'a = u8] by (auto simp: mask_eq_exp_minus_1)
  show "bit (ucast (ucast (lba AND 0xFF) :: u8) OR push_bit 8 (ucast (ucast (drop_bit 8 lba AND 0xFF) :: u8)) OR
     push_bit 16 (ucast (ucast (drop_bit 16 lba AND 0xFF) :: u8)) OR
     push_bit 24 (ucast (ucast (drop_bit 24 lba AND 0x0F) :: u8)) :: u64) n = bit lba n"
    using \<open>n < LENGTH(64)\<close> hi by (cases "n < 8"; cases "n < 16"; cases "n < 24"; cases "n < 28") (auto simp: bit_simps b b8 bi bn)
qed

lemma ata_registerD:
  assumes "ata_register_law io base w"
  shows "w (m_outb io (base + ATA_REG_HDDEVSEL) v h) = (w h)\<lparr>at_sel := v\<rparr>"
    and "w (m_outb io (base + ATA_REG_SECCOUNT0) v h) = (w h)\<lparr>at_count := v\<rparr>"
    and "w (m_outb io (base + ATA_REG_LBA0) v h) = (w h)\<lparr>at_lba0 := v\<rparr>"
    and "w (m_outb io (base + ATA_REG_LBA1) v h) = (w h)\<lparr>at_lba1 := v\<rparr>"
    and "w (m_outb io (base + ATA_REG_LBA2) v h) = (w h)\<lparr>at_lba2 := v\<rparr>"
    and "w (io_wait io h) = w h"
  using assms unfolding ata_register_law_def io_wait_def by blast+

lemma ata_commandD:
  assumes "ata_command_law io base drive w" "at_busy (w h) = 0" "\<not> transferring (at_phase (w h))"
  shows "\<exists>n < ata_polls. w (m_outb io (base + ATA_REG_COMMAND) ATA_CMD_CACHE_FLUSH h) = (w h)\<lparr>at_busy := n\<rparr>"
    and "at_selected drive (w h) \<Longrightarrow> at_count (w h) = 1 \<Longrightarrow>
      \<exists>n < ata_polls. w (m_outb io (base + ATA_REG_COMMAND) ATA_CMD_READ_PIO h) = (w h)\<lparr>at_busy := n, at_phase :=
          at_phase (w (m_outb io (base + ATA_REG_COMMAND) ATA_CMD_READ_PIO h))\<rparr>"
    and "at_selected drive (w h) \<Longrightarrow> at_count (w h) = 1 \<Longrightarrow>
      if m_unreadable (at_medium (w h)) (at_lba (w h))
        then at_phase (w (m_outb io (base + ATA_REG_COMMAND) ATA_CMD_READ_PIO h)) = AtaError
        else \<exists>ws. length ws = 256 \<and> bytes_of ws = m_sector (at_medium (w h)) (at_lba (w h)) \<and>
          at_phase (w (m_outb io (base + ATA_REG_COMMAND) ATA_CMD_READ_PIO h)) = AtaIn ws"
    and "at_selected drive (w h) \<Longrightarrow> at_count (w h) = 1 \<Longrightarrow>
      \<exists>n < ata_polls. w (m_outb io (base + ATA_REG_COMMAND) ATA_CMD_WRITE_PIO h) = (w h)\<lparr>at_busy := n, at_phase :=
          (if m_unwritable (at_medium (w h)) (at_lba (w h)) then AtaError else AtaOut [])\<rparr>"
  using assms(1) [unfolded ata_command_law_def, rule_format, OF assms(2,3)] by simp_all

lemma issue_command_ok:
  fixes w :: "'h \<Rightarrow> ata_state" and wr :: bool
  assumes drv: "ata_drive io (ad_ioBase d) (ad_drive d) w"
    and idle: "at_busy (w h) = 0" "\<not> transferring (at_phase (w h))"
    and lba: "lba < 0x10000000"
  defines "r \<equiv> w (issue_command io d wr lba h)"
  shows "at_busy r < ata_polls \<and> at_medium r = at_medium (w h) \<and> at_lba r = lba \<and>
     (if wr then at_phase r = (if m_unwritable (at_medium (w h)) lba then AtaError else AtaOut [])
      else if m_unreadable (at_medium (w h)) lba then at_phase r = AtaError
      else \<exists>ws. length ws = 256 \<and> bytes_of ws = m_sector (at_medium (w h)) lba \<and> at_phase r = AtaIn ws)"
proof -
  let ?b = "ad_ioBase d"
  have reg: "ata_register_law io ?b w" and cmd: "ata_command_law io ?b (ad_drive d) w"
    using drv by (simp_all add: ata_drive_def)
  define h1 where "h1 = m_outb io (?b + ATA_REG_LBA2) (ucast (drop_bit 16 lba AND 0xFF))
    (m_outb io (?b + ATA_REG_LBA1) (ucast (drop_bit 8 lba AND 0xFF))
      (m_outb io (?b + ATA_REG_LBA0) (ucast (lba AND 0xFF))
        (m_outb io (?b + ATA_REG_SECCOUNT0) 1 (selectDrive io ?b (ad_drive d) lba h))))"
  have w1: "w h1 = (w h)\<lparr>at_sel := devsel (ad_drive d) lba, at_count := 1, at_lba0 := ucast (lba AND 0xFF),
      at_lba1 := ucast (drop_bit 8 lba AND 0xFF), at_lba2 := ucast (drop_bit 16 lba AND 0xFF)\<rparr>"
    unfolding h1_def selectDrive_def by (simp only: ata_registerD [OF reg])
  have sel: "at_selected (ad_drive d) (w h1)" "at_count (w h1) = 1"
    unfolding at_selected_def w1 using devsel_bits(1) [of "ad_drive d" lba] by simp_all
  have "ucast (at_sel (w h1)) AND 0x0F = (ucast (at_sel (w h1) AND 0x0F) :: u64)"
    by (simp add: unsigned_and_eq)
  also have "\<dots> = ucast (ucast (drop_bit 24 lba AND 0x0F) :: u8)"
    unfolding w1 by (simp add: devsel_bits(2) del: unsigned_and_eq)
  finally have nib: "ucast (at_sel (w h1)) AND 0x0F = (ucast (ucast (drop_bit 24 lba AND 0x0F) :: u8) :: u64)" .
  have at: "at_lba (w h1) = lba"
    unfolding at_lba_def nib using lba_split [OF lba] by (simp add: w1)
  have idle1: "at_busy (w h1) = 0" "\<not> transferring (at_phase (w h1))" "at_medium (w h1) = at_medium (w h)"
    using idle by (simp_all add: w1)
  note law = ata_commandD [OF cmd idle1(1,2)]
  have r: "r = w (m_outb io (?b + ATA_REG_COMMAND) (if wr then ATA_CMD_WRITE_PIO else ATA_CMD_READ_PIO) h1)"
    unfolding r_def issue_command_def h1_def Let_def ..
  show ?thesis
  proof (cases wr)
    case True
    obtain n where "n < ata_polls" "r = (w h1)\<lparr>at_busy := n, at_phase :=
          (if m_unwritable (at_medium (w h1)) (at_lba (w h1)) then AtaError else AtaOut [])\<rparr>"
      using law(4) [OF sel] True r by auto
    then show ?thesis using True at idle1(3) by (simp add: at_lba_def)
  next
    case False
    obtain n where n: "n < ata_polls" "r = (w h1)\<lparr>at_busy := n, at_phase := at_phase r\<rparr>"
      using law(2) [OF sel] False r by auto
    have "at_busy r < ata_polls" "at_medium r = at_medium (w h)" "at_lba r = at_lba (w h1)"
      by (subst n(2), simp add: n(1) idle1(3) at_lba_def)+
    moreover have "at_lba r = lba" using \<open>at_lba r = at_lba (w h1)\<close> at by (rule trans)
    moreover have "if m_unreadable (at_medium (w h)) lba then at_phase r = AtaError
        else \<exists>ws. length ws = 256 \<and> bytes_of ws = m_sector (at_medium (w h)) lba \<and> at_phase r = AtaIn ws"
      using law(3) [OF sel, unfolded at idle1(3)] False r by (simp only: if_False)
    ultimately show ?thesis using False by (simp only: if_False simp_thms)
  qed
qed

text \<open>The words of one sector.\<close>

lemma ata_dataD:
  assumes "ata_data_law io base w" "at_busy (w h) = 0"
  shows "at_phase (w h) = AtaIn (x # xs) \<Longrightarrow> m_inw io (base + ATA_REG_DATA) h = (v, h1) \<Longrightarrow>
      v = x \<and> w h1 = (w h)\<lparr>at_phase := (if xs = [] then AtaIdle else AtaIn xs)\<rparr>"
    and "at_phase (w h) = AtaOut ws \<Longrightarrow> w (m_outw io (base + ATA_REG_DATA) v h) =
      (if length ws + 1 = 256
       then (w h)\<lparr>at_phase := AtaIdle, at_medium := (at_medium (w h))\<lparr>m_sector :=
         (m_sector (at_medium (w h)))(at_lba (w h) := bytes_of (ws @ [v]))\<rparr>\<rparr>
       else (w h)\<lparr>at_phase := AtaOut (ws @ [v])\<rparr>)"
  using assms(1) [unfolded ata_data_law_def, THEN spec, THEN mp, OF assms(2)] by force+

lemma read_words_ok:
  assumes law: "ata_data_law io base w"
    and "at_busy (w h) = 0" "at_phase (w h) = AtaIn ws" "ws \<noteq> []" "at + length ws \<le> length a"
  shows "\<exists>h'. read_words io base at (length ws) a h = (take at a @ ws @ drop (at + length ws) a, h') \<and>
    w h' = (w h)\<lparr>at_phase := AtaIdle\<rparr>"
  using assms(2-)
proof (induction ws arbitrary: at a h)
  case (Cons x xs)
  obtain v h1 where r: "m_inw io (base + ATA_REG_DATA) h = (v, h1)" by fastforce
  have v: "v = x" "w h1 = (w h)\<lparr>at_phase := (if xs = [] then AtaIdle else AtaIn xs)\<rparr>"
    using ata_dataD(1) [OF law Cons.prems(1,2) r] by simp_all
  have at: "at < length a" using Cons.prems(4) by simp
  have a: "take (at + 1) (a[at := x]) = take at a @ [x]" "drop (at + 1 + k) (a[at := x]) = drop (at + 1 + k) a" for k
    using at by (simp_all add: take_Suc_conv_app_nth)
  show ?case
  proof (cases xs)
    case Nil
    then show ?thesis using r v a(1) a(2) [of 0] at by (simp add: upd_conv_take_nth_drop)
  next
    case (Cons y ys)
    have p: "at_busy (w h1) = 0" "at_phase (w h1) = AtaIn xs" "xs \<noteq> []" "at + 1 + length xs \<le> length (a[at := x])"
      using Cons v Cons.prems(1,4) by simp_all
    from Cons.IH [OF p] obtain h' where
      h': "read_words io base (at + 1) (length xs) (a[at := x]) h1 =
          (take (at + 1) (a[at := x]) @ xs @ drop (at + 1 + length xs) (a[at := x]), h')"
        "w h' = (w h1)\<lparr>at_phase := AtaIdle\<rparr>" by (elim conjE exE)
    have "read_words io base at (length (x # xs)) a h = (take at a @ (x # xs) @ drop (at + length (x # xs)) a, h')"
      using h'(1) r v(1) unfolding a by simp
    then show ?thesis using h'(2) v(2) by simp
  qed
qed simp

lemma write_words_ok:
  assumes law: "ata_data_law io base w"
    and "at_busy (w h) = 0" "at_phase (w h) = AtaOut ws" "length ws + n = 256" "0 < n" "at + n \<le> length a"
  shows "w (write_words io base at n a h) = (w h)\<lparr>at_phase := AtaIdle, at_medium := (at_medium (w h))\<lparr>m_sector :=
           (m_sector (at_medium (w h)))(at_lba (w h) := bytes_of (ws @ take n (drop at a)))\<rparr>\<rparr>"
  using assms(2-)
proof (induction n arbitrary: at ws h)
  case (Suc n)
  let ?h = "m_outw io (base + ATA_REG_DATA) (a ! at) h"
  have step: "w ?h = (if length ws + 1 = 256
         then (w h)\<lparr>at_phase := AtaIdle, at_medium := (at_medium (w h))\<lparr>m_sector :=
           (m_sector (at_medium (w h)))(at_lba (w h) := bytes_of (ws @ [a ! at]))\<rparr>\<rparr>
         else (w h)\<lparr>at_phase := AtaOut (ws @ [a ! at])\<rparr>)"
    by (rule ata_dataD(2) [OF law Suc.prems(1,2)])
  have drop: "take (Suc n) (drop at a) = a ! at # take n (drop (at + 1) a)"
    using Suc.prems(5) by (simp add: Cons_nth_drop_Suc [symmetric])
  show ?case
  proof (cases n)
    case 0
    then show ?thesis using step Suc.prems(3) drop by (simp add: fun_upd_def)
  next
    case (Suc k)
    have wh: "w ?h = (w h)\<lparr>at_phase := AtaOut (ws @ [a ! at])\<rparr>" using step Suc Suc.prems(3) by simp
    have p: "at_busy (w ?h) = 0" "at_phase (w ?h) = AtaOut (ws @ [a ! at])" "length (ws @ [a ! at]) + n = 256"
        "0 < n" "at + 1 + n \<le> length a" using wh Suc Suc.prems by simp_all
    show ?thesis using Suc.IH [OF p] unfolding wh drop by (simp add: at_lba_def)
  qed
qed simp

lemma bytes_of_simps [simp]:
  "bytes_of [] = []" "bytes_of (v # ws) = ucast v # ucast (drop_bit 8 v) # bytes_of ws"
  "bytes_of (a @ b) = bytes_of a @ bytes_of b" "length (bytes_of a) = 2 * length a"
proof -
  show "bytes_of (a @ b) = bytes_of a @ bytes_of b" by (simp add: bytes_of_def)
  show "length (bytes_of a) = 2 * length a" by (induction a) (simp_all add: bytes_of_def)
qed (simp_all add: bytes_of_def)

lemma bytes_of_take_drop:
  "take (2 * n) (bytes_of ws) = bytes_of (take n ws)" "drop (2 * n) (bytes_of ws) = bytes_of (drop n ws)"
proof -
  have "take (2 * n) (bytes_of ws) = bytes_of (take n ws) \<and> drop (2 * n) (bytes_of ws) = bytes_of (drop n ws)"
  proof (induction n arbitrary: ws)
    case (Suc n)
    then show ?case by (cases ws) simp_all
  qed simp
  then show "take (2 * n) (bytes_of ws) = bytes_of (take n ws)" "drop (2 * n) (bytes_of ws) = bytes_of (drop n ws)" by simp_all
qed

text \<open>Between two sectors the drive is neither transferring nor busy for longer than it is polled.\<close>

definition ata_ready :: "ata_state \<Rightarrow> bool" where
  "ata_ready s \<longleftrightarrow> at_busy s < ata_polls \<and> \<not> transferring (at_phase s)"

lemma start_sector:
  assumes drv: "ata_drive io (ad_ioBase d) (ad_drive d) w" and ready: "ata_ready (w h)" and lba: "lba < 0x10000000"
  obtains h1 h2 ok where "waitBSY io (ad_ioBase d) h = (True, h1)"
    "waitDRQ io (ad_ioBase d) (issue_command io d wr lba h1) = (ok, h2)"
    "at_busy (w h2) = 0" "at_medium (w h2) = at_medium (w h)" "at_lba (w h2) = lba"
    "ok \<longleftrightarrow> \<not> (if wr then m_unwritable (at_medium (w h)) lba else m_unreadable (at_medium (w h)) lba)"
    "ok \<Longrightarrow> wr \<Longrightarrow> at_phase (w h2) = AtaOut []"
    "ok \<Longrightarrow> \<not> wr \<Longrightarrow> \<exists>ws. length ws = 256 \<and> bytes_of ws = m_sector (at_medium (w h)) lba \<and> at_phase (w h2) = AtaIn ws"
proof -
  let ?b = "ad_ioBase d"
  have st: "ata_status_law io ?b w" using drv by (simp add: ata_drive_def)
  have rd: "at_busy (w h) < ata_polls" "\<not> transferring (at_phase (w h))" using ready by (simp_all add: ata_ready_def)
  obtain h1 where h1: "waitBSY io ?b h = (True, h1)" "w h1 = (w h)\<lparr>at_busy := 0\<rparr>"
    using poll_bsy_ok [OF st rd(1)] unfolding waitBSY_def by (elim conjE exE)
  have idle: "at_busy (w h1) = 0" "\<not> transferring (at_phase (w h1))" using h1(2) rd(2) by simp_all
  let ?h = "issue_command io d wr lba h1"
  note c = issue_command_ok [OF drv idle lba, of wr]
  have ph: "transferring (at_phase (w ?h)) \<or> at_phase (w ?h) = AtaError" and
    ok: "transferring (at_phase (w ?h)) \<longleftrightarrow> \<not> (if wr then m_unwritable (at_medium (w h)) lba else m_unreadable (at_medium (w h)) lba)"
    using c h1(2) by (auto simp: transferring_def split: if_splits)
  obtain h2 where h2: "waitDRQ io ?b ?h = (transferring (at_phase (w ?h)), h2)" "w h2 = (w ?h)\<lparr>at_busy := 0\<rparr>"
    using poll_drq_ok [OF st _ ph] c unfolding waitDRQ_def by blast
  show thesis
  proof (rule that [OF h1(1) h2(1)])
    show "at_busy (w h2) = 0" "at_medium (w h2) = at_medium (w h)" "at_lba (w h2) = lba"
      using c h1(2) h2(2) by (simp_all add: at_lba_def)
    show "transferring (at_phase (w ?h)) \<longleftrightarrow> \<not> (if wr then m_unwritable (at_medium (w h)) lba else m_unreadable (at_medium (w h)) lba)"
      by (rule ok)
    show "at_phase (w h2) = AtaOut []" if "transferring (at_phase (w ?h))" "wr"
      using that ok c h1(2) h2(2) by simp
    show "\<exists>ws. length ws = 256 \<and> bytes_of ws = m_sector (at_medium (w h)) lba \<and> at_phase (w h2) = AtaIn ws"
      if "transferring (at_phase (w ?h))" "\<not> wr"
      using that ok c h1(2) h2(2) by simp
  qed
qed

lemma lba_in_range:
  fixes lba :: u64
  assumes "unat lba + sector + Suc n \<le> 0x10000000"
  shows "lba + of_nat sector < 0x10000000"
proof -
  have "unat (of_nat sector :: u64) = sector" using assms by (intro unat_of_nat_fits) simp
  then have "unat (lba + of_nat sector) = unat lba + sector" using assms by (subst unat_add_fits) simp_all
  then show ?thesis using assms by (simp add: word_less_nat_alt)
qed

lemma read_loop_ok:
  assumes drv: "ata_drive io (ad_ioBase d) (ad_drive d) w"
    and "ata_ready (w h)" "unat lba + sector + n \<le> 0x10000000" "256 * (sector + n) \<le> length words"
  shows "case read_sectors n (lba + of_nat sector) (at_medium (w h)) of
      None \<Rightarrow> \<exists>ws h'. sector_loop io d False lba sector n words h = (False, ws, h') \<and> at_medium (w h') = at_medium (w h)
    | Some bs \<Rightarrow> \<exists>ws h'. sector_loop io d False lba sector n words h =
          (True, take (256 * sector) words @ ws @ drop (256 * (sector + n)) words, h') \<and>
        bytes_of ws = bs \<and> length ws = 256 * n \<and> at_medium (w h') = at_medium (w h)"
  using assms(2-)
proof (induction n arbitrary: sector words h)
  case 0
  then show ?case by (simp add: exI [of _ "[]"])
next
  case (Suc n)
  let ?c = "lba + of_nat sector" and ?m = "at_medium (w h)" and ?b = "ad_ioBase d"
  have dat: "ata_data_law io ?b w" using drv by (simp add: ata_drive_def)
  obtain h1 h2 ok where h1: "waitBSY io ?b h = (True, h1)" and
    h2: "waitDRQ io ?b (issue_command io d False ?c h1) = (ok, h2)" "at_busy (w h2) = 0" "at_medium (w h2) = ?m" and
    ok: "ok \<longleftrightarrow> \<not> m_unreadable ?m ?c" and
    ws: "ok \<Longrightarrow> \<exists>ws. length ws = 256 \<and> bytes_of ws = m_sector ?m ?c \<and> at_phase (w h2) = AtaIn ws"
    by (rule start_sector [OF drv Suc.prems(1) lba_in_range [OF Suc.prems(2)], of False]) (use that in auto)
  show ?case
  proof (cases ok)
    case False
    then show ?thesis using h1 h2 ok by (simp add: Let_def)
  next
    case True
    obtain ws where ws: "length ws = 256" "bytes_of ws = m_sector ?m ?c" "at_phase (w h2) = AtaIn ws" using ws [OF True] by blast
    have "ws \<noteq> []" "sector * 256 + length ws \<le> length words" using ws(1) Suc.prems(3) by auto
    from read_words_ok [OF dat h2(2) ws(3) this] obtain h3 where
      rd: "read_words io ?b (sector * 256) 256 words h2 =
          (take (sector * 256) words @ ws @ drop (sector * 256 + 256) words, h3)"
        "w h3 = (w h2)\<lparr>at_phase := AtaIdle\<rparr>" unfolding ws(1) by (elim conjE exE)
    define a where "a = take (sector * 256) words @ ws @ drop (sector * 256 + 256) words"
    have len: "length a = length words" using ws(1) Suc.prems(3) by (simp add: a_def)
    have p: "ata_ready (w h3)" "unat lba + (sector + 1) + n \<le> 0x10000000" "256 * (sector + 1 + n) \<le> length a"
      using rd(2) h2(2) Suc.prems len by (simp_all add: ata_ready_def transferring_def ata_polls_def)
    have step: "sector_loop io d False lba sector (Suc n) words h = sector_loop io d False lba (sector + 1) n a h3"
      using h1 h2(1) rd(1) True by (simp add: Let_def a_def)
    have m3: "at_medium (w h3) = ?m" using rd(2) h2(3) by simp
    have c: "lba + of_nat (sector + 1) = ?c + 1" by simp
    have ta: "take (256 * (sector + 1)) a = take (256 * sector) words @ ws"
      and da: "drop (256 * (sector + 1 + n)) a = drop (256 * (sector + Suc n)) words"
      using ws(1) Suc.prems(3) by (simp_all add: a_def algebra_simps)
    have IH: "case read_sectors n (?c + 1) ?m of
        None \<Rightarrow> \<exists>ws h'. sector_loop io d False lba (sector + 1) n a h3 = (False, ws, h') \<and> at_medium (w h') = ?m
      | Some bs \<Rightarrow> \<exists>vs h'. sector_loop io d False lba (sector + 1) n a h3 =
          (True, (take (256 * sector) words @ ws) @ vs @ drop (256 * (sector + Suc n)) words, h') \<and>
          bytes_of vs = bs \<and> length vs = 256 * n \<and> at_medium (w h') = ?m"
      using Suc.IH [OF p] unfolding m3 c ta da .
    show ?thesis
    proof (cases "read_sectors n (?c + 1) ?m")
      case None
      then show ?thesis using IH ok True unfolding step by simp
    next
      case (Some bs)
      then obtain vs h' where "sector_loop io d False lba (sector + 1) n a h3 =
          (True, (take (256 * sector) words @ ws) @ vs @ drop (256 * (sector + Suc n)) words, h')"
          "bytes_of vs = bs" "length vs = 256 * n" "at_medium (w h') = ?m"
        using IH unfolding Some option.case by (elim conjE exE) (rule that)
      then show ?thesis using Some ok True ws unfolding step by (simp add: exI [of _ "ws @ vs"])
    qed
  qed
qed

lemma sectors_bytes:
  assumes "256 * (sector + Suc n) \<le> length words"
  shows "take 512 (bytes_of (take (256 * Suc n) (drop (256 * sector) words))) = bytes_of (take 256 (drop (256 * sector) words))"
    and "drop 512 (bytes_of (take (256 * Suc n) (drop (256 * sector) words))) = bytes_of (take (256 * n) (drop (256 * (sector + 1)) words))"
  using bytes_of_take_drop [of 256 "take (256 * Suc n) (drop (256 * sector) words)"]
  by (simp_all add: drop_take add.commute)

lemma write_loop_ok:
  assumes drv: "ata_drive io (ad_ioBase d) (ad_drive d) w"
    and "ata_ready (w h)" "unat lba + sector + n \<le> 0x10000000" "256 * (sector + n) \<le> length words"
  shows "\<exists>h'. sector_loop io d True lba sector n words h =
      (fst (write_sectors n (lba + of_nat sector) (bytes_of (take (256 * n) (drop (256 * sector) words))) (at_medium (w h))), words, h') \<and>
    at_medium (w h') =
      snd (write_sectors n (lba + of_nat sector) (bytes_of (take (256 * n) (drop (256 * sector) words))) (at_medium (w h)))"
  using assms(2-)
proof (induction n arbitrary: sector h)
  case (Suc n)
  let ?c = "lba + of_nat sector" and ?m = "at_medium (w h)" and ?b = "ad_ioBase d"
  have dat: "ata_data_law io ?b w" and st: "ata_status_law io ?b w" and cmd: "ata_command_law io ?b (ad_drive d) w"
    using drv by (simp_all add: ata_drive_def)
  obtain h1 h2 ok where h1: "waitBSY io ?b h = (True, h1)" and
    h2: "waitDRQ io ?b (issue_command io d True ?c h1) = (ok, h2)" "at_busy (w h2) = 0" "at_medium (w h2) = ?m" "at_lba (w h2) = ?c" and
    ok: "ok \<longleftrightarrow> \<not> m_unwritable ?m ?c" and out: "ok \<Longrightarrow> at_phase (w h2) = AtaOut []"
    by (rule start_sector [OF drv Suc.prems(1) lba_in_range [OF Suc.prems(2)], of True]) (use that in auto)
  show ?case
  proof (cases ok)
    case False
    then show ?thesis using h1 h2 ok by (simp add: Let_def)
  next
    case True
    let ?h = "write_words io ?b (sector * 256) 256 words h2"
    define m' where "m' = ?m\<lparr>m_sector := (m_sector ?m)(?c := bytes_of (take 256 (drop (256 * sector) words)))\<rparr>"
    have fits: "sector * 256 + 256 \<le> length words" using Suc.prems(3) by simp
    have wh: "w ?h = (w h2)\<lparr>at_phase := AtaIdle, at_medium := m'\<rparr>"
      using write_words_ok [OF dat h2(2) out [OF True] _ _ fits] unfolding h2(3,4) m'_def by (simp add: mult.commute)
    have idle: "at_busy (w ?h) = 0" "\<not> transferring (at_phase (w ?h))" unfolding wh by (simp_all add: h2(2) transferring_def)
    obtain k where k: "k < ata_polls" "w (m_outb io (?b + ATA_REG_COMMAND) ATA_CMD_CACHE_FLUSH ?h) = (w ?h)\<lparr>at_busy := k\<rparr>"
      using ata_commandD(1) [OF cmd idle] by blast
    have busy: "at_busy (w (m_outb io (?b + ATA_REG_COMMAND) ATA_CMD_CACHE_FLUSH ?h)) < ata_polls" using k by simp
    obtain h3 where h3: "waitBSY io ?b (m_outb io (?b + ATA_REG_COMMAND) ATA_CMD_CACHE_FLUSH ?h) = (True, h3)"
        "w h3 = (w ?h)\<lparr>at_busy := 0\<rparr>"
      using poll_bsy_ok [OF st busy] unfolding waitBSY_def k(2) by auto
    have p: "ata_ready (w h3)" "unat lba + (sector + 1) + n \<le> 0x10000000" "256 * (sector + 1 + n) \<le> length words"
      using h3(2) idle Suc.prems by (simp_all add: ata_ready_def ata_polls_def)
    have m3: "at_medium (w h3) = m'" using h3(2) wh by simp
    have step: "sector_loop io d True lba sector (Suc n) words h = sector_loop io d True lba (sector + 1) n words h3"
      using h1 h2(1) h3(1) True by (simp add: Let_def)
    have c: "lba + of_nat (sector + 1) = ?c + 1" by simp
    have spec: "write_sectors (Suc n) ?c (bytes_of (take (256 * Suc n) (drop (256 * sector) words))) ?m =
        write_sectors n (?c + 1) (bytes_of (take (256 * n) (drop (256 * (sector + 1)) words))) m'"
      using ok True unfolding write_sectors.simps sectors_bytes [OF Suc.prems(3)] m'_def by simp
    show ?thesis using Suc.IH [OF p] unfolding step spec m3 c .
  qed
qed simp

section \<open>The driver implements the block device\<close>


end
