(* ===== verification/Kernel_Drivers.thy ===== *)
theory Kernel_Drivers
  imports Device_Model Timer Pci Ata
begin

text \<open>
  The drivers of the kernel on the device model: timer, keyboard and ATA controller, the devices of the PCI bus, and the
  order in which \<^verbatim>\<open>core::initSystems\<close> and \<^verbatim>\<open>drivers::init\<close> bring them up. The
  virtual functions of the three driver classes are one record of operations, and they keep the contract
  \<open>driver_contract\<close>. Objects are known by names: \<^verbatim>\<open>new\<close> returns one that is not in use. Log
  lines are left out.
\<close>

section \<open>The kernel's objects\<close>

datatype driver_class = PitDriver | KeyboardDriver | ATADriver

record 'h kernel = registry +
  k_core :: "'h core_state"
  k_class :: "u64 \<Rightarrow> driver_class"
  k_pci :: "u64 \<Rightarrow> pci_device option"
  k_ata :: "u64 \<Rightarrow> ata_disk option"
  k_pitDriver :: u64
  k_pitDevice :: u64
  k_kbDriver :: u64
  k_kbDevice :: u64

definition used_names :: "'h kernel \<Rightarrow> u64 set" where
  "used_names s = set (r_devices s) \<union> set (r_drivers s) \<union> {0, k_pitDriver s, k_pitDevice s, k_kbDriver s, k_kbDevice s}"

definition new_name :: "'h kernel \<Rightarrow> u64" where
  "new_name s = hd (filter (\<lambda>a. a \<notin> used_names s) (map of_nat [1..<512]))"

text \<open>A new device and a new driver, as their constructors leave them.\<close>

definition new_device :: "string \<Rightarrow> device_type \<Rightarrow> 'h kernel \<Rightarrow> u64 \<times> 'h kernel" where
  "new_device nm t s =
     (let a = new_name s in
      (a, s\<lparr>r_dev := (r_dev s)(a := \<lparr>dev_name = string_of (\<lambda>_. 0) (pci_text nm), dev_type = t, dev_driver = 0, dev_parent = 0\<rparr>)\<rparr>))"

definition new_driver :: "driver_class \<Rightarrow> 'h kernel \<Rightarrow> u64 \<times> 'h kernel" where
  "new_driver c s =
     (let a = new_name s in (a, s\<lparr>k_class := (k_class s)(a := c), r_state := (r_state s)(a := Created)\<rparr>))"

section \<open>The ATA driver\<close>

definition ata_probe :: "u64 \<Rightarrow> 'h kernel \<Rightarrow> bool" where
  "ata_probe d s \<longleftrightarrow> dev_type (r_dev s d) = PCIDeviceType \<and> (\<exists>p. k_pci s d = Some p \<and> isClass p 0x01 0x01)"

text \<open>
  One of the four legacy drives. The disk is registered with its driver set, so that no driver is tried on it: the
  operations given to \<open>registerDevice\<close> are not used.
\<close>

definition no_ops :: "'m registry_scheme driver_ops" where
  "no_ops = \<lparr>op_probe = (\<lambda>_ _ s. (False, s)), op_start = (\<lambda>_ _ s. (False, s)), op_stop = (\<lambda>_ _ s. (False, s))\<rparr>"

definition set_hw :: "'h \<Rightarrow> 'h kernel \<Rightarrow> 'h kernel" where "set_hw h s = s\<lparr>k_core := (k_core s)\<lparr>int_hw := h\<rparr>\<rparr>"

definition add_disk :: "u64 \<Rightarrow> u64 \<Rightarrow> ata_disk \<Rightarrow> 'h kernel \<Rightarrow> 'h kernel" where
  "add_disk drv d disk s =
     (let (a, s) = new_device ''Ata Disk'' BlockDeviceType s;
          s = s\<lparr>k_ata := (k_ata s)(a := Some disk), r_dev := (r_dev s)(a := (r_dev s a)\<lparr>dev_parent := d, dev_driver := drv\<rparr>)\<rparr>
      in snd (registerDevice no_ops a s))"

fun ata_drives :: "'h machine \<Rightarrow> u64 \<Rightarrow> u64 \<Rightarrow> (u16 \<times> u8) list \<Rightarrow> bool \<Rightarrow> 'h kernel \<Rightarrow> bool \<times> 'h kernel" where
  "ata_drives io drv d [] found s = (found, s)"
| "ata_drives io drv d ((base, drive) # rest) found s =
     (let (ok, ident, h) = identifyDrive io base drive (replicate 256 0) (int_hw (k_core s)); s = set_hw h s in
      if \<not> ok then ata_drives io drv d rest found s
      else
        let disk = \<lparr>ad_ioBase = base, ad_drive = drive, ad_blockCount = sectorCountFromIdentify ident\<rparr>
        in ata_drives io drv d rest True (add_disk drv d disk s))"

definition ata_channels :: "(u16 \<times> u8) list" where
  "ata_channels = [(0x1F0, 0), (0x1F0, 1), (0x170, 0), (0x170, 1)]"

definition ata_start :: "'h machine \<Rightarrow> u64 \<Rightarrow> u64 \<Rightarrow> 'h kernel \<Rightarrow> bool \<times> 'h kernel" where
  "ata_start io drv d s =
     (case k_pci s d of
        None \<Rightarrow> (False, s)
      | Some p \<Rightarrow>
          let s = set_hw (enableBusMastering io p (enableIOSpace io p (int_hw (k_core s)))) s;
              (found, s) = ata_drives io drv d ata_channels False s
          in if \<not> found then (False, s) else (True, setState drv Active (set_driver d drv s)))"

definition ata_stop :: "u64 \<Rightarrow> u64 \<Rightarrow> 'h kernel \<Rightarrow> bool \<times> 'h kernel" where
  "ata_stop drv d s = (let s = (if driver_of d s = drv then set_driver d 0 s else s) in (True, setState drv Stopping s))"

section \<open>The virtual functions\<close>

definition core_op :: "('h core_state \<Rightarrow> bool \<times> 'h core_state) \<Rightarrow> 'h kernel \<Rightarrow> bool \<times> 'h kernel" where
  "core_op f s = (let (ok, c) = f (k_core s) in (ok, s\<lparr>k_core := c\<rparr>))"

definition pit_probe :: "u64 \<Rightarrow> 'h kernel \<Rightarrow> bool" where
  [simp]: "pit_probe d s \<longleftrightarrow> dev_type (r_dev s d) = TimerDevice"

definition kb_probe :: "u64 \<Rightarrow> 'h kernel \<Rightarrow> bool" where
  [simp]: "kb_probe d s \<longleftrightarrow> dev_type (r_dev s d) = InputDevice"

definition kernel_probe :: "u64 \<Rightarrow> u64 \<Rightarrow> 'h kernel \<Rightarrow> bool \<times> 'h kernel" where
  "kernel_probe drv d s =
     (case k_class s drv of
        PitDriver \<Rightarrow> pit_probe d s
      | KeyboardDriver \<Rightarrow> kb_probe d s
      | ATADriver \<Rightarrow> ata_probe d s, s)"

definition kernel_start :: "'h machine \<Rightarrow> u64 \<Rightarrow> u64 \<Rightarrow> 'h kernel \<Rightarrow> bool \<times> 'h kernel" where
  "kernel_start io drv d s =
     (case k_class s drv of
        PitDriver \<Rightarrow> core_op (pit_start io) s
      | KeyboardDriver \<Rightarrow> core_op (kb_start io) s
      | ATADriver \<Rightarrow> ata_start io drv d s)"

definition kernel_stop :: "'h machine \<Rightarrow> u64 \<Rightarrow> u64 \<Rightarrow> 'h kernel \<Rightarrow> bool \<times> 'h kernel" where
  "kernel_stop io drv d s =
     (case k_class s drv of
        PitDriver \<Rightarrow> core_op (pit_stop io) s
      | KeyboardDriver \<Rightarrow> core_op (kb_stop io) s
      | ATADriver \<Rightarrow> ata_stop drv d s)"

definition kernel_ops :: "'h machine \<Rightarrow> ('h, unit) kernel_ext registry_scheme driver_ops" where
  "kernel_ops io = \<lparr>op_probe = kernel_probe, op_start = kernel_start io, op_stop = kernel_stop io\<rparr>"

section \<open>Registration\<close>

definition time_registerDriver :: "'h machine \<Rightarrow> 'h kernel \<Rightarrow> bool \<times> 'h kernel" where
  "time_registerDriver io s =
     (let s = (if k_pitDriver s = 0 then let (a, s) = new_driver PitDriver s in s\<lparr>k_pitDriver := a\<rparr> else s)
      in registerDriver (kernel_ops io) (k_pitDriver s) s)"

definition time_registerDevice :: "'h machine \<Rightarrow> 'h kernel \<Rightarrow> bool \<times> 'h kernel" where
  "time_registerDevice io s =
     (let s = (if k_pitDevice s = 0 then let (a, s) = new_device ''pit'' TimerDevice s in s\<lparr>k_pitDevice := a\<rparr> else s)
      in registerDevice (kernel_ops io) (k_pitDevice s) s)"

definition keyboard_registerDriver :: "'h machine \<Rightarrow> 'h kernel \<Rightarrow> bool \<times> 'h kernel" where
  "keyboard_registerDriver io s =
     (let s = (if k_kbDriver s = 0 then let (a, s) = new_driver KeyboardDriver s in s\<lparr>k_kbDriver := a\<rparr> else s)
      in registerDriver (kernel_ops io) (k_kbDriver s) s)"

definition keyboard_registerDevice :: "'h machine \<Rightarrow> 'h kernel \<Rightarrow> bool \<times> 'h kernel" where
  "keyboard_registerDevice io s =
     (let s = (if k_kbDevice s = 0 then let (a, s) = new_device ''ps2-keyboard'' InputDevice s in s\<lparr>k_kbDevice := a\<rparr> else s)
      in registerDevice (kernel_ops io) (k_kbDevice s) s)"

definition ata_registerDriver :: "'h machine \<Rightarrow> 'h kernel \<Rightarrow> 'h kernel" where
  "ata_registerDriver io s = (let (a, s) = new_driver ATADriver s in snd (registerDriver (kernel_ops io) a s))"

definition drivers_init :: "'h machine \<Rightarrow> 'h kernel \<Rightarrow> 'h kernel" where
  "drivers_init io s =
     (let s = snd (time_registerDriver io s);
          s = snd (time_registerDevice io s);
          s = snd (keyboard_registerDriver io s);
          s = snd (keyboard_registerDevice io s)
      in ata_registerDriver io s)"

section \<open>Enumerating the PCI bus\<close>

definition checkFunction :: "'h machine \<Rightarrow> (nat \<Rightarrow> u8) \<Rightarrow> pci_location \<Rightarrow> 'h kernel \<Rightarrow> 'h kernel" where
  "checkFunction io junk loc s =
     (let (a, s) = new_device '''' PCIDeviceType s;
          (p, h) = pci_new io junk loc (int_hw (k_core s));
          s = set_hw h s;
          s = s\<lparr>k_pci := (k_pci s)(a := Some p), r_dev := (r_dev s)(a := (r_dev s a)\<lparr>dev_name := p_name p\<rparr>)\<rparr>
      in snd (registerDevice (kernel_ops io) a s))"

definition check_other :: "'h machine \<Rightarrow> (nat \<Rightarrow> u8) \<Rightarrow> u8 \<Rightarrow> u8 \<Rightarrow> nat \<Rightarrow> 'h kernel \<Rightarrow> 'h kernel" where
  "check_other io junk bus slot func s =
     (let (vendor, h) = pci_read16 io (bus, slot, of_nat func) 0x00 (int_hw (k_core s)); s = set_hw h s
      in if vendor \<noteq> 0xFFFF then checkFunction io junk (bus, slot, of_nat func) s else s)"

definition checkSlot :: "'h machine \<Rightarrow> (nat \<Rightarrow> u8) \<Rightarrow> u8 \<Rightarrow> u8 \<Rightarrow> 'h kernel \<Rightarrow> 'h kernel" where
  "checkSlot io junk bus slot s =
     (let (vendor, h) = pci_read16 io (bus, slot, 0) 0x00 (int_hw (k_core s)); s = set_hw h s in
      if vendor = 0xFFFF then s
      else
        let s = checkFunction io junk (bus, slot, 0) s;
            (headerType, h) = pci_read8 io (bus, slot, 0) 0x0E (int_hw (k_core s));
            s = set_hw h s
        in if headerType AND 0x80 \<noteq> 0 then fold (check_other io junk bus slot) [1..<8] s else s)"

definition checkBus :: "'h machine \<Rightarrow> (nat \<Rightarrow> u8) \<Rightarrow> u8 \<Rightarrow> 'h kernel \<Rightarrow> 'h kernel" where
  "checkBus io junk bus = fold (\<lambda>slot. checkSlot io junk bus (of_nat slot)) [0..<32]"

definition enumerateAndCreateDevices :: "'h machine \<Rightarrow> (nat \<Rightarrow> u8) \<Rightarrow> 'h kernel \<Rightarrow> 'h kernel" where
  "enumerateAndCreateDevices io junk = fold (\<lambda>bus. checkBus io junk (of_nat bus)) [0..<256]"

section \<open>The drivers keep the contract\<close>

lemma new_name_fresh:
  assumes "reg_ok s"
  shows "new_name s \<notin> used_names s"
proof -
  let ?all = "map of_nat [1..<512] :: u64 list"
  have len: "length (r_devices s) = 256" "length (r_drivers s) = 128" using assms by (simp_all add: reg_ok_def MaxDevices_def MaxDrivers_def)
  have "card (used_names s) \<le> 256 + 128 + 5"
  proof -
    have "card {0, k_pitDriver s, k_pitDevice s, k_kbDriver s, k_kbDevice s} \<le> 5"
      using card_length [of "[0, k_pitDriver s, k_pitDevice s, k_kbDriver s, k_kbDevice s]"] by simp
    moreover have "card (set (r_devices s) \<union> set (r_drivers s)) \<le> 256 + 128"
      using card_Un_le [of "set (r_devices s)" "set (r_drivers s)"] card_length [of "r_devices s"] card_length [of "r_drivers s"] len
      by linarith
    ultimately show ?thesis unfolding used_names_def
      using card_Un_le [of "set (r_devices s) \<union> set (r_drivers s)" "{0, k_pitDriver s, k_pitDevice s, k_kbDriver s, k_kbDevice s}"]
      by linarith
  qed
  moreover have "card (set ?all) = 511"
  proof -
    have "inj_on (of_nat :: nat \<Rightarrow> u64) {1..<512}"
      by (rule inj_on_inverseI [where g = unat]) (simp add: unat_of_nat_fits)
    then show ?thesis by (simp add: card_image)
  qed
  moreover have "finite (used_names s)" by (simp add: used_names_def)
  ultimately have "\<not> set ?all \<subseteq> used_names s" using card_mono [of "used_names s" "set ?all"] by linarith
  then have "filter (\<lambda>a. a \<notin> used_names s) ?all \<noteq> []" by (auto simp: filter_empty_conv)
  then have "new_name s \<in> set (filter (\<lambda>a. a \<notin> used_names s) ?all)" unfolding new_name_def by (rule hd_in_set)
  then show ?thesis by simp
qed

lemma new_name_not_registered:
  assumes "reg_ok s"
  shows "new_name s \<notin> set (devs s)" "new_name s \<notin> set (drvs s)" "new_name s \<noteq> 0"
  using new_name_fresh [OF assms] by (auto simp: used_names_def devs_def drvs_def dest: in_set_takeD)

lemma grows_refl: "reg_ok s \<Longrightarrow> driver_of d s = 0 \<or> driver_of d s = drv \<Longrightarrow> grows d drv s s"
  by (auto simp: grows_def)

lemma growsD:
  assumes "grows d drv s t"
  shows "reg_ok t" "drvs t = drvs s" "take (length (devs s)) (devs t) = devs s" "driver_of d t = 0 \<or> driver_of d t = drv"
    "x \<in> set (devs s) \<Longrightarrow> x \<in> set (devs t)" "x \<in> set (devs s) \<Longrightarrow> x \<noteq> d \<Longrightarrow> driver_of x t = driver_of x s"
    "x \<in> set (devs t) \<Longrightarrow> x \<notin> set (devs s) \<Longrightarrow> driver_of x t = drv \<or> driver_of x t = 0"
  using assms starts_subset [of "devs s" "devs t"] unfolding grows_def by blast+

lemma grows_trans:
  assumes "grows d drv s t" "grows d drv t u" "d \<in> set (devs s)"
  shows "grows d drv s u"
proof -
  note t = growsD [OF assms(1)] and u = growsD [OF assms(2)]
  have old: "driver_of x u = driver_of x s" if "x \<in> set (devs s)" "x \<noteq> d" for x
    using u(6) [OF t(5) [OF that(1)] that(2)] t(6) [OF that] by simp
  have new: "driver_of x u = drv \<or> driver_of x u = 0" if "x \<in> set (devs u)" "x \<notin> set (devs s)" for x
  proof (cases "x \<in> set (devs t)")
    case True
    have "x \<noteq> d" using that(2) assms(3) by blast
    then show ?thesis using u(6) [OF True] t(7) [OF True that(2)] by simp
  qed (use u(7) that(1) in blast)
  have "take (length (devs s)) (devs u) = devs s" by (rule starts_trans [OF t(3) u(3)])
  then show ?thesis unfolding grows_def using u(1,2,4) t(2) old new by auto
qed

lemma not_indexed:
  assumes "reg_ok s"
  shows "a \<notin> set (devs s) \<Longrightarrow> index_of a (r_devices s) 0 (r_deviceCount s) = None"
    "a \<notin> set (drvs s) \<Longrightarrow> index_of a (r_drivers s) 0 (r_driverCount s) = None"
  using index_of_take [of 0 "r_deviceCount s" "r_devices s" a] index_of_take [of 0 "r_driverCount s" "r_drivers s" a] assms
  by (auto simp: reg_ok_def devs_def drvs_def in_set_conv_nth split: option.splits)

lemma register_bound:
  assumes "reg_ok s" "a \<noteq> 0" "a \<notin> set (devs s)" "driver_of a s \<noteq> 0"
  shows "snd (registerDevice ops a s) = (if MaxDevices \<le> r_deviceCount s then s
     else s\<lparr>r_devices := (r_devices s)[r_deviceCount s := a], r_deviceCount := r_deviceCount s + 1\<rparr>)"
proof -
  have "index_of a (r_devices s) 0 (r_deviceCount s) = None"
    using not_indexed(1) [OF assms(1)] assms(3) by blast
  then show ?thesis using assms(2,4) by (simp add: registerDevice_def tryBind_device_def driver_of_def Let_def)
qed

lemma append_device_ok:
  assumes "reg_ok s" "a \<noteq> 0" "a \<notin> set (devs s)" "r_deviceCount s < MaxDevices"
    "driver_of a s = 0 \<or> driver_of a s \<in> set (drvs s)"
  defines "s' \<equiv> s\<lparr>r_devices := (r_devices s)[r_deviceCount s := a], r_deviceCount := r_deviceCount s + 1\<rparr>"
  shows "reg_ok s'" "devs s' = devs s @ [a]" "drvs s' = drvs s" "driver_of x s' = driver_of x s"
proof -
  show f: "devs s' = devs s @ [a]" "drvs s' = drvs s" "driver_of x s' = driver_of x s" for x
    using assms(1,4) by (simp_all add: s'_def devs_def drvs_def driver_of_def reg_ok_def take_Suc_conv_app_nth)
  then show "reg_ok s'" using assms by (auto simp: reg_ok_def s'_def)
qed

text \<open>What the ATA driver leaves alone when it starts.\<close>

definition ata_frame :: "u64 \<Rightarrow> 'h kernel \<Rightarrow> 'h kernel \<Rightarrow> bool" where
  "ata_frame drv s s' \<longleftrightarrow> (\<exists>h. k_core s' = (k_core s)\<lparr>int_hw := h\<rparr>) \<and> (\<forall>x. x \<noteq> drv \<longrightarrow> r_state s' x = r_state s x) \<and>
     k_class s' = k_class s \<and> k_pci s' = k_pci s \<and> k_pitDriver s' = k_pitDriver s \<and> k_pitDevice s' = k_pitDevice s \<and>
     k_kbDriver s' = k_kbDriver s \<and> k_kbDevice s' = k_kbDevice s"

lemma ata_frame_refl [simp]: "ata_frame drv s s"
  by (auto simp: ata_frame_def intro!: exI [of _ "int_hw (k_core s)"])

lemma ata_frame_trans: "ata_frame drv s t \<Longrightarrow> ata_frame drv t u \<Longrightarrow> ata_frame drv s u"
  by (auto simp: ata_frame_def)

lemma ata_frame_small [simp]:
  "ata_frame drv s (set_hw h s)" "ata_frame drv s (setState drv st s)" "ata_frame drv s (set_driver d x s)"
  by (auto simp: ata_frame_def set_hw_def setState_def set_driver_def intro: exI [of _ "int_hw (k_core s)"])

lemma kernel_frame [reg_frame]:
  "devs (set_hw h s) = devs s" "drvs (set_hw h s) = drvs s" "driver_of d (set_hw h s) = driver_of d s"
  "reg_ok (set_hw h s) = reg_ok s" "r_deviceCount (set_hw h s) = r_deviceCount s" "r_dev (set_hw h s) = r_dev s"
  "r_state (set_hw h s) = r_state s" "k_class (set_hw h s) = k_class s" "k_core (set_hw h s) = (k_core s)\<lparr>int_hw := h\<rparr>"
  by (simp_all add: set_hw_def devs_def drvs_def driver_of_def reg_ok_def)

lemma add_disk_ok:
  fixes disk :: ata_disk
  assumes ok: "reg_ok s" "drv \<in> set (drvs s)" and d: "d \<in> set (devs s)" "driver_of d s = 0"
  defines "s' \<equiv> add_disk drv d disk s"
  shows "grows d drv s s'" "driver_of d s' = 0" "ata_frame drv s s'"
proof -
  define a where "a = new_name s"
  define s1 where "s1 = (let s = snd (new_device ''Ata Disk'' BlockDeviceType s)
    in s\<lparr>k_ata := (k_ata s)(a := Some disk), r_dev := (r_dev s)(a := (r_dev s a)\<lparr>dev_parent := d, dev_driver := drv\<rparr>)\<rparr>)"
  have s': "s' = snd (registerDevice no_ops a s1)"
    unfolding s'_def add_disk_def s1_def a_def by (simp add: new_device_def Let_def)
  have a: "a \<notin> set (devs s)" "a \<noteq> 0" unfolding a_def using new_name_not_registered [OF ok(1)] by blast+
  have f: "devs s1 = devs s" "drvs s1 = drvs s" "r_deviceCount s1 = r_deviceCount s"
    "driver_of x s1 = (if x = a then drv else driver_of x s)" for x
    by (simp_all add: s1_def new_device_def Let_def devs_def drvs_def driver_of_def a_def)
  have l: "length (r_devices s1) = length (r_devices s)" "length (r_drivers s1) = length (r_drivers s)" "r_driverCount s1 = r_driverCount s"
    by (simp_all add: s1_def new_device_def Let_def)
  have ok1: "reg_ok s1" using ok a unfolding reg_ok_def f l by auto
  have fr: "ata_frame drv s s1"
    by (auto simp: ata_frame_def s1_def new_device_def Let_def intro!: exI [of _ "int_hw (k_core s)"])
  have drv: "drv \<noteq> 0" using ok by (auto simp: reg_ok_def)
  have r: "s' = (if MaxDevices \<le> r_deviceCount s then s1
     else s1\<lparr>r_devices := (r_devices s1)[r_deviceCount s1 := a], r_deviceCount := r_deviceCount s1 + 1\<rparr>)"
    unfolding s' using register_bound [OF ok1 a(2), of no_ops] a(1) drv f by simp
  have "grows d drv s s' \<and> driver_of d s' = 0 \<and> ata_frame drv s s'"
  proof (cases "MaxDevices \<le> r_deviceCount s")
    case True
    then show ?thesis using r ok1 f a(1) d fr by (auto simp: grows_def)
  next
    case False
    have c: "r_deviceCount s1 < MaxDevices" using False f by simp
    have n: "a \<notin> set (devs s1)" "driver_of a s1 = 0 \<or> driver_of a s1 \<in> set (drvs s1)" using a(1) f ok(2) by simp_all
    note g = append_device_ok [OF ok1 a(2) n(1) c n(2)]
    have "ata_frame drv s1 s'" using False r
      by (auto simp: ata_frame_def intro!: exI [of _ "int_hw (k_core s1)"])
    moreover have "grows d drv s s'" "driver_of d s' = 0"
      using False r g f a(1) d by (auto simp: grows_def)
    ultimately show ?thesis using fr by (blast intro: ata_frame_trans)
  qed
  then show "grows d drv s s'" "driver_of d s' = 0" "ata_frame drv s s'" by blast+
qed

lemma ata_drives_ok:
  assumes "reg_ok s" "drv \<in> set (drvs s)" "d \<in> set (devs s)" "driver_of d s = 0" "ata_drives io drv d ds found s = (b, s')"
  shows "grows d drv s s' \<and> driver_of d s' = 0 \<and> ata_frame drv s s'"
  using assms
proof (induction ds arbitrary: found s)
  case Nil
  then show ?case by (auto intro: grows_refl)
next
  case (Cons c ds)
  obtain base drive where c: "c = (base, drive)" by (cases c)
  obtain ok ident h where i: "identifyDrive io base drive (replicate 256 0) (int_hw (k_core s)) = (ok, ident, h)"
    by (metis prod_cases3)
  define t where "t = (if ok then add_disk drv d \<lparr>ad_ioBase = base, ad_drive = drive, ad_blockCount = sectorCountFromIdentify ident\<rparr> (set_hw h s)
    else set_hw h s)"
  have t: "grows d drv s t" "driver_of d t = 0" "ata_frame drv s t"
  proof -
    have p: "reg_ok (set_hw h s)" "drv \<in> set (drvs (set_hw h s))" "d \<in> set (devs (set_hw h s))" "driver_of d (set_hw h s) = 0"
      using Cons.prems by (simp_all add: reg_frame)
    have s: "grows d drv s (set_hw h s)" using Cons.prems by (auto simp: grows_def reg_frame)
    show "grows d drv s t" "driver_of d t = 0" "ata_frame drv s t"
      using add_disk_ok [OF p] grows_trans [OF s _ Cons.prems(3)] s p(4) ata_frame_trans [of drv s "set_hw h s"] unfolding t_def
      by (auto split: if_splits)
  qed
  have "ata_drives io drv d ds (ok \<or> found) t = (b, s')"
    using Cons.prems(5) by (cases ok) (simp_all add: c i t_def)
  moreover have "reg_ok t" "drv \<in> set (drvs t)" "d \<in> set (devs t)"
    using t(1) Cons.prems(2,3) starts_subset [of "devs s" "devs t"] by (auto simp: grows_def)
  ultimately have "grows d drv t s' \<and> driver_of d s' = 0 \<and> ata_frame drv t s'" using Cons.IH t(2) by blast
  then show ?case using grows_trans [OF t(1) _ Cons.prems(3)] ata_frame_trans [OF t(3)] by blast
qed

lemma ata_start_ok:
  assumes "reg_ok s" "drv \<in> set (drvs s)" "d \<in> set (devs s)" "driver_of d s = 0" "ata_start io drv d s = (b, s')"
  shows "grows d drv s s' \<and> (driver_of d s' = drv \<longrightarrow> b) \<and> ata_frame drv s s'"
proof (cases "k_pci s d")
  case None
  then show ?thesis using assms by (auto simp: ata_start_def reg_ok_def intro: grows_refl)
next
  case (Some p)
  define s1 where "s1 = set_hw (enableBusMastering io p (enableIOSpace io p (int_hw (k_core s)))) s"
  obtain found s2 where r: "ata_drives io drv d ata_channels False s1 = (found, s2)" by fastforce
  have g1: "grows d drv s s1" "ata_frame drv s s1" using assms by (auto simp: s1_def grows_def reg_frame)
  have p1: "reg_ok s1" "drv \<in> set (drvs s1)" "d \<in> set (devs s1)" "driver_of d s1 = 0"
    using assms by (simp_all add: s1_def reg_frame)
  note g2 = ata_drives_ok [OF p1 r]
  have g: "grows d drv s s2" "ata_frame drv s s2" "driver_of d s2 = 0"
    using grows_trans [OF g1(1) _ assms(3)] ata_frame_trans [OF g1(2)] g2 by blast+
  have drv: "drv \<noteq> 0" using assms by (auto simp: reg_ok_def)
  have res: "(b, s') = (if \<not> found then (False, s2) else (True, setState drv Active (set_driver d drv s2)))"
    using assms(5) Some r by (auto simp: ata_start_def s1_def Let_def)
  show ?thesis
  proof (cases found)
    case False
    then show ?thesis using g res drv by simp
  next
    case True
    have "reg_ok (set_driver d drv s2)" using g(1) assms(2) by (intro reg_ok_set_driver) (simp_all add: grows_def)
    then have "grows d drv s s'" using g(1) True res by (auto simp: grows_def reg_frame)
    moreover have "ata_frame drv s s'"
      using ata_frame_trans [OF g(2) ata_frame_trans [OF ata_frame_small(3) ata_frame_small(2)]] True res by simp
    ultimately show ?thesis using True res by simp
  qed
qed

lemma core_op_frame:
  assumes "core_op f s = (b, s')"
  shows "devs s' = devs s" "drvs s' = drvs s" "driver_of d s' = driver_of d s" "reg_ok s' = reg_ok s"
  using assms by (auto simp: core_op_def devs_def drvs_def driver_of_def reg_ok_def split: prod.splits)

interpretation kernel_drivers: driver_contract "kernel_ops io" for io :: "'h machine"
proof
  fix s :: "'h kernel" and drv d b s'
  assume s: "reg_ok s" "drv \<in> set (drvs s)" "d \<in> set (devs s)"
  have drv: "drv \<noteq> 0" using s by (auto simp: reg_ok_def)
  { assume "driver_of d s = 0" "op_probe (kernel_ops io) drv d s = (b, s')"
    then show "grows d drv s s' \<and> devs s' = devs s \<and> driver_of d s' = 0"
      using s by (auto simp: kernel_ops_def kernel_probe_def intro: grows_refl) }
  { assume d: "driver_of d s = 0" and r: "op_start (kernel_ops io) drv d s = (b, s')"
    show "grows d drv s s' \<and> (driver_of d s' = drv \<longrightarrow> b)"
    proof (cases "k_class s drv = ATADriver")
      case True
      then have "ata_start io drv d s = (b, s')" using r by (simp add: kernel_ops_def kernel_start_def)
      from ata_start_ok [OF s d this] show ?thesis by blast
    next
      case False
      then obtain f where "core_op f s = (b, s')" using r by (cases "k_class s drv") (auto simp: kernel_ops_def kernel_start_def)
      then show ?thesis using core_op_frame [of f s b s'] s d drv by (auto simp: grows_def)
    qed }
  { assume d: "driver_of d s = drv" and r: "op_stop (kernel_ops io) drv d s = (b, s')"
    show "grows d drv s s' \<and> devs s' = devs s"
    proof (cases "k_class s drv = ATADriver")
      case True
      then have "s' = setState drv Stopping (set_driver d 0 s)" using d r by (auto simp: kernel_ops_def kernel_stop_def ata_stop_def)
      then show ?thesis using s reg_ok_set_driver [of s 0 d] by (auto simp: grows_def reg_frame)
    next
      case False
      then obtain f where "core_op f s = (b, s')" using r by (cases "k_class s drv") (auto simp: kernel_ops_def kernel_stop_def)
      then show ?thesis using core_op_frame [of f s b s'] s d drv by (auto simp: grows_def)
    qed }
qed

section \<open>Reachable registries\<close>

text \<open>
  At power-up the registries are empty. From then on interrupts and other code change the rest of the state at will, and
  devices and drivers come and go in any order: a device is registered when it is new or registered already.
\<close>

definition power_up :: "'h kernel \<Rightarrow> bool" where
  "power_up s \<longleftrightarrow> r_devices s = replicate MaxDevices 0 \<and> r_deviceCount s = 0 \<and> r_drivers s = replicate MaxDrivers 0 \<and>
     r_driverCount s = 0 \<and> k_pitDriver s = 0 \<and> k_pitDevice s = 0 \<and> k_kbDriver s = 0 \<and> k_kbDevice s = 0"

inductive kernel_reach :: "'h machine \<Rightarrow> (nat \<Rightarrow> u8) \<Rightarrow> 'h kernel \<Rightarrow> bool" for io junk where
  powered: "power_up s \<Longrightarrow> kernel_reach io junk s"
| core_step: "kernel_reach io junk s \<Longrightarrow> kernel_reach io junk (s\<lparr>k_core := c\<rparr>)"
| pci_function: "kernel_reach io junk s \<Longrightarrow> kernel_reach io junk (checkFunction io junk loc s)"
| time_driver: "kernel_reach io junk s \<Longrightarrow> kernel_reach io junk (snd (time_registerDriver io s))"
| time_device: "kernel_reach io junk s \<Longrightarrow> k_pitDevice s = 0 \<or> k_pitDevice s \<in> set (devs s) \<Longrightarrow>
    kernel_reach io junk (snd (time_registerDevice io s))"
| keyboard_driver: "kernel_reach io junk s \<Longrightarrow> kernel_reach io junk (snd (keyboard_registerDriver io s))"
| keyboard_device: "kernel_reach io junk s \<Longrightarrow> k_kbDevice s = 0 \<or> k_kbDevice s \<in> set (devs s) \<Longrightarrow>
    kernel_reach io junk (snd (keyboard_registerDevice io s))"
| ata_driver: "kernel_reach io junk s \<Longrightarrow> kernel_reach io junk (ata_registerDriver io s)"
| device_gone: "kernel_reach io junk s \<Longrightarrow> d \<in> set (devs s) \<Longrightarrow>
    kernel_reach io junk (unregisterDevice (kernel_ops io) d s)"
| driver_gone: "kernel_reach io junk s \<Longrightarrow> drv \<in> set (drvs s) \<Longrightarrow>
    kernel_reach io junk (unregisterDriver (kernel_ops io) drv s)"

text \<open>A new object is not registered, so making it leaves the registries consistent.\<close>

lemma new_device_frame:
  assumes "reg_ok s" "new_device nm t s = (a, s')"
  shows "reg_ok s'" "devs s' = devs s" "drvs s' = drvs s" "a \<noteq> 0" "a \<notin> set (devs s)" "driver_of a s' = 0"
    "dev_type (r_dev s' a) = t" "x \<noteq> a \<Longrightarrow> r_dev s' x = r_dev s x" "a \<notin> set (drvs s)"
    "r_deviceCount s' = r_deviceCount s" "r_driverCount s' = r_driverCount s"
    "r_state s' = r_state s" "k_class s' = k_class s" "k_core s' = k_core s"
    "k_pitDriver s' = k_pitDriver s" "k_pitDevice s' = k_pitDevice s" "k_kbDriver s' = k_kbDriver s" "k_kbDevice s' = k_kbDevice s"
proof -
  have r: "a = new_name s" "s' = s\<lparr>r_dev := (r_dev s)(a := \<lparr>dev_name = string_of (\<lambda>_. 0) (pci_text nm), dev_type = t,
      dev_driver = 0, dev_parent = 0\<rparr>)\<rparr>"
    using assms(2) by (auto simp: new_device_def Let_def)
  note n = new_name_not_registered [OF assms(1), folded r(1)]
  show "a \<noteq> 0" "a \<notin> set (devs s)" "a \<notin> set (drvs s)" by (rule n)+
  show f: "devs s' = devs s" "drvs s' = drvs s" "driver_of a s' = 0" "dev_type (r_dev s' a) = t" "x \<noteq> a \<Longrightarrow> r_dev s' x = r_dev s x"
    "r_deviceCount s' = r_deviceCount s" "r_driverCount s' = r_driverCount s"
    "r_state s' = r_state s" "k_class s' = k_class s" "k_core s' = k_core s"
    "k_pitDriver s' = k_pitDriver s" "k_pitDevice s' = k_pitDevice s" "k_kbDriver s' = k_kbDriver s" "k_kbDevice s' = k_kbDevice s" for x
    by (simp_all add: r devs_def drvs_def driver_of_def)
  have "driver_of y s' = driver_of y s" if "y \<in> set (devs s)" for y using that n(1) by (auto simp: r driver_of_def)
  then show "reg_ok s'" using assms(1) f(1,2) by (auto simp: reg_ok_def r)
qed

lemma new_driver_frame:
  assumes "reg_ok s" "new_driver c s = (a, s')"
  shows "reg_ok s'" "devs s' = devs s" "drvs s' = drvs s" "a \<noteq> 0" "a \<notin> set (drvs s)" "driver_of x s' = driver_of x s"
    "k_class s' a = c" "x \<noteq> a \<Longrightarrow> k_class s' x = k_class s x" "x \<noteq> a \<Longrightarrow> r_state s' x = r_state s x" "r_dev s' = r_dev s"
    "r_deviceCount s' = r_deviceCount s" "r_driverCount s' = r_driverCount s" "k_core s' = k_core s"
    "k_pitDriver s' = k_pitDriver s" "k_pitDevice s' = k_pitDevice s" "k_kbDriver s' = k_kbDriver s" "k_kbDevice s' = k_kbDevice s"
  using assms new_name_not_registered [OF assms(1)]
  by (auto simp: new_driver_def Let_def devs_def drvs_def driver_of_def reg_ok_def)

lemma reg_ok_core [simp]: "reg_ok (s\<lparr>k_core := c\<rparr>) = reg_ok s" "devs (s\<lparr>k_core := c\<rparr>) = devs s" "drvs (s\<lparr>k_core := c\<rparr>) = drvs s"
  for s :: "'h kernel"
  by (simp_all add: reg_ok_def devs_def drvs_def driver_of_def)

lemma reg_ok_statics [simp]:
  "reg_ok (s\<lparr>k_pitDriver := a\<rparr>) = reg_ok s" "reg_ok (s\<lparr>k_pitDevice := a\<rparr>) = reg_ok s"
  "reg_ok (s\<lparr>k_kbDriver := a\<rparr>) = reg_ok s" "reg_ok (s\<lparr>k_kbDevice := a\<rparr>) = reg_ok s"
  "devs (s\<lparr>k_pitDriver := a\<rparr>) = devs s" "devs (s\<lparr>k_pitDevice := a\<rparr>) = devs s"
  "devs (s\<lparr>k_kbDriver := a\<rparr>) = devs s" "devs (s\<lparr>k_kbDevice := a\<rparr>) = devs s"
  "drvs (s\<lparr>k_pitDriver := a\<rparr>) = drvs s" "drvs (s\<lparr>k_pitDevice := a\<rparr>) = drvs s"
  "drvs (s\<lparr>k_kbDriver := a\<rparr>) = drvs s" "drvs (s\<lparr>k_kbDevice := a\<rparr>) = drvs s"
  "driver_of x (s\<lparr>k_pitDriver := a\<rparr>) = driver_of x s" "driver_of x (s\<lparr>k_pitDevice := a\<rparr>) = driver_of x s"
  "driver_of x (s\<lparr>k_kbDriver := a\<rparr>) = driver_of x s" "driver_of x (s\<lparr>k_kbDevice := a\<rparr>) = driver_of x s"
  by (simp_all add: reg_ok_def devs_def drvs_def driver_of_def)

lemma register_driver_ok: "reg_ok s \<Longrightarrow> drv \<noteq> 0 \<Longrightarrow> reg_ok (snd (registerDriver (kernel_ops io) drv s))"
  using kernel_drivers.registerDriver_ok [of s drv io] by (metis prod.collapse)

lemma register_device_ok:
  assumes "reg_ok s" "d \<noteq> 0" "driver_of d s = 0 \<or> d \<in> set (devs s)"
  shows "reg_ok (snd (registerDevice (kernel_ops io) d s))"
proof -
  have "driver_of d s = 0 \<or> driver_of d s \<in> set (drvs s)" using assms by (auto simp: reg_ok_def)
  from kernel_drivers.registerDevice_ok [OF assms(1,2) this prod.collapse [symmetric]] show ?thesis by blast
qed

lemma checkFunction_ok:
  assumes "reg_ok s"
  shows "reg_ok (checkFunction io junk loc s)"
proof -
  obtain a s1 where n: "new_device '''' PCIDeviceType s = (a, s1)" by fastforce
  obtain p h where p: "pci_new io junk loc (int_hw (k_core s1)) = (p, h)" by fastforce
  define s2 where "s2 = (set_hw h s1)\<lparr>k_pci := (k_pci s1)(a := Some p), r_dev := (r_dev s1)(a := (r_dev s1 a)\<lparr>dev_name := p_name p\<rparr>)\<rparr>"
  note f = new_device_frame [OF assms n]
  have d: "devs s2 = devs s1" "drvs s2 = drvs s1" "driver_of x s2 = driver_of x s1" for x
    by (simp_all add: s2_def set_hw_def devs_def drvs_def driver_of_def)
  have "reg_ok s2" using f(1) d unfolding reg_ok_def by (simp add: s2_def set_hw_def)
  moreover have "checkFunction io junk loc s = snd (registerDevice (kernel_ops io) a s2)"
    by (simp add: checkFunction_def n p s2_def set_hw_def)
  ultimately show ?thesis using register_device_ok [of s2 a io] f(4,6) d(3) by simp
qed

lemma kernel_reach_reg_ok: "kernel_reach io junk s \<Longrightarrow> reg_ok s"
proof (induction rule: kernel_reach.induct)
  case (powered s)
  then show ?case by (simp add: power_up_def reg_ok_def devs_def drvs_def)
next
  case (time_driver s)
  show ?case
  proof (cases "k_pitDriver s = 0")
    case True
    then show ?thesis using new_driver_frame(1,4) [OF time_driver.IH, of PitDriver]
      by (auto intro!: register_driver_ok simp: time_registerDriver_def Let_def split: prod.splits)
  qed (use time_driver.IH in \<open>auto intro!: register_driver_ok simp: time_registerDriver_def\<close>)
next
  case (keyboard_driver s)
  show ?case
  proof (cases "k_kbDriver s = 0")
    case True
    then show ?thesis using new_driver_frame(1,4) [OF keyboard_driver.IH, of KeyboardDriver]
      by (auto intro!: register_driver_ok simp: keyboard_registerDriver_def Let_def split: prod.splits)
  qed (use keyboard_driver.IH in \<open>auto intro!: register_driver_ok simp: keyboard_registerDriver_def\<close>)
next
  case (time_device s)
  show ?case
  proof (cases "k_pitDevice s = 0")
    case True
    then show ?thesis using new_device_frame(1,4,6) [OF time_device.IH, of "''pit''" TimerDevice]
      by (auto intro!: register_device_ok simp: time_registerDevice_def Let_def split: prod.splits)
  qed (use time_device.IH time_device.hyps in \<open>auto intro!: register_device_ok simp: time_registerDevice_def\<close>)
next
  case (keyboard_device s)
  show ?case
  proof (cases "k_kbDevice s = 0")
    case True
    then show ?thesis using new_device_frame(1,4,6) [OF keyboard_device.IH, of "''ps2-keyboard''" InputDevice]
      by (auto intro!: register_device_ok simp: keyboard_registerDevice_def Let_def split: prod.splits)
  qed (use keyboard_device.IH keyboard_device.hyps in \<open>auto intro!: register_device_ok simp: keyboard_registerDevice_def\<close>)
next
  case (ata_driver s)
  then show ?case using new_driver_frame(1,4) [OF ata_driver.IH, of ATADriver]
    by (auto intro!: register_driver_ok simp: ata_registerDriver_def split: prod.splits)
next
  case (device_gone s d)
  then show ?case using kernel_drivers.unregisterDevice_ok by blast
next
  case (driver_gone s drv)
  then show ?case using kernel_drivers.unregisterDriver_ok by blast
qed (simp_all add: checkFunction_ok)

section \<open>Bringing the drivers up\<close>

text \<open>A driver that wants none of the devices, and a device offered to the drivers in turn.\<close>

lemma probe_setState [simp]: "kernel_probe drv d (setState x st s) = (fst (kernel_probe drv d s), setState x st s)"
  by (cases "k_class s drv") (simp_all add: kernel_probe_def ata_probe_def setState_def)

lemma setState_kernel [simp]:
  "k_class (setState x st s) = k_class s" "k_core (setState x st s) = k_core s" "k_pci (setState x st s) = k_pci s"
  "k_pitDriver (setState x st s) = k_pitDriver s" "k_pitDevice (setState x st s) = k_pitDevice s"
  "k_kbDriver (setState x st s) = k_kbDriver s" "k_kbDevice (setState x st s) = k_kbDevice s"
  "r_state (setState x st s) y = (if y = x then st else r_state s y)"
  by (simp_all add: setState_def)

lemma setState_twice [simp]: "setState drv a (setState drv b s) = setState drv a s"
  by (simp add: setState_def)

lemma setState_same: "r_state s drv = st \<Longrightarrow> setState drv st s = s"
  by (simp add: setState_def fun_upd_idem)

lemma refused:
  assumes "\<not> fst (kernel_probe drv d s)"
  shows "try_driver (kernel_ops io) drv d s = (False, setState drv Registered s)"
  using assms by (simp add: try_driver_def kernel_ops_def Let_def)

lemma nobody_taken:
  assumes "reg_ok s" "r_state s drv = Registered"
    "\<And>d. d \<in> set (devs s) \<Longrightarrow> driver_of d s \<noteq> 0 \<or> \<not> fst (kernel_probe drv d s)"
  shows "tryBind_driver_loop (kernel_ops io) drv i s = s"
proof (induction "MaxDevices - i" arbitrary: i rule: less_induct)
  case less
  show ?case
  proof (cases "i < r_deviceCount s \<and> i < MaxDevices")
    case True
    have "deviceAt i s \<in> set (devs s)" using True deviceAt_devs(1,2) [OF assms(1)] by (metis nth_mem)
    from assms(3) [OF this] have "tryBind_driver_loop (kernel_ops io) drv i s = tryBind_driver_loop (kernel_ops io) drv (i + 1) s"
      using True setState_same [OF assms(2)]
      by (subst tryBind_driver_loop.simps) (auto simp: Let_def refused)
    moreover have "MaxDevices - (i + 1) < MaxDevices - i" using True by linarith
    ultimately show ?thesis using less.hyps [of "i + 1"] by simp
  qed (subst tryBind_driver_loop.simps, auto)
qed

lemma register_quiet_driver:
  assumes "reg_ok s" "drv \<noteq> 0" "drv \<notin> set (drvs s)" "r_driverCount s < MaxDrivers"
    "\<And>d. d \<in> set (devs s) \<Longrightarrow> driver_of d s \<noteq> 0 \<or> \<not> fst (kernel_probe drv d s)"
  shows "snd (registerDriver (kernel_ops io) drv s) =
      setState drv Registered (s\<lparr>r_drivers := (r_drivers s)[r_driverCount s := drv], r_driverCount := r_driverCount s + 1\<rparr>)"
proof -
  let ?s = "setState drv Registered (s\<lparr>r_drivers := (r_drivers s)[r_driverCount s := drv], r_driverCount := r_driverCount s + 1\<rparr>)"
  have "index_of drv (r_drivers s) 0 (r_driverCount s) = None"
    using not_indexed(2) [OF assms(1)] assms(3) by blast
  then have r: "snd (registerDriver (kernel_ops io) drv s) = tryBind_driver_loop (kernel_ops io) drv 0 ?s"
    using assms(2,4) by (simp add: registerDriver_def tryBind_driver_def Let_def)
  have f: "drvs ?s = drvs s @ [drv]" "devs ?s = devs s" "driver_of x ?s = driver_of x s" for x
    using assms(1,4) by (simp_all add: setState_def devs_def drvs_def driver_of_def reg_ok_def take_Suc_conv_app_nth)
  then have ok: "reg_ok ?s" using assms(1-4) by (auto simp: reg_ok_def setState_def)
  have p: "fst (kernel_probe drv d ?s) = fst (kernel_probe drv d s)" for d
    by (cases "k_class s drv") (simp_all add: kernel_probe_def ata_probe_def setState_def)
  show ?thesis unfolding r
    by (rule nobody_taken [OF ok]) (use assms(5) p in \<open>auto simp: f setState_def driver_of_def devs_def\<close>)
qed

lemma offer_refused:
  assumes "i < r_driverCount s" "i < MaxDrivers" "\<not> fst (kernel_probe (r_drivers s ! i) d s)"
  shows "tryBind_device_loop (kernel_ops io) d i s =
    tryBind_device_loop (kernel_ops io) d (i + 1) (setState (r_drivers s ! i) Registered s)"
  using assms by (subst tryBind_device_loop.simps) (simp add: refused)

lemma offer_taken:
  assumes "i < r_driverCount s" "i < MaxDrivers" "r_drivers s ! i = drv" "fst (kernel_probe drv d s)"
    "kernel_start io drv d (setState drv Probing s) = (True, s1)"
  shows "tryBind_device_loop (kernel_ops io) d i s = (True, setState drv Active (set_driver d drv s1))"
  using assms by (subst tryBind_device_loop.simps) (simp add: try_driver_def kernel_ops_def Let_def)

lemma register_new_device:
  assumes "reg_ok s" "a \<noteq> 0" "a \<notin> set (devs s)" "driver_of a s = 0" "r_deviceCount s < MaxDevices"
  shows "snd (registerDevice ops a s) = snd (tryBind_device_loop ops a 0
     (s\<lparr>r_devices := (r_devices s)[r_deviceCount s := a], r_deviceCount := r_deviceCount s + 1\<rparr>))"
proof -
  have "index_of a (r_devices s) 0 (r_deviceCount s) = None"
    using not_indexed(1) [OF assms(1)] assms(3) by blast
  then show ?thesis using assms(2,4,5) by (simp add: registerDevice_def tryBind_device_def driver_of_def Let_def)
qed

text \<open>After the enumeration there are unbound PCI devices and no drivers.\<close>

definition enumerated :: "irq_function option list \<Rightarrow> 'h kernel \<Rightarrow> bool" where
  "enumerated routines s \<longleftrightarrow> reg_ok s \<and> r_driverCount s = 0 \<and> irq_routines (k_core s) = routines \<and>
     (\<forall>d \<in> set (devs s). driver_of d s = 0 \<and> dev_type (r_dev s d) = PCIDeviceType) \<and>
     k_pitDriver s = 0 \<and> k_pitDevice s = 0 \<and> k_kbDriver s = 0 \<and> k_kbDevice s = 0"

lemma enumerated_hw [simp]: "enumerated routines (set_hw h s) = enumerated routines s"
  by (simp add: enumerated_def set_hw_def reg_ok_def devs_def drvs_def driver_of_def)

lemma checkFunction_enumerated:
  assumes "enumerated routines s"
  shows "enumerated routines (checkFunction io junk loc s)"
proof -
  have ok: "reg_ok s" using assms by (simp add: enumerated_def)
  obtain a s1 where n: "new_device '''' PCIDeviceType s = (a, s1)" by fastforce
  obtain p h where p: "pci_new io junk loc (int_hw (k_core s1)) = (p, h)" by fastforce
  define s2 where "s2 = (set_hw h s1)\<lparr>k_pci := (k_pci s1)(a := Some p), r_dev := (r_dev s1)(a := (r_dev s1 a)\<lparr>dev_name := p_name p\<rparr>)\<rparr>"
  note f = new_device_frame [OF ok n]
  have d: "devs s2 = devs s" "drvs s2 = drvs s" "driver_of x s2 = driver_of x s1" for x
    using f(2,3) by (simp_all add: s2_def set_hw_def devs_def drvs_def driver_of_def)
  have "dev_type (r_dev s2 x) = dev_type (r_dev s1 x)" for x by (simp add: s2_def)
  moreover have "driver_of x s1 = driver_of x s \<and> dev_type (r_dev s1 x) = dev_type (r_dev s x)" if "x \<in> set (devs s)" for x
    using f(5) f(8) [of x] that by (metis driver_of_def)
  ultimately have ty: "dev_type (r_dev s2 a) = PCIDeviceType" "driver_of a s2 = 0"
    "\<And>x. x \<in> set (devs s) \<Longrightarrow> driver_of x s2 = 0 \<and> dev_type (r_dev s2 x) = PCIDeviceType"
    using assms d(3) f(6,7) by (simp_all add: enumerated_def)
  have l: "r_deviceCount s2 = r_deviceCount s" "r_driverCount s2 = 0" "irq_routines (k_core s2) = routines"
    "k_pitDriver s2 = 0" "k_pitDevice s2 = 0" "k_kbDriver s2 = 0" "k_kbDevice s2 = 0"
    using assms f(10,11,14-) by (simp_all add: s2_def set_hw_def enumerated_def)
  have ok2: "reg_ok s2" using f(1,2,3) d unfolding reg_ok_def by (simp add: s2_def set_hw_def)
  have r: "checkFunction io junk loc s = snd (registerDevice (kernel_ops io) a s2)"
    by (simp add: checkFunction_def n p s2_def set_hw_def)
  have a2: "a \<notin> set (devs s2)" using f(5) d(1) by simp
  show ?thesis
  proof (cases "r_deviceCount s2 < MaxDevices")
    case True
    let ?t = "s2\<lparr>r_devices := (r_devices s2)[r_deviceCount s2 := a], r_deviceCount := r_deviceCount s2 + 1\<rparr>"
    have "checkFunction io junk loc s = snd (tryBind_device_loop (kernel_ops io) a 0 ?t)"
      unfolding r by (rule register_new_device [OF ok2 f(4) a2 ty(2) True])
    also have "tryBind_device_loop (kernel_ops io) a 0 ?t = (False, ?t)"
      using l(2) by (subst tryBind_device_loop.simps) simp
    finally have r: "checkFunction io junk loc s = ?t" by simp
    have "driver_of a s2 = 0 \<or> driver_of a s2 \<in> set (drvs s2)" using ty(2) by simp
    note g = append_device_ok [OF ok2 f(4) a2 True this]
    show ?thesis unfolding r enumerated_def using g ty l d(1) by auto
  next
    case False
    have "index_of a (r_devices s2) 0 (r_deviceCount s2) = None"
    using not_indexed(1) [OF ok2] a2 by blast
    then have "checkFunction io junk loc s = s2" unfolding r using False by (simp add: registerDevice_def)
    then show ?thesis using ok2 l ty(3) d(1) by (simp add: enumerated_def)
  qed
qed

lemma fold_invariant: "P s \<Longrightarrow> (\<And>x s. P s \<Longrightarrow> P (f x s)) \<Longrightarrow> P (fold f xs s)"
  by (induction xs arbitrary: s) auto

lemma checkSlot_enumerated:
  assumes "enumerated routines s"
  shows "enumerated routines (checkSlot io junk bus slot s)"
proof -
  have other: "enumerated routines (check_other io junk bus slot f t)" if "enumerated routines t" for f and t :: "'a kernel"
    using that by (simp add: check_other_def Let_def checkFunction_enumerated split: prod.split)
  have others: "enumerated routines (fold (check_other io junk bus slot) fs t)" if "enumerated routines t" for fs and t :: "'a kernel"
    by (rule fold_invariant [where P = "enumerated routines", OF that other])
  show ?thesis
    using assms by (simp add: checkSlot_def Let_def checkFunction_enumerated others split: prod.split)
qed

lemma enumerate_ok:
  assumes "enumerated routines s"
  shows "enumerated routines (enumerateAndCreateDevices io junk s)"
proof -
  have bus: "enumerated routines (checkBus io junk b t)" if "enumerated routines t" for b and t :: "'a kernel"
    unfolding checkBus_def by (rule fold_invariant [where P = "enumerated routines", OF that checkSlot_enumerated])
  show ?thesis
    unfolding enumerateAndCreateDevices_def by (rule fold_invariant [where P = "enumerated routines", OF assms bus])
qed

text \<open>The two kinds of registration that bind nothing or exactly the new device.\<close>

lemma quiet_driver_frame:
  fixes drv :: u64 and io :: "'h machine"
  assumes "reg_ok s" "drv \<noteq> 0" "drv \<notin> set (drvs s)" "r_driverCount s < MaxDrivers"
    "\<forall>d \<in> set (devs s). driver_of d s \<noteq> 0 \<or> \<not> fst (kernel_probe drv d s)"
  defines "s' \<equiv> snd (registerDriver (kernel_ops io) drv s)"
  shows "reg_ok s'" "drvs s' = drvs s @ [drv]" "devs s' = devs s" "driver_of x s' = driver_of x s" "r_dev s' = r_dev s"
    "r_state s' x = (if x = drv then Registered else r_state s x)" "k_class s' = k_class s" "k_core s' = k_core s"
    "r_deviceCount s' = r_deviceCount s" "r_driverCount s' = r_driverCount s + 1"
    "k_pitDriver s' = k_pitDriver s" "k_pitDevice s' = k_pitDevice s" "k_kbDriver s' = k_kbDriver s" "k_kbDevice s' = k_kbDevice s"
proof -
  have r: "s' = setState drv Registered (s\<lparr>r_drivers := (r_drivers s)[r_driverCount s := drv], r_driverCount := r_driverCount s + 1\<rparr>)"
    unfolding s'_def by (rule register_quiet_driver [OF assms(1-4)]) (use assms(5) in blast)
  show f: "drvs s' = drvs s @ [drv]" "devs s' = devs s" "driver_of x s' = driver_of x s" "r_dev s' = r_dev s" for x
    using assms(1,4) by (simp_all add: r setState_def devs_def drvs_def driver_of_def reg_ok_def take_Suc_conv_app_nth)
  then show "reg_ok s'" using assms(1-4) by (auto simp: reg_ok_def r setState_def)
  show "r_state s' x = (if x = drv then Registered else r_state s x)" "k_class s' = k_class s" "k_core s' = k_core s"
    "r_deviceCount s' = r_deviceCount s" "r_driverCount s' = r_driverCount s + 1"
    "k_pitDriver s' = k_pitDriver s" "k_pitDevice s' = k_pitDevice s" "k_kbDriver s' = k_kbDriver s" "k_kbDevice s' = k_kbDevice s"
    by (simp_all add: r setState_def)
qed

lemma core_op_frame2:
  assumes "core_op f s = (b, s')"
  shows "r_dev s' = r_dev s" "r_state s' = r_state s" "k_class s' = k_class s" "k_core s' = snd (f (k_core s))"
    "r_deviceCount s' = r_deviceCount s" "r_driverCount s' = r_driverCount s" "b = fst (f (k_core s))"
    "k_pitDriver s' = k_pitDriver s" "k_pitDevice s' = k_pitDevice s" "k_kbDriver s' = k_kbDriver s" "k_kbDevice s' = k_kbDevice s"
  using assms by (auto simp: core_op_def split: prod.splits)

lemma taken_device_frame:
  fixes d :: u64 and io :: "'h machine"
  assumes "reg_ok s" "d \<noteq> 0" "d \<notin> set (devs s)" "driver_of d s = 0" "r_deviceCount s < MaxDevices"
    and ds: "drvs s = pre @ [drv]" "length pre \<le> 1" "\<And>x. x \<in> set pre \<Longrightarrow> \<not> fst (kernel_probe x d s)"
    and drv: "fst (kernel_probe drv d s)" "\<And>t. k_class t = k_class s \<Longrightarrow> kernel_start io drv d t = core_op f t" "\<And>c. fst (f c)"
  defines "s' \<equiv> snd (registerDevice (kernel_ops io) d s)"
  shows "reg_ok s'" "drvs s' = drvs s" "devs s' = devs s @ [d]" "driver_of x s' = (if x = d then drv else driver_of x s)"
    "dev_type (r_dev s' x) = dev_type (r_dev s x)"
    "r_state s' x = (if x = drv then Active else if x \<in> set pre then Registered else r_state s x)"
    "k_class s' = k_class s" "k_core s' = snd (f (k_core s))"
    "r_deviceCount s' = r_deviceCount s + 1" "r_driverCount s' = r_driverCount s"
    "k_pitDriver s' = k_pitDriver s" "k_pitDevice s' = k_pitDevice s" "k_kbDriver s' = k_kbDriver s" "k_kbDevice s' = k_kbDevice s"
proof -
  let ?t = "s\<lparr>r_devices := (r_devices s)[r_deviceCount s := d], r_deviceCount := r_deviceCount s + 1\<rparr>"
  define u where "u = (case pre of [] \<Rightarrow> ?t | p # _ \<Rightarrow> setState p Registered ?t)"
  obtain b v where v: "core_op f (setState drv Probing u) = (b, v)" by fastforce
  note vf = core_op_frame [OF v] core_op_frame2 [OF v]
  have b: b using vf(11) drv(3) by simp
  have "driver_of d s = 0 \<or> driver_of d s \<in> set (drvs s)" using assms(4) by simp
  note tf = append_device_ok [OF assms(1-3,5) this]
  have cnt: "r_driverCount s = length pre + 1" using deviceAt_devs(3) [OF assms(1)] ds(1) by simp
  have nth: "r_drivers s ! i = (pre @ [drv]) ! i" if "i \<le> length pre" for i
    using deviceAt_devs(4) [OF assms(1), of i] cnt that ds(1) by simp
  have pt: "fst (kernel_probe x d ?t) = fst (kernel_probe x d s)" for x
    by (cases "k_class s x") (simp_all add: kernel_probe_def ata_probe_def)
  have ut: "k_class u = k_class s" "r_dev u = r_dev s" "k_core u = k_core s" "r_deviceCount u = r_deviceCount s + 1"
    "r_driverCount u = r_driverCount s" "devs u = devs ?t" "drvs u = drvs ?t" "driver_of x u = driver_of x ?t" "reg_ok u = reg_ok ?t"
    "r_state u x = (if x \<in> set pre then Registered else r_state s x)" "fst (kernel_probe x d u) = fst (kernel_probe x d ?t)"
    "k_pitDriver u = k_pitDriver s" "k_pitDevice u = k_pitDevice s" "k_kbDriver u = k_kbDriver s" "k_kbDevice u = k_kbDevice s"
    "r_drivers u = r_drivers s" for x
    using ds(2) by (cases pre; auto simp: u_def reg_frame)+
  have start: "kernel_start io drv d (setState drv Probing u) = (True, v)"
    using drv(2) [of "setState drv Probing u"] ut(1) v b by (simp add: setState_def)
  have "tryBind_device_loop (kernel_ops io) d 0 ?t = (True, setState drv Active (set_driver d drv v))"
  proof (cases pre)
    case Nil
    have "tryBind_device_loop (kernel_ops io) d 0 u = (True, setState drv Active (set_driver d drv v))"
      by (rule offer_taken [OF _ _ _ _ start]) (use Nil nth [of 0] cnt ut drv(1) pt in \<open>simp_all add: MaxDrivers_def\<close>)
    then show ?thesis using Nil by (simp add: u_def)
  next
    case (Cons p ps)
    then have ps: "pre = [p]" using ds(2) by simp
    have "tryBind_device_loop (kernel_ops io) d 0 ?t = tryBind_device_loop (kernel_ops io) d 1 (setState (r_drivers ?t ! 0) Registered ?t)"
      using offer_refused [of 0 ?t d io] nth [of 0] cnt ps ds(3) pt [of p] by (simp add: MaxDrivers_def)
    also have "setState (r_drivers ?t ! 0) Registered ?t = u" using nth [of 0] ps by (simp add: u_def)
    also have "tryBind_device_loop (kernel_ops io) d 1 u = (True, setState drv Active (set_driver d drv v))"
      by (rule offer_taken [OF _ _ _ _ start]) (use ps nth [of 1] cnt ut drv(1) pt in \<open>simp_all add: MaxDrivers_def\<close>)
    finally show ?thesis .
  qed
  then have r: "s' = setState drv Active (set_driver d drv v)"
    unfolding s'_def using register_new_device [OF assms(1-5), of "kernel_ops io"] by simp
  have vd: "devs v = devs s @ [d]" "drvs v = drvs s" "driver_of x v = driver_of x s" "reg_ok v" for x
    using vf ut tf by (simp_all add: reg_frame)
  show "reg_ok s'" unfolding r using vd ds(1) by (simp add: reg_ok_set_driver)
  show "drvs s' = drvs s" "devs s' = devs s @ [d]" "driver_of x s' = (if x = d then drv else driver_of x s)" for x
    unfolding r using vd by (simp_all add: reg_frame)
  have rd: "r_dev v = r_dev s" using vf ut by (simp add: reg_frame)
  show "dev_type (r_dev s' x) = dev_type (r_dev s x)" unfolding r by (simp add: setState_def set_driver_def rd)
  show "r_state s' x = (if x = drv then Active else if x \<in> set pre then Registered else r_state s x)"
    unfolding r using vf(6) ut(10) by (simp add: setState_def set_driver_def)
  show "k_class s' = k_class s" "k_core s' = snd (f (k_core s))"
    "r_deviceCount s' = r_deviceCount s + 1" "r_driverCount s' = r_driverCount s"
    "k_pitDriver s' = k_pitDriver s" "k_pitDevice s' = k_pitDevice s" "k_kbDriver s' = k_kbDriver s" "k_kbDevice s' = k_kbDevice s"
    unfolding r using vf ut by (simp_all add: setState_def set_driver_def)
qed

text \<open>Whatever the ATA driver finds, it touches no other driver.\<close>

lemma ata_loop_frame:
  assumes "reg_ok s" "drv \<in> set (drvs s)" "k_class s drv = ATADriver"
  shows "ata_frame drv s (tryBind_driver_loop (kernel_ops io) drv i s)"
  using assms
proof (induction "MaxDevices - i" arbitrary: i s rule: less_induct)
  case less
  note prems = less.prems
  show ?case
  proof (cases "i < r_deviceCount s \<and> i < MaxDevices")
    case False
    then have "tryBind_driver_loop (kernel_ops io) drv i s = s" by (subst tryBind_driver_loop.simps) auto
    then show ?thesis by simp
  next
    case True
    then have lt: "MaxDevices - (i + 1) < MaxDevices - i" by linarith
    let ?d = "deviceAt i s"
    have d: "?d \<in> set (devs s)" using True deviceAt_devs(1,2) [OF prems(1)] by (metis nth_mem)
    show ?thesis
    proof (cases "?d = 0 \<or> driver_of ?d s \<noteq> 0")
      case skip: True
      have "tryBind_driver_loop (kernel_ops io) drv i s = tryBind_driver_loop (kernel_ops io) drv (i + 1) s"
        using True skip by (subst tryBind_driver_loop.simps) (simp add: Let_def)
      then show ?thesis using less.hyps [OF lt prems] by simp
    next
      case False
      obtain b s1 where t: "try_driver (kernel_ops io) drv ?d s = (b, s1)" by fastforce
      have dr: "driver_of ?d s = 0" using False by simp
      note g = growsD(1,2) [OF kernel_drivers.try_driver_ok(1) [OF prems(1,2) d dr t]]
      have fr: "ata_frame drv s s1"
      proof (cases "fst (kernel_probe drv ?d s)")
        case False
        then show ?thesis using t by (auto simp: refused)
      next
        case True
        let ?s = "setState drv Probing s"
        obtain ok s2 where st: "ata_start io drv ?d ?s = (ok, s2)" by fastforce
        have p: "reg_ok ?s" "drv \<in> set (drvs ?s)" "?d \<in> set (devs ?s)" "driver_of ?d ?s = 0" using prems d dr by (simp_all add: reg_frame)
        have f2: "ata_frame drv s s2" using ata_start_ok [OF p st] ata_frame_trans [OF ata_frame_small(2)] by blast
        have "s1 = (if ok then setState drv Active (set_driver ?d drv s2) else setState drv Failed s2)"
          using t True st prems(3) by (auto simp: try_driver_def kernel_ops_def kernel_start_def Let_def split: if_splits)
        then show ?thesis
          using ata_frame_trans [OF f2 ata_frame_small(2)] ata_frame_trans [OF ata_frame_trans [OF f2 ata_frame_small(3)] ata_frame_small(2)]
          by simp
      qed
      have c: "drv \<in> set (drvs s1)" "k_class s1 drv = ATADriver" using g(2) prems(2,3) fr by (simp_all add: ata_frame_def)
      have "tryBind_driver_loop (kernel_ops io) drv i s = tryBind_driver_loop (kernel_ops io) drv (i + 1) s1"
        using True False t by (subst tryBind_driver_loop.simps) (simp add: Let_def)
      then show ?thesis using ata_frame_trans [OF fr less.hyps [OF lt g(1) c]] by simp
    qed
  qed
qed

lemma installed:
  "irq_routines (snd (pit_start io c)) = (irq_routines c)[0 := Some TimeHandler]"
  "irq_routines (snd (kb_start io c)) = (irq_routines c)[1 := Some KeyboardHandler]"
  by (simp_all add: pit_start_def kb_start_def irq_installHandler_def controller_enableIRQ_def Let_def)

lemma drivers_init_enumerated:
  fixes io :: "'h machine"
  assumes en: "enumerated routines s" and room: "r_deviceCount s + 2 \<le> MaxDevices"
  defines "s' \<equiv> drivers_init io s"
  shows "reg_ok s' \<and> k_pitDriver s' \<noteq> 0 \<and> driver_of (k_pitDevice s') s' = k_pitDriver s' \<and>
    k_kbDriver s' \<noteq> 0 \<and> driver_of (k_kbDevice s') s' = k_kbDriver s' \<and>
    irq_routines (k_core s') = routines[0 := Some TimeHandler, 1 := Some KeyboardHandler] \<and>
    r_state s' (k_kbDriver s') = Active \<and> r_state s' (k_pitDriver s') = Registered"
proof -
  have ok: "reg_ok s" "r_driverCount s = 0" "drvs s = []" using en by (simp_all add: enumerated_def drvs_def)
  text \<open>The timer's driver wants none of the PCI devices.\<close>
  obtain a t1 where n1: "new_driver PitDriver s = (a, t1)" by fastforce
  note f1 = new_driver_frame [OF ok(1) n1]
  define u1 where "u1 = t1\<lparr>k_pitDriver := a\<rparr>"
  define s1 where "s1 = snd (registerDriver (kernel_ops io) a u1)"
  have s1: "snd (time_registerDriver io s) = s1"
    using en n1 by (simp add: time_registerDriver_def enumerated_def s1_def u1_def)
  have u1: "reg_ok u1" "a \<notin> set (drvs u1)" "r_driverCount u1 < MaxDrivers" "devs u1 = devs s" "drvs u1 = []" "k_class u1 a = PitDriver"
    "driver_of x u1 = driver_of x s" "r_dev u1 = r_dev s" "k_core u1 = k_core s" "r_deviceCount u1 = r_deviceCount s"
    "k_pitDriver u1 = a" "k_pitDevice u1 = 0" "k_kbDriver u1 = 0" "k_kbDevice u1 = 0" for x
    using f1 ok en by (simp_all add: u1_def MaxDrivers_def enumerated_def)
  have c1: "r_driverCount u1 = 0" using f1 ok by (simp add: u1_def)
  have q1: "\<forall>d \<in> set (devs u1). driver_of d u1 \<noteq> 0 \<or> \<not> fst (kernel_probe a d u1)"
    using en u1(4,6,8) by (simp add: kernel_probe_def enumerated_def)
  note g1 = quiet_driver_frame [OF u1(1) f1(4) u1(2,3) q1, where io = io, folded s1_def]
  text \<open>Its device is offered to it.\<close>
  obtain b t2 where n2: "new_device ''pit'' TimerDevice s1 = (b, t2)" by fastforce
  note f2 = new_device_frame [OF g1(1) n2]
  define u2 where "u2 = t2\<lparr>k_pitDevice := b\<rparr>"
  define s2 where "s2 = snd (registerDevice (kernel_ops io) b u2)"
  have s2: "snd (time_registerDevice io s1) = s2"
    using n2 g1(12) u1(12) by (simp add: time_registerDevice_def s2_def u2_def)
  have u2: "reg_ok u2" "b \<notin> set (devs u2)" "driver_of b u2 = 0" "r_deviceCount u2 < MaxDevices" "drvs u2 = [] @ [a]"
    "k_class u2 a = PitDriver" "dev_type (r_dev u2 b) = TimerDevice" "devs u2 = devs s" "k_core u2 = k_core s"
    "r_deviceCount u2 = r_deviceCount s" "r_driverCount u2 = 1"
    "k_pitDriver u2 = a" "k_pitDevice u2 = b" "k_kbDriver u2 = 0" "k_kbDevice u2 = 0"
    using f2 g1 u1 c1 f1(4) room ok by (simp_all add: u2_def)
  have p2: "fst (kernel_probe a b u2)" "\<And>t. k_class t = k_class u2 \<Longrightarrow> kernel_start io a b t = core_op (pit_start io) t"
    "\<And>c :: 'h core_state. fst (pit_start io c)"
    using u2(6,7) by (simp_all add: kernel_probe_def kernel_start_def pit_start_def Let_def)
  note g2 = taken_device_frame [OF u2(1) f2(4) u2(2-5) _ _ p2, simplified, folded s2_def]
  have ty2: "driver_of d u2 = 0 \<and> dev_type (r_dev u2 d) = PCIDeviceType" if "d \<in> set (devs s)" for d
  proof -
    have "d \<noteq> b" using that f2(5) g1(3) u1(4) by auto
    then have "r_dev u2 d = r_dev s d" using f2(8) g1(5) u1(8) by (simp add: u2_def)
    then show ?thesis using en that by (simp add: enumerated_def driver_of_def)
  qed
  text \<open>The keyboard's driver wants none of the PCI devices; the timer is bound.\<close>
  obtain c t3 where n3: "new_driver KeyboardDriver s2 = (c, t3)" by fastforce
  note f3 = new_driver_frame [OF g2(1) n3]
  define u3 where "u3 = t3\<lparr>k_kbDriver := c\<rparr>"
  define s3 where "s3 = snd (registerDriver (kernel_ops io) c u3)"
  have s3: "snd (keyboard_registerDriver io s2) = s3"
    using n3 g2(13) u2(14) by (simp add: keyboard_registerDriver_def s3_def u3_def)
  have ca: "c \<noteq> a" using f3(5) g2(2) u2(5) by auto
  have u3: "reg_ok u3" "c \<notin> set (drvs u3)" "r_driverCount u3 < MaxDrivers" "devs u3 = devs s @ [b]" "drvs u3 = [a]"
    "k_class u3 c = KeyboardDriver" "k_class u3 a = PitDriver" "driver_of x u3 = driver_of x s2" "r_dev u3 = r_dev s2"
    "r_deviceCount u3 = r_deviceCount s + 1" "irq_routines (k_core u3) = routines[0 := Some TimeHandler]"
    "k_pitDriver u3 = a" "k_pitDevice u3 = b" "k_kbDriver u3 = c" "k_kbDevice u3 = 0" for x
    using f3 g2 u2 ca en by (simp_all add: u3_def MaxDrivers_def enumerated_def installed(1))
  have q3: "\<forall>d \<in> set (devs u3). driver_of d u3 \<noteq> 0 \<or> \<not> fst (kernel_probe c d u3)"
  proof
    fix d assume that: "d \<in> set (devs u3)"
    show "driver_of d u3 \<noteq> 0 \<or> \<not> fst (kernel_probe c d u3)"
    proof (cases "d = b")
    case True
    then show ?thesis using u3(8) g2(4) f1(4) by simp
  next
    case False
    then have "d \<in> set (devs s)" using that u3(4) by simp
    then show ?thesis using ty2 u3(6,9) g2(5) by (simp add: kernel_probe_def)
    qed
  qed
  note g3 = quiet_driver_frame [OF u3(1) f3(4) u3(2,3) q3, where io = io, folded s3_def]
  text \<open>Its device is offered first to the timer's driver, which declines, and then to it.\<close>
  obtain e t4 where n4: "new_device ''ps2-keyboard'' InputDevice s3 = (e, t4)" by fastforce
  note f4 = new_device_frame [OF g3(1) n4]
  define u4 where "u4 = t4\<lparr>k_kbDevice := e\<rparr>"
  define s4 where "s4 = snd (registerDevice (kernel_ops io) e u4)"
  have s4: "snd (keyboard_registerDevice io s3) = s4"
    using n4 g3(14) u3(15) by (simp add: keyboard_registerDevice_def s4_def u4_def)
  have u4: "reg_ok u4" "e \<notin> set (devs u4)" "driver_of e u4 = 0" "r_deviceCount u4 < MaxDevices" "drvs u4 = [a] @ [c]"
    "k_class u4 c = KeyboardDriver" "k_class u4 a = PitDriver" "dev_type (r_dev u4 e) = InputDevice" "devs u4 = devs s @ [b]"
    "irq_routines (k_core u4) = routines[0 := Some TimeHandler]"
    "k_pitDriver u4 = a" "k_pitDevice u4 = b" "k_kbDriver u4 = c" "k_kbDevice u4 = e"
    using f4 g3 u3 f3(4) room by (simp_all add: u4_def)
  have p4: "\<And>x. x \<in> set [a] \<Longrightarrow> \<not> fst (kernel_probe x e u4)" "fst (kernel_probe c e u4)"
    "\<And>t. k_class t = k_class u4 \<Longrightarrow> kernel_start io c e t = core_op (kb_start io) t"
    "\<And>k :: 'h core_state. fst (kb_start io k)"
    using u4(6,7,8) by (simp_all add: kernel_probe_def kernel_start_def kb_start_def)
  note g4 = taken_device_frame [OF u4(1) f4(4) u4(2-5) _ p4, simplified, folded s4_def]
  have be: "b \<noteq> e" using u4(2,9) by auto
  have db: "driver_of b u4 = a" using f4(8) [OF be] g3(4) u3(8) g2(4) by (simp add: u4_def driver_of_def)
  text \<open>The ATA driver leaves all that alone.\<close>
  obtain f t5 where n5: "new_driver ATADriver s4 = (f, t5)" by fastforce
  note f5 = new_driver_frame [OF g4(1) n5]
  have f: "f \<noteq> a" "f \<noteq> c" using f5(5) g4(2) u4(5) by auto
  have s': "s' = snd (registerDriver (kernel_ops io) f t5)"
    unfolding s'_def drivers_init_def Let_def s1 s2 s3 s4 by (simp add: ata_registerDriver_def n5)
  define t6 where "t6 = setState f Registered (t5\<lparr>r_drivers := (r_drivers t5)[r_driverCount t5 := f], r_driverCount := r_driverCount t5 + 1\<rparr>)"
  have cnt: "r_driverCount t5 = 2" using deviceAt_devs(3) [OF f5(1)] f5(3) g4(2) u4(5) by simp
  have room6: "r_driverCount t5 < MaxDrivers" by (simp add: cnt MaxDrivers_def)
  have "index_of f (r_drivers t5) 0 (r_driverCount t5) = None"
    using not_indexed(2) [OF f5(1)] f5(3,5) by simp
  then have s6: "s' = tryBind_driver_loop (kernel_ops io) f 0 t6"
    using f5(4) cnt by (simp add: s' registerDriver_def tryBind_driver_def Let_def t6_def MaxDrivers_def)
  have d6: "drvs t6 = drvs t5 @ [f]" "devs t6 = devs t5" "driver_of x t6 = driver_of x t5" for x
    using f5(1) room6 by (simp_all add: t6_def setState_def devs_def drvs_def driver_of_def reg_ok_def take_Suc_conv_app_nth)
  have "reg_ok t6" using f5(1,3-5) d6 cnt by (auto simp: reg_ok_def t6_def setState_def MaxDrivers_def)
  moreover have "f \<in> set (drvs t6)" "k_class t6 f = ATADriver" using d6(1) f5(7) by (simp_all add: t6_def)
  ultimately have frame: "ata_frame f t6 s'" and
    reg: "reg_ok s'" "\<forall>x \<in> set (devs t6). driver_of x t6 \<noteq> 0 \<longrightarrow> driver_of x s' = driver_of x t6"
    unfolding s6 using ata_loop_frame [of t6 f io 0] kernel_drivers.tryBind_driver_loop_ok [of t6 f io 0] by blast+
  have st: "r_state t6 c = Active" "r_state t6 a = Registered"
    using f f5(9) [of a] f5(9) [of c] g4(6) ca by (simp_all add: t6_def)
  have mem: "b \<in> set (devs t6)" "e \<in> set (devs t6)" "driver_of b t6 = a" "driver_of e t6 = c"
    using d6 f5(2,6) g4(3,4) u4(9) be db by simp_all
  have k: "k_pitDriver t6 = a" "k_pitDevice t6 = b" "k_kbDriver t6 = c" "k_kbDevice t6 = e"
    "irq_routines (k_core t6) = routines[0 := Some TimeHandler, 1 := Some KeyboardHandler]"
    using f5(13-17) g4(8,11-14) u4(10-14) by (simp_all add: t6_def installed(2))
  show ?thesis
    using frame reg mem k st f f1(4) f3(4) by (auto simp: ata_frame_def)
qed

text \<open>
  C31. Power-up, the scan of the PCI bus and the start of the drivers, on any hardware: when the scan leaves room for two
  more devices, the registries end consistent, the timer and the keyboard are each bound to their driver, lines 0 and 1 have
  the handlers of the two drivers and the other lines none, and the keyboard's driver is active; but the timer's driver,
  bound and running, is left in state \<^verbatim>\<open>Registered\<close>, because offering it the keyboard reset its
  state.
\<close>

theorem drivers_boot:
  fixes io :: "'h machine" and junk :: "nat \<Rightarrow> u8"
  assumes "power_up s" "irq_routines (k_core s) = replicate 16 None"
    "r_deviceCount (enumerateAndCreateDevices io junk s) + 2 \<le> MaxDevices"
  defines "s' \<equiv> drivers_init io (enumerateAndCreateDevices io junk s)"
  shows "reg_ok s' \<and> k_pitDriver s' \<noteq> 0 \<and> driver_of (k_pitDevice s') s' = k_pitDriver s' \<and>
    k_kbDriver s' \<noteq> 0 \<and> driver_of (k_kbDevice s') s' = k_kbDriver s' \<and>
    irq_routines (k_core s') = [Some TimeHandler, Some KeyboardHandler] @ replicate 14 None \<and>
    r_state s' (k_kbDriver s') = Active \<and> r_state s' (k_pitDriver s') = Registered"
proof -
  have "enumerated (replicate 16 None) s"
    using assms(1,2) by (simp add: power_up_def enumerated_def reg_ok_def devs_def drvs_def)
  then have "enumerated (replicate 16 None) (enumerateAndCreateDevices io junk s)" by (rule enumerate_ok)
  note r = drivers_init_enumerated [OF this assms(3), of io, folded s'_def]
  have "(replicate 16 None)[0 := Some TimeHandler, 1 := Some KeyboardHandler] =
      [Some TimeHandler, Some KeyboardHandler] @ replicate 14 None"
    by (simp add: numeral_eq_Suc)
  then show ?thesis using r by simp
qed

text \<open>
  C30. However devices and drivers come and go - found on the bus, registered by their drivers, removed, in any order and
  number, past the capacity of the tables too - the two registries stay consistent: no entry twice or null, and no
  registered device bound to a driver that is not registered.
\<close>

theorem registries_consistent:
  assumes "kernel_reach io junk s"
  shows "distinct (devs s) \<and> distinct (drvs s) \<and> 0 \<notin> set (devs s) \<and> 0 \<notin> set (drvs s) \<and>
    length (devs s) = r_deviceCount s \<and> r_deviceCount s \<le> MaxDevices \<and> length (drvs s) = r_driverCount s \<and> r_driverCount s \<le> MaxDrivers \<and>
    (\<forall>d \<in> set (devs s). driver_of d s = 0 \<or> driver_of d s \<in> set (drvs s))"
proof -
  note ok = kernel_reach_reg_ok [OF assms]
  show ?thesis using ok deviceAt_devs(2,3) [OF ok] unfolding reg_ok_def by blast
qed

end
