(* ===== verification/Device_Witnesses.thy ===== *)
theory Device_Witnesses
  imports Kernel_Drivers Memory_Witnesses
begin

text \<open>
  The properties of devices and drivers at concrete inputs, on small machines: a pair of interrupt mask registers, two base
  address registers, an ATA drive that answers after two polls, and a machine with nothing attached.
\<close>

definition bare :: "'h machine" where
  "bare = \<lparr>m_inb = (\<lambda>_ h. (0xFF, h)), m_outb = (\<lambda>_ _ h. h), m_inw = (\<lambda>_ h. (0xFFFF, h)), m_outw = (\<lambda>_ _ h. h),
     m_inl = (\<lambda>_ h. (0xFFFFFFFF, h)), m_outl = (\<lambda>_ _ h. h), m_load32 = (\<lambda>_ h. (0xFFFFFFFF, h)), m_store32 = (\<lambda>_ _ h. h)\<rparr>"

section \<open>Register windows\<close>

definition space8 :: mmio_space where "space8 = \<lparr>ms_next = MMIO_START, ms_mem = km8\<rparr>"

lemma km8_unmapped: "\<not> is_mapped km8 root8 v"
  by (simp add: is_mapped_def pte_def path_of_def next_table_def) (simp add: km8_def)

theorem mmio_window_witness:
  "\<exists>i s'. mmio_new 0x2004 16 space8 = Inr (i, s') \<and> if_isValid i \<and>
     vmm_virtToPhysical root8 (if_address i + 3) (ms_mem s') = Inr 0x2007"
proof -
  have root: "vmm_getKernelPml4 km8 = root8" by (simp add: vmm_getKernelPml4_def km8_def)
  have al: "alignDown 0x2004 PAGE_SIZE = (0x2000 :: u64)" "alignUp (16 + (0x2004 - 0x2000)) PAGE_SIZE = (0x1000 :: u64)"
    by (simp_all add: alignDown_def alignUp_def PAGE_SIZE_def)
  have "3 \<le> card (avail_addrs (vm_pmm km8))" by (simp add: km8_def pm8_avail)
  from mapPage_total [OF km8_inv this] obtain ok m where
    "vmm_mapPage root8 MMIO_START 0x2000 mmio_flags km8 = Inr (ok, m)" by blast
  then have "vmm_mapRange root8 MMIO_START 0x2000 0x1000 mmio_flags km8 = Inr (ok, m)"
    by (cases ok) (simp_all add: vmm_mapRange_def PAGE_SIZE_def)
  then obtain i s' where r: "mmio_new 0x2004 16 space8 = Inr (i, s')"
    unfolding mmio_new_def Let_def al by (simp add: space8_def root)
  have ok: "mmio_ok space8"
    by (simp add: mmio_ok_def space8_def root km8_inv) (simp add: MMIO_START_def PAGE_SIZE_def)
  have m: "vmm_getKernelPml4 (ms_mem space8) = root8" "\<not> is_mapped (ms_mem space8) root8 v" for v
    using root km8_unmapped by (simp_all add: space8_def)
  have p: "unat (0x2004 :: u64) + unat (16 :: u64) < 2 ^ 52" "0 < unat (16 :: u64)" "unat (16 :: u64) < 2 ^ 47"
    "unat (ms_next space8) + unat (16 :: u64) + 8192 < 2 ^ 64"
    by (simp_all add: space8_def MMIO_START_def)
  note w = mmio_window [OF ok p r, unfolded m(1)]
  have "if_isValid i" using w m(2) by blast
  moreover have "vmm_virtToPhysical root8 (if_address i + of_nat 3) (ms_mem s') = Inr (0x2004 + of_nat 3)"
  proof -
    have "(3 :: nat) < unat (16 :: u64)" by simp
    then show ?thesis using w m(2) by blast
  qed
  ultimately show ?thesis using r by (intro exI conjI) simp_all
qed

section \<open>Interrupts\<close>

theorem idt_gates_witness:
  "gate_target (irq_gates (\<lambda>n. 0x5000 + of_nat n) (initIsrs (\<lambda>n. 0x4000 + of_nat n) (initIdt (replicate 256 idt_absent))) ! 33) = 0x5001"
  using idt_gates [of "replicate 256 idt_absent" 33 "\<lambda>n. 0x4000 + of_nat n" "\<lambda>n. 0x5000 + of_nat n"]
  by (simp add: stub_gate_def)

definition pic_box :: "(u8 \<times> u8) machine" where
  "pic_box = bare\<lparr>m_inb := (\<lambda>p h. (if p = 0x21 then fst h else if p = 0xA1 then snd h else 0x1E, h)),
     m_outb := (\<lambda>p v h. if p = 0x21 then (v, snd h) else if p = 0xA1 then (fst h, v) else h)\<rparr>"

definition pic_view :: "(u8 \<times> u8) int_view" where
  "pic_view = \<lparr>pv_ready = (\<lambda>_. True), pv_mask1 = fst, pv_mask2 = snd, av_sel = (\<lambda>_. 0), av_regs = (\<lambda>_ _. 0)\<rparr>"

definition quiet_core :: "(u8 \<times> u8) core_state" where
  "quiet_core = \<lparr>idtEntries = replicate 256 idt_absent, irq_routines = replicate 16 None, int_back = PICBackend,
     ioapic_if = no_interface, lapic_if = no_interface, int_space = space8, int_hw = (0xFF, 0xFF),
     timerTicks = 0, core_kb = kb_initial\<rparr>"

lemma pic_box_ok: "pic_hw pic_box pic_view"
  by (simp add: pic_hw_def pic_box_def bare_def pic_view_def PIC1_DATA_def PIC2_DATA_def)


definition ticking_core :: "(u8 \<times> u8) core_state" where
  "ticking_core = quiet_core\<lparr>irq_routines := [Some TimeHandler, Some KeyboardHandler] @ replicate 14 None\<rparr>"

theorem wait_ends_witness:
  "\<exists>s'. time_wait pic_box 3 [[33], [32, 32], [], [32, 40], [32]] ticking_core = Some ([[32]], s') \<and> getUptime s' = 3"
proof -
  let ?p = "[[33], [32, 32], [], [32, 40], [32]] :: u64 list list"
  have t: "irq_routines ticking_core ! 0 = Some TimeHandler" "timerTicks ticking_core = 0"
    by (simp_all add: ticking_core_def quiet_core_def)
  have o: "\<forall>n < 16. n \<noteq> 0 \<longrightarrow> irq_routines ticking_core ! n \<noteq> Some TimeHandler"
    by (auto simp: ticking_core_def less_Suc_eq numeral_eq_Suc)
  note w = wait_ends [OF t(1) o, of 3 ?p pic_box]
  have "unat (timerTicks ticking_core) + unat (3 :: u64) < 2 ^ 64" "unat (timerTicks ticking_core) + count_list (concat ?p) 32 < 2 ^ 64"
    by (simp_all add: t(2))
  note w = w [OF this]
  obtain rest s' where r: "time_wait pic_box 3 ?p ticking_core = Some (rest, s')"
    using w by (cases "time_wait pic_box 3 ?p ticking_core") (auto simp: t(2))
  then obtain k where k': "k \<le> length ?p" "rest = drop k ?p"
    "getUptime s' = getUptime ticking_core + of_nat (count_list (concat (take k ?p)) 32)"
    "unat (3 :: u64) \<le> count_list (concat (take k ?p)) 32" "\<forall>j < k. count_list (concat (take j ?p)) 32 < unat (3 :: u64)"
    using w unfolding r option.case prod.case by (elim exE conjE) (rule that)
  have k: "k \<le> 5" "rest = drop k ?p" "getUptime s' = of_nat (count_list (concat (take k ?p)) 32)"
    "3 \<le> count_list (concat (take k ?p)) 32" "\<forall>j < k. count_list (concat (take j ?p)) 32 < 3"
    using k' by (simp_all add: getUptime_def t(2))
  have "k = 4"
  proof -
    have "k \<noteq> 5" using k(5) by (auto dest!: spec [of _ 4])
    moreover have "k \<noteq> 0" "k \<noteq> 1" "k \<noteq> 2" "k \<noteq> 3" using k(4) by (intro notI, simp)+
    ultimately show ?thesis using k(1) by linarith
  qed
  then show ?thesis using r k(2,3) by simp
qed

section \<open>Base address registers\<close>

definition bar_box :: "(u32 \<times> (u32 \<Rightarrow> u32)) machine" where
  "bar_box = bare\<lparr>m_inl := (\<lambda>_ h. (snd h (fst h), h)),
     m_outl := (\<lambda>p v h. if p = ConfigAddress then (v, snd h)
       else (fst h, (snd h)(fst h := (v AND NOT (mask 12)) OR (snd h (fst h) AND NOT (NOT (mask 12))))))\<rparr>"

definition bar_view :: "(u32 \<times> (u32 \<Rightarrow> u32)) pci_view" where
  "bar_view = \<lparr>cv_sel = fst, cv_reg = snd, cv_mask = (\<lambda>_. NOT (mask 12))\<rparr>"

text \<open>A register of 4 KiB of memory at \<^verbatim>\<open>0xFEBF0000\<close>.\<close>

theorem readBAR_sizes_witness:
  "\<exists>b h'. readBAR bar_box (0, 1, 1) 4 (0, \<lambda>_. 0xFEBF0000) = (b, h') \<and> bar_type b = BarMMIO32 \<and>
     bar_size b = 0x1000 \<and> snd h' = (\<lambda>_. 0xFEBF0000)"
proof -
  have hw: "pci_hw bar_box bar_view A" for A
    by (auto simp: pci_hw_def bar_box_def bar_view_def bare_def ConfigAddress_def ConfigData_def)
  have "(0xFEBF0000 :: u32) AND mask 12 = 0xFEBF0000 AND 0xF" by (simp add: mask_eq_exp_minus_1)
  moreover have "drop_bit 1 (0xFEBF0000 :: u32) AND 3 = 0" "(0xFEBF0000 :: u32) AND 1 = 0" by simp_all
  moreover obtain b h' where "readBAR bar_box (0, 1, 1) 4 (0, \<lambda>_. 0xFEBF0000) = (b, h')"
    "snd h' = (\<lambda>_. 0xFEBF0000)"
    "(4 :: u8) < 6 \<and> (0xFEBF0000 :: u32) \<noteq> 0 \<and> (0xFEBF0000 :: u32) AND 1 = 0 \<and> drop_bit 1 (0xFEBF0000 :: u32) AND 3 = 0 \<and>
      NOT (mask 12 :: u32) = NOT (mask 12) \<and> (4 :: nat) \<le> 12 \<and> (12 :: nat) < 32 \<and>
        (0xFEBF0000 :: u32) AND mask 12 = 0xFEBF0000 AND 0xF \<longrightarrow>
      bar_type b = BarMMIO32 \<and> bar_address b = ucast (0xFEBF0000 :: u32) AND NOT 0xF \<and> bar_size b = 2 ^ 12"
    using readBAR_sizes [of bar_box bar_view "(0, 1, 1)" 4 "(0, \<lambda>_. 0xFEBF0000)" 12, OF hw]
    unfolding bar_view_def pci_view.simps snd_conv by (elim exE conjE) (rule that)
  moreover have "(4 :: u8) < 6" "(0xFEBF0000 :: u32) \<noteq> 0" by simp_all
  ultimately show ?thesis by (intro exI [of _ b] exI [of _ h'] conjI) simp_all
qed

section \<open>A drive\<close>

text \<open>
  The disk as words of sectors, beside the registers; block 7 cannot be read or written. Every command takes two polls.
\<close>

type_synonym drive_box = "ata_state \<times> (u64 \<Rightarrow> nat \<Rightarrow> u16)"

definition drive_view :: "drive_box \<Rightarrow> ata_state" where
  "drive_view h = (fst h)\<lparr>at_medium := \<lparr>m_blocks = 100, m_sector = (\<lambda>a. bytes_of (map (snd h a) [0..<256])),
     m_unreadable = (\<lambda>a. a = 7), m_unwritable = (\<lambda>a. a = 7)\<rparr>\<rparr>"

definition drive_command :: "u8 \<Rightarrow> drive_box \<Rightarrow> drive_box" where
  "drive_command v h =
     (let s = (fst h)\<lparr>at_busy := 2\<rparr>; a = at_lba (fst h) in
      if v = ATA_CMD_READ_PIO then (s\<lparr>at_phase := (if a = 7 then AtaError else AtaIn (map (snd h a) [0..<256]))\<rparr>, snd h)
      else if v = ATA_CMD_WRITE_PIO then (s\<lparr>at_phase := (if a = 7 then AtaError else AtaOut [])\<rparr>, snd h)
      else (s, snd h))"

definition drive_out :: "u16 \<Rightarrow> u8 \<Rightarrow> drive_box \<Rightarrow> drive_box" where
  "drive_out p v h =
     (if p = 0x1F6 then ((fst h)\<lparr>at_sel := v\<rparr>, snd h) else if p = 0x1F2 then ((fst h)\<lparr>at_count := v\<rparr>, snd h)
      else if p = 0x1F3 then ((fst h)\<lparr>at_lba0 := v\<rparr>, snd h) else if p = 0x1F4 then ((fst h)\<lparr>at_lba1 := v\<rparr>, snd h)
      else if p = 0x1F5 then ((fst h)\<lparr>at_lba2 := v\<rparr>, snd h) else if p = 0x1F7 then drive_command v h else h)"

definition drive_in :: "drive_box \<Rightarrow> u8 \<times> drive_box" where
  "drive_in h =
     (if at_busy (fst h) \<noteq> 0 then (0x80, ((fst h)\<lparr>at_busy := at_busy (fst h) - 1\<rparr>, snd h))
      else (case at_phase (fst h) of AtaError \<Rightarrow> 0x41 | AtaIdle \<Rightarrow> 0x40 | _ \<Rightarrow> 0x48, h))"

definition drive_word_in :: "drive_box \<Rightarrow> u16 \<times> drive_box" where
  "drive_word_in h =
     (case at_phase (fst h) of
        AtaIn (x # xs) \<Rightarrow> (x, ((fst h)\<lparr>at_phase := (if xs = [] then AtaIdle else AtaIn xs)\<rparr>, snd h))
      | _ \<Rightarrow> (0, h))"

definition drive_word_out :: "u16 \<Rightarrow> drive_box \<Rightarrow> drive_box" where
  "drive_word_out v h =
     (case at_phase (fst h) of
        AtaOut ws \<Rightarrow>
          (if length ws + 1 = 256
           then ((fst h)\<lparr>at_phase := AtaIdle\<rparr>, (snd h)(at_lba (fst h) := (\<lambda>i. (ws @ [v]) ! i)))
           else ((fst h)\<lparr>at_phase := AtaOut (ws @ [v])\<rparr>, snd h))
      | _ \<Rightarrow> h)"

definition drive_machine :: "drive_box machine" where
  "drive_machine = bare\<lparr>m_inb := (\<lambda>_. drive_in), m_outb := drive_out, m_inw := (\<lambda>_. drive_word_in), m_outw := (\<lambda>_. drive_word_out)\<rparr>"

lemmas drive_defs = drive_machine_def bare_def drive_view_def ATA_REG_DATA_def ATA_REG_SECCOUNT0_def ATA_REG_LBA0_def
  ATA_REG_LBA1_def ATA_REG_LBA2_def ATA_REG_HDDEVSEL_def ATA_REG_COMMAND_def ATA_REG_STATUS_def

lemma drive_ok: "ata_drive drive_machine 0x1F0 0 drive_view"
proof -
  have st: "ata_status_law drive_machine 0x1F0 drive_view"
    by (auto simp: ata_status_law_def drive_in_def drive_defs ATA_SR_BSY_def ATA_SR_ERR_def ATA_SR_DF_def ATA_SR_DRQ_def
        transferring_def split: ata_phase.splits)
  have rg: "ata_register_law drive_machine 0x1F0 drive_view"
    by (simp add: ata_register_law_def drive_out_def drive_defs)
  have n2: "2 < ata_polls" by (simp add: ata_polls_def)
  have cmd: "ata_command_law drive_machine 0x1F0 0 drive_view"
  proof -
    have r: "drive_view (drive_command ATA_CMD_READ_PIO h) = (drive_view h)\<lparr>at_busy := 2, at_phase :=
        (if at_lba (drive_view h) = 7 then AtaError else AtaIn (map (snd h (at_lba (drive_view h))) [0..<256]))\<rparr>"
      and w: "drive_view (drive_command ATA_CMD_WRITE_PIO h) = (drive_view h)\<lparr>at_busy := 2, at_phase :=
        (if at_lba (drive_view h) = 7 then AtaError else AtaOut [])\<rparr>"
      and f: "drive_view (drive_command ATA_CMD_CACHE_FLUSH h) = (drive_view h)\<lparr>at_busy := 2\<rparr>" for h
      by (simp_all add: drive_command_def drive_view_def Let_def at_lba_def ATA_CMD_READ_PIO_def ATA_CMD_WRITE_PIO_def
          ATA_CMD_CACHE_FLUSH_def)
    have o: "m_outb drive_machine (0x1F0 + ATA_REG_COMMAND) = drive_command"
      by (simp add: fun_eq_iff drive_out_def drive_defs)
    have m: "m_unreadable (at_medium (drive_view h)) = (\<lambda>a. a = 7)" "m_unwritable (at_medium (drive_view h)) = (\<lambda>a. a = 7)"
      "m_sector (at_medium (drive_view h)) a = bytes_of (map (snd h a) [0..<256])" for h a
      by (simp_all add: drive_view_def)
    show ?thesis
      unfolding ata_command_law_def o r w f m using n2
      by (intro allI impI conjI) (auto intro!: exI [of _ 2])
  qed
  have dat: "ata_data_law drive_machine 0x1F0 drive_view"
  proof -
    have "map (\<lambda>i. (ws @ [v]) ! i) [0..<256] = ws @ [v]" if "length ws + 1 = 256" for ws and v :: u16
    proof -
      have "length (ws @ [v]) = 256" using that by simp
      then show ?thesis using map_nth [of "ws @ [v]"] by simp
    qed
    then show ?thesis
      by (auto simp: ata_data_law_def drive_word_in_def drive_word_out_def drive_defs fun_eq_iff at_lba_def)
  qed
  show ?thesis using st rg cmd dat by (simp add: ata_drive_def)
qed

definition drive0 :: drive_box where
  "drive0 = (\<lparr>at_medium = undefined, at_busy = 0, at_phase = AtaIdle, at_sel = 0, at_count = 0, at_lba0 = 0, at_lba1 = 0,
     at_lba2 = 0\<rparr>, \<lambda>a i. of_nat i)"

definition disk0 :: ata_disk where "disk0 = \<lparr>ad_ioBase = 0x1F0, ad_drive = 0, ad_blockCount = 100\<rparr>"


section \<open>Boot\<close>

definition kernel0 :: "unit kernel" where
  "kernel0 = \<lparr>r_devices = replicate MaxDevices 0, r_deviceCount = 0, r_drivers = replicate MaxDrivers 0, r_driverCount = 0,
     r_dev = (\<lambda>_. undefined), r_state = (\<lambda>_. Created),
     k_core = \<lparr>idtEntries = replicate 256 idt_absent, irq_routines = replicate 16 None, int_back = PICBackend,
       ioapic_if = no_interface, lapic_if = no_interface, int_space = space8, int_hw = (), timerTicks = 0, core_kb = kb_initial\<rparr>,
     k_class = (\<lambda>_. PitDriver), k_pci = (\<lambda>_. None), k_ata = (\<lambda>_. None), k_pitDriver = 0, k_pitDevice = 0,
     k_kbDriver = 0, k_kbDevice = 0\<rparr>"

lemma kernel0_power_up: "power_up kernel0" by (simp add: power_up_def kernel0_def)

text \<open>On a machine with nothing attached the scan finds no device.\<close>

lemma bare_scan: "enumerateAndCreateDevices bare junk s = s" for s :: "unit kernel"
proof -
  have "pci_read16 bare loc 0 h = (0xFFFF, ())" for loc and h :: unit
    by (simp add: pci_read16_def pci_read32_def bare_def)
  then have "checkSlot bare junk bus slot t = t" for bus slot and t :: "unit kernel"
    by (simp add: checkSlot_def set_hw_def)
  then have "checkBus bare junk bus t = t" for bus and t :: "unit kernel"
    unfolding checkBus_def by (induction "[0..<32 :: nat]") (simp_all add: fold_invariant [where P = "\<lambda>u. u = t"])
  then show ?thesis
    unfolding enumerateAndCreateDevices_def by (simp add: fold_invariant [where P = "\<lambda>u. u = s"])
qed

theorem drivers_boot_witness:
  "irq_routines (k_core (drivers_init bare (enumerateAndCreateDevices bare (\<lambda>_. 0) kernel0))) ! 1 = Some KeyboardHandler"
proof -
  have "irq_routines (k_core kernel0) = replicate 16 None"
    "r_deviceCount (enumerateAndCreateDevices bare (\<lambda>_. 0) kernel0) + 2 \<le> MaxDevices"
    by (simp_all add: bare_scan) (simp_all add: kernel0_def MaxDevices_def)
  from drivers_boot [OF kernel0_power_up this] show ?thesis by simp
qed

theorem registries_consistent_witness:
  "distinct (devs (snd (time_registerDriver bare (snd (time_registerDevice bare kernel0)))))"
proof -
  have "k_pitDevice kernel0 = 0" by (simp add: kernel0_def)
  then have "kernel_reach bare (\<lambda>_. 0) (snd (time_registerDriver bare (snd (time_registerDevice bare kernel0))))"
    by (intro time_driver time_device powered kernel0_power_up) simp
  from registries_consistent [OF this] show ?thesis by blast
qed

end
