(* ===== verification/Boot.thy ===== *)
theory Boot
  imports Kernel_Drivers Line_Input Vfs Kheap
begin

text \<open>
  The whole kernel: the order of initialisation (\<^verbatim>\<open>kernel/core/systems.cpp\<close>), the entry point and its
  command loop (\<^verbatim>\<open>kernel/main.cpp\<close>), and the handler of processor exceptions
  (\<^verbatim>\<open>isrs/isr.cpp\<close>). Log lines are left out. The clock stands still within one command: \<open>now\<close>
  is its value.
\<close>

section \<open>Exceptions\<close>

definition exception_messages :: "u8 list list" where
  "exception_messages = map ascii
     ([''Division By Zero Exception'', ''Debug Exception'', ''Non Maskable Interrupt Exception'', ''Breakpoint Exception'',
       ''Into Detected Overflow Exception'', ''Out of Bounds Exception'', ''Invalid Opcode Exception'',
       ''No Coprocessor Exception'', ''Double Fault Exception'', ''Coprocessor Segment Overrun Exception'',
       ''Bad TSS Exception'', ''Segment Not Present Exception'', ''Stack Fault Exception'',
       ''General Protection Fault Exception'', ''Page Fault Exception'', ''Unknown Interrupt Exception'',
       ''Coprocessor Fault Exception'', ''Alignment Check Exception (486+)'', ''Machine Check Exception (Pentium/586+)'']
      @ replicate 13 ''Reserved'')"

record isr_registers =
  reg_r15 :: u64
  reg_r14 :: u64
  reg_r13 :: u64
  reg_r12 :: u64
  reg_r11 :: u64
  reg_r10 :: u64
  reg_r9 :: u64
  reg_r8 :: u64
  reg_rsi :: u64
  reg_rdi :: u64
  reg_rbp :: u64
  reg_rdx :: u64
  reg_rcx :: u64
  reg_rbx :: u64
  reg_rax :: u64
  int_no :: u64
  err_code :: u64
  reg_rip :: u64
  reg_cs :: u64
  reg_rflags :: u64
  reg_rsp :: u64
  reg_ss :: u64

text \<open>
  The second component of the result says whether the processor is halted. \<open>place\<close> is the file and the function of
  the panic, \<open>frames\<close> and \<open>rbp\<close> the stack.
\<close>

definition fault_handler ::
  "(nat \<Rightarrow> u8) \<Rightarrow> u64 \<Rightarrow> u8 list \<times> u8 list \<Rightarrow> (u64 \<Rightarrow> u64 \<times> u64) \<Rightarrow> u64 \<Rightarrow> isr_registers \<Rightarrow> outputs \<Rightarrow> (outputs \<times> bool) option"
where
  "fault_handler junk now place frames rbp regs s =
     (if int_no regs < 32 then do {
        s \<leftarrow> out_print now (ascii ''Panic with error code: '') s;
        s \<leftarrow> printHex junk now (err_code regs) s;
        (s, halted) \<leftarrow> kernelPanic now (exception_messages ! unat (int_no regs)) (fst place) (snd place) False s;
        s \<leftarrow> out_println now [0] s;
        s \<leftarrow> stackTrace junk now LogConsole frames rbp s;
        s \<leftarrow> stackTrace junk now LogSerial frames rbp s;
        Some (s, True)
      } else Some (s, False))"

section \<open>Initialisation\<close>

text \<open>
  The page tables that the memory services leave are those the register windows are then mapped in. The table of segments
  and the heap are returned beside the state of the devices.
\<close>

definition initSystems ::
  "'h machine \<Rightarrow> (nat \<Rightarrow> u8) \<Rightarrow> (nat \<Rightarrow> u64) \<Rightarrow> (nat \<Rightarrow> u64) \<Rightarrow> (physAddr \<Rightarrow> u64 \<Rightarrow> u8) \<Rightarrow> memmap_request \<Rightarrow>
    gdt_entry list \<Rightarrow> heap \<Rightarrow> 'h kernel \<Rightarrow> (gdt_entry list \<times> heap \<times> 'h kernel) result"
where
  "initSystems io junk isr irq ram request gdt h s =
     (let gdt = initGdt gdt;
          c = k_core s;
          c = c\<lparr>idtEntries := initIsrs isr (initIdt (idtEntries c))\<rparr>
      in case initMemoryServices ram request h of
           Inl e \<Rightarrow> Inl e
         | Inr h \<Rightarrow>
             (case initIrq io irq (c\<lparr>int_space := (int_space c)\<lparr>ms_mem := h_vm h\<rparr>\<rparr>) of
                Inl e \<Rightarrow> Inl e
              | Inr c \<Rightarrow> Inr (gdt, h, enumerateAndCreateDevices io junk (s\<lparr>k_core := c\<rparr>))))"

text \<open>\<^verbatim>\<open>vfs::mountRoot\<close> on the first disk; \<open>disk\<close> gives the medium of a disk object.\<close>

definition mount_first_disk :: "(u64 \<Rightarrow> medium) \<Rightarrow> nat \<Rightarrow> fat32 \<Rightarrow> 'h kernel \<Rightarrow> fat32 vfs \<Rightarrow> fat32 vfs result" where
  "mount_first_disk disk f fresh s v =
     vfs_mountRoot fat_ops (let d = firstBlockDevice s in if d = 0 then None else Some (disk d)) f fresh v"

definition start_screen ::
  "(nat \<Rightarrow> u8) \<Rightarrow> u64 \<Rightarrow> (fb_info \<times> (u64 \<Rightarrow> u32)) list option \<Rightarrow> outputs \<Rightarrow> outputs option result"
where
  "start_screen junk now request s =
     (case createFromLimineRequest request of
        Inl e \<Rightarrow> Inl e
      | Inr f \<Rightarrow>
          Inr (println_all now
            [ascii ''The Avery Kernel'', ascii ''Version Alpha 1 (Development Edition)'',
             ascii ''Made by Max Van den Eynde in 2026'']
            (out_clear now (out_setColor color_white color_black (initFramebufferConsole now f s)))))"

text \<open>
  The entry point up to its command loop. The answers of the boot loader are a record, no answer being \<open>None\<close>; a
  boot loader of another revision halts the processor for good. \<open>f\<close> and \<open>fresh\<close> are the name and
  the first state of the file system object, \<open>crs\<close> the control registers CR0 and CR4.
\<close>

record boot_answers =
  ba_supported :: bool
  ba_hhdm :: "u64 option"
  ba_memmap :: memmap_request
  ba_framebuffer :: "(fb_info \<times> (u64 \<Rightarrow> u32)) list option"

definition boot_kernel ::
  "'h machine \<Rightarrow> (nat \<Rightarrow> u8) \<Rightarrow> (nat \<Rightarrow> u64) \<Rightarrow> (nat \<Rightarrow> u64) \<Rightarrow> (physAddr \<Rightarrow> u64 \<Rightarrow> u8) \<Rightarrow> (u64 \<Rightarrow> medium) \<Rightarrow> nat \<Rightarrow>
    fat32 \<Rightarrow> u64 \<Rightarrow> boot_answers \<Rightarrow> u64 \<times> u64 \<Rightarrow> gdt_entry list \<Rightarrow> heap \<Rightarrow> 'h kernel \<Rightarrow> fat32 vfs \<Rightarrow> outputs \<Rightarrow>
    ((u64 \<times> u64) \<times> gdt_entry list \<times> heap \<times> 'h kernel \<times> fat32 vfs \<times> outputs) result"
where
  "boot_kernel io junk isr irq ram disk f fresh now answers crs gdt h s v out =
     (if \<not> ba_supported answers then Inl Diverges
      else case memory_setHHDM (ba_hhdm answers) (h_vm h) of
        Inl e \<Rightarrow> Inl e
      | Inr m \<Rightarrow>
          (let crs = enableSSE (fst crs) (snd crs)
           in case initSystems io junk isr irq ram (ba_memmap answers) gdt (h\<lparr>h_vm := m\<rparr>) s of
                Inl e \<Rightarrow> Inl e
              | Inr (gdt, h, s) \<Rightarrow>
                  (let s = drivers_init io s
                   in case mount_first_disk disk f fresh s v of
                        Inl e \<Rightarrow> Inl e
                      | Inr v \<Rightarrow>
                          (case start_screen junk now (ba_framebuffer answers) out of
                             Inl e \<Rightarrow> Inl e
                           | Inr None \<Rightarrow> Inl Diverges
                           | Inr (Some out) \<Rightarrow> Inr (crs, gdt, h, s, v, out)))))"

section \<open>The command loop\<close>

record shell =
  sh_term :: terminal
  sh_vfs :: "fat32 vfs"

function ls_loop :: "(nat \<Rightarrow> u8) \<Rightarrow> u64 \<Rightarrow> dir_handle \<Rightarrow> outputs \<Rightarrow> outputs option" where
  "ls_loop junk now d s =
     (case dir_readNext d of
        (None, d) \<Rightarrow> Some s
      | (Some (nm, t, sz), d) \<Rightarrow> do {
          s \<leftarrow> println_args junk now [ArgText (nm @ [0]), ArgText (if t = DirectoryNode then [47, 0] else [0])] s;
          ls_loop junk now d s
        })"
  by pat_completeness auto
termination
  by (relation "measure (\<lambda>(_, _, d, _). length (dh_entries d) - dh_index d)")
    (auto simp: dir_readNext_def Let_def split: if_splits)

declare ls_loop.simps [simp del]

definition shell_ls :: "(nat \<Rightarrow> u8) \<Rightarrow> u64 \<Rightarrow> kstring \<Rightarrow> shell \<Rightarrow> shell result" where
  "shell_ls junk now path sh =
     (case vfs_openDirectory fat_ops (chars path) (sh_vfs sh) of
        Inl e \<Rightarrow> Inl e
      | Inr None \<Rightarrow> Inr sh
      | Inr (Some d) \<Rightarrow>
          (case ls_loop junk now d (t_out (sh_term sh)) of
             None \<Rightarrow> Inl Diverges
           | Some s \<Rightarrow> Inr (sh\<lparr>sh_term := (sh_term sh)\<lparr>t_out := s\<rparr>\<rparr>)))"

definition incorrect_command :: "u8 list" where
  "incorrect_command = ascii ''Incorrect command, try again''"

definition shell_command :: "(nat \<Rightarrow> u8) \<Rightarrow> u64 \<Rightarrow> kstring \<Rightarrow> shell \<Rightarrow> shell result" where
  "shell_command junk now input sh =
     (if string_eq input (string_of junk (ascii ''clear'')) then
        Inr (sh\<lparr>sh_term := (sh_term sh)\<lparr>t_out := out_clear now (t_out (sh_term sh))\<rparr>\<rparr>)
      else if string_startsWith input (string_of junk (ascii ''ls '')) then
        shell_ls junk now (string_removePrefix (ascii ''ls '') input) sh
      else
        case out_println now incorrect_command (out_setColor color_red color_black (t_out (sh_term sh))) of
          None \<Rightarrow> Inl Diverges
        | Some s \<Rightarrow> Inr (sh\<lparr>sh_term := (sh_term sh)\<lparr>t_out := out_setColor color_white color_black s\<rparr>\<rparr>))"

text \<open>One turn of the endless loop; the rest of the polls is handed on.\<close>

definition shell_turn :: "(nat \<Rightarrow> u8) \<Rightarrow> u64 \<Rightarrow> poll list \<Rightarrow> shell \<Rightarrow> (poll list \<times> shell) result outcome" where
  "shell_turn junk now polls sh =
     (case in_getLine junk now (Some (ascii ''> '')) polls (sh_term sh) of
        Waiting t \<Rightarrow> Waiting t
      | Hung \<Rightarrow> Hung
      | Got (input, rest, t) \<Rightarrow>
          Got (case shell_command junk now input (sh\<lparr>sh_term := t\<rparr>) of
            Inl e \<Rightarrow> Inl e
          | Inr sh \<Rightarrow> Inr (rest, sh)))"

section \<open>What the start leaves\<close>

lemma initIrq_tables:
  assumes "initIrq io irq c = Inr c'"
  shows "irq_routines c' = irq_routines c \<and> idtEntries c' = irq_gates irq (idtEntries c)"
proof -
  have io: "irq_routines t = irq_routines r \<and> idtEntries t = idtEntries r" if "ioapic_init base r = Inr (ok, t)" for base ok r t
    using that by (auto simp: ioapic_init_def split: sum.splits)
  have la: "irq_routines t = irq_routines r \<and> idtEntries t = idtEntries r" if "lapic_init io r = Inr (ok, t)" for ok r t
    using that by (auto simp: lapic_init_def Let_def split: sum.splits if_splits)
  show ?thesis
    using assms by (auto simp: initIrq_def initAPICCompat_def initPIC_def Let_def dest!: io la split: sum.splits if_splits prod.splits)
qed

text \<open>
  The scan of the bus comes before any driver, and no interrupt has a handler yet, so the drivers find the registries as
  the driver manager expects them.
\<close>

lemma initSystems_ready:
  assumes "power_up s" "irq_routines (k_core s) = replicate 16 None"
    "initSystems io junk isr irq ram request gdt h s = Inr (gdt', h', s')"
  shows "initMemoryServices ram request h = Inr h'" "enumerated (replicate 16 None) s'"
proof -
  let ?c = "(k_core s)\<lparr>idtEntries := initIsrs isr (initIdt (idtEntries (k_core s)))\<rparr>"
  obtain c where c: "initMemoryServices ram request h = Inr h'"
    "initIrq io irq (?c\<lparr>int_space := (int_space ?c)\<lparr>ms_mem := h_vm h'\<rparr>\<rparr>) = Inr c"
    "s' = enumerateAndCreateDevices io junk (s\<lparr>k_core := c\<rparr>)"
    using assms(3) by (auto simp: initSystems_def Let_def split: sum.splits)
  show "initMemoryServices ram request h = Inr h'" by (fact c(1))
  have "irq_routines c = replicate 16 None" using initIrq_tables [OF c(2)] assms(2) by simp
  then have "enumerated (replicate 16 None) (s\<lparr>k_core := c\<rparr>)"
    using assms(1) by (simp add: power_up_def enumerated_def reg_ok_def devs_def drvs_def)
  then show "enumerated (replicate 16 None) s'" unfolding c(3) by (rule enumerate_ok)
qed

lemma boot_kernel_drivers:
  assumes "power_up s" "irq_routines (k_core s) = replicate 16 None"
    "boot_kernel io junk isr irq ram disk f fresh now answers crs gdt h s v out = Inr (crs', gdt', h', s', v', out')"
  shows "\<exists>s1. enumerated (replicate 16 None) s1 \<and> s' = drivers_init io s1 \<and>
    (r_deviceCount s1 + 2 \<le> MaxDevices \<longrightarrow>
      reg_ok s' \<and> driver_of (k_pitDevice s') s' = k_pitDriver s' \<and> driver_of (k_kbDevice s') s' = k_kbDriver s' \<and>
      irq_routines (k_core s') = (replicate 16 None)[0 := Some TimeHandler, 1 := Some KeyboardHandler])"
proof -
  obtain m s1 where "initSystems io junk isr irq ram (ba_memmap answers) gdt (h\<lparr>h_vm := m\<rparr>) s = Inr (gdt', h', s1)"
    "s' = drivers_init io s1"
    using assms(3) by (auto simp: boot_kernel_def Let_def split: if_splits sum.splits option.splits)
  with initSystems_ready(2) [OF assms(1,2)] drivers_init_enumerated [of _ s1 io] show ?thesis by blast
qed

section \<open>What a panic leaves on the screen\<close>

text \<open>Printing draws inside the visible area and keeps the colours and the geometry of the console.\<close>

definition con_drawn :: "fbcon \<Rightarrow> fbcon \<Rightarrow> bool" where
  "con_drawn c d \<longleftrightarrow> drawn_only (con_fb c) (con_fb d) \<and> con_fg d = con_fg c \<and> con_bg d = con_bg c \<and>
     con_scale d = con_scale c \<and> cursorVisible d = cursorVisible c \<and> con_rows d = con_rows c"

lemma con_drawn_refl: "con_drawn c c"
  by (simp add: con_drawn_def drawn_refl)

lemma con_drawn_trans: "con_drawn c d \<Longrightarrow> con_drawn d e \<Longrightarrow> con_drawn c e"
  by (auto simp: con_drawn_def intro: drawn_trans)

lemma con_drawn_move: "con_drawn c (d\<lparr>cursorX := x\<rparr>) = con_drawn c d" "con_drawn c (d\<lparr>cursorY := y\<rparr>) = con_drawn c d"
  by (simp_all add: con_drawn_def)

lemma con_drawn_parts:
  "con_drawn c (con_begin c)" "con_drawn c (con_finish now c)" "con_drawn c (con_drawCell x y ch c)" "con_drawn c (con_newline c)"
proof -
  have scroll: "con_drawn c (con_scroll c)" for c
    unfolding con_drawn_def con_scroll_def Let_def by (auto intro: drawn_trans drawn_copy drawn_paint)
  show "con_drawn c (con_newline c)"
    using con_drawn_trans [OF _ scroll, of c "c\<lparr>cursorX := 0, cursorY := cursorY c + 1\<rparr>"] con_drawn_refl [of c]
    by (simp add: con_newline_def Let_def con_drawn_move)
qed (auto simp: con_drawn_def con_begin_def con_finish_def con_drawCursor_def con_eraseCursor_def con_drawCell_def con_cursorBox_def
    Let_def drawn_refl drawn_paint drawn_character)

lemma con_drawn_step: "con_drawn c d \<Longrightarrow> con_drawn c (con_begin d)" "con_drawn c d \<Longrightarrow> con_drawn c (con_finish now d)"
  "con_drawn c d \<Longrightarrow> con_drawn c (con_drawCell x y ch d)" "con_drawn c d \<Longrightarrow> con_drawn c (con_newline d)"
  by (erule con_drawn_trans, rule con_drawn_parts)+

lemma con_drawn_putPlain:
  assumes "con_drawn c d"
  shows "con_drawn c (con_putPlain now ch d)"
proof -
  have glyph: "con_drawn c (con_glyph ch d)" if "con_drawn c d" for d
    using that unfolding con_glyph_def Let_def by (auto intro!: con_drawn_step simp: con_drawn_move)
  have bksp: "con_drawn c (con_backspace now d)" if "con_drawn c d" for d
    using con_drawn_step(1) [OF that] unfolding con_backspace_def Let_def
    by (auto intro!: con_drawn_step simp: con_drawn_move)
  show ?thesis
    using con_drawn_step(1) [OF assms] unfolding con_putPlain_def Let_def
    by (auto intro!: con_drawn_step glyph bksp simp: con_drawn_move)
qed

lemma con_write_drawn: "9 \<notin> set (cstr str) \<Longrightarrow> con_drawn c d \<Longrightarrow> \<exists>d'. con_write now str d = Some d' \<and> con_drawn c d'"
proof (induction str arbitrary: d)
  case (Cons ch str)
  then show ?case by (auto simp: cstr_def con_putChar_def con_drawn_putPlain split: if_splits)
qed simp

text \<open>Clearing the screen forgets what was printed on it.\<close>

lemma paint_all:
  assumes "fb_ok (fb f)" "drawn_only f g" "drawn_only f h"
  shows "fb_paintRectangle (0, 0) (fb_width (fb f), fb_height (fb f)) col g =
    fb_paintRectangle (0, 0) (fb_width (fb f), fb_height (fb f)) col h"
proof -
  let ?p = "fb_paintRectangle (0, 0) (fb_width (fb f), fb_height (fb f)) col"
  have fb: "fb g = fb f" "fb h = fb f" using assms(2,3) by (simp_all add: drawn_only_def)
  have "fb_ptr (?p g) i = fb_ptr (?p h) i" for i
  proof (cases "\<exists>x y. onscreen (fb f) (unat x) (unat y) \<and> i = pixel_index (fb f) x y")
    case True
    then obtain x y where xy: "onscreen (fb f) (unat x) (unat y)" "i = pixel_index (fb f) x y" by blast
    have "fb_ptr (?p k) i = packed_color (fb f) col" if "fb k = fb f" for k
    proof -
      have "pix (?p k) (unat x) (unat y) = packed_color (fb f) col"
        using paint_pix [of k "unat x" "unat y" 0 0 "fb_width (fb f)" "fb_height (fb f)" col] assms(1) xy(1) that
        by (simp add: onscreen_def)
      then show ?thesis using xy(2) that by (simp add: pix_def)
    qed
    then show ?thesis using fb by simp
  next
    case False
    have "fb_ptr (?p k) i = fb_ptr k i" if "fb k = fb f" for k
      using drawn_paint [of k "(0, 0)" "(fb_width (fb f), fb_height (fb f))" col] False that by (auto simp: drawn_only_def)
    then show ?thesis using fb False assms(2,3) by (auto simp: drawn_only_def)
  qed
  then show ?thesis using fb by (intro framebuffer.equality ext) simp_all
qed

lemma clear_forgets:
  assumes "fb_ok (fb (con_fb c))" "con_drawn c d" "con_drawn c e"
  shows "con_clear now (con_setColor fg bg d) = con_clear now (con_setColor fg bg e)"
proof -
  have fb: "fb (con_fb d) = fb (con_fb c)" "fb (con_fb e) = fb (con_fb c)"
    using assms(2,3) by (simp_all add: con_drawn_def drawn_only_def)
  have "drawn_only (con_fb c) (con_fb d)" "drawn_only (con_fb c) (con_fb e)" using assms(2,3) by (simp_all add: con_drawn_def)
  note p = paint_all [OF assms(1) this, of bg]
  have "(con_setColor fg bg d)\<lparr>con_fb := fb_paintRectangle (0, 0) (fb_width (fb (con_fb c)), fb_height (fb (con_fb c))) bg (con_fb d),
       cursorX := 0, cursorY := 0, cursorDrawn := False, cursorBlink := now\<rparr> =
      (con_setColor fg bg e)\<lparr>con_fb := fb_paintRectangle (0, 0) (fb_width (fb (con_fb c)), fb_height (fb (con_fb c))) bg (con_fb e),
       cursorX := 0, cursorY := 0, cursorDrawn := False, cursorBlink := now\<rparr>"
    using assms(2,3) p by (intro fbcon.equality) (simp_all add: con_setColor_def con_drawn_def)
  then show ?thesis
    by (simp add: con_clear_def con_width_def con_height_def fb_widthOf_def fb_heightOf_def fb con_setColor_def)
qed

lemma print_on_screen:
  assumes "screen_of s = Some d" "9 \<notin> set (cstr str)" "con_drawn c d"
  obtains d' where "out_print now str s = Some (s\<lparr>out_console := Some d'\<rparr>)" "con_drawn c d'"
    "screen_of (s\<lparr>out_console := Some d'\<rparr>) = Some d'"
proof -
  obtain d' where d': "con_write now str d = Some d'" "con_drawn c d'" using con_write_drawn [OF assms(2,3)] by blast
  show thesis
    by (rule that [of d'])
      (use d' assms(1) in \<open>simp_all add: out_print_def on_console_def screen_of_def split: if_splits\<close>)
qed

text \<open>
  C39. The error code of an exception is lost: with the framebuffer console in use, the handler prints it and then the panic
  clears the screen, so that everything that remains, on the screen and at the debug port, is the same for every error code.
\<close>

theorem exception_code_erased:
  assumes "screen_of s = Some c" "fb_ok (fb (con_fb c))"
  shows "fault_handler junk now place frames rbp regs s = fault_handler junk now place frames rbp (regs\<lparr>err_code := e\<rparr>) s"
proof -
  have "9 \<notin> set (cstr (ascii ''Panic with error code: ''))"
    by (simp add: ascii_def cstr_def of_char_def)
  from print_on_screen [OF assms(1) this con_drawn_refl] obtain d where
    d: "out_print now (ascii ''Panic with error code: '') s = Some (s\<lparr>out_console := Some d\<rparr>)" "con_drawn c d"
      "screen_of (s\<lparr>out_console := Some d\<rparr>) = Some d" by blast
  have hex: "9 \<notin> set (cstr (hex_text junk x))" for x
  proof -
    have "hex_digits ! d \<noteq> 9" if "d < 16" for d
      using nth_mem [of d hex_digits] that by (auto simp: hex_digits_def)
    then show ?thesis using digits_small [of 16] by (auto simp: hex_text_eq)
  qed
  have "\<exists>d'. printHex junk now x (s\<lparr>out_console := Some d\<rparr>) = Some (s\<lparr>out_console := Some d'\<rparr>) \<and> con_drawn c d' \<and>
      screen_of (s\<lparr>out_console := Some d'\<rparr>) = Some d'" for x
    using print_on_screen [OF d(3) hex [of x] d(2), of now] unfolding printHex_def by auto
  then obtain k where k: "\<And>x. printHex junk now x (s\<lparr>out_console := Some d\<rparr>) = Some (s\<lparr>out_console := Some (k x)\<rparr>)"
      "\<And>x. con_drawn c (k x)" "\<And>x. screen_of (s\<lparr>out_console := Some (k x)\<rparr>) = Some (k x)" by metis
  have clr: "out_clear now (out_setColor color_white color_red (s\<lparr>out_console := Some (k x)\<rparr>)) =
      s\<lparr>out_console := Some (con_clear now (con_setColor color_white color_red (k x)))\<rparr>" for x
    using k(3) [of x] by (simp add: out_clear_def out_setColor_def screen_of_def split: if_splits)
  have "kernelPanic now m f g hlt (s\<lparr>out_console := Some (k (err_code regs))\<rparr>) = kernelPanic now m f g hlt (s\<lparr>out_console := Some (k e)\<rparr>)" for m f g hlt
    unfolding kernelPanic_def clr clear_forgets [OF assms(2) k(2) [of "err_code regs"] k(2) [of e]] ..
  then show ?thesis by (simp add: fault_handler_def d(1) k(1))
qed

section \<open>A command with a relative path\<close>

lemma command_texts:
  "cstr (ascii ''clear'') = [99, 108, 101, 97, 114]" "strlen (ascii ''clear'') < 2 ^ 31"
  "cstr (ascii ''ls '') = [108, 115, 32]" "strlen (ascii ''ls '') < 2 ^ 31" "9 \<notin> set (cstr (ascii ''> ''))"
  by (simp_all add: ascii_def cstr_def of_char_def)

lemma ls_halts:
  assumes "string_ok input" "chars input = [108, 115, 32] @ p" "p = [] \<or> hd p \<noteq> 47" "vfs_ok (sh_vfs sh)"
  shows "shell_command junk now input sh = Inl AssertFailed"
proof -
  note c = string_of_ok [OF command_texts(2), of junk, unfolded command_texts(1)]
  note l = string_of_ok [OF command_texts(4), of junk, unfolded command_texts(3)]
  have "\<not> string_eq input (string_of junk (ascii ''clear''))"
    using string_eq_iff [OF assms(1), of "string_of junk (ascii ''clear'')"] c assms(2) by simp
  moreover have "string_startsWith input (string_of junk (ascii ''ls ''))"
    using string_startsWith_iff [OF assms(1), of "string_of junk (ascii ''ls '')"] l assms(2) by simp
  moreover have "chars (string_removePrefix (ascii ''ls '') input) = p"
    using string_removePrefix_ok [OF assms(1), of "ascii ''ls ''"] assms(2) by (simp add: command_texts)
  ultimately show ?thesis
    using relative_unmounted [OF assms(4,3)] by (simp add: shell_command_def shell_ls_def vfs_openDirectory_def)
qed

text \<open>
  C38. Listing a relative path halts the kernel: when what is typed, edited as \<^verbatim>\<open>getLine\<close> does, reads
  \<^verbatim>\<open>ls\<close>, a space and a path without a leading slash (or none at all), the turn of the command loop ends
  in the failed assertion that a file system must be mounted for the path, whatever is mounted.
\<close>

theorem shell_relative_path:
  assumes "kb_ok (t_kb (sh_term sh))" "pending polls (t_kb (sh_term sh)) = read @ 10 # later" "10 \<notin> set read" "9 \<notin> set read"
    "length read + length later < 255" "length read < n" "edited read [] = [108, 115, 32] @ p" "p = [] \<or> hd p \<noteq> 47"
    "vfs_ok (sh_vfs sh)"
  shows "shell_turn junk now (polls @ replicate n ([], now)) sh = Got (Inl AssertFailed)"
proof -
  have "9 \<notin> set read \<and> (\<forall>q \<in> set_option (Some (ascii ''> '')). 9 \<notin> set (cstr q)) \<or> screen_of (t_out (sh_term sh)) = None"
    using assms(4) command_texts(5) by simp
  from getLine_line [OF assms(1,2,3,5,6) this, of junk now] assms(7) obtain line rest t where
    "in_getLine junk now (Some (ascii ''> '')) (polls @ replicate n ([], now)) (sh_term sh) = Got (line, rest, t)"
    "string_ok line" "chars line = [108, 115, 32] @ p" by auto
  then show ?thesis using ls_halts [of line p "sh\<lparr>sh_term := t\<rparr>"] assms(8,9) by (simp add: shell_turn_def)
qed

end
