(* ===== verification/Boot_Witnesses.thy ===== *)
theory Boot_Witnesses
  imports Boot Screen_Witnesses Vfs_Witnesses
begin

text \<open>
  Concrete runs of the exception handler and of the command loop: a screen of 64 by 64 pixels, and a line of scan codes
  with two mount points.
\<close>

definition regs0 :: isr_registers where
  "regs0 = \<lparr>reg_r15 = 0, reg_r14 = 0, reg_r13 = 0, reg_r12 = 0, reg_r11 = 0, reg_r10 = 0, reg_r9 = 0, reg_r8 =
     0, reg_rsi = 0, reg_rdi = 0, reg_rbp = 0, reg_rdx = 0, reg_rcx = 0, reg_rbx = 0, reg_rax = 0, int_no
     = 14, err_code = 2, reg_rip = 0, reg_cs = 0, reg_rflags = 0, reg_rsp = 0, reg_ss = 0\<rparr>"

lemma exception_code_erased_witness:
  "fault_handler (\<lambda>_. 7) 0 ([], []) (\<lambda>_. (0, 0)) 0 regs0
     \<lparr>out_serial = [], out_mode = FramebufferOutput, out_console = Some (con64 0)\<rparr> =
   fault_handler (\<lambda>_. 7) 0 ([], []) (\<lambda>_. (0, 0)) 0 (regs0\<lparr>err_code := 5\<rparr>)
     \<lparr>out_serial = [], out_mode = FramebufferOutput, out_console = Some (con64 0)\<rparr>"
proof (rule exception_code_erased)
  show "fb_ok (fb (con_fb (con64 0)))" using screen64_ok(1) by (simp add: con64_def)
qed (simp add: screen_of_def)

definition shell0 :: shell where
  "shell0 = \<lparr>sh_term = \<lparr>t_out = output_start, t_kb = kb_initial\<rparr>, sh_vfs = vfs2\<rparr>"

text \<open>The keys \<^verbatim>\<open>l s\<close>, space, \<^verbatim>\<open>a\<close> and return.\<close>

lemma shell_relative_path_witness:
  "shell_turn (\<lambda>_. 7) 0 ([([0x26, 0x1F], 0), ([0x39, 0x1E, 0x1C], 1)] @ replicate 5 ([], 0)) shell0 = Got (Inl AssertFailed)"
proof -
  have t: "sh_term shell0 = \<lparr>t_out = output_start, t_kb = kb_initial\<rparr>" "vfs_ok (sh_vfs shell0)"
    using vfs2_ok by (simp_all add: shell0_def)
  have "kb_ok (t_kb (sh_term shell0))" by (simp add: t kb_initial_def kb_ok_def)
  moreover have "pending [([0x26, 0x1F], 0), ([0x39, 0x1E, 0x1C], 1)] (t_kb (sh_term shell0)) = [108, 115, 32, 97] @ 10 # []"
    by (simp add: t pending_def kb_initial_def kb_items_def kb_count_def kb_mode_def decode_key_def layout_at_def es_table_def)
  moreover have "edited [108, 115, 32, 97] [] = [108, 115, 32] @ [97]" by (simp add: edited_def)
  ultimately show ?thesis
    using shell_relative_path [of shell0 "[([0x26, 0x1F], 0), ([0x39, 0x1E, 0x1C], 1)]" "[108, 115, 32, 97]" "[]" 5 "[97]" "\<lambda>_. 7" 0] t(2) by simp
qed

end
