(* ===== verification/Spec2Isabelle.thy ===== *)
theory Spec2Isabelle
  imports Heap_Witnesses Vfs_Witnesses Entry_Witnesses Containers Screen_Witnesses Line_Input Device_Witnesses Boot_Witnesses
begin

text \<open>
  Avery is a monolithic kernel in C++ for x86-64, loaded by Limine. \<^verbatim>\<open>src/kernel/main.cpp\<close> enters it, brings up
  memory, interrupts, devices and the root file system in turn, and then reads commands from the keyboard for ever. This
  library models the C++ of \<^verbatim>\<open>src/kernel\<close> and \<^verbatim>\<open>src/include\<close> as functions on explicit states and proves what makes the parts
  correct. Every operation of the code is one definition, with its name where Isabelle allows it; the branches are those of
  the code, in its order.

  \<^bold>\<open>Conventions.\<close>
  Integers are words of their C++ width (\<open>u8\<close> to \<open>u64\<close> of \<open>Avery_Prelude\<close>), with wrap-around. A structure or a class is a
  record, its operations take the object and return it changed. Pointers are numbers into a store where aliasing matters
  (heap headers, page tables, device objects), 0 being null, and are replaced by the object where it does not. A failed
  \<^verbatim>\<open>ASSERT\<close> halts the kernel and is the value \<open>AssertFailed\<close>; a loop that never ends is \<open>Diverges\<close>, \<open>None\<close> or \<open>Hung\<close>; both are
  results of the operation, so a theorem that gives a result also says that the operation returns. What the C++ code leaves
  uninitialised is an argument (\<open>junk\<close>, \<open>fresh\<close>). The hardware is an argument too: the record \<open>machine\<close> of port and memory
  instructions, on a state of any type. Properties that need a device to behave have that as a named condition, and their
  witnesses give a machine that satisfies it.

  \<^bold>\<open>Memory.\<close>
  \<open>Pmm\<close> is \<^verbatim>\<open>kernel/core/memory/pmm.cpp\<close>: the page bitmap and its counters, from the memory map on. \<open>Vmm\<close> is \<^verbatim>\<open>vmm.cpp\<close>:
  four-level page tables in physical pages, seen as one map from pages to entries. \<open>Kheap\<close> is \<^verbatim>\<open>heap.cpp\<close>: headers in a doubly
  linked list that tiles the heap range, first fit, splitting, merging, growth through \<open>Vmm\<close> and so through \<open>Pmm\<close>. The
  invariants \<open>pmm_inv\<close>, \<open>vm_inv\<close> and \<open>heap_ok\<close> are kept by the operations. The contracts are the locales \<open>page_allocator\<close>
  with \<open>page_allocator_release\<close>, \<open>address_space\<close> and \<open>heap_allocator\<close>, interpreted on the three models.

  \<^bold>\<open>Files.\<close>
  \<open>Block_Device\<close> is the disk by sectors, with the locale \<open>block_device\<close>; \<open>Ata\<close> is the driver of
  \<^verbatim>\<open>kernel/drivers/storage/ata.cpp\<close> by port accesses and refines it. \<open>Fat_Names\<close> (names, paths), \<open>Fat_Table\<close> (volume, table
  entries, allocation), \<open>Fat_Dir\<close> (directory entries) and \<open>Fat_Fs\<close> (paths, open files) hold the definitions of
  \<^verbatim>\<open>kernel/fs/fat32.cpp\<close>. \<open>Fat_Alloc\<close> and \<open>Fat_Chain\<close> show what they do to cluster chains, \<open>Fat_File\<close> what reading and writing
  do to the bytes of a file, \<open>Fat_Listing\<close> and \<open>Fat_Entries\<close> what creating and removing do to the list of names in a
  directory. \<open>Vfs\<close> is \<^verbatim>\<open>kernel/fs/vfs.cpp\<close>: it forwards to the file system mounted at the longest matching path, through a
  record of operations that stands for the virtual functions; the locale \<open>mountable\<close> is its contract with FAT32.

  \<^bold>\<open>Screen, text and keys.\<close>
  \<open>Framebuffer\<close>, \<open>Vga_Font\<close> and \<open>Fb_Console\<close> are \<^verbatim>\<open>kernel/graphics/framebuffer.cpp\<close> and the font; \<open>Kernel_Output\<close> is
  \<^verbatim>\<open>kernel/io\<close> and \<^verbatim>\<open>kernel/core/debug.cpp\<close>: numbers, logs, panics, and the choice between the debug port and the screen.
  \<open>Keyboard\<close> decodes scancodes into a ring buffer (locale \<open>bounded_fifo\<close>; the runs of handler and reader are the relation
  \<open>kb_run\<close>). \<open>Kstring\<close> is the string class and \<open>Containers\<close> the templates of \<^verbatim>\<open>include/types.h\<close> (locale \<open>fifo\<close>).
  \<open>Line_Input\<close> is where they meet: \<^verbatim>\<open>in::getLine\<close>.

  \<^bold>\<open>Interrupts and devices.\<close>
  \<open>Port_Io\<close> is the interface to the hardware. \<open>Interrupts\<close> has the descriptor tables, both interrupt controllers, the table
  of handlers and the dispatcher (locales \<open>interrupt_lines\<close> and \<open>handler_table\<close>); \<open>Timer\<close> the handlers and \<^verbatim>\<open>time::wait\<close>;
  \<open>Mmio\<close> windows onto device registers, in the page tables of \<open>Vmm\<close>; \<open>Pci\<close> configuration space. \<open>Device_Model\<close> is
  \<^verbatim>\<open>kernel/drivers/drivers.cpp\<close>, the two registries, with the locale \<open>driver_contract\<close> for what a driver may do to them;
  \<open>Kernel_Drivers\<close> has the three drivers, which keep it, and the states the kernel can reach (\<open>kernel_reach\<close>).

  \<^bold>\<open>The whole.\<close>
  \<open>Boot\<close> composes the parts as \<^verbatim>\<open>kernel/core/systems.cpp\<close> and \<^verbatim>\<open>kernel/main.cpp\<close> do (\<open>boot_kernel\<close>, then \<open>shell_turn\<close> for each
  command), shows in which state the start leaves tables and drivers, and has the handler of processor exceptions. Each of the theories named \<open>Memory_Witnesses\<close>, \<open>Heap_Witnesses\<close>,
  \<open>Fat_Witnesses\<close>, \<open>Entry_Witnesses\<close>, \<open>Vfs_Witnesses\<close>, \<open>Screen_Witnesses\<close>, \<open>Device_Witnesses\<close> and \<open>Boot_Witnesses\<close> applies the
  properties to small concrete states.

  \<^bold>\<open>What the properties show.\<close>
  Allocation, release and reallocation of heap blocks, pages and runs of pages give fresh memory, lose none and keep the
  contents; mapping a page changes that page's translation only. Table entries of the volume read back as written, with
  the four reserved bits kept and all copies of the table alike; cluster chains are allocated, extended and released without
  touching another chain. Files behave as lists of bytes and directories as lists of names. Drawing stays inside the visible
  area, the cursor on the screen. The disk driver implements the block device, strings are lists of characters, the
  containers are lists. The remaining properties are about the kernel as assembled: the registries and the drivers after
  start-up, the lines that are unmasked, the line that \<^verbatim>\<open>getLine\<close> returns, what a command with a relative path and what
  an exception do. Behaviour that looks unintended is stated as it is.

  \<^bold>\<open>Bounds and fuel.\<close>
  Walks along a cluster chain take at most \<open>chain_fuel\<close> = 2^28 steps: cluster numbers have 28 bits and the table does not
  change during a walk, so a longer one has met a cluster twice and never ends. The lists of heap headers have fewer than
  \<open>heap_fuel\<close> = 2^21 elements, as 64 MiB hold no more headers. The tab loop is a partial function, without fuel. The polling
  loops of the disk give up after \<open>ata_polls\<close> = 100000 reads, as in the code. Waiting for keys and ticks is over a list of
  polls, the interrupts that arrive before each turn; when the list is used up the operation still waits, and the liveness
  properties say how long a list is enough. Within one command the clock, which only the cursor's blinking reads, has one
  value.

  \<^bold>\<open>Not modelled.\<close>
  The assembly stubs and the instructions that load tables and flush the translation cache; the tests that run inside the
  kernel; the text of log lines that operations print on their way. Objects made with \<^verbatim>\<open>new\<close> get unused names, and their
  allocation succeeds: what an exhausted heap answers is in \<open>Kheap\<close>, that the callers do not check it is not. Of the pages a
  device is mapped to, the caching mode is a flag without effect. Interrupts arrive between the operations of the command
  loop and at the polls, not inside an update of the shared state, which the code guards by its order of writes
  (\<open>Keyboard\<close>) only. Floating-point scales of glyphs enter truncated. The Limine structures are the fields that are read.
\<close>

end
